(* ===== verification/Prelude.thy ===== *)
theory Prelude
  imports Main "HOL-Library.Word"
begin

text \<open>
  What every component of the development shares: Go byte slices and strings, the result
  type of fallible functions with its rewrite rules, base-B positional numerals (big-endian
  integers of \<^verbatim>\<open>math/big\<close>), and a few generic facts on lists and maps.
\<close>

section \<open>Types and theorem collections\<close>

text \<open>
  A Go \<^verbatim>\<open>[]byte\<close> is a list of 8-bit words; a Go \<^verbatim>\<open>string\<close> that the code treats as text is
  a HOL string, whose characters are bytes as well.
\<close>

type_synonym byte = "8 word"
type_synonym bytes = "8 word list"
type_synonym u64 = "64 word"

named_theorems res_iff \<open>when a fallible computation returns a value or an error\<close>

definition bytes_of_string :: "string \<Rightarrow> bytes" where
  "bytes_of_string s = map of_char s"

lemma of_char_byte_inject [simp]: "(of_char c :: 8 word) = of_char d \<longleftrightarrow> c = d"
proof -
  have "(of_char c :: 8 word) = of_char d \<longleftrightarrow> (of_nat (of_char c) :: 8 word) = of_nat (of_char d)"
    by (simp only: of_nat_of_char)
  also have "\<dots> \<longleftrightarrow> (of_char c :: nat) mod 256 = of_char d mod 256"
    by (simp only: word_of_nat_eq_iff) (simp add: take_bit_eq_mod)
  finally show ?thesis by (simp only: of_char_mod_256) simp
qed

lemma bytes_of_string_inject [simp]: "bytes_of_string s = bytes_of_string t \<longleftrightarrow> s = t"
  by (simp add: bytes_of_string_def inj_map_eq_map inj_def)

lemma length_bytes_of_string [simp]: "length (bytes_of_string s) = length s"
  by (simp add: bytes_of_string_def)

definition string_of_bytes :: "bytes \<Rightarrow> string" where
  "string_of_bytes b = map (\<lambda>x. char_of (unat x)) b"

lemma string_of_bytes_of_string [simp]: "string_of_bytes (bytes_of_string s) = s"
proof -
  have "char_of (unat (of_char c :: byte)) = c" for c
  proof -
    have "(of_char c :: byte) = of_nat (of_char c :: nat)" by (simp only: of_nat_of_char)
    moreover have "(of_char c :: nat) < 256" using of_char_of [of "of_char c :: nat"] by simp
    ultimately have "unat (of_char c :: byte) = of_char c" by (simp only: unat_of_nat) simp
    then show ?thesis by simp
  qed
  then show ?thesis by (simp add: string_of_bytes_def bytes_of_string_def o_def)
qed

section \<open>Fallible computations\<close>

text \<open>
  A Go function returning \<^verbatim>\<open>(T, error)\<close> is a value of \<open>'e + 'a\<close>: \<open>Inl\<close> is the early return
  with an error, \<open>Inr\<close> the result. \<open>bind_res\<close> is the \<^verbatim>\<open>if err != nil { return err }\<close> idiom,
  \<open>guard\<close> a check that returns an error when it fails, \<open>for_res\<close> a loop whose body may
  return an error, and \<open>map_res\<close> a loop that collects one result per element.
\<close>

definition bind_res :: "'e + 'a \<Rightarrow> ('a \<Rightarrow> 'e + 'b) \<Rightarrow> 'e + 'b" where
  "bind_res m f = (case m of Inl e \<Rightarrow> Inl e | Inr x \<Rightarrow> f x)"

definition guard :: "bool \<Rightarrow> 'e \<Rightarrow> 'e + unit" where
  "guard b e = (if b then Inr () else Inl e)"

lemma bind_res_simps [simp]:
  "bind_res (Inl e) f = Inl e"
  "bind_res (Inr x) f = f x"
  by (simp_all add: bind_res_def)

lemma bind_res_eq_Inr [res_iff]: "bind_res m f = Inr y \<longleftrightarrow> (\<exists>x. m = Inr x \<and> f x = Inr y)"
  by (cases m) auto

lemma bind_res_eq_Inl [res_iff]:
  "bind_res m f = Inl e \<longleftrightarrow> m = Inl e \<or> (\<exists>x. m = Inr x \<and> f x = Inl e)"
  by (cases m) auto

lemma guard_eq_Inr [res_iff]: "guard b e = Inr u \<longleftrightarrow> b"
  by (simp add: guard_def)

lemma guard_eq_Inl [res_iff]: "guard b e = Inl e' \<longleftrightarrow> \<not> b \<and> e = e'"
  by (auto simp: guard_def)

text \<open>An early return of an error.\<close>

lemma unless_Inr: "(if b then Inl e else x) = Inr r \<longleftrightarrow> \<not> b \<and> x = Inr r"
  by simp

lemma guard_simps [simp]: "guard True e = Inr ()" "guard False e = Inl e"
  by (simp_all add: guard_def)

lemma bind_res_cong [fundef_cong]:
  "m = m' \<Longrightarrow> (\<And>x. m' = Inr x \<Longrightarrow> f x = f' x) \<Longrightarrow> bind_res m f = bind_res m' f'"
  by (cases m') auto

fun for_res :: "('a \<Rightarrow> 'e + unit) \<Rightarrow> 'a list \<Rightarrow> 'e + unit" where
  "for_res f [] = Inr ()"
| "for_res f (x # xs) = bind_res (f x) (\<lambda>_. for_res f xs)"

lemma for_res_eq_Inr [res_iff]: "for_res f xs = Inr u \<longleftrightarrow> (\<forall>x\<in>set xs. f x = Inr ())"
  by (induction xs) (auto simp: res_iff)

lemma for_res_eq_InlD: "for_res f xs = Inl e \<Longrightarrow> \<exists>x\<in>set xs. f x = Inl e"
  by (induction xs) (auto simp: res_iff)

fun map_res :: "('a \<Rightarrow> 'e + 'b) \<Rightarrow> 'a list \<Rightarrow> 'e + 'b list" where
  "map_res f [] = Inr []"
| "map_res f (x # xs) = bind_res (f x) (\<lambda>y. bind_res (map_res f xs) (\<lambda>ys. Inr (y # ys)))"

lemma map_res_eq_Inr [res_iff]:
  "map_res f xs = Inr ys \<longleftrightarrow> list_all2 (\<lambda>x y. f x = Inr y) xs ys"
  by (induction xs arbitrary: ys) (auto simp: res_iff list_all2_Cons1)

lemma map_res_total: "(\<And>x. x \<in> set xs \<Longrightarrow> \<exists>y. f x = Inr y) \<Longrightarrow> \<exists>ys. map_res f xs = Inr ys"
proof (induction xs)
  case (Cons x xs)
  then obtain y ys where "f x = Inr y" "map_res f xs = Inr ys" by (meson list.set_intros)
  then show ?case by simp
qed simp

lemma for_res_cong [fundef_cong]:
  "xs = ys \<Longrightarrow> (\<And>x. x \<in> set ys \<Longrightarrow> f x = g x) \<Longrightarrow> for_res f xs = for_res g ys"
  by (induction ys arbitrary: xs) (auto intro: bind_res_cong)

lemma map_res_cong [fundef_cong]:
  "xs = ys \<Longrightarrow> (\<And>x. x \<in> set ys \<Longrightarrow> f x = g x) \<Longrightarrow> map_res f xs = map_res g ys"
  by (induction ys arbitrary: xs) (auto intro!: bind_res_cong)

section \<open>Positional numerals\<close>

text \<open>
  \<open>horner B ds\<close> is the value of the digits \<open>ds\<close>, most significant first;
  \<open>digs B n\<close> are the digits of \<open>n\<close>, least significant first, with no leading zero.
\<close>

definition horner :: "nat \<Rightarrow> nat list \<Rightarrow> nat" where
  "horner B ds = foldl (\<lambda>a d. a * B + d) 0 ds"

fun digs :: "nat \<Rightarrow> nat \<Rightarrow> nat list" where
  "digs B n = (if n = 0 \<or> B < 2 then [] else (n mod B) # digs B (n div B))"

declare digs.simps [simp del]

lemma digs_0 [simp]: "digs B 0 = []"
  by (simp add: digs.simps)

lemma horner_Nil [simp]: "horner B [] = 0"
  by (simp add: horner_def)

lemma horner_snoc [simp]: "horner B (ds @ [d]) = horner B ds * B + d"
  by (simp add: horner_def)

lemma horner_replicate_0 [simp]: "horner B (replicate k 0) = 0"
proof (induction k)
  case (Suc k)
  have "replicate (Suc k) 0 = replicate k (0::nat) @ [0]"
    by (simp add: replicate_append_same)
  with Suc show ?case by (simp del: replicate.simps(2))
qed simp

lemma horner_append: "horner B (xs @ ys) = horner B xs * B ^ length ys + horner B ys"
  by (induction ys rule: rev_induct) (simp_all add: append_assoc [symmetric] algebra_simps
      del: append_assoc)

lemma horner_rev_digs [simp]: "2 \<le> B \<Longrightarrow> horner B (rev (digs B n)) = n"
proof (induction B n rule: digs.induct)
  case (1 B n)
  then show ?case by (subst digs.simps) (auto simp: div_mult_mod_eq)
qed

lemma digs_less: "2 \<le> B \<Longrightarrow> d \<in> set (digs B n) \<Longrightarrow> d < B"
proof (induction B n rule: digs.induct)
  case (1 B n)
  from "1.prems" have "n \<noteq> 0" by (auto simp: digs.simps [of B n] split: if_splits)
  with "1.prems" have "d = n mod B \<or> d \<in> set (digs B (n div B))"
    by (simp add: digs.simps [of B n] split: if_splits)
  with "1.IH" "1.prems" \<open>n \<noteq> 0\<close> show ?case by auto
qed

lemma horner_less: "(\<And>d. d \<in> set ds \<Longrightarrow> d < B) \<Longrightarrow> horner B ds < B ^ length ds"
proof (induction ds rule: rev_induct)
  case (snoc d ds)
  then have "horner B ds + 1 \<le> B ^ length ds" and "d < B" by auto
  then have "(horner B ds + 1) * B \<le> B ^ length ds * B" by (intro mult_le_mono1)
  with \<open>d < B\<close> show ?case by (simp add: algebra_simps)
qed simp

lemma rev_digs_horner:
  assumes "2 \<le> B" and "\<And>d. d \<in> set ds \<Longrightarrow> d < B"
  shows "rev (digs B (horner B ds)) = dropWhile (\<lambda>x. x = 0) ds"
  using assms(2)
proof (induction ds rule: rev_induct)
  case (snoc d ds)
  let ?h = "horner B ds"
  from snoc.prems have d: "d < B" and ds: "\<And>x. x \<in> set ds \<Longrightarrow> x < B" by auto
  note IH = snoc.IH [OF ds]
  have dm: "(?h * B + d) mod B = d" "(?h * B + d) div B = ?h" using d assms(1) by auto
  show ?case
  proof (cases "?h = 0 \<and> d = 0")
    case True
    then have "rev (digs B ?h) = []" by simp
    with IH have "dropWhile (\<lambda>x. x = 0) ds = []" by simp
    then have "\<forall>x\<in>set ds. x = 0" by (simp only: dropWhile_eq_Nil_conv)
    with True show ?thesis by (auto simp: dropWhile_append2)
  next
    case False
    with assms(1) have "digs B (?h * B + d) = d # digs B ?h"
      by (subst digs.simps) (use dm in auto)
    then have l: "rev (digs B (horner B (ds @ [d]))) = dropWhile (\<lambda>x. x = 0) ds @ [d]"
      using IH by simp
    show ?thesis
    proof (cases "\<exists>x\<in>set ds. x \<noteq> 0")
      case True
      then show ?thesis using l by (auto simp: dropWhile_append1)
    next
      case zs: False
      then have ez: "dropWhile (\<lambda>x. x = 0) ds = []" by (auto simp: dropWhile_eq_Nil_conv)
      with IH have "digs B ?h = []" by simp
      then have "?h = 0" using horner_rev_digs [OF assms(1), of ?h] by simp
      with False have "d \<noteq> 0" by simp
      with zs l ez show ?thesis by (auto simp: dropWhile_append2)
    qed
  qed
qed simp

section \<open>Big-endian integers\<close>

text \<open>
  \<open>be_nat\<close> is \<^verbatim>\<open>big.Int.SetBytes\<close>, \<open>nat_be\<close> is \<^verbatim>\<open>big.Int.Bytes\<close> (no leading zero byte),
  \<open>left_pad\<close> is \<^verbatim>\<open>common.LeftPadBytes\<close>.
\<close>

definition be_nat :: "bytes \<Rightarrow> nat" where
  "be_nat b = horner 256 (map unat b)"

definition nat_be :: "nat \<Rightarrow> bytes" where
  "nat_be n = map of_nat (rev (digs 256 n))"

definition left_pad :: "nat \<Rightarrow> bytes \<Rightarrow> bytes" where
  "left_pad k b = replicate (k - length b) 0 @ b"

lemma unat_byte_less [simp]: "unat (b :: byte) < 256"
  using unsigned_less [of b] by simp

lemma map_unat_of_nat_digs [simp]: "map unat (map of_nat (rev (digs 256 n)) :: bytes) = rev (digs 256 n)"
  by (auto simp: o_def unat_of_nat digs_less intro!: map_idI)

lemma be_nat_nat_be [simp]: "be_nat (nat_be n) = n"
  unfolding be_nat_def nat_be_def by (subst map_unat_of_nat_digs) simp

lemma dropWhile_map_unat: "dropWhile (\<lambda>x. x = 0) (map unat b) = map unat (dropWhile (\<lambda>x. x = 0) (b :: bytes))"
  by (induction b) (auto simp: unat_eq_0)

lemma nat_be_be_nat: "nat_be (be_nat b) = dropWhile (\<lambda>x. x = 0) b"
proof -
  have "rev (digs 256 (be_nat b)) = dropWhile (\<lambda>x. x = 0) (map unat b)"
    unfolding be_nat_def by (rule rev_digs_horner) auto
  then show ?thesis by (simp add: nat_be_def dropWhile_map_unat o_def)
qed

lemma be_nat_less: "be_nat b < 256 ^ length b"
  unfolding be_nat_def using horner_less [of "map unat b" 256]
  by (metis (mono_tags, lifting) ex_map_conv length_map unat_byte_less)

lemma be_nat_left_pad [simp]: "be_nat (left_pad k b) = be_nat b"
  by (simp add: be_nat_def left_pad_def horner_append)

lemma length_left_pad [simp]: "length b \<le> k \<Longrightarrow> length (left_pad k b) = k"
  by (simp add: left_pad_def)

lemma takeWhile_zeros: "takeWhile (\<lambda>x. x = (0::byte)) b = replicate (length (takeWhile (\<lambda>x. x = 0) b)) 0"
  by (metis (mono_tags, lifting) replicate_length_same set_takeWhileD)

lemma left_pad_nat_be_be_nat [simp]: "left_pad (length b) (nat_be (be_nat b)) = b"
proof -
  have "b = takeWhile (\<lambda>x. x = 0) b @ dropWhile (\<lambda>x. x = 0) b" by simp
  moreover have "length b = length (takeWhile (\<lambda>x. x = 0) b) + length (dropWhile (\<lambda>x. x = 0) b)"
    by (metis length_append takeWhile_dropWhile_id)
  ultimately show ?thesis
    by (simp add: left_pad_def nat_be_be_nat) (metis takeWhile_zeros takeWhile_dropWhile_id)
qed

lemma be_nat_inject: "length a = length b \<Longrightarrow> be_nat a = be_nat b \<longleftrightarrow> a = b"
  by (metis left_pad_nat_be_be_nat)

lemma length_nat_be: "n < 256 ^ k \<Longrightarrow> length (nat_be n) \<le> k"
proof (induction k arbitrary: n)
  case (Suc k)
  show ?case
  proof (cases "n = 0")
    case False
    from Suc.prems have "n div 256 < 256 ^ k" by (simp add: less_mult_imp_div_less mult.commute)
    from Suc.IH [OF this] False show ?thesis by (subst (asm) nat_be_def, subst nat_be_def, subst digs.simps) simp
  qed (simp add: nat_be_def)
qed (simp add: nat_be_def)

lemma length_left_pad_nat_be: "n < 256 ^ k \<Longrightarrow> length (left_pad k (nat_be n)) = k"
  by (simp add: length_nat_be)

section \<open>Signed words\<close>

lemma sint_of_int_u64: "- (2 ^ 63) \<le> i \<Longrightarrow> i < 2 ^ 63 \<Longrightarrow> sint (word_of_int i :: u64) = i"
  by (simp add: sint_sbintrunc' signed_take_bit_int_eq_self)

end
