(* ===== verification/Base58.thy ===== *)
theory Base58
  imports Prelude
begin

text \<open>
  \<^verbatim>\<open>signer/internal/base58/base58.go\<close>: the Bitcoin/Solana base58 alphabet, \<open>encode\<close>
  (\<^verbatim>\<open>Encode\<close>), \<open>decode\<close> (\<^verbatim>\<open>Decode\<close>) and \<open>decodePubkey\<close> (\<^verbatim>\<open>DecodePubkey\<close>). The Go loop of
  \<^verbatim>\<open>Decode\<close> ranges over runes; a rune that is not ASCII starts with a byte outside the
  alphabet and is rejected at that byte's offset, so the model reads bytes. \<^verbatim>\<open>math/big\<close> is the
  positional numerals of the prelude. The lemmas show that decoding is exactly the inverse
  of encoding on non-empty input.
\<close>

definition alphabet :: string where
  "alphabet = ''123456789ABCDEFGHJKLMNPQRSTUVWXYZabcdefghijkmnopqrstuvwxyz''"

datatype base58_error = EmptyString | InvalidCharacter nat | NotPubkeyLength nat

text \<open>\<^verbatim>\<open>strings.IndexRune(Alphabet, r)\<close>: the position of a character, if it is in the alphabet.\<close>

definition alpha_index :: "char \<Rightarrow> nat option" where
  "alpha_index c = (let i = length (takeWhile (\<lambda>x. x \<noteq> c) alphabet)
                    in if i < length alphabet then Some i else None)"

definition encode :: "bytes \<Rightarrow> string" where
  "encode b =
     (let zeros = length (takeWhile (\<lambda>x. x = 0) b);
          out = map (\<lambda>d. alphabet ! d) (digs 58 (be_nat b)) @ replicate zeros (alphabet ! 0)
      in rev out)"

fun decode_loop :: "nat \<Rightarrow> nat \<Rightarrow> string \<Rightarrow> base58_error + nat" where
  "decode_loop i n [] = Inr n"
| "decode_loop i n (c # cs) =
     (case alpha_index c of
        None \<Rightarrow> Inl (InvalidCharacter i)
      | Some idx \<Rightarrow> decode_loop (Suc i) (n * 58 + idx) cs)"

definition decode :: "string \<Rightarrow> base58_error + bytes" where
  "decode s =
     (if s = [] then Inl EmptyString
      else bind_res (decode_loop 0 0 s) (\<lambda>n.
        let zeros = length (takeWhile (\<lambda>c. c = alphabet ! 0) s)
        in Inr (replicate zeros 0 @ nat_be n)))"

definition decodePubkey :: "string \<Rightarrow> base58_error + bytes" where
  "decodePubkey s =
     bind_res (decode s) (\<lambda>b.
       if length b \<noteq> 32 then Inl (NotPubkeyLength (length b)) else Inr b)"

section \<open>The alphabet\<close>

lemma length_alphabet [simp]: "length alphabet = 58"
  by (simp add: alphabet_def)

lemma distinct_alphabet: "distinct alphabet"
  by (simp add: alphabet_def)

lemma alpha_index_Some: "alpha_index c = Some i \<longleftrightarrow> i < 58 \<and> alphabet ! i = c"
proof
  assume "alpha_index c = Some i"
  then show "i < 58 \<and> alphabet ! i = c"
    using nth_length_takeWhile [of "\<lambda>x. x \<noteq> c" alphabet]
    by (auto simp: alpha_index_def Let_def split: if_splits)
next
  assume i: "i < 58 \<and> alphabet ! i = c"
  let ?j = "length (takeWhile (\<lambda>x. x \<noteq> c) alphabet)"
  from i have "c \<in> set alphabet" by (metis length_alphabet nth_mem)
  then have "takeWhile (\<lambda>x. x \<noteq> c) alphabet \<noteq> alphabet" by (simp add: takeWhile_eq_all_conv)
  then have "?j < length alphabet"
    by (metis length_takeWhile_le le_neq_implies_less takeWhile_eq_take take_all_iff order_refl)
  then have "alphabet ! ?j = c" using nth_length_takeWhile by fastforce
  with \<open>?j < length alphabet\<close> i have "?j = i"
    using distinct_alphabet nth_eq_iff_index_eq by fastforce
  with i show "alpha_index c = Some i" by (simp add: alpha_index_def)
qed

lemma alpha_index_nth [simp]: "i < 58 \<Longrightarrow> alpha_index (alphabet ! i) = Some i"
  by (simp add: alpha_index_Some)

lemma nth_alphabet_eq_0: "i < 58 \<Longrightarrow> alphabet ! i = alphabet ! 0 \<longleftrightarrow> i = 0"
  using distinct_alphabet nth_eq_iff_index_eq [of alphabet i 0] by simp

section \<open>Digits and strings\<close>

lemma foldl_horner: "foldl (\<lambda>a d. a * B + d) n ds = horner B ds + n * B ^ length ds"
  by (induction ds arbitrary: n rule: rev_induct) (simp_all add: algebra_simps)

lemma decode_loop_Inr:
  "decode_loop i n s = Inr m \<longleftrightarrow>
     (\<exists>ds. s = map (\<lambda>d. alphabet ! d) ds \<and> (\<forall>d\<in>set ds. d < 58) \<and> m = foldl (\<lambda>a d. a * 58 + d) n ds)"
proof (induction s arbitrary: i n)
  case (Cons c s)
  show ?case
  proof (cases "alpha_index c")
    case None
    then show ?thesis by (force simp: Cons_eq_map_conv)
  next
    case (Some k)
    then have k: "k < 58" "alphabet ! k = c" by (simp_all add: alpha_index_Some)
    have "(\<exists>ds. c # s = map (\<lambda>d. alphabet ! d) ds \<and> (\<forall>d\<in>set ds. d < 58) \<and>
             m = foldl (\<lambda>a d. a * 58 + d) n ds) \<longleftrightarrow>
          (\<exists>ds. s = map (\<lambda>d. alphabet ! d) ds \<and> (\<forall>d\<in>set ds. d < 58) \<and>
             m = foldl (\<lambda>a d. a * 58 + d) (n * 58 + k) ds)" (is "?L \<longleftrightarrow> ?R")
    proof
      assume ?L
      then obtain d ds where "alphabet ! d = c" "d < 58" "s = map (\<lambda>d. alphabet ! d) ds"
        "\<forall>d\<in>set ds. d < 58" "m = foldl (\<lambda>a d. a * 58 + d) (n * 58 + d) ds"
        by (auto simp: Cons_eq_map_conv)
      moreover from this k have "d = k" using nth_eq_iff_index_eq [OF distinct_alphabet, of d k] by simp
      ultimately show ?R by blast
    next
      assume ?R
      then obtain ds where "s = map (\<lambda>d. alphabet ! d) ds" "\<forall>d\<in>set ds. d < 58"
        "m = foldl (\<lambda>a d. a * 58 + d) (n * 58 + k) ds" by blast
      with k show ?L by (intro exI [of _ "k # ds"]) simp
    qed
    with Some show ?thesis by (simp add: Cons.IH)
  qed
qed auto

lemma takeWhile_map_alphabet:
  "\<forall>d\<in>set ds. d < 58 \<Longrightarrow>
   takeWhile (\<lambda>c. c = alphabet ! 0) (map (\<lambda>d. alphabet ! d) ds) =
   map (\<lambda>d. alphabet ! d) (takeWhile (\<lambda>d. d = 0) ds)"
  by (induction ds) (auto simp: nth_alphabet_eq_0)

lemma decode_digits:
  "decode s = Inr b \<longleftrightarrow>
     (\<exists>ds. ds \<noteq> [] \<and> (\<forall>d\<in>set ds. d < 58) \<and> s = map (\<lambda>d. alphabet ! d) ds \<and>
        b = replicate (length (takeWhile (\<lambda>d. d = 0) ds)) 0 @ nat_be (horner 58 ds))"
  by (auto simp: decode_def res_iff decode_loop_Inr foldl_horner Let_def takeWhile_map_alphabet)

lemma hd_nat_be: "nat_be n \<noteq> [] \<Longrightarrow> hd (nat_be n) \<noteq> 0"
  using nat_be_be_nat [of "nat_be n"] hd_dropWhile [of "\<lambda>x. x = 0" "nat_be n"] by simp

lemma hd_rev_digs: "2 \<le> B \<Longrightarrow> digs B n \<noteq> [] \<Longrightarrow> hd (rev (digs B n)) \<noteq> 0"
  using rev_digs_horner [of B "rev (digs B n)"] digs_less [of B _ n]
    hd_dropWhile [of "\<lambda>x. x = 0" "rev (digs B n)"]
  by simp

lemma takeWhile_hd: "xs = [] \<or> \<not> P (hd xs) \<Longrightarrow> takeWhile P xs = []"
  by (cases xs) auto

lemma takeWhile_zeros_append:
  "xs = [] \<or> hd xs \<noteq> 0 \<Longrightarrow>
   takeWhile (\<lambda>x. x = 0) (replicate k 0 @ xs) = replicate k (0 :: 'a :: zero)"
  by (induction k) (auto simp: takeWhile_hd)

text \<open>The digits of \<open>encode b\<close>, most significant first: one zero per leading zero byte.\<close>

definition enc_digits :: "bytes \<Rightarrow> nat list" where
  "enc_digits b = replicate (length (takeWhile (\<lambda>x. x = 0) b)) 0 @ rev (digs 58 (be_nat b))"

lemma encode_eq: "encode b = map (\<lambda>d. alphabet ! d) (enc_digits b)"
  by (simp add: encode_def enc_digits_def Let_def rev_map)

lemma enc_digits_less: "\<forall>d\<in>set (enc_digits b). d < 58"
  by (auto simp: enc_digits_def digs_less)

lemma takeWhile_enc_digits:
  "length (takeWhile (\<lambda>d. d = 0) (enc_digits b)) = length (takeWhile (\<lambda>x. x = 0) b)"
proof -
  have "rev (digs 58 (be_nat b)) = [] \<or> hd (rev (digs 58 (be_nat b))) \<noteq> 0"
    by (cases "digs 58 (be_nat b) = []") (simp_all add: hd_rev_digs)
  then show ?thesis unfolding enc_digits_def by (subst takeWhile_zeros_append) simp_all
qed

lemma horner_enc_digits: "horner 58 (enc_digits b) = be_nat b"
  by (simp add: enc_digits_def horner_append)

lemma enc_digits_Nil: "enc_digits b = [] \<longleftrightarrow> b = []"
proof
  assume e: "enc_digits b = []"
  then have "be_nat b = 0" using horner_enc_digits [of b] by simp
  then have "dropWhile (\<lambda>x. x = 0) b = []" using nat_be_be_nat [of b] by (simp add: nat_be_def)
  with e show "b = []" by (metis append_is_Nil_conv enc_digits_def length_0_conv
        length_replicate takeWhile_dropWhile_id)
qed (simp add: enc_digits_def be_nat_def)

lemma decode_encode: "b \<noteq> [] \<Longrightarrow> decode (encode b) = Inr b"
proof -
  assume "b \<noteq> []"
  have "replicate (length (takeWhile (\<lambda>x. x = 0) b)) 0 @ nat_be (be_nat b) = b"
    unfolding nat_be_be_nat by (metis takeWhile_dropWhile_id takeWhile_zeros)
  with \<open>b \<noteq> []\<close> show ?thesis
    unfolding decode_digits encode_eq
    by (intro exI [of _ "enc_digits b"])
      (simp add: enc_digits_less enc_digits_Nil takeWhile_enc_digits horner_enc_digits)
qed

lemma encode_decode:
  assumes "decode s = Inr b"
  shows "encode b = s \<and> b \<noteq> []"
proof -
  from assms obtain ds where ds: "ds \<noteq> []" "\<forall>d\<in>set ds. d < 58" "s = map (\<lambda>d. alphabet ! d) ds"
    and b: "b = replicate (length (takeWhile (\<lambda>d. d = 0) ds)) 0 @ nat_be (horner 58 ds)"
    by (auto simp: decode_digits)
  have "rev (digs 58 (horner 58 ds)) = dropWhile (\<lambda>x. x = 0) ds"
    using ds(2) by (intro rev_digs_horner) auto
  moreover have "be_nat b = horner 58 ds"
    using be_nat_left_pad [of "length b" "nat_be (horner 58 ds)"] b by (simp add: left_pad_def)
  moreover have "length (takeWhile (\<lambda>x. x = 0) b) = length (takeWhile (\<lambda>d. d = 0) ds)"
    unfolding b by (subst takeWhile_zeros_append) (use hd_nat_be in auto)
  moreover have "replicate (length (takeWhile (\<lambda>d. d = 0) ds)) 0 = takeWhile (\<lambda>d. d = 0) ds"
    by (metis (mono_tags, lifting) replicate_length_same set_takeWhileD)
  ultimately have e: "enc_digits b = ds" by (simp add: enc_digits_def)
  with ds show ?thesis by (simp add: encode_eq) (use e enc_digits_Nil in blast)
qed

section \<open>Properties\<close>

text \<open>C6: \<open>decode\<close> accepts exactly the encodings of non-empty byte strings, and returns the
  bytes that were encoded: the two functions are mutually inverse.\<close>

theorem decode_iff_encode: "decode s = Inr b \<longleftrightarrow> b \<noteq> [] \<and> s = encode b"
  using decode_encode encode_decode by blast

text \<open>\<open>decodePubkey\<close> accepts exactly the encodings of 32-byte keys, so a key that is shown
  in base58 and read back is the same key, and two keys never share a spelling.\<close>

theorem decodePubkey_iff: "decodePubkey s = Inr k \<longleftrightarrow> length k = 32 \<and> s = encode k"
proof -
  have "decodePubkey s = Inr k \<longleftrightarrow> decode s = Inr k \<and> length k = 32"
    by (auto simp: decodePubkey_def res_iff split: if_splits)
  moreover have "length k = 32 \<Longrightarrow> k \<noteq> []" by auto
  ultimately show ?thesis using decode_encode [of k] encode_decode [of s k] by blast
qed

end
