(* ===== verification/GoStd.thy ===== *)
theory GoStd
  imports Prelude "HOL-Library.Char_ord" "HOL-Library.List_Lexorder"
begin

text \<open>
  The functions of Go's \<^verbatim>\<open>strings\<close>, \<^verbatim>\<open>strconv\<close> and \<^verbatim>\<open>encoding/hex\<close> packages the modelled code
  calls, on byte strings. They are standard-library code, not code of the repository, so
  they have no entry in the map; the lemmas are the facts the components use.
\<close>

section \<open>Strings\<close>

definition cutPrefix :: "string \<Rightarrow> string \<Rightarrow> string option" where
  "cutPrefix s pre = (if take (length pre) s = pre then Some (drop (length pre) s) else None)"

definition cutSuffix :: "string \<Rightarrow> string \<Rightarrow> string option" where
  "cutSuffix s suf =
     (if length suf \<le> length s \<and> drop (length s - length suf) s = suf
      then Some (take (length s - length suf) s) else None)"

text \<open>\<^verbatim>\<open>strings.Cut\<close>: the text before and after the first occurrence of a separator.\<close>

fun cut :: "string \<Rightarrow> string \<Rightarrow> (string \<times> string) option" where
  "cut [] sep = (if sep = [] then Some ([], []) else None)"
| "cut (c # s) sep =
     (if take (length sep) (c # s) = sep then Some ([], drop (length sep) (c # s))
      else map_option (\<lambda>(a, b). (c # a, b)) (cut s sep))"

definition hasPrefix :: "string \<Rightarrow> string \<Rightarrow> bool" where
  "hasPrefix s pre \<longleftrightarrow> take (length pre) s = pre"

definition hasSuffix :: "string \<Rightarrow> string \<Rightarrow> bool" where
  "hasSuffix s suf \<longleftrightarrow> length suf \<le> length s \<and> drop (length s - length suf) s = suf"

lemma cutPrefix_Some: "cutPrefix s pre = Some r \<longleftrightarrow> s = pre @ r"
  by (auto simp: cutPrefix_def) (metis append_take_drop_id)

lemma cutPrefix_append [simp]: "cutPrefix (pre @ r) pre = Some r"
  by (simp add: cutPrefix_Some)

lemma cutSuffix_Some: "cutSuffix s suf = Some r \<longleftrightarrow> s = r @ suf"
  by (auto simp: cutSuffix_def) (metis append_take_drop_id)

lemma cutSuffix_append [simp]: "cutSuffix (r @ suf) suf = Some r"
  by (simp add: cutSuffix_Some)

lemma cut_SomeD: "cut s sep = Some (a, b) \<Longrightarrow> s = a @ sep @ b"
proof (induction s arbitrary: a)
  case (Cons c s)
  then show ?case
    by (auto split: if_splits) (metis append_take_drop_id)
qed (auto split: if_splits)

lemma cut_at_first: "c \<notin> set a \<Longrightarrow> cut (a @ (c # sep) @ b) (c # sep) = Some (a, b)"
  by (induction a) auto

lemma hasPrefix_iff: "hasPrefix s pre \<longleftrightarrow> (\<exists>r. s = pre @ r)"
  by (auto simp: hasPrefix_def) (metis append_take_drop_id)

section \<open>Decimal integers\<close>

definition isDigit :: "char \<Rightarrow> bool" where
  "isDigit c \<longleftrightarrow> 48 \<le> (of_char c :: nat) \<and> (of_char c :: nat) \<le> 57"

definition digit_val :: "char \<Rightarrow> nat" where
  "digit_val c = of_char c - 48"

definition digit_char :: "nat \<Rightarrow> char" where
  "digit_char d = char_of (48 + d)"

definition dec_nat :: "nat \<Rightarrow> string" where
  "dec_nat n = (if n = 0 then ''0'' else map digit_char (rev (digs 10 n)))"

definition dec_int :: "int \<Rightarrow> string" where
  "dec_int i = (if i < 0 then CHR ''-'' # dec_nat (nat (- i)) else dec_nat (nat i))"

text \<open>\<^verbatim>\<open>big.Int.SetString(s, 10)\<close> on a string of digits, with no sign.\<close>

definition parse_dec :: "string \<Rightarrow> nat option" where
  "parse_dec s = (if s \<noteq> [] \<and> list_all isDigit s then Some (horner 10 (map digit_val s)) else None)"

text \<open>\<^verbatim>\<open>strconv.Atoi\<close>: an optional sign, decimal digits, and the range of a 64-bit \<^verbatim>\<open>int\<close>.\<close>

definition atoi :: "string \<Rightarrow> int option" where
  "atoi s =
     (let (neg, ds) = (case s of
           c # cs \<Rightarrow> if c = CHR ''-'' then (True, cs) else if c = CHR ''+'' then (False, cs) else (False, s)
         | [] \<Rightarrow> (False, []))
      in case parse_dec ds of
           None \<Rightarrow> None
         | Some n \<Rightarrow>
             let i = (if neg then - int n else int n)
             in if - (2 ^ 63) \<le> i \<and> i < 2 ^ 63 then Some i else None)"

lemma isDigit_digit_char [simp]: "d < 10 \<Longrightarrow> isDigit (digit_char d)"
  by (simp add: isDigit_def digit_char_def)

lemma digit_val_digit_char [simp]: "d < 10 \<Longrightarrow> digit_val (digit_char d) = d"
  by (simp add: digit_val_def digit_char_def)

lemma dec_nat_digits: "n \<noteq> 0 \<Longrightarrow> d \<in> set (digs 10 n) \<Longrightarrow> d < 10"
  by (rule digs_less) auto

lemma parse_dec_nat [simp]: "parse_dec (dec_nat n) = Some n"
proof (cases "n = 0")
  case True
  then show ?thesis by (simp add: parse_dec_def dec_nat_def isDigit_def digit_val_def horner_def)
next
  case False
  have m: "map digit_val (map digit_char (rev (digs 10 n))) = rev (digs 10 n)"
    by (auto simp: o_def digs_less intro!: map_idI)
  have "digs 10 n \<noteq> []" using False by (simp add: digs.simps [of 10 n])
  moreover have "list_all isDigit (map digit_char (rev (digs 10 n)))"
    by (auto simp: list_all_iff digs_less)
  ultimately show ?thesis using False m by (simp add: parse_dec_def dec_nat_def)
qed

lemma dec_nat_inject [simp]: "dec_nat m = dec_nat n \<longleftrightarrow> m = n"
  by (metis option.inject parse_dec_nat)

lemma dec_nat_not_minus: "c \<in> set (dec_nat n) \<Longrightarrow> isDigit c"
  using parse_dec_nat [of n] by (auto simp: parse_dec_def list_all_iff split: if_splits)

lemma dec_int_inject [simp]: "dec_int i = dec_int j \<longleftrightarrow> i = j"
proof -
  have "dec_nat n \<noteq> CHR ''-'' # s" for n s
    using dec_nat_not_minus [of "CHR ''-''" n] by (auto simp: isDigit_def)
  then show ?thesis by (auto simp: dec_int_def) (metis)+
qed

section \<open>Hexadecimal\<close>

definition hex_digit :: "nat \<Rightarrow> char" where
  "hex_digit d = ''0123456789abcdef'' ! d"

definition hex_byte :: "byte \<Rightarrow> string" where
  "hex_byte b = [hex_digit (unat b div 16), hex_digit (unat b mod 16)]"

definition hex :: "bytes \<Rightarrow> string" where
  "hex b = concat (map hex_byte b)"

lemma hex_digit_inject: "i < 16 \<Longrightarrow> j < 16 \<Longrightarrow> hex_digit i = hex_digit j \<longleftrightarrow> i = j"
  unfolding hex_digit_def by (rule nth_eq_iff_index_eq) auto

lemma hex_byte_inject [simp]: "hex_byte a = hex_byte b \<longleftrightarrow> a = b"
proof
  assume "hex_byte a = hex_byte b"
  then have "unat a div 16 = unat b div 16" "unat a mod 16 = unat b mod 16"
    by (auto simp: hex_byte_def hex_digit_inject less_mult_imp_div_less)
  then have "unat a = unat b" by (metis div_mult_mod_eq)
  then show "a = b" by (simp add: word_unat_eq_iff)
qed simp

lemma length_hex [simp]: "length (hex b) = 2 * length b"
  by (induction b) (simp_all add: hex_def hex_byte_def)

lemma hex_inject [simp]: "hex a = hex b \<longleftrightarrow> a = b"
proof (induction a arbitrary: b)
  case Nil
  then show ?case by (cases b) (simp_all add: hex_def hex_byte_def)
next
  case (Cons x a)
  then show ?case
  proof (cases b)
    case (Cons y b')
    have "hex (x # a) = hex b \<longleftrightarrow> hex_byte x = hex_byte y \<and> hex a = hex b'"
      unfolding Cons by (simp add: hex_def hex_byte_def)
    with Cons.IH Cons show ?thesis by simp
  qed (simp add: hex_def hex_byte_def)
qed

text \<open>\<^verbatim>\<open>hex.DecodeString\<close>: an even number of digits of either case.\<close>

definition hex_val :: "char \<Rightarrow> nat option" where
  "hex_val c =
     (let n = (of_char c :: nat)
      in if 48 \<le> n \<and> n \<le> 57 then Some (n - 48)
         else if 97 \<le> n \<and> n \<le> 102 then Some (n - 87)
         else if 65 \<le> n \<and> n \<le> 70 then Some (n - 55)
         else None)"

fun hex_decode :: "string \<Rightarrow> bytes option" where
  "hex_decode [] = Some []"
| "hex_decode [_] = None"
| "hex_decode (a # b # s) =
     (case (hex_val a, hex_val b) of
        (Some x, Some y) \<Rightarrow> map_option (\<lambda>t. of_nat (16 * x + y) # t) (hex_decode s)
      | _ \<Rightarrow> None)"

lemma hex_val_digit: "d < 16 \<Longrightarrow> hex_val (hex_digit d) = Some d"
proof -
  assume d: "d < 16"
  have "list_all (\<lambda>d. hex_val (hex_digit d) = Some d) [0..<16]" by code_simp
  with d show ?thesis by (simp add: list_all_iff)
qed

lemma hex_decode_hex [simp]: "hex_decode (hex b) = Some b"
proof (induction b)
  case (Cons x b)
  have "unat x div 16 < 16" by (simp add: less_mult_imp_div_less)
  then have "hex_decode (hex_byte x @ hex b) = Some (of_nat (16 * (unat x div 16) + unat x mod 16) # b)"
    using Cons by (simp add: hex_byte_def hex_val_digit)
  then show ?case by (simp add: hex_def)
qed (simp add: hex_def)

definition trimPrefix :: "string \<Rightarrow> string \<Rightarrow> string" where
  "trimPrefix s pre = (case cutPrefix s pre of None \<Rightarrow> s | Some r \<Rightarrow> r)"

section \<open>Base64\<close>

text \<open>
  \<^verbatim>\<open>base64.StdEncoding.DecodeString\<close>: carriage returns and newlines are skipped, the rest is
  groups of four characters, the last of which may be padded.
\<close>

definition b64_val :: "char \<Rightarrow> nat option" where
  "b64_val c =
     (let n = (of_char c :: nat)
      in if 65 \<le> n \<and> n \<le> 90 then Some (n - 65)
         else if 97 \<le> n \<and> n \<le> 122 then Some (n - 71)
         else if 48 \<le> n \<and> n \<le> 57 then Some (n + 4)
         else if n = 43 then Some 62
         else if n = 47 then Some 63
         else None)"

fun b64_quads :: "string \<Rightarrow> bytes option" where
  "b64_quads [] = Some []"
| "b64_quads (a # b # c # d # rest) =
     (case (b64_val a, b64_val b) of
        (Some va, Some vb) \<Rightarrow>
          (let b1 = of_nat (va * 4 + vb div 16) :: byte
           in if c = CHR ''='' \<and> d = CHR ''='' \<and> rest = [] then Some [b1]
              else case b64_val c of
                None \<Rightarrow> None
              | Some vc \<Rightarrow>
                  (let b2 = of_nat (vb mod 16 * 16 + vc div 4) :: byte
                   in if d = CHR ''='' \<and> rest = [] then Some [b1, b2]
                      else case b64_val d of
                        None \<Rightarrow> None
                      | Some vd \<Rightarrow> map_option (\<lambda>t. b1 # b2 # of_nat (vc mod 4 * 64 + vd) # t) (b64_quads rest)))
      | _ \<Rightarrow> None)"
| "b64_quads _ = None"

definition base64_decode :: "string \<Rightarrow> bytes option" where
  "base64_decode s = b64_quads (filter (\<lambda>c. of_char c \<noteq> (13::nat) \<and> of_char c \<noteq> (10::nat)) s)"

lemma base64_example: "base64_decode ''TWFu'' = Some [77, 97, 110] \<and> base64_decode ''TWE='' = Some [77, 97]"
  by (simp add: base64_decode_def b64_val_def)

section \<open>Base-64 digits of a number\<close>

lemma split_64: "(n :: nat) div 64 * 64 + n mod 64 = n"
  by simp

lemma join_4:
  fixes n :: nat
  shows "n div 262144 * 262144 + n div 4096 mod 64 * 4096 + n div 64 mod 64 * 64 + n mod 64 = n"
proof -
  have d: "n div 64 div 64 = n div 4096" "n div 4096 div 64 = n div 262144" by (simp_all add: div_mult2_eq [symmetric])
  show ?thesis
    using split_64 [of n] split_64 [of "n div 64"] split_64 [of "n div 4096"] unfolding d by linarith
qed

lemma join_3: "(n :: nat) div 4096 * 4096 + n div 64 mod 64 * 64 + n mod 64 = n"
proof -
  have d: "n div 64 div 64 = n div 4096" by (simp add: div_mult2_eq [symmetric])
  show ?thesis using split_64 [of n] split_64 [of "n div 64"] unfolding d by linarith
qed

end
