(* ===== verification/EventDecode.thy ===== *)
theory EventDecode
  imports GoStd "HOL-Library.AList"
begin

text \<open>
  \<^verbatim>\<open>server/internal/blockchain\<close>: \<^verbatim>\<open>borsh.go\<close> (the sequential reader), \<^verbatim>\<open>idl.go\<close> (program
  roles, field kinds, event schemas and how they are built from an IDL file) and \<^verbatim>\<open>decode.go\<close>
  (\<open>decode\<close>, which turns the payload of a \<^verbatim>\<open>Program data:\<close> log line into an event).
  The base58 encoder of the third-party package \<^verbatim>\<open>mr-tron/base58\<close> is the parameter \<open>b58\<close>, and
  the registry built from the embedded JSON files is the parameter \<open>registry\<close>. The lemmas
  give the exact set of payloads that decode to an event.
\<close>

section \<open>Roles, kinds, schemas\<close>

datatype ProgramRole =
    RoleCompliance | RoleVault | RolePricing | RoleRedemption | RoleSupplyController

datatype FieldKind =
    KindPubkey | KindU8 | KindU64 | KindI64 | KindBool | KindBytes32 | KindBytes20

record Field =
  fieldName :: string
  fieldKind :: FieldKind

record EventSchema =
  schemaName :: string
  schemaFields :: "Field list"

text \<open>A value of \<^verbatim>\<open>map[string]any\<close> in \<^verbatim>\<open>ChainEvent.Data\<close>: the decoder writes strings, \<^verbatim>\<open>uint\<close>s
  and booleans; the sized integers are what the same values are once they went through the
  database driver or an adaptation. No decoded event holds a float.\<close>

datatype dval =
    DStr string
  | DUint nat
  | DBool bool
  | DUint8 byte
  | DInt32 "32 word"
  | DInt u64
  | DInt64 u64
  | DUint64 u64

type_synonym event_data = "(string \<times> dval) list"

definition roleString :: "ProgramRole \<Rightarrow> string" where
  "roleString r = (case r of
      RoleCompliance \<Rightarrow> ''compliance''
    | RoleVault \<Rightarrow> ''vault''
    | RolePricing \<Rightarrow> ''pricing''
    | RoleRedemption \<Rightarrow> ''redemption''
    | RoleSupplyController \<Rightarrow> ''supply_controller'')"

section \<open>The Borsh reader\<close>

record borshReader =
  rbuf :: bytes
  rpos :: nat

datatype decode_error =
    Truncated nat nat nat
  | InvalidBool byte
  | UnknownRole ProgramRole
  | UnsupportedScalar string
  | UnsupportedFieldType
  | BadDiscriminatorLength string nat
  | NoStructType string

definition newBorshReader :: "bytes \<Rightarrow> borshReader" where
  "newBorshReader b = \<lparr>rbuf = b, rpos = 0\<rparr>"

definition borsh_take :: "nat \<Rightarrow> borshReader \<Rightarrow> decode_error + bytes \<times> borshReader" where
  "borsh_take n r =
     (if length (rbuf r) < rpos r + n then Inl (Truncated n (rpos r) (length (rbuf r)))
      else Inr (take n (drop (rpos r) (rbuf r)), r\<lparr>rpos := rpos r + n\<rparr>))"

definition borsh_pubkey :: "(bytes \<Rightarrow> string) \<Rightarrow> borshReader \<Rightarrow> decode_error + string \<times> borshReader" where
  "borsh_pubkey b58 r = bind_res (borsh_take 32 r) (\<lambda>(b, r'). Inr (b58 b, r'))"

definition borsh_u8 :: "borshReader \<Rightarrow> decode_error + nat \<times> borshReader" where
  "borsh_u8 r = bind_res (borsh_take 1 r) (\<lambda>(b, r'). Inr (unat (b ! 0), r'))"

definition borsh_boolean :: "borshReader \<Rightarrow> decode_error + bool \<times> borshReader" where
  "borsh_boolean r = bind_res (borsh_take 1 r) (\<lambda>(b, r').
     if b ! 0 \<noteq> 0 \<and> b ! 0 \<noteq> 1 then Inl (InvalidBool (b ! 0)) else Inr (b ! 0 = 1, r'))"

text \<open>\<^verbatim>\<open>binary.LittleEndian.Uint64\<close>.\<close>

definition le_u64 :: "bytes \<Rightarrow> u64" where
  "le_u64 b = of_nat (be_nat (rev b))"

definition borsh_u64String :: "borshReader \<Rightarrow> decode_error + string \<times> borshReader" where
  "borsh_u64String r = bind_res (borsh_take 8 r) (\<lambda>(b, r'). Inr (dec_nat (unat (le_u64 b)), r'))"

definition borsh_i64String :: "borshReader \<Rightarrow> decode_error + string \<times> borshReader" where
  "borsh_i64String r = bind_res (borsh_take 8 r) (\<lambda>(b, r'). Inr (dec_int (sint (le_u64 b)), r'))"

definition borsh_hexBytes :: "nat \<Rightarrow> borshReader \<Rightarrow> decode_error + string \<times> borshReader" where
  "borsh_hexBytes n r = bind_res (borsh_take n r) (\<lambda>(b, r'). Inr (''0x'' @ hex b, r'))"

section \<open>Schemas from an IDL file\<close>

text \<open>
  The subset of the IDL JSON the code unmarshals: a field type is a bare string, an array
  \<^verbatim>\<open>[elem, size]\<close> (with \<open>None\<close> where a component does not unmarshal), or something else.
\<close>

datatype idl_field_type =
    ScalarType string
  | ArrayType "string option" "int option"
  | OtherType

record idlEvent =
  ievName :: string
  ievDiscriminator :: "int list"

record idlType =
  itName :: string
  itKind :: string
  itFields :: "(string \<times> idl_field_type) list"

record idlFile =
  idlEvents :: "idlEvent list"
  idlTypes :: "idlType list"

definition parseFieldKind :: "idl_field_type \<Rightarrow> decode_error + FieldKind" where
  "parseFieldKind raw = (case raw of
      ScalarType name \<Rightarrow>
        (if name = ''pubkey'' then Inr KindPubkey
         else if name = ''u8'' then Inr KindU8
         else if name = ''u64'' then Inr KindU64
         else if name = ''i64'' then Inr KindI64
         else if name = ''bool'' then Inr KindBool
         else Inl (UnsupportedScalar name))
    | ArrayType (Some el) (Some sz) \<Rightarrow>
        (if el = ''u8'' \<and> sz = 32 then Inr KindBytes32
         else if el = ''u8'' \<and> sz = 20 then Inr KindBytes20
         else Inl UnsupportedFieldType)
    | _ \<Rightarrow> Inl UnsupportedFieldType)"

fun parseIDL_types :: "string list \<Rightarrow> idlType list \<Rightarrow> (string \<times> Field list) list
    \<Rightarrow> decode_error + (string \<times> Field list) list" where
  "parseIDL_types eventNames [] acc = Inr acc"
| "parseIDL_types eventNames (t # ts) acc =
     (if itName t \<notin> set eventNames \<or> itKind t \<noteq> ''struct'' then parseIDL_types eventNames ts acc
      else bind_res (map_res (\<lambda>(fname, raw). bind_res (parseFieldKind raw) (\<lambda>k.
             Inr \<lparr>fieldName = fname, fieldKind = k\<rparr>)) (itFields t)) (\<lambda>fds.
           parseIDL_types eventNames ts ((itName t, fds) # acc)))"

fun parseIDL_events :: "(string \<times> Field list) list \<Rightarrow> idlEvent list \<Rightarrow> (bytes \<times> EventSchema) list
    \<Rightarrow> decode_error + (bytes \<times> EventSchema) list" where
  "parseIDL_events fieldsByType [] acc = Inr acc"
| "parseIDL_events fieldsByType (ev # evs) acc =
     (if length (ievDiscriminator ev) \<noteq> 8
      then Inl (BadDiscriminatorLength (ievName ev) (length (ievDiscriminator ev)))
      else case map_of fieldsByType (ievName ev) of
             None \<Rightarrow> Inl (NoStructType (ievName ev))
           | Some fds \<Rightarrow>
               parseIDL_events fieldsByType evs
                 ((map of_int (ievDiscriminator ev), \<lparr>schemaName = ievName ev, schemaFields = fds\<rparr>) # acc))"

definition parseIDL :: "idlFile \<Rightarrow> decode_error + (bytes \<times> EventSchema) list" where
  "parseIDL f =
     bind_res (parseIDL_types (map ievName (idlEvents f)) (idlTypes f) []) (\<lambda>fieldsByType.
       parseIDL_events fieldsByType (idlEvents f) [])"

section \<open>Decode\<close>

definition nameOverride :: "ProgramRole \<Rightarrow> string \<Rightarrow> string option" where
  "nameOverride role name =
     (if role = RoleCompliance \<and> name = ''Finalized'' then Some ''ComplianceFinalized''
      else if role = RoleSupplyController \<and> name = ''Finalized'' then Some ''SupplyFinalized''
      else None)"

definition fieldRename :: "(string \<times> string) list" where
  "fieldRename =
    [(''new_admin'', ''newAdmin''),
     (''new_value'', ''newValue''),
     (''new_status'', ''newStatus''),
     (''new_price'', ''newPrice''),
     (''new_pricer'', ''newPricer''),
     (''new_auditor'', ''newAuditor''),
     (''previous_status'', ''previousStatus''),
     (''previous_valid_until'', ''previousValidUntil''),
     (''new_valid_until'', ''newValidUntil''),
     (''rwa_amount'', ''rwaAmount''),
     (''quote_amount'', ''quoteAmount''),
     (''created_at'', ''createdAt''),
     (''reason_code'', ''reasonCode''),
     (''token_amount'', ''tokenAmount''),
     (''record_key'', ''recordKey''),
     (''metadata_digest'', ''metadataDigest''),
     (''operation_id'', ''operationId'')]"

definition field_key :: "string \<Rightarrow> string" where
  "field_key name = (case map_of fieldRename name of Some renamed \<Rightarrow> renamed | None \<Rightarrow> name)"

definition decode_field :: "(bytes \<Rightarrow> string) \<Rightarrow> FieldKind \<Rightarrow> borshReader \<Rightarrow> decode_error + dval \<times> borshReader" where
  "decode_field b58 k r = (case k of
      KindPubkey \<Rightarrow> bind_res (borsh_pubkey b58 r) (\<lambda>(s, r'). Inr (DStr s, r'))
    | KindU8 \<Rightarrow> bind_res (borsh_u8 r) (\<lambda>(n, r'). Inr (DUint n, r'))
    | KindU64 \<Rightarrow> bind_res (borsh_u64String r) (\<lambda>(s, r'). Inr (DStr s, r'))
    | KindI64 \<Rightarrow> bind_res (borsh_i64String r) (\<lambda>(s, r'). Inr (DStr s, r'))
    | KindBool \<Rightarrow> bind_res (borsh_boolean r) (\<lambda>(b, r'). Inr (DBool b, r'))
    | KindBytes32 \<Rightarrow> bind_res (borsh_hexBytes 32 r) (\<lambda>(s, r'). Inr (DStr s, r'))
    | KindBytes20 \<Rightarrow> bind_res (borsh_hexBytes 20 r) (\<lambda>(s, r'). Inr (DStr s, r')))"

text \<open>The loop over the schema's fields; \<open>out[key] = v\<close> replaces an earlier value of the key.\<close>

fun decode_fields :: "(bytes \<Rightarrow> string) \<Rightarrow> Field list \<Rightarrow> borshReader \<Rightarrow> event_data
    \<Rightarrow> decode_error + event_data \<times> borshReader" where
  "decode_fields b58 [] r out = Inr (out, r)"
| "decode_fields b58 (f # fs) r out =
     bind_res (decode_field b58 (fieldKind f) r) (\<lambda>(v, r').
       decode_fields b58 fs r' (AList.update (field_key (fieldName f)) v out))"

definition decode :: "(ProgramRole \<Rightarrow> (bytes \<Rightarrow> EventSchema option) option) \<Rightarrow> (bytes \<Rightarrow> string)
    \<Rightarrow> ProgramRole \<Rightarrow> bytes \<Rightarrow> decode_error + (string \<times> event_data) option" where
  "decode registry b58 role payload =
     (if length payload < 8 then Inr None
      else case registry role of
        None \<Rightarrow> Inl (UnknownRole role)
      | Some schemas \<Rightarrow>
          (case schemas (take 8 payload) of
             None \<Rightarrow> Inr None
           | Some schema \<Rightarrow>
               bind_res (decode_fields b58 (schemaFields schema) (newBorshReader (drop 8 payload)) [])
                 (\<lambda>(out, r).
                    if rpos r \<noteq> length (rbuf r) then Inr None
                    else Inr (Some
                      (case nameOverride role (schemaName schema) of
                         Some renamed \<Rightarrow> renamed
                       | None \<Rightarrow> schemaName schema, out)))))"

section \<open>What a body means\<close>

text \<open>
  The specification of a Borsh body: each kind has a width, a well-formedness condition and a
  rendering, and a body is the concatenation of its fields' chunks.
\<close>

definition kind_width :: "FieldKind \<Rightarrow> nat" where
  "kind_width k = (case k of
      KindPubkey \<Rightarrow> 32 | KindU8 \<Rightarrow> 1 | KindU64 \<Rightarrow> 8 | KindI64 \<Rightarrow> 8 | KindBool \<Rightarrow> 1
    | KindBytes32 \<Rightarrow> 32 | KindBytes20 \<Rightarrow> 20)"

definition chunk_ok :: "FieldKind \<Rightarrow> bytes \<Rightarrow> bool" where
  "chunk_ok k b \<longleftrightarrow> length b = kind_width k \<and> (k = KindBool \<longrightarrow> b = [0] \<or> b = [1])"

definition render :: "(bytes \<Rightarrow> string) \<Rightarrow> FieldKind \<Rightarrow> bytes \<Rightarrow> dval" where
  "render b58 k b = (case k of
      KindPubkey \<Rightarrow> DStr (b58 b)
    | KindU8 \<Rightarrow> DUint (unat (b ! 0))
    | KindU64 \<Rightarrow> DStr (dec_nat (unat (le_u64 b)))
    | KindI64 \<Rightarrow> DStr (dec_int (sint (le_u64 b)))
    | KindBool \<Rightarrow> DBool (b ! 0 = 1)
    | KindBytes32 \<Rightarrow> DStr (''0x'' @ hex b)
    | KindBytes20 \<Rightarrow> DStr (''0x'' @ hex b))"

fun render_fields :: "(bytes \<Rightarrow> string) \<Rightarrow> Field list \<Rightarrow> bytes list \<Rightarrow> event_data \<Rightarrow> event_data" where
  "render_fields b58 (f # fs) (c # cs) out =
     render_fields b58 fs cs (AList.update (field_key (fieldName f)) (render b58 (fieldKind f) c) out)"
| "render_fields b58 _ _ out = out"

lemma length_1_conv: "length xs = Suc 0 \<longleftrightarrow> (\<exists>x. xs = [x])"
  by (cases xs) auto

lemma decode_field_iff:
  "decode_field b58 k r = Inr (v, r') \<longleftrightarrow>
     (let c = take (kind_width k) (drop (rpos r) (rbuf r))
      in rpos r + kind_width k \<le> length (rbuf r) \<and> chunk_ok k c \<and> v = render b58 k c \<and>
         r' = r\<lparr>rpos := rpos r + kind_width k\<rparr>)"
proof (cases "rpos r + kind_width k \<le> length (rbuf r)")
  case True
  show ?thesis
  proof (cases "k = KindBool")
    case kb: True
    with True have "length (take 1 (drop (rpos r) (rbuf r))) = Suc 0" by (simp add: kind_width_def)
    then obtain x where "take 1 (drop (rpos r) (rbuf r)) = [x]" unfolding length_1_conv by blast
    with kb True show ?thesis
      by (auto simp: decode_field_def borsh_boolean_def borsh_take_def kind_width_def
          chunk_ok_def render_def Let_def)
  next
    case False
    with True show ?thesis
      by (cases k) (auto simp: decode_field_def borsh_pubkey_def borsh_u8_def borsh_u64String_def
          borsh_i64String_def borsh_hexBytes_def borsh_take_def kind_width_def chunk_ok_def
          render_def Let_def)
  qed
next
  case False
  then show ?thesis
    by (cases k) (auto simp: decode_field_def borsh_pubkey_def borsh_u8_def borsh_u64String_def
        borsh_i64String_def borsh_hexBytes_def borsh_boolean_def borsh_take_def kind_width_def Let_def)
qed

lemma decode_fields_iff:
  "decode_fields b58 fs r out = Inr (d, r') \<longleftrightarrow>
     (\<exists>cs rest. drop (rpos r) (rbuf r) = concat cs @ rest \<and> list_all2 (\<lambda>f. chunk_ok (fieldKind f)) fs cs \<and>
        d = render_fields b58 fs cs out \<and> r' = r\<lparr>rpos := rpos r + length (concat cs)\<rparr>)"
proof (induction fs arbitrary: r out)
  case (Cons f fs)
  let ?w = "kind_width (fieldKind f)" and ?b = "drop (rpos r) (rbuf r)"
  let ?out = "AList.update (field_key (fieldName f)) (render b58 (fieldKind f) (take ?w ?b)) out"
  have "decode_fields b58 (f # fs) r out = Inr (d, r') \<longleftrightarrow>
      rpos r + ?w \<le> length (rbuf r) \<and> chunk_ok (fieldKind f) (take ?w ?b) \<and>
      decode_fields b58 fs (r\<lparr>rpos := rpos r + ?w\<rparr>) ?out = Inr (d, r')"
    by (auto simp: res_iff decode_field_iff Let_def)
  also have "\<dots> \<longleftrightarrow> (\<exists>c cs rest. ?b = c @ concat cs @ rest \<and> chunk_ok (fieldKind f) c \<and>
      list_all2 (\<lambda>f. chunk_ok (fieldKind f)) fs cs \<and>
      d = render_fields b58 (f # fs) (c # cs) out \<and>
      r' = r\<lparr>rpos := rpos r + length (c @ concat cs)\<rparr>)" (is "?L \<longleftrightarrow> ?R")
  proof
    assume L: ?L
    then obtain cs rest where
      "drop (rpos r + ?w) (rbuf r) = concat cs @ rest" "list_all2 (\<lambda>f. chunk_ok (fieldKind f)) fs cs"
      "d = render_fields b58 fs cs ?out" "r' = r\<lparr>rpos := rpos r + ?w + length (concat cs)\<rparr>"
      by (auto simp: Cons.IH)
    moreover from this(1) have "?b = take ?w ?b @ concat cs @ rest"
      by (metis append_take_drop_id drop_drop add.commute)
    moreover from L have "length (take ?w ?b) = ?w" by (simp add: chunk_ok_def)
    ultimately show ?R using L by (intro exI [of _ "take ?w ?b"] exI [of _ cs] exI [of _ rest]) auto
  next
    assume ?R
    then obtain c cs rest where c: "?b = c @ concat cs @ rest" "chunk_ok (fieldKind f) c"
      "list_all2 (\<lambda>f. chunk_ok (fieldKind f)) fs cs" "d = render_fields b58 (f # fs) (c # cs) out"
      "r' = r\<lparr>rpos := rpos r + length (c @ concat cs)\<rparr>" by blast
    from c(2) have l: "length c = ?w" by (simp add: chunk_ok_def)
    with c(1) have t: "take ?w ?b = c" and dr: "drop (rpos r + ?w) (rbuf r) = concat cs @ rest"
      by (auto simp flip: drop_drop simp: add.commute [of "rpos r"])
    from c(1) l have "length ?b = ?w + length (concat cs @ rest)" by simp
    then have "rpos r + ?w \<le> length (rbuf r)" if "?w > 0" using that by simp
    moreover have "?w > 0" by (simp add: kind_width_def split: FieldKind.split)
    ultimately have "rpos r + ?w \<le> length (rbuf r)" by simp
    moreover have "decode_fields b58 fs (r\<lparr>rpos := rpos r + ?w\<rparr>) ?out = Inr (d, r')"
      unfolding Cons.IH using c dr l t
      by (intro exI [of _ cs] exI [of _ rest]) (simp add: add.assoc)
    ultimately show ?L using c t by simp
  qed
  also have "\<dots> \<longleftrightarrow> (\<exists>cs rest. ?b = concat cs @ rest \<and> list_all2 (\<lambda>f. chunk_ok (fieldKind f)) (f # fs) cs \<and>
        d = render_fields b58 (f # fs) cs out \<and> r' = r\<lparr>rpos := rpos r + length (concat cs)\<rparr>)"
    (is "?L \<longleftrightarrow> ?R")
  proof
    assume ?L
    then obtain c cs rest where "?b = c @ concat cs @ rest" "chunk_ok (fieldKind f) c"
      "list_all2 (\<lambda>f. chunk_ok (fieldKind f)) fs cs" "d = render_fields b58 (f # fs) (c # cs) out"
      "r' = r\<lparr>rpos := rpos r + length (c @ concat cs)\<rparr>" by blast
    then show ?R by (intro exI [of _ "c # cs"] exI [of _ rest]) simp
  next
    assume ?R
    then obtain cs0 rest where R: "?b = concat cs0 @ rest"
      "list_all2 (\<lambda>f. chunk_ok (fieldKind f)) (f # fs) cs0" "d = render_fields b58 (f # fs) cs0 out"
      "r' = r\<lparr>rpos := rpos r + length (concat cs0)\<rparr>" by blast
    from R(2) obtain c cs where "cs0 = c # cs" by (cases cs0) auto
    with R show ?L by (intro exI [of _ c] exI [of _ cs] exI [of _ rest]) simp
  qed
  finally show ?case .
qed auto

section \<open>Rendering is injective\<close>

lemma le_u64_inject:
  assumes "length a = 8" "length b = 8" "le_u64 a = le_u64 b"
  shows "a = b"
proof -
  have "be_nat (rev a) < 2 ^ 64" "be_nat (rev b) < 2 ^ 64"
    using be_nat_less [of "rev a"] be_nat_less [of "rev b"] assms(1,2) by simp_all
  with assms(3) have "be_nat (rev a) = be_nat (rev b)"
    by (simp add: le_u64_def word_of_nat_eq_iff take_bit_eq_mod)
  with assms(1,2) have "rev a = rev b" by (simp add: be_nat_inject)
  then show ?thesis by simp
qed

lemma render_inject:
  assumes "\<And>a b. length a = 32 \<Longrightarrow> length b = 32 \<Longrightarrow> b58 a = b58 b \<Longrightarrow> a = b"
    and "chunk_ok k a" "chunk_ok k b" "render b58 k a = render b58 k b"
  shows "a = b"
proof (cases k)
  case KindU8
  with assms obtain x y where "a = [x]" "b = [y]"
    by (auto simp: chunk_ok_def kind_width_def length_1_conv)
  with assms KindU8 show ?thesis by (simp add: render_def word_unat_eq_iff)
qed (use assms in \<open>auto simp: chunk_ok_def kind_width_def render_def intro: le_u64_inject
       simp flip: word_unat_eq_iff word_eq_iff_signed\<close>)

lemma map_of_render_fields_other:
  "k \<notin> (\<lambda>f. field_key (fieldName f)) ` set fs \<Longrightarrow>
   map_of (render_fields b58 fs cs out) k = map_of out k"
  by (induction b58 fs cs out rule: render_fields.induct) (auto simp: update_conv')

lemma render_fields_inject:
  assumes inj: "\<And>a b. length a = 32 \<Longrightarrow> length b = 32 \<Longrightarrow> b58 a = b58 b \<Longrightarrow> a = b"
  shows "distinct (map (\<lambda>f. field_key (fieldName f)) fs) \<Longrightarrow>
    list_all2 (\<lambda>f. chunk_ok (fieldKind f)) fs cs \<Longrightarrow> list_all2 (\<lambda>f. chunk_ok (fieldKind f)) fs cs' \<Longrightarrow>
    map_of (render_fields b58 fs cs out) = map_of (render_fields b58 fs cs' out') \<Longrightarrow> cs = cs'"
proof (induction fs arbitrary: cs cs' out out')
  case (Cons f fs)
  from Cons.prems(2,3) obtain c ds c' ds' where cs: "cs = c # ds" "cs' = c' # ds'"
    and ok: "chunk_ok (fieldKind f) c" "chunk_ok (fieldKind f) c'"
      "list_all2 (\<lambda>f. chunk_ok (fieldKind f)) fs ds" "list_all2 (\<lambda>f. chunk_ok (fieldKind f)) fs ds'"
    by (auto simp: list_all2_Cons1)
  let ?k = "field_key (fieldName f)"
  have nk: "?k \<notin> (\<lambda>f. field_key (fieldName f)) ` set fs" using Cons.prems(1) by auto
  from fun_cong [OF Cons.prems(4), of ?k] have "render b58 (fieldKind f) c = render b58 (fieldKind f) c'"
    by (simp add: cs map_of_render_fields_other [OF nk] update_conv')
  from inj ok(1,2) this have "c = c'" by (rule render_inject) simp
  moreover have "ds = ds'" using Cons.IH [OF _ ok(3,4)] Cons.prems(1,4) cs by simp
  ultimately show ?case using cs by simp
qed simp

lemma decode_event_iff_aux:
  "decode registry b58 role p = Inr (Some (n, d)) \<longleftrightarrow>
     (\<exists>schemas schema cs. registry role = Some schemas \<and> schemas (take 8 p) = Some schema \<and>
        8 \<le> length p \<and> drop 8 p = concat cs \<and>
        list_all2 (\<lambda>f. chunk_ok (fieldKind f)) (schemaFields schema) cs \<and>
        d = render_fields b58 (schemaFields schema) cs [] \<and>
        n = (case nameOverride role (schemaName schema) of Some r \<Rightarrow> r | None \<Rightarrow> schemaName schema))"
proof -
  have "(\<exists>out r. decode_fields b58 fs (newBorshReader body) [] = Inr (out, r) \<and>
           rpos r = length (rbuf r) \<and> d = out) \<longleftrightarrow>
        (\<exists>cs. body = concat cs \<and> list_all2 (\<lambda>f. chunk_ok (fieldKind f)) fs cs \<and>
           d = render_fields b58 fs cs [])" for fs body
    unfolding decode_fields_iff by (force simp: newBorshReader_def)
  note body = this
  have step: "bind_res (decode_fields b58 fs (newBorshReader body) []) (\<lambda>(out, r).
        if rpos r \<noteq> length (rbuf r) then Inr None else Inr (Some (nm, out))) = Inr (Some (n, d)) \<longleftrightarrow>
      n = nm \<and> (\<exists>cs. body = concat cs \<and> list_all2 (\<lambda>f. chunk_ok (fieldKind f)) fs cs \<and>
        d = render_fields b58 fs cs [])" for fs body nm
    unfolding body [symmetric] by (auto simp: res_iff split: prod.splits if_splits)
  show ?thesis
  proof (cases "length p < 8 \<or> registry role = None")
    case True
    then show ?thesis by (auto simp: decode_def)
  next
    case False
    then show ?thesis
      by (auto simp: decode_def step not_less split: option.splits)
  qed
qed

section \<open>Properties\<close>

text \<open>C4: a payload decodes to an event exactly when it is an 8-byte discriminator of the role's
  registry followed by one well-formed chunk per declared field and nothing else; a shorter
  body, an invalid bool, an unknown discriminator and a trailing byte are all refused.\<close>

theorem decode_event_iff:
  "decode registry b58 role p = Inr (Some (n, d)) \<longleftrightarrow>
     (\<exists>schemas schema cs. registry role = Some schemas \<and> schemas (take 8 p) = Some schema \<and>
        8 \<le> length p \<and> drop 8 p = concat cs \<and>
        list_all2 (\<lambda>f. chunk_ok (fieldKind f)) (schemaFields schema) cs \<and>
        d = render_fields b58 (schemaFields schema) cs [] \<and>
        n = (case nameOverride role (schemaName schema) of Some r \<Rightarrow> r | None \<Rightarrow> schemaName schema))"
  by (rule decode_event_iff_aux)

text \<open>C5: decoding loses nothing: when the declared fields have distinct keys and the base58
  encoder is injective on 32-byte keys, two payloads with the same discriminator that decode
  to the same data are the same payload.\<close>

theorem decode_injective:
  assumes "\<And>a b. length a = 32 \<Longrightarrow> length b = 32 \<Longrightarrow> b58 a = b58 b \<Longrightarrow> a = b"
    and "registry role = Some schemas" "schemas (take 8 p) = Some schema"
    and "distinct (map (\<lambda>f. field_key (fieldName f)) (schemaFields schema))"
    and "decode registry b58 role p = Inr (Some (n, d))" "decode registry b58 role q = Inr (Some (m, d))"
    and "take 8 p = take 8 q"
  shows "p = q"
proof -
  from assms(2,3,5) obtain cs where p: "drop 8 p = concat cs"
    "list_all2 (\<lambda>f. chunk_ok (fieldKind f)) (schemaFields schema) cs"
    "d = render_fields b58 (schemaFields schema) cs []" by (auto simp: decode_event_iff_aux)
  from assms(2,3,6,7) obtain cs' where q: "drop 8 q = concat cs'"
    "list_all2 (\<lambda>f. chunk_ok (fieldKind f)) (schemaFields schema) cs'"
    "d = render_fields b58 (schemaFields schema) cs' []" by (auto simp: decode_event_iff_aux)
  from p(3) q(3) have "map_of (render_fields b58 (schemaFields schema) cs []) =
      map_of (render_fields b58 (schemaFields schema) cs' [])" by simp
  from assms(1,4) p(2) q(2) this have "cs = cs'" by (rule render_fields_inject)
  with p q have "drop 8 p = drop 8 q" by simp
  with assms(7) show ?thesis by (metis append_take_drop_id)
qed

section \<open>Witness\<close>

definition demo_schema :: EventSchema where
  "demo_schema = \<lparr>schemaName = ''Adm'', schemaFields = [\<lparr>fieldName = ''amount'', fieldKind = KindU64\<rparr>,
     \<lparr>fieldName = ''paused'', fieldKind = KindBool\<rparr>]\<rparr>"

definition demo_registry :: "ProgramRole \<Rightarrow> (bytes \<Rightarrow> EventSchema option) option" where
  "demo_registry role = Some (\<lambda>d. if d = [1, 2, 3, 4, 5, 6, 7, 8] then Some demo_schema else None)"

definition demo_payload :: bytes where
  "demo_payload = [1, 2, 3, 4, 5, 6, 7, 8] @ [44, 1, 0, 0, 0, 0, 0, 0] @ [1]"

definition demo_name :: string where "demo_name = ''Adm''"

definition demo_data :: event_data where "demo_data = [(''amount'', DStr ''300''), (''paused'', DBool True)]"

lemma demo_decode:
  "decode demo_registry hex RoleVault demo_payload =
     Inr (Some (demo_name, demo_data))"
proof -
  have "be_nat [0, 0, 0, 0, 0, 0, 1, 44] = 300" by (simp add: be_nat_def horner_def)
  moreover have "dec_nat 300 = ''300''" by code_simp
  ultimately show ?thesis
    by (simp add: decode_def demo_registry_def demo_payload_def bind_res_def newBorshReader_def decode_field_def
      borsh_u64String_def borsh_boolean_def borsh_u8_def borsh_take_def le_u64_def field_key_def fieldRename_def
      nameOverride_def demo_name_def demo_data_def demo_schema_def)
qed

theorem decode_injective_witness:
  "decode demo_registry hex RoleVault demo_payload =
     Inr (Some (demo_name, demo_data)) \<and>
   (\<forall>m. decode demo_registry hex RoleVault ([1, 2, 3, 4, 5, 6, 7, 8] @ [44, 1, 0, 0, 0, 0, 1, 0] @ [1]) \<noteq>
     Inr (Some (m, demo_data)))"
proof -
  have False if q: "decode demo_registry hex RoleVault ([1, 2, 3, 4, 5, 6, 7, 8] @ [44, 1, 0, 0, 0, 0, 1, 0] @ [1]) =
      Inr (Some (m, demo_data))" for m
  proof -
    have "demo_payload = [1, 2, 3, 4, 5, 6, 7, 8] @ [44, 1, 0, 0, 0, 0, 1, 0] @ [1]"
    proof (rule decode_injective [OF _ demo_registry_def _ _ demo_decode q])
      show "(if take 8 demo_payload = [1, 2, 3, 4, 5, 6, 7, 8] then Some demo_schema else None) = Some demo_schema"
        by (simp add: demo_payload_def)
    qed (simp_all add: demo_schema_def demo_payload_def field_key_def fieldRename_def)
    then show False by (simp add: demo_payload_def)
  qed
  with demo_decode show ?thesis by blast
qed

end
