(* ===== verification/ChainStore.thy ===== *)
theory ChainStore
  imports EventDecode "HOL-Library.Product_Lexorder"
begin

text \<open>
  The persistence the indexer uses: \<^verbatim>\<open>server/internal/dal/models/chain_event.go\<close> and
  \<^verbatim>\<open>indexer_checkpoint.go\<close> (the documents), the two repository interfaces of
  \<^verbatim>\<open>dal/repository/repository.go\<close> (\<open>event_repo\<close>, \<open>checkpoint_repo\<close>: a Go interface value is a
  record of functions on the store's state) and their in-memory implementations
  \<^verbatim>\<open>dal/memory/chain_event.go\<close> and \<^verbatim>\<open>dal/memory/indexer_checkpoint.go\<close>. A Go map is an
  association list with distinct keys: its list order stands for the unspecified iteration
  order. The locales state what a client may rely on; both are interpreted on the in-memory
  repositories. A write that fails leaves the store as it was.
\<close>

section \<open>Documents\<close>

record ChainEvent =
  evChainID :: int
  evAddress :: string
  evTxHash :: string
  evLogIndex :: nat
  evBlockNumber :: u64
  evBlockHash :: string
  evName :: string
  evData :: event_data
  evRemoved :: bool
  evIndexedAt :: int

record EventKey =
  keyChainID :: int
  keyAddress :: string
  keyTxHash :: string
  keyLogIndex :: nat

record IndexerCheckpoint =
  cpChainID :: int
  cpAddress :: string
  cpLastBlock :: u64
  cpLastBlockHash :: string
  cpUpdatedAt :: int
  cpReconciliationRequired :: bool
  cpBackfillCursor :: string
  cpBackfillTargetHash :: string
  cpBackfillTargetSlot :: u64
  cpLastSuccessfulPollAt :: int
  cpVersion :: int

datatype repo_error = ErrNotFound | ErrAlreadyExists | ErrFencingTokenMismatch | ErrStore string

text \<open>The Go zero values of a document with a chain id and an address (time 0 is the zero time).\<close>

definition newCheckpoint :: "int \<Rightarrow> string \<Rightarrow> IndexerCheckpoint" where
  "newCheckpoint chainID address =
     \<lparr>cpChainID = chainID, cpAddress = address, cpLastBlock = 0, cpLastBlockHash = [],
      cpUpdatedAt = 0, cpReconciliationRequired = False, cpBackfillCursor = [],
      cpBackfillTargetHash = [], cpBackfillTargetSlot = 0, cpLastSuccessfulPollAt = 0, cpVersion = 0\<rparr>"

section \<open>The interfaces\<close>

record 'e event_repo =
  evExists :: "EventKey \<Rightarrow> 'e \<Rightarrow> repo_error + bool"
  evCreate :: "ChainEvent \<Rightarrow> 'e \<Rightarrow> repo_error + 'e"

record 'm checkpoint_repo =
  cpGet :: "int \<Rightarrow> string \<Rightarrow> 'm \<Rightarrow> repo_error + IndexerCheckpoint"
  cpSet :: "IndexerCheckpoint \<Rightarrow> 'm \<Rightarrow> repo_error + 'm"

definition event_key :: "ChainEvent \<Rightarrow> EventKey" where
  "event_key e = \<lparr>keyChainID = evChainID e, keyAddress = evAddress e, keyTxHash = evTxHash e,
                  keyLogIndex = evLogIndex e\<rparr>"

locale event_store =
  fixes R :: "'e event_repo"
    and lookup :: "'e \<Rightarrow> EventKey \<Rightarrow> ChainEvent option"
  assumes exists_sound: "evExists R k s = Inr b \<Longrightarrow> b \<longleftrightarrow> lookup s k \<noteq> None"
    and create_sound: "evCreate R e s = Inr s' \<Longrightarrow> lookup s' = (lookup s)(event_key e \<mapsto> e)"
begin

lemma create_dom: "evCreate R e s = Inr s' \<Longrightarrow> dom (lookup s') = insert (event_key e) (dom (lookup s))"
  by (simp add: create_sound)

lemma create_new_keeps:
  assumes "evExists R (event_key e) s = Inr False" "evCreate R e s = Inr s'"
  shows "lookup s \<subseteq>\<^sub>m lookup s'"
  using exists_sound [OF assms(1)] create_sound [OF assms(2)] by (auto simp: map_le_def)

end

locale checkpoint_store =
  fixes R :: "'m checkpoint_repo"
    and stored :: "'m \<Rightarrow> int \<Rightarrow> string \<Rightarrow> IndexerCheckpoint option"
  assumes get_sound: "cpGet R c a m = Inr cp \<Longrightarrow> stored m c a = Some cp"
    and get_missing: "cpGet R c a m = Inl ErrNotFound \<Longrightarrow> stored m c a = None"
    and set_sound: "cpSet R cp m = Inr m' \<Longrightarrow>
      stored m' c a = (if c = cpChainID cp \<and> a = cpAddress cp then Some cp else stored m c a)"
begin

definition keyed :: "'m \<Rightarrow> bool" where
  "keyed m \<longleftrightarrow> (\<forall>c a cp. stored m c a = Some cp \<longrightarrow> cpChainID cp = c \<and> cpAddress cp = a)"

lemma keyed_set: "keyed m \<Longrightarrow> cpSet R cp m = Inr m' \<Longrightarrow> keyed m'"
  by (auto simp: keyed_def set_sound split: if_splits)

end

section \<open>The in-memory event repository\<close>

type_synonym event_map = "(EventKey \<times> ChainEvent) list"

definition memExists :: "EventKey \<Rightarrow> event_map \<Rightarrow> repo_error + bool" where
  "memExists key m = Inr (map_of m key \<noteq> None)"

definition memCreate :: "ChainEvent \<Rightarrow> event_map \<Rightarrow> repo_error + event_map" where
  "memCreate e m =
     Inr (AList.update
       \<lparr>keyChainID = evChainID e, keyAddress = evAddress e, keyTxHash = evTxHash e,
        keyLogIndex = evLogIndex e\<rparr> e m)"

definition memDeleteFromBlock :: "int \<Rightarrow> string \<Rightarrow> u64 \<Rightarrow> event_map \<Rightarrow> nat \<times> event_map" where
  "memDeleteFromBlock chainID address fromBlock m =
     (let hit = (\<lambda>(k, v). evChainID v = chainID \<and> evAddress v = address \<and> fromBlock \<le> evBlockNumber v)
      in (length (filter hit m), filter (\<lambda>kv. \<not> hit kv) m))"

definition memListByName :: "int \<Rightarrow> string \<Rightarrow> string \<Rightarrow> event_map \<Rightarrow> ChainEvent list" where
  "memListByName chainID address name m =
     sort_key (\<lambda>e. (evBlockNumber e, evLogIndex e))
       (filter (\<lambda>v. evChainID v = chainID \<and> evAddress v = address \<and> evName v = name) (map snd m))"

definition memListAll :: "int \<Rightarrow> event_map \<Rightarrow> ChainEvent list" where
  "memListAll chainID m =
     sort_key (\<lambda>e. (evBlockNumber e, evLogIndex e, evTxHash e))
       (filter (\<lambda>v. evChainID v = chainID) (map snd m))"

definition memoryEvents :: "event_map event_repo" where
  "memoryEvents = \<lparr>evExists = memExists, evCreate = memCreate\<rparr>"

interpretation me: event_store memoryEvents "map_of :: event_map \<Rightarrow> _"
  by unfold_locales
    (auto simp: memoryEvents_def memExists_def memCreate_def event_key_def update_conv)

text \<open>Every stored event sits under its own key, and no key twice.\<close>

definition events_wf :: "event_map \<Rightarrow> bool" where
  "events_wf m \<longleftrightarrow> distinct (map fst m) \<and> (\<forall>(k, e) \<in> set m. k = event_key e)"

lemma events_wf_Nil [simp]: "events_wf []"
  by (simp add: events_wf_def)

lemma events_wf_create:
  assumes "events_wf m" "memCreate e m = Inr m'"
  shows "events_wf m'"
proof -
  have m': "m' = AList.update (event_key e) e m" using assms(2) by (simp add: memCreate_def event_key_def)
  have d: "distinct (map fst m')" using assms(1) unfolding m' events_wf_def by (simp add: distinct_update)
  have "k = event_key v" if "(k, v) \<in> set m'" for k v
  proof -
    from d that have "map_of m' k = Some v" by simp
    then show ?thesis using assms(1) unfolding m' events_wf_def
      by (auto simp: update_conv' split: if_splits dest: map_of_SomeD)
  qed
  with d show ?thesis by (auto simp: events_wf_def)
qed

lemma events_wf_delete: "events_wf m \<Longrightarrow> events_wf (snd (memDeleteFromBlock c a b m))"
  by (auto simp: events_wf_def memDeleteFromBlock_def Let_def distinct_map_filter)

section \<open>The in-memory checkpoint repository\<close>

type_synonym checkpoint_map = "(string \<times> IndexerCheckpoint) list"

definition checkpointKey :: "int \<Rightarrow> string \<Rightarrow> string" where
  "checkpointKey chainID address = dec_int chainID @ '':'' @ address"

definition memCpGet :: "int \<Rightarrow> string \<Rightarrow> checkpoint_map \<Rightarrow> repo_error + IndexerCheckpoint" where
  "memCpGet chainID address m =
     (case map_of m (checkpointKey chainID address) of None \<Rightarrow> Inl ErrNotFound | Some v \<Rightarrow> Inr v)"

definition memCpSet :: "IndexerCheckpoint \<Rightarrow> checkpoint_map \<Rightarrow> repo_error + checkpoint_map" where
  "memCpSet c m = Inr (AList.update (checkpointKey (cpChainID c) (cpAddress c)) c m)"

definition memoryCheckpoints :: "checkpoint_map checkpoint_repo" where
  "memoryCheckpoints = \<lparr>cpGet = memCpGet, cpSet = memCpSet\<rparr>"

definition memCpStored :: "checkpoint_map \<Rightarrow> int \<Rightarrow> string \<Rightarrow> IndexerCheckpoint option" where
  "memCpStored m c a = map_of m (checkpointKey c a)"

text \<open>A decimal integer has no colon, so the text before the first one determines the chain.\<close>

lemma dec_int_no_colon: "CHR '':'' \<notin> set (dec_int i)"
proof -
  have "CHR '':'' \<notin> set (dec_nat n)" for n
    using dec_nat_not_minus [of "CHR '':''" n] by (auto simp: isDigit_def)
  then show ?thesis by (simp add: dec_int_def)
qed

lemma append_sep_inject:
  assumes "x \<notin> set a" "x \<notin> set b" "a @ x # r = b @ x # s"
  shows "a = b \<and> r = s"
proof -
  have "takeWhile (\<lambda>y. y \<noteq> x) (a @ x # r) = a" "takeWhile (\<lambda>y. y \<noteq> x) (b @ x # s) = b"
    using assms(1,2) by (auto simp: takeWhile_append2 takeWhile_tail)
  with assms(3) show ?thesis by auto
qed

lemma checkpointKey_inject [simp]:
  "checkpointKey c a = checkpointKey c' a' \<longleftrightarrow> c = c' \<and> a = a'"
  using append_sep_inject [OF dec_int_no_colon dec_int_no_colon, of c a c' a']
  by (auto simp: checkpointKey_def)

interpretation mc: checkpoint_store memoryCheckpoints memCpStored
  by unfold_locales
    (auto simp: memoryCheckpoints_def memCpGet_def memCpSet_def memCpStored_def update_conv'
      split: option.splits)

end
