(* ===== verification/Indexer.thy ===== *)
theory Indexer
  imports ChainStore "HOL-Library.Sublist"
begin

text \<open>
  \<^verbatim>\<open>server/internal/blockchain/indexer.go\<close> and \<^verbatim>\<open>checkpoint.go\<close>: the slot indexer. The RPC node is
  the parameter \<open>src\<close> (a record of functions, as the Go interface \<^verbatim>\<open>Source\<close>), the two
  repositories are the interfaces of \<^verbatim>\<open>ChainStore\<close>. An operation takes the indexer's state and
  returns an error or a value together with the state it leaves, also when it fails. One
  reading \<open>now\<close> of the clock serves a whole poll.
\<close>

section \<open>The RPC node and the configuration\<close>

record SigInfo =
  Signature :: string
  Slot :: u64
  SigErr :: bool

record Tx =
  txSlot :: u64
  txMetaErr :: bool
  txLogMessages :: "string list"

record source =
  GetSlot :: "string \<Rightarrow> string + u64"
  GetSignaturesForAddress :: "string \<Rightarrow> nat \<Rightarrow> string \<Rightarrow> string \<Rightarrow> string \<Rightarrow> string + SigInfo list"
  GetTransaction :: "string \<Rightarrow> string \<Rightarrow> string + Tx"

datatype idx_error =
    ErrRPC string
  | ErrRepo repo_error
  | ErrUnprovenPrefix u64 nat
  | ErrIngest string idx_error
  | ErrHeartbeat idx_error
  | ErrPoll "(ProgramRole \<times> string \<times> idx_error) list"

text \<open>The fields of \<^verbatim>\<open>Indexer\<close> that \<^verbatim>\<open>New\<close> sets once, with the parameters of \<^verbatim>\<open>Decode\<close>.\<close>

record config =
  programIDs :: "(ProgramRole \<times> string) list"
  chainID :: int
  commitment :: string
  startSlot :: u64
  registry :: "ProgramRole \<Rightarrow> (bytes \<Rightarrow> EventSchema option) option"
  b58 :: "bytes \<Rightarrow> string"

text \<open>The mutable state: the two stores and \<^verbatim>\<open>silentSince\<close>.\<close>

record ('m, 'e) idx_state =
  checkpoints :: 'm
  events :: 'e
  silentSince :: "(string \<times> int) list"

definition programDataPrefix :: string where
  "programDataPrefix = ''Program data: ''"

definition sigPageLimit :: nat where "sigPageLimit = 1000"

definition maxFetchPages :: nat where "maxFetchPages = 10"

definition checkpointBatchSize :: nat where "checkpointBatchSize = 100"

definition programOrder :: "ProgramRole list" where
  "programOrder = [RoleCompliance, RoleVault, RolePricing, RoleRedemption, RoleSupplyController]"

section \<open>Log framing\<close>

definition invokePrefix :: string where "invokePrefix = ''Program ''"

definition base58Alphabet :: string where
  "base58Alphabet = ''123456789ABCDEFGHJKLMNPQRSTUVWXYZabcdefghijkmnopqrstuvwxyz''"

definition isPlausibleProgramID :: "string \<Rightarrow> bool" where
  "isPlausibleProgramID s \<longleftrightarrow>
     32 \<le> length s \<and> length s \<le> 44 \<and> list_all (\<lambda>c. c \<in> set base58Alphabet) s"

definition parseInvokeLine :: "string \<Rightarrow> (string \<times> int) option" where
  "parseInvokeLine line =
     (case cutPrefix line invokePrefix of None \<Rightarrow> None | Some rest \<Rightarrow>
      (case cut rest '' invoke ['' of None \<Rightarrow> None | Some (pid, tail) \<Rightarrow>
       (case cutSuffix tail '']'' of None \<Rightarrow> None | Some depthStr \<Rightarrow>
        (case atoi depthStr of None \<Rightarrow> None | Some n \<Rightarrow>
          if n \<le> 0 then None
          else if \<not> isPlausibleProgramID pid then None
          else Some (pid, n)))))"

definition parsePopLine :: "string \<Rightarrow> string option" where
  "parsePopLine line =
     (case cutPrefix line invokePrefix of None \<Rightarrow> None | Some rest \<Rightarrow>
      (case cutSuffix rest '' success'' of
         Some pid \<Rightarrow> if isPlausibleProgramID pid then Some pid else None
       | None \<Rightarrow>
         (case cut rest '' failed: '' of
            Some (pid, _) \<Rightarrow> if isPlausibleProgramID pid then Some pid else None
          | None \<Rightarrow> None)))"

section \<open>Ingesting one transaction\<close>

text \<open>
  The loop over the log lines: \<open>stack\<close> and \<open>logIndex\<close> are its local variables, the event store
  is threaded through. A line of the scanned program that decodes to an event is stored under
  its index unless the key exists; one that does not decode still consumes an index.
\<close>

fun ingest_lines :: "'e event_repo \<Rightarrow> config \<Rightarrow> int \<Rightarrow> ProgramRole \<Rightarrow> string \<Rightarrow> string \<Rightarrow> u64
    \<Rightarrow> string list \<Rightarrow> string list \<Rightarrow> nat \<Rightarrow> 'e \<Rightarrow> (idx_error + unit) \<times> 'e" where
  "ingest_lines R cfg now role programID sig slot [] stack logIndex es = (Inr (), es)"
| "ingest_lines R cfg now role programID sig slot (line # lines) stack logIndex es =
     (case parseInvokeLine line of
        Some (pid, depth) \<Rightarrow>
          ingest_lines R cfg now role programID sig slot lines
            (if depth = int (length stack) + 1 then stack @ [pid] else stack) logIndex es
      | None \<Rightarrow>
        (case parsePopLine line of
           Some pid \<Rightarrow>
             ingest_lines R cfg now role programID sig slot lines
               (if stack \<noteq> [] \<and> last stack = pid then butlast stack else stack) logIndex es
         | None \<Rightarrow>
           (case cutPrefix line programDataPrefix of
              None \<Rightarrow> ingest_lines R cfg now role programID sig slot lines stack logIndex es
            | Some rest \<Rightarrow>
                if (if stack = [] then '''' else last stack) \<noteq> programID
                then ingest_lines R cfg now role programID sig slot lines stack logIndex es
                else
                  (case (case base64_decode rest of
                           None \<Rightarrow> None
                         | Some payload \<Rightarrow>
                             (case decode (registry cfg) (b58 cfg) role payload of
                                Inl _ \<Rightarrow> None | Inr r \<Rightarrow> r)) of
                     None \<Rightarrow> ingest_lines R cfg now role programID sig slot lines stack (logIndex + 1) es
                   | Some (name, data) \<Rightarrow>
                       (case evExists R \<lparr>keyChainID = chainID cfg, keyAddress = programID,
                                        keyTxHash = sig, keyLogIndex = logIndex\<rparr> es of
                          Inl err \<Rightarrow> (Inl (ErrRepo err), es)
                        | Inr True \<Rightarrow>
                            ingest_lines R cfg now role programID sig slot lines stack (logIndex + 1) es
                        | Inr False \<Rightarrow>
                            (case evCreate R \<lparr>evChainID = chainID cfg, evAddress = programID,
                                 evTxHash = sig, evLogIndex = logIndex, evBlockNumber = slot,
                                 evBlockHash = '''', evName = name, evData = data,
                                 evRemoved = False, evIndexedAt = now\<rparr> es of
                               Inl err \<Rightarrow> (Inl (ErrRepo err), es)
                             | Inr es' \<Rightarrow>
                                 ingest_lines R cfg now role programID sig slot lines stack
                                   (logIndex + 1) es'))))))"

definition ingestTransaction :: "source \<Rightarrow> 'e event_repo \<Rightarrow> config \<Rightarrow> int \<Rightarrow> ProgramRole \<Rightarrow> string
    \<Rightarrow> SigInfo \<Rightarrow> 'e \<Rightarrow> (idx_error + unit) \<times> 'e" where
  "ingestTransaction src R cfg now role programID sig es =
     (case GetTransaction src (Signature sig) (commitment cfg) of
        Inl err \<Rightarrow> (Inl (ErrRPC err), es)
      | Inr tx \<Rightarrow>
          if txMetaErr tx then (Inr (), es)
          else ingest_lines R cfg now role programID (Signature sig) (txSlot tx) (txLogMessages tx) [] 0 es)"

section \<open>Fetching new signatures\<close>

definition at_prefix :: "string \<Rightarrow> u64 \<Rightarrow> SigInfo \<Rightarrow> bool" where
  "at_prefix until untilSlot s \<longleftrightarrow> Signature s = until \<or> Slot s \<le> untilSlot"

text \<open>The paging loop, with the pages left to fetch; it returns \<open>(all, reachedPrefix, shortPage)\<close>.\<close>

fun fetch_pages :: "source \<Rightarrow> config \<Rightarrow> string \<Rightarrow> string \<Rightarrow> u64 \<Rightarrow> nat \<Rightarrow> string \<Rightarrow> SigInfo list
    \<Rightarrow> idx_error + SigInfo list \<times> bool \<times> bool" where
  "fetch_pages src cfg program until untilSlot 0 before all = Inr (all, False, False)"
| "fetch_pages src cfg program until untilSlot (Suc pages) before all =
     (case GetSignaturesForAddress src program sigPageLimit before '''' (commitment cfg) of
        Inl err \<Rightarrow> Inl (ErrRPC err)
      | Inr pageSigs \<Rightarrow>
          if pageSigs = [] then Inr (all, until = '''' \<or> all = [], True)
          else if until \<noteq> '''' \<and> list_ex (at_prefix until untilSlot) pageSigs
          then Inr (all @ takeWhile (\<lambda>s. \<not> at_prefix until untilSlot s) pageSigs, True, False)
          else if length pageSigs < sigPageLimit
          then Inr (all @ pageSigs, until = '''', True)
          else fetch_pages src cfg program until untilSlot pages (Signature (last pageSigs)) (all @ pageSigs))"

definition fetchNewSignatures :: "source \<Rightarrow> config \<Rightarrow> string \<Rightarrow> string \<Rightarrow> string \<Rightarrow> u64
    \<Rightarrow> idx_error + SigInfo list \<times> bool" where
  "fetchNewSignatures src cfg program before until untilSlot =
     bind_res (fetch_pages src cfg program until untilSlot maxFetchPages before [])
       (\<lambda>(all, reachedPrefix, shortPage).
          if \<not> reachedPrefix \<and> shortPage \<and> until \<noteq> '''' \<and> all \<noteq> []
          then Inl (ErrUnprovenPrefix untilSlot (length all))
          else Inr (rev all, reachedPrefix))"

section \<open>Checkpoints\<close>

definition loadProgramCheckpoint :: "'m checkpoint_repo \<Rightarrow> int \<Rightarrow> string \<Rightarrow> 'm
    \<Rightarrow> idx_error + IndexerCheckpoint \<times> bool" where
  "loadProgramCheckpoint R cid programID m =
     (case cpGet R cid programID m of
        Inr cp \<Rightarrow> Inr (cp, True)
      | Inl err \<Rightarrow>
          if err \<noteq> ErrNotFound then Inl (ErrRepo err)
          else Inr (newCheckpoint cid programID, False))"

definition store_checkpoint :: "'m checkpoint_repo \<Rightarrow> IndexerCheckpoint \<Rightarrow> 'm \<Rightarrow> (idx_error + unit) \<times> 'm" where
  "store_checkpoint R cp m =
     (case cpSet R cp m of Inl err \<Rightarrow> (Inl (ErrRepo err), m) | Inr m' \<Rightarrow> (Inr (), m'))"

definition advanceProgramCheckpoint :: "'m checkpoint_repo \<Rightarrow> int \<Rightarrow> int \<Rightarrow> string \<Rightarrow> u64 \<Rightarrow> string
    \<Rightarrow> 'm \<Rightarrow> (idx_error + unit) \<times> 'm" where
  "advanceProgramCheckpoint R now cid programID slot signature m =
     (case loadProgramCheckpoint R cid programID m of
        Inl err \<Rightarrow> (Inl err, m)
      | Inr (cp, _) \<Rightarrow>
          store_checkpoint R (cp\<lparr>cpLastBlock := slot, cpLastBlockHash := signature,
            cpBackfillCursor := '''', cpBackfillTargetHash := '''', cpBackfillTargetSlot := 0,
            cpUpdatedAt := now\<rparr>) m)"

definition setBackfillFrontier :: "'m checkpoint_repo \<Rightarrow> int \<Rightarrow> int \<Rightarrow> string \<Rightarrow> u64 \<Rightarrow> string \<Rightarrow> string
    \<Rightarrow> u64 \<Rightarrow> string \<Rightarrow> 'm \<Rightarrow> (idx_error + unit) \<times> 'm" where
  "setBackfillFrontier R now cid programID prefixSlot prefixSig cursor targetSlot targetSig m =
     (case loadProgramCheckpoint R cid programID m of
        Inl err \<Rightarrow> (Inl err, m)
      | Inr (cp, _) \<Rightarrow>
          store_checkpoint R (cp\<lparr>cpLastBlock := prefixSlot, cpLastBlockHash := prefixSig,
            cpBackfillCursor := cursor, cpBackfillTargetHash := targetSig,
            cpBackfillTargetSlot := targetSlot, cpUpdatedAt := now\<rparr>) m)"

definition recordSuccessfulPoll :: "'m checkpoint_repo \<Rightarrow> int \<Rightarrow> int \<Rightarrow> string \<Rightarrow> 'm
    \<Rightarrow> (idx_error + unit) \<times> 'm" where
  "recordSuccessfulPoll R now cid programID m =
     (case loadProgramCheckpoint R cid programID m of
        Inl err \<Rightarrow> (Inl err, m)
      | Inr (cp, _) \<Rightarrow> store_checkpoint R (cp\<lparr>cpLastSuccessfulPollAt := now\<rparr>) m)"

definition closeBackfill :: "'m checkpoint_repo \<Rightarrow> int \<Rightarrow> int \<Rightarrow> string \<Rightarrow> IndexerCheckpoint
    \<Rightarrow> 'm \<Rightarrow> (idx_error + unit) \<times> 'm" where
  "closeBackfill R now cid programID cp m =
     advanceProgramCheckpoint R now cid programID (cpBackfillTargetSlot cp) (cpBackfillTargetHash cp) m"

section \<open>The silent-poll warning\<close>

text \<open>Durations in nanoseconds, as \<^verbatim>\<open>time.Duration\<close>; the log line itself is not modelled.\<close>

definition silentPollWarnAfter :: int where "silentPollWarnAfter = 2 * 60 * 10 ^ 9"

definition silentPollRepeat :: int where "silentPollRepeat = 30 * 60 * 10 ^ 9"

definition noteSilentPoll :: "int \<Rightarrow> string \<Rightarrow> bool \<Rightarrow> (string \<times> int) list \<Rightarrow> (string \<times> int) list" where
  "noteSilentPoll now programID neverIngested silent =
     (if \<not> neverIngested then silent
      else case map_of silent programID of
        None \<Rightarrow> AList.update programID now silent
      | Some since \<Rightarrow>
          if now - since < silentPollWarnAfter then silent
          else AList.update programID (now + (silentPollRepeat - silentPollWarnAfter)) silent)"

definition clearSilentPoll :: "string \<Rightarrow> (string \<times> int) list \<Rightarrow> (string \<times> int) list" where
  "clearSilentPoll programID silent = AList.delete programID silent"

section \<open>Polling one program\<close>

text \<open>
  The loop of \<^verbatim>\<open>pollProgram\<close> over the signatures, oldest first. It returns the value of
  \<^verbatim>\<open>sinceCheckpoint\<close> after the loop.
\<close>

fun poll_loop :: "source \<Rightarrow> 'm checkpoint_repo \<Rightarrow> 'e event_repo \<Rightarrow> config \<Rightarrow> int \<Rightarrow> ProgramRole \<Rightarrow> string
    \<Rightarrow> bool \<Rightarrow> bool \<Rightarrow> SigInfo list \<Rightarrow> nat \<Rightarrow> ('m, 'e) idx_state
    \<Rightarrow> (idx_error + nat) \<times> ('m, 'e) idx_state" where
  "poll_loop src CR ER cfg now role programID contiguous firstSync [] sinceCheckpoint st =
     (Inr sinceCheckpoint, st)"
| "poll_loop src CR ER cfg now role programID contiguous firstSync (sig # sigs) sinceCheckpoint st =
     (let skip = SigErr sig \<or> (firstSync \<and> 0 < startSlot cfg \<and> Slot sig < startSlot cfg) in
      case (if skip then (Inr (), events st)
            else ingestTransaction src ER cfg now role programID sig (events st)) of
        (Inl err, es) \<Rightarrow> (Inl (ErrIngest (Signature sig) err), st\<lparr>events := es\<rparr>)
      | (Inr _, es) \<Rightarrow>
          (let st1 = st\<lparr>events := es\<rparr> in
           if contiguous then
             (if checkpointBatchSize \<le> sinceCheckpoint + 1 then
                (case advanceProgramCheckpoint CR now (chainID cfg) programID (Slot sig) (Signature sig)
                        (checkpoints st1) of
                   (Inl err, m) \<Rightarrow> (Inl err, st1\<lparr>checkpoints := m\<rparr>)
                 | (Inr _, m) \<Rightarrow>
                     poll_loop src CR ER cfg now role programID contiguous firstSync sigs 0
                       (st1\<lparr>checkpoints := m\<rparr>))
              else poll_loop src CR ER cfg now role programID contiguous firstSync sigs
                     (sinceCheckpoint + 1) st1)
           else poll_loop src CR ER cfg now role programID contiguous firstSync sigs sinceCheckpoint st1))"

definition on_checkpoints :: "('m \<Rightarrow> (idx_error + unit) \<times> 'm) \<Rightarrow> ('m, 'e) idx_state
    \<Rightarrow> (idx_error + unit) \<times> ('m, 'e) idx_state" where
  "on_checkpoints f st = (case f (checkpoints st) of (r, m) \<Rightarrow> (r, st\<lparr>checkpoints := m\<rparr>))"

text \<open>What follows the loop: advance, close the backfill, or move its frontier.\<close>

definition poll_finish :: "'m checkpoint_repo \<Rightarrow> config \<Rightarrow> int \<Rightarrow> string \<Rightarrow> IndexerCheckpoint \<Rightarrow> bool \<Rightarrow> bool
    \<Rightarrow> string \<Rightarrow> SigInfo list \<Rightarrow> nat \<Rightarrow> ('m, 'e) idx_state \<Rightarrow> (idx_error + unit) \<times> ('m, 'e) idx_state" where
  "poll_finish CR cfg now programID cp backfilling reachedPrefix until sigs sinceCheckpoint st =
     (let newest = last sigs; oldest = hd sigs; contiguous = \<not> backfilling \<and> reachedPrefix in
      if contiguous then
        (if 0 < sinceCheckpoint
         then on_checkpoints (advanceProgramCheckpoint CR now (chainID cfg) programID
                (Slot newest) (Signature newest)) st
         else (Inr (), st))
      else if reachedPrefix then
        on_checkpoints (closeBackfill CR now (chainID cfg) programID cp) st
      else
        (let (targetSlot, targetSig) =
               (if backfilling then (cpBackfillTargetSlot cp, cpBackfillTargetHash cp)
                else (Slot newest, Signature newest))
         in on_checkpoints (setBackfillFrontier CR now (chainID cfg) programID (cpLastBlock cp) until
              (Signature oldest) targetSlot targetSig) st))"

text \<open>The body of \<^verbatim>\<open>pollProgram\<close>, before its deferred heartbeat.\<close>

definition poll_body :: "source \<Rightarrow> 'm checkpoint_repo \<Rightarrow> 'e event_repo \<Rightarrow> config \<Rightarrow> int \<Rightarrow> ProgramRole \<Rightarrow> string
    \<Rightarrow> ('m, 'e) idx_state \<Rightarrow> (idx_error + unit) \<times> ('m, 'e) idx_state" where
  "poll_body src CR ER cfg now role programID st =
     (case loadProgramCheckpoint CR (chainID cfg) programID (checkpoints st) of
        Inl err \<Rightarrow> (Inl err, st)
      | Inr (cp, existed) \<Rightarrow>
        (let until = (if existed then cpLastBlockHash cp else '''');
             backfilling = (existed \<and> cpBackfillCursor cp \<noteq> '''');
             before = (if backfilling then cpBackfillCursor cp else '''')
         in case fetchNewSignatures src cfg programID before until (cpLastBlock cp) of
              Inl err \<Rightarrow> (Inl err, st)
            | Inr (sigs, reachedPrefix) \<Rightarrow>
                if sigs = [] then
                  (if backfilling then on_checkpoints (closeBackfill CR now (chainID cfg) programID cp) st
                   else (Inr (), st\<lparr>silentSince :=
                          noteSilentPoll now programID (cpLastBlock cp = 0) (silentSince st)\<rparr>))
                else
                  (let contiguous = \<not> backfilling \<and> reachedPrefix;
                       firstSync = (until = '''');
                       st1 = st\<lparr>silentSince := clearSilentPoll programID (silentSince st)\<rparr>
                   in case poll_loop src CR ER cfg now role programID contiguous firstSync sigs 0 st1 of
                        (Inl err, st2) \<Rightarrow> (Inl err, st2)
                      | (Inr sinceCheckpoint, st2) \<Rightarrow>
                          poll_finish CR cfg now programID cp backfilling reachedPrefix until sigs
                            sinceCheckpoint st2)))"

definition pollProgram :: "source \<Rightarrow> 'm checkpoint_repo \<Rightarrow> 'e event_repo \<Rightarrow> config \<Rightarrow> int \<Rightarrow> ProgramRole \<Rightarrow> string
    \<Rightarrow> ('m, 'e) idx_state \<Rightarrow> (idx_error + unit) \<times> ('m, 'e) idx_state" where
  "pollProgram src CR ER cfg now role programID st =
     (case poll_body src CR ER cfg now role programID st of
        (Inl err, st1) \<Rightarrow> (Inl err, st1)
      | (Inr _, st1) \<Rightarrow>
          (case recordSuccessfulPoll CR now (chainID cfg) programID (checkpoints st1) of
             (Inl err, m) \<Rightarrow> (Inl (ErrHeartbeat err), st1\<lparr>checkpoints := m\<rparr>)
           | (Inr _, m) \<Rightarrow> (Inr (), st1\<lparr>checkpoints := m\<rparr>)))"

section \<open>Polling every program\<close>

fun poll_roles :: "source \<Rightarrow> 'm checkpoint_repo \<Rightarrow> 'e event_repo \<Rightarrow> config \<Rightarrow> int \<Rightarrow> ProgramRole list
    \<Rightarrow> ('m, 'e) idx_state \<Rightarrow> (ProgramRole \<times> string \<times> idx_error) list \<times> ('m, 'e) idx_state" where
  "poll_roles src CR ER cfg now [] st = ([], st)"
| "poll_roles src CR ER cfg now (role # roles) st =
     (case map_of (programIDs cfg) role of
        None \<Rightarrow> poll_roles src CR ER cfg now roles st
      | Some programID \<Rightarrow>
          if programID = '''' then poll_roles src CR ER cfg now roles st
          else case pollProgram src CR ER cfg now role programID st of
                 (Inl err, st1) \<Rightarrow>
                   (case poll_roles src CR ER cfg now roles st1 of
                      (errs, st2) \<Rightarrow> ((role, programID, err) # errs, st2))
               | (Inr _, st1) \<Rightarrow> poll_roles src CR ER cfg now roles st1)"

definition Poll :: "source \<Rightarrow> 'm checkpoint_repo \<Rightarrow> 'e event_repo \<Rightarrow> config \<Rightarrow> int \<Rightarrow> ('m, 'e) idx_state
    \<Rightarrow> (idx_error + unit) \<times> ('m, 'e) idx_state" where
  "Poll src CR ER cfg now st =
     (case GetSlot src (commitment cfg) of
        Inl err \<Rightarrow> (Inl (ErrRPC err), st)
      | Inr _ \<Rightarrow>
          (case poll_roles src CR ER cfg now programOrder st of
             (errs, st1) \<Rightarrow> (if errs = [] then Inr () else Inl (ErrPoll errs), st1)))"

end
