(* ===== verification/IndexerLogs.thy ===== *)
theory IndexerLogs
  imports Indexer
begin

text \<open>
  What \<open>ingestTransaction\<close> of \<^verbatim>\<open>indexer.go\<close> stores. \<open>attribute\<close> is the log-framing part of its
  loop, without the store; the abstract specification is a tree of program invocations and
  the log the runtime prints for it. The lemmas show that the loop attributes to a program
  exactly the data lines that program emitted, whatever text other programs log, and that
  ingesting stores exactly the decoded events of those lines and is idempotent.
\<close>

section \<open>The framing alone\<close>

fun attribute :: "string \<Rightarrow> string list \<Rightarrow> string list \<Rightarrow> string list" where
  "attribute programID [] stack = []"
| "attribute programID (line # lines) stack =
     (case parseInvokeLine line of
        Some (pid, depth) \<Rightarrow>
          attribute programID lines (if depth = int (length stack) + 1 then stack @ [pid] else stack)
      | None \<Rightarrow>
        (case parsePopLine line of
           Some pid \<Rightarrow>
             attribute programID lines (if stack \<noteq> [] \<and> last stack = pid then butlast stack else stack)
         | None \<Rightarrow>
           (case cutPrefix line programDataPrefix of
              None \<Rightarrow> attribute programID lines stack
            | Some rest \<Rightarrow>
                if (if stack = [] then '''' else last stack) \<noteq> programID
                then attribute programID lines stack
                else rest # attribute programID lines stack)))"

definition decode_line :: "config \<Rightarrow> ProgramRole \<Rightarrow> string \<Rightarrow> (string \<times> event_data) option" where
  "decode_line cfg role rest =
     (case base64_decode rest of
        None \<Rightarrow> None
      | Some payload \<Rightarrow> (case decode (registry cfg) (b58 cfg) role payload of Inl _ \<Rightarrow> None | Inr r \<Rightarrow> r))"

definition mk_event :: "config \<Rightarrow> int \<Rightarrow> string \<Rightarrow> string \<Rightarrow> u64 \<Rightarrow> nat \<Rightarrow> string \<times> event_data \<Rightarrow> ChainEvent" where
  "mk_event cfg now programID sig slot i nd =
     \<lparr>evChainID = chainID cfg, evAddress = programID, evTxHash = sig, evLogIndex = i,
      evBlockNumber = slot, evBlockHash = '''', evName = fst nd, evData = snd nd,
      evRemoved = False, evIndexedAt = now\<rparr>"

text \<open>The events of the attributed lines, each under the index of its line.\<close>

fun line_events :: "config \<Rightarrow> int \<Rightarrow> ProgramRole \<Rightarrow> string \<Rightarrow> string \<Rightarrow> u64 \<Rightarrow> nat \<Rightarrow> string list
    \<Rightarrow> ChainEvent list" where
  "line_events cfg now role programID sig slot i [] = []"
| "line_events cfg now role programID sig slot i (rest # rests) =
     (case decode_line cfg role rest of None \<Rightarrow> [] | Some nd \<Rightarrow> [mk_event cfg now programID sig slot i nd])
     @ line_events cfg now role programID sig slot (i + 1) rests"

lemma line_events_index: "e \<in> set (line_events cfg now role p sig slot i rs) \<Longrightarrow> i \<le> evLogIndex e"
  by (induction cfg now role p sig slot i rs rule: line_events.induct)
    (auto simp: mk_event_def split: option.splits)

lemma line_events_key:
  "e \<in> set (line_events cfg now role p sig slot i rs) \<Longrightarrow>
   event_key e = \<lparr>keyChainID = chainID cfg, keyAddress = p, keyTxHash = sig, keyLogIndex = evLogIndex e\<rparr>"
  by (induction cfg now role p sig slot i rs rule: line_events.induct)
    (auto simp: mk_event_def event_key_def split: option.splits)

lemma line_events_keys:
  "map event_key (line_events cfg now' role p sig slot i rs) =
   map event_key (line_events cfg now role p sig slot i rs)"
  by (induction cfg now role p sig slot i rs rule: line_events.induct)
    (auto simp: mk_event_def event_key_def split: option.splits)

section \<open>What ingesting stores\<close>

text \<open>Adding a list of events to a map, keeping what is already stored under a key.\<close>

fun add_new :: "('k \<Rightarrow> ChainEvent option) \<Rightarrow> (ChainEvent \<Rightarrow> 'k) \<Rightarrow> ChainEvent list \<Rightarrow> ('k \<Rightarrow> ChainEvent option)" where
  "add_new m key [] = m"
| "add_new m key (e # es) = add_new (if m (key e) = None then m(key e \<mapsto> e) else m) key es"

lemma add_new_mono: "m \<subseteq>\<^sub>m add_new m key es"
proof (induction m key es rule: add_new.induct)
  case (2 m key e es)
  have "m \<subseteq>\<^sub>m (if m (key e) = None then m(key e \<mapsto> e) else m)" by (auto simp: map_le_def)
  from map_le_trans [OF this 2] show ?case by simp
qed simp

lemma dom_add_new: "dom (add_new m key es) = dom m \<union> key ` set es"
  by (induction m key es rule: add_new.induct) auto

lemma add_new_idem: "key ` set es \<subseteq> dom m \<Longrightarrow> add_new m key es = m"
  by (induction m key es rule: add_new.induct) (auto simp: domIff)

context event_store
begin

lemma ingest_lines_spec:
  "ingest_lines R cfg now role p sig slot lines stack i es = (r, es') \<Longrightarrow>
   (\<exists>k. lookup es' = add_new (lookup es) event_key
          (take k (line_events cfg now role p sig slot i (attribute p lines stack))) \<and>
        (r = Inr () \<longrightarrow> length (line_events cfg now role p sig slot i (attribute p lines stack)) \<le> k))"
proof (induction lines arbitrary: stack i es)
  case Nil
  then show ?case by (auto intro: exI [of _ 0])
next
  case (Cons line lines)
  show ?case
  proof (cases "parseInvokeLine line")
    case (Some a)
    then show ?thesis using Cons by (cases a) auto
  next
    case inv: None
    show ?thesis
    proof (cases "parsePopLine line")
      case (Some a)
      then show ?thesis using Cons inv by auto
    next
      case pop: None
      show ?thesis
      proof (cases "cutPrefix line programDataPrefix")
        case None
        then show ?thesis using Cons inv pop by auto
      next
        case (Some rest)
        let ?L = "ingest_lines R cfg now role p sig slot lines stack"
        show ?thesis
        proof (cases "(if stack = [] then '''' else last stack) = p")
          case False
          then show ?thesis using Cons inv pop Some by (simp del: if_split)
        next
          case top: True
          let ?evs = "line_events cfg now role p sig slot (i + 1) (attribute p lines stack)"
          have att: "attribute p (line # lines) stack = rest # attribute p lines stack"
            using inv pop Some top by simp
          show ?thesis
          proof (cases "decode_line cfg role rest")
            case None
            then have "?L (i + 1) es = (r, es')"
              using Cons.prems inv pop Some top by (simp add: decode_line_def del: if_split)
            from Cons.IH [OF this] None show ?thesis unfolding att by simp
          next
            case (Some nd)
            let ?e = "mk_event cfg now p sig slot i nd"
            have step: "(case evExists R (event_key ?e) es of
                  Inl err \<Rightarrow> (Inl (ErrRepo err), es)
                | Inr True \<Rightarrow> ?L (i + 1) es
                | Inr False \<Rightarrow> (case evCreate R ?e es of
                    Inl err \<Rightarrow> (Inl (ErrRepo err), es) | Inr es' \<Rightarrow> ?L (i + 1) es')) = (r, es')"
              using Cons.prems inv pop \<open>cutPrefix line programDataPrefix = Some rest\<close> top Some
              unfolding mk_event_def event_key_def
              by (cases nd) (simp add: decode_line_def del: if_split cong: sum.case_cong bool.case_cong)
            have le: "line_events cfg now role p sig slot i (attribute p (line # lines) stack) = ?e # ?evs"
              unfolding att using Some by simp
            have stop: ?thesis if "r \<noteq> Inr ()" "es' = es"
              unfolding le using that by (intro exI [of _ 0]) simp
            have go: ?thesis if "?L (i + 1) es1 = (r, es')"
              "lookup es1 = (if lookup es (event_key ?e) = None then (lookup es)(event_key ?e \<mapsto> ?e) else lookup es)"
              for es1
            proof -
              from Cons.IH [OF that(1)] obtain k where
                "lookup es' = add_new (lookup es1) event_key (take k ?evs)"
                "r = Inr () \<longrightarrow> length ?evs \<le> k" by blast
              then show ?thesis unfolding le using that(2) by (intro exI [of _ "Suc k"]) simp
            qed
            show ?thesis
            proof (cases "evExists R (event_key ?e) es")
              case (Inl err)
              with step have "(Inl (ErrRepo err), es) = (r, es')" by simp
              then show ?thesis by (intro stop) auto
            next
              case ex: (Inr b)
              from exists_sound [OF ex] have b: "b \<longleftrightarrow> lookup es (event_key ?e) \<noteq> None" .
              show ?thesis
              proof (cases b)
                case True
                with step ex have "?L (i + 1) es = (r, es')" by simp
                with b True show ?thesis by (intro go [of es]) auto
              next
                case False
                show ?thesis
                proof (cases "evCreate R ?e es")
                  case (Inl err)
                  with step ex False have "(Inl (ErrRepo err), es) = (r, es')" by simp
                  then show ?thesis by (intro stop) auto
                next
                  case (Inr es1)
                  with step ex False have "?L (i + 1) es1 = (r, es')" by simp
                  with b False create_sound [OF Inr] show ?thesis by (intro go [of es1]) auto
                qed
              qed
            qed
          qed
        qed
      qed
    qed
  qed
qed

lemma ingest_lines_ok:
  assumes "ingest_lines R cfg now role p sig slot lines stack i es = (Inr (), es')"
  shows "lookup es' = add_new (lookup es) event_key
           (line_events cfg now role p sig slot i (attribute p lines stack))"
  using ingest_lines_spec [OF assms] by auto

lemma ingest_lines_mono:
  assumes "ingest_lines R cfg now role p sig slot lines stack i es = (r, es')"
  shows "lookup es \<subseteq>\<^sub>m lookup es'"
  using ingest_lines_spec [OF assms] add_new_mono by auto

end

section \<open>Invocation trees\<close>

text \<open>
  What a successful transaction runs: a program's body logs text, emits data, prints other
  framing-free lines (compute units, return data), and calls programs. \<open>render d\<close> is the log
  the runtime prints for an item executed at depth \<open>d\<close>; \<open>emitted\<close> are the data lines of one
  program, in execution order. Text that programs log is arbitrary.
\<close>

datatype item = Data string | Log string | Other string | Call string "item list"

fun render :: "nat \<Rightarrow> item \<Rightarrow> string list" where
  "render d (Data x) = [programDataPrefix @ x]"
| "render d (Log t) = [''Program log: '' @ t]"
| "render d (Other l) = [l]"
| "render d (Call pid body) =
     [invokePrefix @ pid @ '' invoke ['' @ dec_nat d @ '']''] @ concat (map (render (d + 1)) body) @
     [invokePrefix @ pid @ '' success'']"

fun emitted :: "string \<Rightarrow> string \<Rightarrow> item \<Rightarrow> string list" where
  "emitted p current (Data x) = (if current = p then [x] else [])"
| "emitted p current (Call pid body) = concat (map (emitted p pid) body)"
| "emitted p current _ = []"

fun item_ok :: "nat \<Rightarrow> item \<Rightarrow> bool" where
  "item_ok d (Other l) \<longleftrightarrow>
     parseInvokeLine l = None \<and> parsePopLine l = None \<and> cutPrefix l programDataPrefix = None"
| "item_ok d (Call pid body) \<longleftrightarrow> isPlausibleProgramID pid \<and> d < 2 ^ 63 \<and> list_all (item_ok (d + 1)) body"
| "item_ok d _ \<longleftrightarrow> True"

subsection \<open>Recognising the framing lines\<close>

lemma plausible_chars:
  "isPlausibleProgramID s \<Longrightarrow> c \<notin> set base58Alphabet \<Longrightarrow> c \<notin> set s"
  unfolding isPlausibleProgramID_def list_all_iff by blast

lemma not_base58: "c \<in> set '' :['' \<Longrightarrow> c \<notin> set base58Alphabet"
  unfolding base58Alphabet_def by auto

lemma plausible_long: "isPlausibleProgramID s \<Longrightarrow> 32 \<le> length s"
  by (simp add: isPlausibleProgramID_def)

text \<open>The program id of a framing line is a prefix of what follows \<open>Program\<close>.\<close>

lemma parseInvokeLine_SomeD:
  "parseInvokeLine l = Some (pid, n) \<Longrightarrow> isPlausibleProgramID pid \<and> (\<exists>r. l = invokePrefix @ pid @ r)"
  by (auto simp: parseInvokeLine_def cutPrefix_Some split: option.splits if_splits dest!: cut_SomeD)

lemma parsePopLine_SomeD:
  "parsePopLine l = Some pid \<Longrightarrow> isPlausibleProgramID pid \<and> (\<exists>r. l = invokePrefix @ pid @ r)"
  by (auto simp: parsePopLine_def cutPrefix_Some cutSuffix_Some split: option.splits if_splits
      dest!: cut_SomeD)

lemma plausible_prefix:
  assumes "isPlausibleProgramID pid" "pre @ t = pid @ r" "length pre \<le> 32" "c \<in> set pre"
  shows "c \<in> set base58Alphabet"
proof -
  have "take (length pre) (pid @ r) = pre" by (simp flip: assms(2))
  moreover have "length pre \<le> length pid" using assms(3) plausible_long [OF assms(1)] by simp
  ultimately have "take (length pre) pid = pre" by simp
  with assms(4) have "c \<in> set pid" by (metis in_set_takeD)
  with assms(1) show ?thesis by (auto simp: isPlausibleProgramID_def list_all_iff)
qed

lemma not_framing:
  assumes "length pre \<le> 32" "CHR '':'' \<in> set pre"
  shows "parseInvokeLine (invokePrefix @ pre @ t) = None" "parsePopLine (invokePrefix @ pre @ t) = None"
proof -
  have no: False if "isPlausibleProgramID pid" "invokePrefix @ pre @ t = invokePrefix @ pid @ r" for pid r
    using plausible_prefix [OF that(1) _ assms, of t r] that(2) not_base58 [of "CHR '':''"] by simp
  show "parseInvokeLine (invokePrefix @ pre @ t) = None"
    using no parseInvokeLine_SomeD [of "invokePrefix @ pre @ t"] by (metis not_None_eq surj_pair)
  show "parsePopLine (invokePrefix @ pre @ t) = None"
    using no parsePopLine_SomeD [of "invokePrefix @ pre @ t"] by (metis not_None_eq)
qed

lemma log_line_not_framing:
  "parseInvokeLine (''Program log: '' @ t) = None" "parsePopLine (''Program log: '' @ t) = None"
  "cutPrefix (''Program log: '' @ t) programDataPrefix = None"
  using not_framing [of "''log: ''" t] by (simp_all add: invokePrefix_def cutPrefix_def programDataPrefix_def)

lemma data_line_not_framing:
  "parseInvokeLine (programDataPrefix @ t) = None" "parsePopLine (programDataPrefix @ t) = None"
  using not_framing [of "''data: ''" t] by (simp_all add: invokePrefix_def programDataPrefix_def)

lemma atoi_dec_nat:
  assumes d: "d < 2 ^ 63"
  shows "atoi (dec_nat d) = Some (int d)"
proof -
  obtain c cs where c: "dec_nat d = c # cs"
    using parse_dec_nat [of d] by (cases "dec_nat d") (auto simp: parse_dec_def)
  then have "isDigit c" using dec_nat_not_minus [of c d] by simp
  then have "c \<noteq> CHR ''-''" "c \<noteq> CHR ''+''" by (auto simp: isDigit_def)
  moreover have "int d < 2 ^ 63" using d by (metis of_nat_less_iff of_nat_numeral of_nat_power)
  ultimately show ?thesis using c parse_dec_nat [of d] by (simp add: atoi_def)
qed

lemma parseInvokeLine_invoke:
  assumes "isPlausibleProgramID pid" "0 < d" "d < 2 ^ 63"
  shows "parseInvokeLine (invokePrefix @ pid @ '' invoke ['' @ dec_nat d @ '']'') = Some (pid, int d)"
proof -
  have "cut (pid @ '' invoke ['' @ dec_nat d @ '']'') '' invoke ['' = Some (pid, dec_nat d @ '']'')"
    using cut_at_first [of "CHR '' ''" pid "''invoke [''" "dec_nat d @ '']''"]
      plausible_chars [OF assms(1) not_base58, of "CHR '' ''"] by simp
  then show ?thesis using assms by (simp add: parseInvokeLine_def atoi_dec_nat)
qed

lemma success_line:
  assumes "isPlausibleProgramID pid"
  shows "parseInvokeLine (invokePrefix @ pid @ '' success'') = None"
    and "parsePopLine (invokePrefix @ pid @ '' success'') = Some pid"
proof -
  have "cut (pid @ '' success'') '' invoke ['' = None"
  proof (rule ccontr)
    assume "cut (pid @ '' success'') '' invoke ['' \<noteq> None"
    then obtain a b where "pid @ '' success'' = a @ '' invoke ['' @ b" by (auto dest: cut_SomeD)
    then have "CHR ''['' \<in> set (pid @ '' success'')" by simp
    with plausible_chars [OF assms not_base58, of "CHR ''[''"] show False by simp
  qed
  then show "parseInvokeLine (invokePrefix @ pid @ '' success'') = None"
    by (simp add: parseInvokeLine_def)
  show "parsePopLine (invokePrefix @ pid @ '' success'') = Some pid"
    using assms cutSuffix_append [of pid "'' success''"] by (simp add: parsePopLine_def)
qed

subsection \<open>Attribution of a rendered log\<close>

abbreviation top_of :: "string list \<Rightarrow> string" where
  "top_of stack \<equiv> (if stack = [] then '''' else last stack)"

lemma attribute_items:
  assumes "\<And>it rest. it \<in> set items \<Longrightarrow> item_ok (length stack + 1) it \<Longrightarrow>
      attribute p (render (length stack + 1) it @ rest) stack =
      emitted p (top_of stack) it @ attribute p rest stack"
    and "list_all (item_ok (length stack + 1)) items"
  shows "attribute p (concat (map (render (length stack + 1)) items) @ rest) stack =
    concat (map (emitted p (top_of stack)) items) @ attribute p rest stack"
  using assms by (induction items) auto

lemma attribute_item:
  "item_ok (length stack + 1) it \<Longrightarrow>
   attribute p (render (length stack + 1) it @ rest) stack =
   emitted p (top_of stack) it @ attribute p rest stack"
proof (induction it arbitrary: stack rest)
  case (Data x)
  then show ?case by (simp add: data_line_not_framing)
next
  case (Log t)
  then show ?case using log_line_not_framing [of t] by simp
next
  case (Call pid body)
  let ?d = "length stack + 1" and ?lastl = "invokePrefix @ pid @ '' success''"
  from Call.prems have ok: "isPlausibleProgramID pid" "?d < 2 ^ 63"
    and body: "list_all (item_ok (length (stack @ [pid]) + 1)) body" by simp_all
  have inv: "parseInvokeLine (invokePrefix @ pid @ '' invoke ['' @ dec_nat ?d @ '']'') = Some (pid, int ?d)"
    by (rule parseInvokeLine_invoke) (use ok in auto)
  have "attribute p (render ?d (Call pid body) @ rest) stack =
      attribute p (concat (map (render (length (stack @ [pid]) + 1)) body) @ ?lastl # rest) (stack @ [pid])"
    using inv by simp
  also have "\<dots> = concat (map (emitted p (top_of (stack @ [pid]))) body) @ attribute p (?lastl # rest) (stack @ [pid])"
    by (rule attribute_items [OF Call.IH body])
  also have "attribute p (?lastl # rest) (stack @ [pid]) = attribute p rest stack"
    using success_line [OF ok(1)] by simp
  finally show ?case by simp
qed simp

lemma attribute_rendered:
  "list_all (item_ok 1) items \<Longrightarrow>
   attribute p (concat (map (render 1) items)) [] = concat (map (emitted p '''') items)"
  using attribute_items [of items "[]" p "[]"] attribute_item [of "[]"] by simp

section \<open>The in-memory repository\<close>

text \<open>It never fails, so ingesting a fetched transaction always succeeds.\<close>

lemma ingest_lines_memory_ok:
  "fst (ingest_lines memoryEvents cfg now role p sig slot lines stack i es) = Inr ()"
proof (induction lines arbitrary: stack i es)
  case (Cons line lines)
  then show ?case
    by (auto simp: memoryEvents_def memExists_def memCreate_def split: option.split bool.split)
qed simp

lemma ingest_lines_memory:
  "\<exists>es'. ingest_lines memoryEvents cfg now role p sig slot lines stack i es = (Inr (), es') \<and>
     map_of es' = add_new (map_of es) event_key
       (line_events cfg now role p sig slot i (attribute p lines stack))"
proof -
  obtain r es' where e: "ingest_lines memoryEvents cfg now role p sig slot lines stack i es = (r, es')"
    by fastforce
  then have "r = Inr ()" using ingest_lines_memory_ok [of cfg now role p sig slot lines stack i es] by simp
  with e me.ingest_lines_ok show ?thesis by blast
qed

section \<open>Properties\<close>

text \<open>C3: ingesting a successful transaction whose log the runtime printed for a tree of
  invocations succeeds and adds exactly the decoded events of the data lines the scanned
  program itself emitted, in execution order and numbered among themselves, keeping what is
  stored. No other program can forge one of its events, neither by logging text that imitates
  the runtime's framing nor by emitting data of its own.\<close>

theorem ingest_stores_emitted:
  assumes "GetTransaction src (Signature sig) (commitment cfg) = Inr tx" "\<not> txMetaErr tx"
    and "txLogMessages tx = concat (map (render 1) items)" "list_all (item_ok 1) items"
  shows "\<exists>es'. ingestTransaction src memoryEvents cfg now role programID sig es = (Inr (), es') \<and>
    map_of es' = add_new (map_of es) event_key
      (line_events cfg now role programID (Signature sig) (txSlot tx) 0
        (concat (map (emitted programID '''') items)))"
  using ingest_lines_memory [of cfg now role programID "Signature sig" "txSlot tx" "txLogMessages tx" "[]" 0 es]
    assms attribute_rendered [OF assms(4), of programID] by (simp add: ingestTransaction_def)

text \<open>Ingesting a transaction a second time, at any later time, changes nothing: whatever
  the log says, every event of it is already stored under its key.\<close>

theorem ingest_idempotent:
  assumes "ingestTransaction src memoryEvents cfg now role programID sig es = (Inr (), es')"
  shows "\<exists>es''. ingestTransaction src memoryEvents cfg now' role programID sig es' = (Inr (), es'') \<and>
    map_of es'' = map_of es'"
proof (cases "GetTransaction src (Signature sig) (commitment cfg)")
  case (Inl a)
  with assms show ?thesis by (simp add: ingestTransaction_def)
next
  case (Inr tx)
  show ?thesis
  proof (cases "txMetaErr tx")
    case True
    with assms Inr show ?thesis by (simp add: ingestTransaction_def)
  next
    case False
    let ?att = "attribute programID (txLogMessages tx) []"
    let ?evs = "\<lambda>now. line_events cfg now role programID (Signature sig) (txSlot tx) 0 ?att"
    from assms Inr False have "map_of es' = add_new (map_of es) event_key (?evs now)"
      by (simp add: ingestTransaction_def me.ingest_lines_ok)
    moreover have "event_key ` set (?evs now') = event_key ` set (?evs now)"
      by (metis line_events_keys set_map)
    ultimately have "event_key ` set (?evs now') \<subseteq> dom (map_of es')" by (simp add: dom_add_new)
    then have "add_new (map_of es') event_key (?evs now') = map_of es'" by (rule add_new_idem)
    with ingest_lines_memory [of cfg now' role programID "Signature sig" "txSlot tx" "txLogMessages tx" "[]" 0 es']
      Inr False show ?thesis by (simp add: ingestTransaction_def)
  qed
qed

section \<open>Witnesses\<close>

text \<open>A program (all twos) that imitates the framing of another one (all ones) in its log and
  emits data, called by it between two data lines of its own.\<close>

definition demo_items :: "item list" where
  "demo_items =
    [Call (replicate 32 CHR ''1'')
      [Data ''AAAA'',
       Call (replicate 32 CHR ''2'')
         [Log ''11111111111111111111111111111111 invoke [2]'', Data ''BBBB''],
       Data ''CCCC'']]"

definition demo_tx :: Tx where
  "demo_tx = \<lparr>txSlot = 7, txMetaErr = False, txLogMessages = concat (map (render 1) demo_items)\<rparr>"

definition demo_source :: source where
  "demo_source =
    \<lparr>GetSlot = (\<lambda>_. Inr 7), GetSignaturesForAddress = (\<lambda>_ _ _ _ _. Inr []),
     GetTransaction = (\<lambda>_ _. Inr demo_tx)\<rparr>"

definition demo_config :: config where
  "demo_config =
    \<lparr>programIDs = [(RoleVault, replicate 32 CHR ''1'')], chainID = 1, commitment = ''finalized'',
     startSlot = 0, registry = (\<lambda>_. Some (\<lambda>_. None)), b58 = (\<lambda>_. ''k'')\<rparr>"

definition demo_sig :: SigInfo where
  "demo_sig = \<lparr>Signature = ''s'', Slot = 7, SigErr = False\<rparr>"

lemma plausible_replicate:
  "c \<in> set base58Alphabet \<Longrightarrow> 32 \<le> n \<Longrightarrow> n \<le> 44 \<Longrightarrow> isPlausibleProgramID (replicate n c)"
  by (simp add: isPlausibleProgramID_def list_all_iff)

lemma demo_ids: "isPlausibleProgramID (replicate 32 CHR ''1'')" "isPlausibleProgramID (replicate 32 CHR ''2'')"
  by (rule plausible_replicate; simp add: base58Alphabet_def)+

lemma demo_items_ok: "list_all (item_ok 1) demo_items"
  unfolding demo_items_def using demo_ids by simp

theorem ingest_stores_emitted_witness:
  "concat (map (emitted (replicate 32 CHR ''1'') '''') demo_items) = [''AAAA'', ''CCCC''] \<and>
   (\<exists>es'. ingestTransaction demo_source memoryEvents demo_config 5 RoleVault (replicate 32 CHR ''1'')
      demo_sig [] = (Inr (), es') \<and>
    map_of es' = add_new (map_of []) event_key
      (line_events demo_config 5 RoleVault (replicate 32 CHR ''1'') ''s'' 7 0 [''AAAA'', ''CCCC'']))"
proof -
  have "replicate 32 CHR ''1'' \<noteq> replicate 32 CHR ''2''" by (simp add: replicate_eq_replicate)
  then have e: "concat (map (emitted (replicate 32 CHR ''1'') '''') demo_items) = [''AAAA'', ''CCCC'']"
    unfolding demo_items_def by simp
  show ?thesis
    using ingest_stores_emitted [of demo_source demo_sig demo_config demo_tx demo_items
        5 RoleVault "replicate 32 CHR ''1''" "[]"] demo_items_ok e
    by (simp add: demo_source_def demo_sig_def demo_tx_def)
qed

theorem ingest_idempotent_witness:
  "\<exists>es' es''. ingestTransaction demo_source memoryEvents demo_config 5 RoleVault (replicate 32 CHR ''1'')
      demo_sig [] = (Inr (), es') \<and>
    ingestTransaction demo_source memoryEvents demo_config 9 RoleVault (replicate 32 CHR ''1'')
      demo_sig es' = (Inr (), es'') \<and> map_of es'' = map_of es'"
proof -
  obtain es' where es': "ingestTransaction demo_source memoryEvents demo_config 5 RoleVault (replicate 32 CHR ''1'')
      demo_sig [] = (Inr (), es')"
    using ingest_lines_memory [of demo_config 5 RoleVault "replicate 32 CHR ''1''" "''s''" "txSlot demo_tx"
        "txLogMessages demo_tx" "[]" 0 "[]"]
    by (auto simp: ingestTransaction_def demo_source_def demo_sig_def demo_tx_def)
  with ingest_idempotent [OF es', of 9] show ?thesis by blast
qed

end
