(* ===== verification/IndexerGap.thy ===== *)
theory IndexerGap
  imports IndexerLogs
begin

text \<open>
  The indexer never skips a signature: the safety of \<open>pollProgram\<close> (\<^verbatim>\<open>indexer.go\<close>) with respect
  to a program's history. A history is the list of the program's signatures, newest first;
  it grows at the front. The RPC node serves prefixes of what lies below the cursor. The
  invariant of a checkpoint row says that everything at or below the contiguous prefix is
  accounted for, and, while a backfill is open, so is the slice between its target and its
  cursor. The lemmas follow the code: paging, the loop over the signatures, the three ends of
  a poll; the last part lifts the invariant to all runs of the indexer.
\<close>

section \<open>Histories\<close>

definition after :: "string \<Rightarrow> SigInfo list \<Rightarrow> SigInfo list" where
  "after before H = (if before = '''' then H else tl (dropWhile (\<lambda>s. Signature s \<noteq> before) H))"

definition history_ok :: "SigInfo list \<Rightarrow> bool" where
  "history_ok H \<longleftrightarrow> distinct (map Signature H) \<and> '''' \<notin> set (map Signature H) \<and>
     sorted_wrt (\<lambda>a b. Slot b \<le> Slot a) H"

text \<open>The slots never increase towards the older signatures; several signatures of a program may share one.
  A signature is crowded when an older one of the program lies in the same slot.\<close>

definition crowded :: "SigInfo list \<Rightarrow> SigInfo \<Rightarrow> bool" where
  "crowded H x \<longleftrightarrow> (\<exists>newer older. H = newer @ x # older \<and> Slot x \<in> Slot ` set older)"

lemma crowded_grow: "crowded H x \<Longrightarrow> crowded (new @ H) x"
  unfolding crowded_def by (metis append.assoc)

text \<open>
  What is assumed of \<^verbatim>\<open>getSignaturesForAddress\<close>: a page lists what follows the cursor, newest
  first and without holes; it may stop early. A \<open>complete\<close> node stops early only at the end.
\<close>

definition serves :: "source \<Rightarrow> config \<Rightarrow> string \<Rightarrow> SigInfo list \<Rightarrow> bool" where
  "serves src cfg program H \<longleftrightarrow>
     (\<forall>before page. GetSignaturesForAddress src program sigPageLimit before '''' (commitment cfg) = Inr page \<longrightarrow>
        prefix page (after before H))"

definition complete :: "source \<Rightarrow> config \<Rightarrow> string \<Rightarrow> SigInfo list \<Rightarrow> bool" where
  "complete src cfg program H \<longleftrightarrow>
     (\<forall>before page. GetSignaturesForAddress src program sigPageLimit before '''' (commitment cfg) = Inr page \<longrightarrow>
        length page < sigPageLimit \<longrightarrow> page = after before H)"

lemma history_sig: "history_ok H \<Longrightarrow> x \<in> set H \<Longrightarrow> Signature x \<noteq> ''''"
  by (force simp: history_ok_def)

lemma history_split_unique:
  assumes "history_ok H" "H = newer @ s # older" "H = newer' @ s' # older'" "Signature s = Signature s'"
  shows "newer = newer' \<and> s = s' \<and> older = older'"
proof -
  have d: "distinct (map Signature H)" using assms(1) by (simp add: history_ok_def)
  have "map Signature H ! length newer = map Signature H ! length newer'"
    using assms(2-4) by (metis length_append less_add_Suc1 list.size(4) add_Suc_right nth_append_length nth_map)
  moreover have "length newer < length (map Signature H)" using assms(2) by simp
  moreover have "length newer' < length (map Signature H)" using assms(3) by simp
  ultimately have "length newer = length newer'" using d nth_eq_iff_index_eq by blast
  with assms(2,3) show ?thesis by (simp add: append_eq_append_conv)
qed

lemma after_Nil [simp]: "after '''' H = H"
  by (simp add: after_def)

lemma after_split:
  assumes "history_ok H" "H = newer @ s # older"
  shows "after (Signature s) H = older"
proof -
  have "Signature s \<notin> set (map Signature newer)" "Signature s \<noteq> ''''"
    using assms by (auto simp: history_ok_def)
  then have "dropWhile (\<lambda>x. Signature x \<noteq> Signature s) H = s # older"
    unfolding assms(2) by (subst dropWhile_append2) (auto simp: image_iff)
  with \<open>Signature s \<noteq> ''''\<close> show ?thesis by (simp add: after_def)
qed

lemma after_suffix: "\<exists>pre. H = pre @ after before H"
proof (cases "before = ''''")
  case False
  let ?d = "dropWhile (\<lambda>s. Signature s \<noteq> before) H" and ?t = "takeWhile (\<lambda>s. Signature s \<noteq> before) H"
  have H: "H = ?t @ ?d" by simp
  have a: "after before H = tl ?d" using False by (simp add: after_def)
  show ?thesis
  proof (cases ?d)
    case Nil
    with a have "H = H @ after before H" by simp
    then show ?thesis ..
  next
    case (Cons x xs)
    with a H have "H = (?t @ [x]) @ after before H" by (metis append.assoc append_Cons append_Nil list.sel(3))
    then show ?thesis ..
  qed
qed simp

lemma after_page:
  assumes "history_ok H" "after before H = page @ rest" "page \<noteq> []"
  shows "after (Signature (last page)) H = rest"
proof -
  from after_suffix obtain pre where "H = pre @ after before H" by blast
  with assms(2,3) have "H = (pre @ butlast page) @ last page # rest" by simp
  with assms(1) show ?thesis by (rule after_split)
qed

section \<open>Paging\<close>

lemma takeWhile_split:
  assumes "list_ex P xs"
  shows "\<exists>c ys. xs = takeWhile (\<lambda>x. \<not> P x) xs @ c # ys \<and> P c"
proof -
  from assms have "dropWhile (\<lambda>x. \<not> P x) xs \<noteq> []" by (auto simp: list_ex_iff dropWhile_eq_Nil_conv)
  then obtain c ys where d: "dropWhile (\<lambda>x. \<not> P x) xs = c # ys" by (cases "dropWhile (\<lambda>x. \<not> P x) xs") auto
  moreover from d have "P c" using hd_dropWhile [of "\<lambda>x. \<not> P x" xs] by simp
  ultimately show ?thesis by (metis takeWhile_dropWhile_id)
qed

text \<open>What paging has established when it stops with the collected signatures \<open>X\<close>.\<close>

definition paged :: "bool \<Rightarrow> string \<Rightarrow> u64 \<Rightarrow> SigInfo list \<Rightarrow> SigInfo list \<Rightarrow> bool \<Rightarrow> bool" where
  "paged compl until untilSlot below X reached \<longleftrightarrow>
     prefix X below \<and>
     (until \<noteq> '''' \<longrightarrow> (\<forall>x\<in>set X. \<not> at_prefix until untilSlot x)) \<and>
     (reached \<longrightarrow>
        (if until = '''' then compl \<longrightarrow> X = below
         else (\<exists>c rest. below = X @ c # rest \<and> at_prefix until untilSlot c) \<or>
              (X = [] \<and> (compl \<longrightarrow> below = []))))"

lemma fetch_pages_paged:
  assumes "history_ok H" "serves src cfg program H"
    and "fetch_pages src cfg program until untilSlot pages before all = Inr (all', reached, short)"
    and "H0 = all @ after before H" "until \<noteq> '''' \<longrightarrow> (\<forall>x\<in>set all. \<not> at_prefix until untilSlot x)"
  shows "paged (complete src cfg program H) until untilSlot H0 all' reached"
  using assms(3-)
proof (induction pages arbitrary: before all)
  case 0
  then show ?case by (simp add: paged_def)
next
  case (Suc pages)
  from Suc.prems(1) obtain page where page:
    "GetSignaturesForAddress src program sigPageLimit before '''' (commitment cfg) = Inr page"
    by (auto split: sum.splits)
  with assms(2) obtain rest where rest: "after before H = page @ rest"
    unfolding serves_def prefix_def by blast
  let ?crossed = "until \<noteq> '''' \<and> list_ex (at_prefix until untilSlot) page"
  show ?case
  proof (cases "page = []")
    case True
    with page Suc.prems have "all' = all" "reached \<longleftrightarrow> until = '''' \<or> all = []" by auto
    moreover have "complete src cfg program H \<Longrightarrow> after before H = []"
      using page True unfolding complete_def by (force simp: sigPageLimit_def)
    ultimately show ?thesis using Suc.prems(2,3) by (auto simp: paged_def)
  next
    case ne: False
    show ?thesis
    proof (cases ?crossed)
      case True
      with page ne Suc.prems have all': "all' = all @ takeWhile (\<lambda>s. \<not> at_prefix until untilSlot s) page"
        and "reached" by auto
      moreover from takeWhile_split [OF conjunct2 [OF True]] obtain c ys where
        "page = takeWhile (\<lambda>x. \<not> at_prefix until untilSlot x) page @ c # ys" "at_prefix until untilSlot c" by blast
      then have "H0 = all' @ c # ys @ rest" "at_prefix until untilSlot c"
        unfolding Suc.prems(2) rest all' by (metis append.assoc append_Cons, simp)
      ultimately show ?thesis using Suc.prems(3) True
        by (auto simp: paged_def dest: set_takeWhileD)
    next
      case nc: False
      then have below: "until \<noteq> '''' \<longrightarrow> (\<forall>x\<in>set (all @ page). \<not> at_prefix until untilSlot x)"
        using Suc.prems(3) by (auto simp: list_ex_iff)
      show ?thesis
      proof (cases "length page < sigPageLimit")
        case True
        with page ne nc Suc.prems have "all' = all @ page" "reached \<longleftrightarrow> until = ''''" by auto
        moreover have "complete src cfg program H \<Longrightarrow> rest = []"
          using page True rest unfolding complete_def by force
        ultimately show ?thesis using below Suc.prems(2) rest by (auto simp: paged_def)
      next
        case False
        with page ne nc Suc.prems have
          "fetch_pages src cfg program until untilSlot pages (Signature (last page)) (all @ page) =
            Inr (all', reached, short)" by auto
        then show ?thesis
          by (rule Suc.IH) (use below Suc.prems(2) rest after_page [OF assms(1) rest ne] in auto)
      qed
    qed
  qed
qed

lemma fetchNewSignatures_paged:
  assumes "history_ok H" "serves src cfg program H"
    and "fetchNewSignatures src cfg program before until untilSlot = Inr (sigs, reached)"
  shows "paged (complete src cfg program H) until untilSlot (after before H) (rev sigs) reached"
proof -
  from assms(3) obtain all short where
    "fetch_pages src cfg program until untilSlot maxFetchPages before [] = Inr (all, reached, short)"
    "sigs = rev all"
    unfolding fetchNewSignatures_def by (auto simp: res_iff split: if_splits)
  with fetch_pages_paged [OF assms(1,2) this(1)] show ?thesis by simp
qed

text \<open>Whatever lies from the first signature at or below the checkpoint slot on is the checkpointed one,
  an older one, or crowded.\<close>

lemma crossing_is_prefix:
  assumes H: "history_ok H" and s: "H = newer @ s # older"
    and X: "H = pre @ X @ c # rest" "length pre \<le> length newer"
    and c: "at_prefix (Signature s) (Slot s) c" and nX: "\<forall>x\<in>set X. \<not> at_prefix (Signature s) (Slot s) x"
    and x: "x \<in> set (c # rest)"
  shows "x \<in> set (s # older) \<or> crowded H x"
proof -
  have sl: "sorted_wrt (\<lambda>a b. Slot b \<le> Slot a) H" and di: "distinct (map Signature H)"
    using H by (auto simp: history_ok_def)
  have "length (pre @ X) \<le> length newer"
  proof (rule ccontr)
    assume "\<not> length (pre @ X) \<le> length newer"
    then have "length newer - length pre < length X" using X(2) by simp
    moreover have "X ! (length newer - length pre) = s"
      using s X \<open>length newer - length pre < length X\<close>
      by (metis append.assoc le_add_diff_inverse nth_append nth_append_length nth_append_length_plus)
    ultimately have "s \<in> set X" by (metis nth_mem)
    with nX show False by (auto simp: at_prefix_def)
  qed
  define gap where "gap = drop (length (pre @ X)) newer"
  have e: "newer @ s # older = (pre @ X) @ c # rest" using s X(1) by simp
  have "take (length (pre @ X)) newer = pre @ X"
    using arg_cong [OF e, of "take (length (pre @ X))"] \<open>length (pre @ X) \<le> length newer\<close>
    by simp
  then have gap1: "newer = (pre @ X) @ gap" unfolding gap_def by (metis append_take_drop_id)
  with e have gap2: "gap @ s # older = c # rest" by simp
  note gap = gap1 gap2
  show ?thesis
  proof (cases "x \<in> set gap")
    case False
    with x gap(2) show ?thesis by (metis Un_iff set_append)
  next
    case True
    then obtain g g' where g: "gap = g @ x # g'" by (meson split_list)
    have cg: "c \<in> set gap" using True gap(2) by (cases gap) auto
    then have "Signature c \<noteq> Signature s" using di s gap(1) by (auto simp: image_iff)
    with c have "Slot c \<le> Slot s" by (simp add: at_prefix_def)
    moreover have "Slot x \<le> Slot c" using sl s gap True g by (cases g) (auto simp: sorted_wrt_append)
    moreover have "Slot s \<le> Slot x" using sl s gap(1) True by (auto simp: sorted_wrt_append)
    ultimately have "Slot x = Slot s" by simp
    then have "Slot x \<in> Slot ` set (g' @ s # older)" by (simp add: image_Un)
    moreover have "H = ((pre @ X) @ g) @ x # (g' @ s # older)" using s gap(1) g by simp
    ultimately show ?thesis unfolding crowded_def by blast
  qed
qed

section \<open>The invariant of a checkpoint row\<close>

text \<open>
  A signature is accounted for when the code may drop it (a failed transaction, one below the
  start slot) or all its events are stored. \<open>content\<close> is what the chain holds under a signature.
\<close>

definition tx_events :: "config \<Rightarrow> ProgramRole \<Rightarrow> string \<Rightarrow> string \<Rightarrow> Tx \<Rightarrow> ChainEvent list" where
  "tx_events cfg role programID sig tx =
     line_events cfg 0 role programID sig (txSlot tx) 0 (attribute programID (txLogMessages tx) [])"

definition accounted :: "(string \<Rightarrow> Tx) \<Rightarrow> config \<Rightarrow> ProgramRole \<Rightarrow> string \<Rightarrow> EventKey set \<Rightarrow> SigInfo \<Rightarrow> bool" where
  "accounted content cfg role programID keys s \<longleftrightarrow>
     SigErr s \<or> (0 < startSlot cfg \<and> Slot s < startSlot cfg) \<or> txMetaErr (content (Signature s)) \<or>
     event_key ` set (tx_events cfg role programID (Signature s) (content (Signature s))) \<subseteq> keys"

text \<open>What the checkpoint vouches for: a signature that is accounted for, or crowded.\<close>

definition settled :: "SigInfo list \<Rightarrow> (string \<Rightarrow> Tx) \<Rightarrow> config \<Rightarrow> ProgramRole \<Rightarrow> string \<Rightarrow> EventKey set \<Rightarrow> SigInfo \<Rightarrow> bool" where
  "settled H content cfg role programID keys s \<longleftrightarrow> accounted content cfg role programID keys s \<or> crowded H s"

definition prefix_ok :: "(SigInfo \<Rightarrow> bool) \<Rightarrow> SigInfo list \<Rightarrow> string \<Rightarrow> u64 \<Rightarrow> bool" where
  "prefix_ok acc H sig slot \<longleftrightarrow>
     (\<exists>newer s older. H = newer @ s # older \<and> Signature s = sig \<and> Slot s = slot \<and>
        acc s \<and> (\<forall>x\<in>set older. acc x))"

definition frontier_ok :: "(SigInfo \<Rightarrow> bool) \<Rightarrow> SigInfo list \<Rightarrow> IndexerCheckpoint \<Rightarrow> bool" where
  "frontier_ok acc H cp \<longleftrightarrow>
     (\<exists>newer mid below. H = newer @ mid @ below \<and> mid \<noteq> [] \<and> (\<forall>x\<in>set mid. acc x) \<and>
        Signature (last mid) = cpBackfillCursor cp \<and> Signature (hd mid) = cpBackfillTargetHash cp \<and>
        Slot (hd mid) = cpBackfillTargetSlot cp \<and>
        (cpLastBlockHash cp \<noteq> '''' \<longrightarrow> cpLastBlockHash cp \<in> Signature ` set below))"

definition row_ok :: "(SigInfo \<Rightarrow> bool) \<Rightarrow> SigInfo list \<Rightarrow> IndexerCheckpoint \<Rightarrow> bool" where
  "row_ok acc H cp \<longleftrightarrow>
     (cpLastBlockHash cp \<noteq> '''' \<longrightarrow> prefix_ok acc H (cpLastBlockHash cp) (cpLastBlock cp)) \<and>
     (cpBackfillCursor cp \<noteq> '''' \<longrightarrow> frontier_ok acc H cp)"

definition tx_serves :: "source \<Rightarrow> config \<Rightarrow> (string \<Rightarrow> Tx) \<Rightarrow> bool" where
  "tx_serves src cfg content \<longleftrightarrow>
     (\<forall>sig tx. GetTransaction src sig (commitment cfg) = Inr tx \<longrightarrow> tx = content sig)"

lemma accounted_mono: "accounted content cfg role p K s \<Longrightarrow> K \<subseteq> K' \<Longrightarrow> accounted content cfg role p K' s"
  by (auto simp: accounted_def)

lemma settled_mono: "settled H content cfg role p K s \<Longrightarrow> K \<subseteq> K' \<Longrightarrow> settled H content cfg role p K' s"
  using accounted_mono by (auto simp: settled_def)

lemma settled_grow: "settled H content cfg role p K s \<Longrightarrow> settled (new @ H) content cfg role p K s"
  using crowded_grow by (auto simp: settled_def)

lemma settled_accounted [simp]: "accounted content cfg role p K s \<Longrightarrow> settled H content cfg role p K s"
  by (simp add: settled_def)

lemma settled_crowded [simp]: "crowded H s \<Longrightarrow> settled H content cfg role p K s"
  by (simp add: settled_def)

lemma prefix_ok_mono:
  assumes "prefix_ok acc H sig slot" "\<And>x. acc x \<Longrightarrow> acc' x"
  shows "prefix_ok acc' (new @ H) sig slot"
proof -
  from assms(1) obtain newer s older where H: "H = newer @ s # older" and s: "Signature s = sig" "Slot s = slot"
    "acc s" "\<forall>x\<in>set older. acc x" unfolding prefix_ok_def by blast
  show ?thesis unfolding prefix_ok_def
    by (rule exI [of _ "new @ newer"], rule exI [of _ s], rule exI [of _ older]) (simp add: H s assms(2))
qed

lemma frontier_ok_mono:
  assumes "frontier_ok acc H cp" "\<And>x. acc x \<Longrightarrow> acc' x"
  shows "frontier_ok acc' (new @ H) cp"
proof -
  from assms(1) obtain newer mid below where H: "H = newer @ mid @ below" "\<forall>x\<in>set mid. acc x"
    and rest: "mid \<noteq> []" "Signature (last mid) = cpBackfillCursor cp"
      "Signature (hd mid) = cpBackfillTargetHash cp" "Slot (hd mid) = cpBackfillTargetSlot cp"
      "cpLastBlockHash cp \<noteq> '''' \<longrightarrow> cpLastBlockHash cp \<in> Signature ` set below"
    unfolding frontier_ok_def by blast
  show ?thesis unfolding frontier_ok_def
    by (rule exI [of _ "new @ newer"], rule exI [of _ mid], rule exI [of _ below])
      (use H rest assms(2) in simp)
qed

lemma row_ok_mono: "row_ok acc H cp \<Longrightarrow> (\<And>x. acc x \<Longrightarrow> acc' x) \<Longrightarrow> row_ok acc' H cp"
  unfolding row_ok_def using prefix_ok_mono [of acc H _ _ acc' "[]"] frontier_ok_mono [of acc H _ acc' "[]"] by simp

lemma row_ok_grow:
  "row_ok acc H cp \<Longrightarrow> (\<And>x. acc x \<Longrightarrow> acc' x) \<Longrightarrow> row_ok acc' (new @ H) cp"
  unfolding row_ok_def using prefix_ok_mono [of acc H _ _ acc' new] frontier_ok_mono [of acc H _ acc' new] by simp

lemma row_ok_settled_grow:
  "row_ok (settled H content cfg role p K) H cp \<Longrightarrow> row_ok (settled (new @ H) content cfg role p K) (new @ H) cp"
  by (erule row_ok_grow) (rule settled_grow)

lemma row_ok_new [simp]: "row_ok acc H (newCheckpoint c a)"
  by (simp add: row_ok_def newCheckpoint_def)

lemma row_ok_heartbeat [simp]: "row_ok acc H (cp\<lparr>cpLastSuccessfulPollAt := t\<rparr>) \<longleftrightarrow> row_ok acc H cp"
  by (simp add: row_ok_def frontier_ok_def)

lemma row_ok_advance:
  "H = newer @ s # older \<Longrightarrow> acc s \<Longrightarrow> \<forall>x\<in>set older. acc x \<Longrightarrow>
   row_ok acc H (cp\<lparr>cpLastBlock := Slot s, cpLastBlockHash := Signature s, cpBackfillCursor := '''',
     cpBackfillTargetHash := '''', cpBackfillTargetSlot := 0, cpUpdatedAt := t\<rparr>)"
  unfolding row_ok_def prefix_ok_def by simp blast

lemma fetched_tail:
  assumes H: "history_ok H" and pre: "H = pre @ below"
    and ok: "until \<noteq> '''' \<longrightarrow> prefix_ok acc H until untilSlot \<and> until \<in> Signature ` set below"
    and paged: "paged compl until untilSlot below X reached"
    and compl: "until = '''' \<or> X = [] \<Longrightarrow> compl" and cr: "\<And>x. crowded H x \<Longrightarrow> acc x"
  shows "\<exists>tail. below = X @ tail \<and> (reached \<longrightarrow> (\<forall>x\<in>set tail. acc x)) \<and>
    (until \<noteq> '''' \<and> \<not> reached \<longrightarrow> until \<in> Signature ` set tail)"
proof -
  from paged obtain tail where tail: "below = X @ tail" unfolding paged_def prefix_def by blast
  show ?thesis
  proof (cases "until = ''''")
    case True
    with paged compl tail show ?thesis by (auto simp: paged_def)
  next
    case False
    with ok obtain newer s older where s: "H = newer @ s # older" "Signature s = until" "Slot s = untilSlot"
      and acc: "acc s" "\<forall>x\<in>set older. acc x" unfolding prefix_ok_def by blast
    from False ok obtain y where y: "y \<in> set below" "Signature y = until" by auto
    have di: "distinct (map Signature H)" using H by (simp add: history_ok_def)
    have le: "length pre \<le> length newer"
    proof (rule ccontr)
      assume "\<not> length pre \<le> length newer"
      then have "pre ! length newer = s" using s(1) pre by (metis not_le nth_append nth_append_length)
      then have "s \<in> set pre" using \<open>\<not> length pre \<le> length newer\<close> by (metis not_le nth_mem)
      with di y s(2) show False unfolding pre by force
    qed
    from paged False have nX: "\<forall>x\<in>set X. \<not> at_prefix until untilSlot x" by (simp add: paged_def)
    have "acc x" if "reached" "x \<in> set tail" for x
    proof (cases tail)
      case (Cons c rest)
      from paged False that(1) consider c' rest' where "below = X @ c' # rest'" "at_prefix until untilSlot c'"
        | "X = []" "compl \<longrightarrow> below = []" by (auto simp: paged_def)
      then show ?thesis
      proof cases
        case 1
        with tail Cons have c: "at_prefix until untilSlot c" by simp
        have "x \<in> set (s # older) \<or> crowded H x"
          by (rule crossing_is_prefix [OF H s(1) _ le]) (use pre tail Cons c nX s that(2) in simp_all)
        with acc cr show ?thesis by auto
      next
        case 2
        with compl tail Cons show ?thesis by simp
      qed
    qed (use that in simp)
    moreover have "until \<in> Signature ` set tail"
      using y nX tail by (auto simp: at_prefix_def)
    ultimately show ?thesis using tail by blast
  qed
qed

lemma fetch_pages_extends:
  "fetch_pages src cfg program until untilSlot pages before all = Inr (all', reached, short) \<Longrightarrow> prefix all all'"
proof (induction pages arbitrary: before all)
  case (Suc pages)
  then show ?case
    by (auto split: sum.splits if_splits dest!: Suc.IH) (auto simp: prefix_def)
qed simp

lemma fetch_pages_empty:
  assumes f: "fetch_pages src cfg program until untilSlot (Suc n) before [] = Inr ([], reached, short)"
  shows "reached"
proof -
  obtain page where "GetSignaturesForAddress src program sigPageLimit before [] (commitment cfg) = Inr page"
    using f by (auto split: sum.splits)
  with f show ?thesis
    by (cases "page = []") (auto split: if_splits dest!: fetch_pages_extends)
qed

lemma fetchNewSignatures_empty:
  assumes "fetchNewSignatures src cfg program before until untilSlot = Inr ([], reached)"
  shows "reached"
proof -
  from assms obtain short where
    "fetch_pages src cfg program until untilSlot maxFetchPages before [] = Inr ([], reached, short)"
    unfolding fetchNewSignatures_def by (auto simp: res_iff split: if_splits)
  moreover have "maxFetchPages = Suc 9" by (simp add: maxFetchPages_def)
  ultimately show ?thesis using fetch_pages_empty by metis
qed

section \<open>Checkpoint operations on the row\<close>

locale indexer_store = checkpoint_store CR stored + event_store ER lookup
  for CR :: "'m checkpoint_repo" and stored :: "'m \<Rightarrow> int \<Rightarrow> string \<Rightarrow> IndexerCheckpoint option"
    and ER :: "'e event_repo" and lookup :: "'e \<Rightarrow> EventKey \<Rightarrow> ChainEvent option"
begin

definition row :: "'m \<Rightarrow> int \<Rightarrow> string \<Rightarrow> IndexerCheckpoint" where
  "row m c p = (case stored m c p of None \<Rightarrow> newCheckpoint c p | Some cp \<Rightarrow> cp)"

lemma load_row:
  "loadProgramCheckpoint CR c p m = Inr (cp, existed) \<Longrightarrow>
   cp = row m c p \<and> (\<not> existed \<longrightarrow> cp = newCheckpoint c p)"
  by (auto simp: loadProgramCheckpoint_def row_def split: sum.splits if_splits
      dest: get_sound get_missing)

lemma row_keyed: "keyed m \<Longrightarrow> cpChainID (row m c p) = c \<and> cpAddress (row m c p) = p"
  by (auto simp: row_def keyed_def newCheckpoint_def split: option.split)

text \<open>A checkpoint operation loads the row, changes it and stores it; when it fails nothing changed.\<close>

definition updates :: "(IndexerCheckpoint \<Rightarrow> IndexerCheckpoint) \<Rightarrow> int \<Rightarrow> string \<Rightarrow> 'm
    \<Rightarrow> (idx_error + unit) \<times> 'm \<Rightarrow> bool" where
  "updates f c p m out \<longleftrightarrow>
     (case out of
        (Inl err, m') \<Rightarrow> m' = m
      | (Inr _, m') \<Rightarrow> keyed m' \<and> row m' c p = f (row m c p) \<and>
          (\<forall>c' p'. (c', p') \<noteq> (c, p) \<longrightarrow> row m' c' p' = row m c' p'))"

lemma updates_load_store:
  assumes "keyed m" "\<And>cp. cpChainID (f cp) = cpChainID cp" "\<And>cp. cpAddress (f cp) = cpAddress cp"
  shows "updates f c p m
    (case loadProgramCheckpoint CR c p m of Inl err \<Rightarrow> (Inl err, m) | Inr (cp, _) \<Rightarrow> store_checkpoint CR (f cp) m)"
proof (cases "loadProgramCheckpoint CR c p m")
  case (Inr a)
  obtain cp ex where a: "a = (cp, ex)" by fastforce
  with Inr load_row have cp: "cp = row m c p" by blast
  show ?thesis
  proof (cases "cpSet CR (f cp) m")
    case (Inr m')
    then have "keyed m'" using keyed_set assms(1) by blast
    moreover have "stored m' c' p' = (if c' = c \<and> p' = p then Some (f cp) else stored m c' p')" for c' p'
      using set_sound [OF Inr] assms(2,3) row_keyed [OF assms(1)] cp by simp
    ultimately show ?thesis using \<open>loadProgramCheckpoint CR c p m = Inr a\<close> a Inr cp
      by (simp add: updates_def store_checkpoint_def row_def)
  qed (use Inr a in \<open>simp add: updates_def store_checkpoint_def\<close>)
qed (simp add: updates_def)

lemma advance_updates:
  "keyed m \<Longrightarrow> updates (\<lambda>cp. cp\<lparr>cpLastBlock := slot, cpLastBlockHash := signature,
    cpBackfillCursor := '''', cpBackfillTargetHash := '''', cpBackfillTargetSlot := 0, cpUpdatedAt := now\<rparr>)
    c p m (advanceProgramCheckpoint CR now c p slot signature m)"
  unfolding advanceProgramCheckpoint_def by (rule updates_load_store) simp_all

lemma frontier_updates:
  "keyed m \<Longrightarrow> updates (\<lambda>cp. cp\<lparr>cpLastBlock := prefixSlot, cpLastBlockHash := prefixSig,
    cpBackfillCursor := cursor, cpBackfillTargetHash := targetSig, cpBackfillTargetSlot := targetSlot,
    cpUpdatedAt := now\<rparr>)
    c p m (setBackfillFrontier CR now c p prefixSlot prefixSig cursor targetSlot targetSig m)"
  unfolding setBackfillFrontier_def by (rule updates_load_store) simp_all

lemma heartbeat_updates:
  "keyed m \<Longrightarrow> updates (\<lambda>cp. cp\<lparr>cpLastSuccessfulPollAt := now\<rparr>) c p m (recordSuccessfulPoll CR now c p m)"
  unfolding recordSuccessfulPoll_def by (rule updates_load_store) simp_all

lemma updatesE:
  assumes "updates f c p m (r, m')" "keyed m"
  obtains (failed) err where "r = Inl err" "m' = m"
    | (updated) "r = Inr ()" "keyed m'" "row m' c p = f (row m c p)"
        "\<And>p'. p' \<noteq> p \<Longrightarrow> row m' c p' = row m c p'"
  using assms by (cases r) (auto simp: updates_def)

section \<open>The loop over the signatures\<close>

abbreviation keys :: "('m, 'e) idx_state \<Rightarrow> EventKey set" where
  "keys st \<equiv> dom (lookup (events st))"

lemma ingest_accounts:
  assumes "tx_serves src cfg content"
    and "ingestTransaction src ER cfg now role p sig es = (r, es')"
  shows "dom (lookup es) \<subseteq> dom (lookup es')"
    and "r = Inr () \<Longrightarrow> accounted content cfg role p (dom (lookup es')) sig"
proof -
  have "dom (lookup es) \<subseteq> dom (lookup es') \<and>
    (r = Inr () \<longrightarrow> accounted content cfg role p (dom (lookup es')) sig)"
  proof (cases "GetTransaction src (Signature sig) (commitment cfg)")
    case (Inl e)
    with assms(2) show ?thesis by (auto simp: ingestTransaction_def)
  next
    case (Inr tx)
    with assms(1) have tx: "content (Signature sig) = tx" by (auto simp: tx_serves_def)
    show ?thesis
    proof (cases "txMetaErr tx")
      case True
      with Inr assms(2) tx show ?thesis by (auto simp: ingestTransaction_def accounted_def)
    next
      case False
      with Inr assms(2) have run: "ingest_lines ER cfg now role p (Signature sig) (txSlot tx) (txLogMessages tx) [] 0 es = (r, es')"
        by (simp add: ingestTransaction_def)
      from ingest_lines_mono [OF run] have "dom (lookup es) \<subseteq> dom (lookup es')" by (rule map_le_implies_dom_le)
      moreover have "accounted content cfg role p (dom (lookup es')) sig" if "r = Inr ()"
      proof -
        have "event_key ` set (tx_events cfg role p (Signature sig) tx) \<subseteq> dom (lookup es')"
          using ingest_lines_ok [OF run [unfolded that]]
            line_events_keys [of cfg 0 role p "Signature sig" "txSlot tx" 0 "attribute p (txLogMessages tx) []" now]
          unfolding tx_events_def by (simp add: dom_add_new flip: set_map)
        with tx show ?thesis by (simp add: accounted_def)
      qed
      ultimately show ?thesis by blast
    qed
  qed
  then show "dom (lookup es) \<subseteq> dom (lookup es')"
    "r = Inr () \<Longrightarrow> accounted content cfg role p (dom (lookup es')) sig" by blast+
qed

text \<open>What one iteration does before it touches the checkpoint.\<close>

definition visited :: "source \<Rightarrow> config \<Rightarrow> int \<Rightarrow> ProgramRole \<Rightarrow> string \<Rightarrow> bool \<Rightarrow> SigInfo \<Rightarrow> 'e
    \<Rightarrow> (idx_error + unit) \<times> 'e" where
  "visited src cfg now role p firstSync sig es =
     (if SigErr sig \<or> (firstSync \<and> 0 < startSlot cfg \<and> Slot sig < startSlot cfg) then (Inr (), es)
      else ingestTransaction src ER cfg now role p sig es)"

lemma visited_accounts:
  assumes "tx_serves src cfg content" "visited src cfg now role p firstSync sig es = (r, es')"
  shows "dom (lookup es) \<subseteq> dom (lookup es')"
    and "r = Inr () \<Longrightarrow> accounted content cfg role p (dom (lookup es')) sig"
  using assms(2) ingest_accounts [OF assms(1), of now role p sig es]
  unfolding visited_def by (auto simp: accounted_def split: if_splits)

lemma visited_settles:
  assumes "tx_serves src cfg content" "visited src cfg now role p firstSync sig es = (r, es')"
  shows "dom (lookup es) \<subseteq> dom (lookup es')"
    and "r = Inr () \<Longrightarrow> settled H content cfg role p (dom (lookup es')) sig"
  using visited_accounts [OF assms] by (simp_all add: settled_def)

lemma poll_loop_step:
  "poll_loop src CR ER cfg now role p contiguous firstSync (sig # sigs) k st =
    (case visited src cfg now role p firstSync sig (events st) of
       (Inl err, es) \<Rightarrow> (Inl (ErrIngest (Signature sig) err), st\<lparr>events := es\<rparr>)
     | (Inr _, es) \<Rightarrow>
        (if contiguous \<and> checkpointBatchSize \<le> k + 1
         then (case advanceProgramCheckpoint CR now (chainID cfg) p (Slot sig) (Signature sig) (checkpoints st) of
                 (Inl err, m) \<Rightarrow> (Inl err, st\<lparr>events := es, checkpoints := m\<rparr>)
               | (Inr _, m) \<Rightarrow> poll_loop src CR ER cfg now role p contiguous firstSync sigs 0
                    (st\<lparr>events := es, checkpoints := m\<rparr>))
         else poll_loop src CR ER cfg now role p contiguous firstSync sigs
                (if contiguous then k + 1 else k) (st\<lparr>events := es\<rparr>)))"
proof -
  obtain v es where v: "visited src cfg now role p firstSync sig (events st) = (v, es)" by fastforce
  show ?thesis unfolding poll_loop.simps(2) Let_def visited_def [symmetric] v
    by (cases v; cases contiguous; cases "checkpointBatchSize \<le> k + 1") simp_all
qed

lemma poll_loop_split [consumes 1, case_names ingest_failed advance_failed advanced counted]:
  assumes "poll_loop src CR ER cfg now role p contiguous firstSync (sig # sigs) k st = (r, st')"
  obtains
    (ingest_failed) err es where "visited src cfg now role p firstSync sig (events st) = (Inl err, es)"
      "r = Inl (ErrIngest (Signature sig) err)" "st' = st\<lparr>events := es\<rparr>"
  | (advance_failed) es err m where "visited src cfg now role p firstSync sig (events st) = (Inr (), es)" "contiguous"
      "advanceProgramCheckpoint CR now (chainID cfg) p (Slot sig) (Signature sig) (checkpoints st) = (Inl err, m)"
      "r = Inl err" "st' = st\<lparr>events := es, checkpoints := m\<rparr>"
  | (advanced) es m where "visited src cfg now role p firstSync sig (events st) = (Inr (), es)" "contiguous"
      "advanceProgramCheckpoint CR now (chainID cfg) p (Slot sig) (Signature sig) (checkpoints st) = (Inr (), m)"
      "poll_loop src CR ER cfg now role p contiguous firstSync sigs 0 (st\<lparr>events := es, checkpoints := m\<rparr>) = (r, st')"
  | (counted) es where "visited src cfg now role p firstSync sig (events st) = (Inr (), es)"
      "poll_loop src CR ER cfg now role p contiguous firstSync sigs (if contiguous then k + 1 else k)
         (st\<lparr>events := es\<rparr>) = (r, st')"
proof -
  obtain v es where v: "visited src cfg now role p firstSync sig (events st) = (v, es)" by fastforce
  obtain a m where a: "advanceProgramCheckpoint CR now (chainID cfg) p (Slot sig) (Signature sig) (checkpoints st) = (a, m)"
    by fastforce
  note run = assms [unfolded poll_loop_step v a]
  show ?thesis
  proof (cases v)
    case (Inl err)
    with run v show ?thesis by (intro ingest_failed) auto
  next
    case (Inr u)
    with v have v': "visited src cfg now role p firstSync sig (events st) = (Inr (), es)" by simp
    show ?thesis
    proof (cases "contiguous \<and> checkpointBatchSize \<le> k + 1")
      case True
      with run Inr a v' show ?thesis by (cases a) (auto intro: advance_failed advanced)
    next
      case False
      with run Inr v' show ?thesis by (intro counted) auto
    qed
  qed
qed

text \<open>Events only grow; without the contiguous flag the checkpoints are left alone; a loop that
  finishes has accounted for every signature.\<close>

lemma poll_loop_events:
  assumes "tx_serves src cfg content"
  shows "poll_loop src CR ER cfg now role p contiguous firstSync sigs k st = (r, st') \<Longrightarrow>
    keys st \<subseteq> keys st' \<and> (\<not> contiguous \<longrightarrow> checkpoints st' = checkpoints st) \<and>
    (\<forall>n. r = Inr n \<longrightarrow> (\<forall>x\<in>set sigs. accounted content cfg role p (keys st') x))"
proof (induction sigs arbitrary: k st)
  case (Cons sig sigs)
  note acc = visited_accounts [OF assms]
  from Cons.prems show ?case
  proof (cases rule: poll_loop_split)
    case (advanced es m)
    have "accounted content cfg role p (keys st') sig"
      using accounted_mono acc(2) [OF advanced(1)] Cons.IH [OF advanced(4)] by fastforce
    moreover have "keys st \<subseteq> keys st'"
      using acc(1) [OF advanced(1)] Cons.IH [OF advanced(4)] by auto
    ultimately show ?thesis using Cons.IH [OF advanced(4)] advanced(2) by simp
  next
    case (counted es)
    have "accounted content cfg role p (keys st') sig"
      using accounted_mono acc(2) [OF counted(1)] Cons.IH [OF counted(2)] by fastforce
    moreover have "keys st \<subseteq> keys st'"
      using acc(1) [OF counted(1)] Cons.IH [OF counted(2)] by auto
    ultimately show ?thesis using Cons.IH [OF counted(2)] by simp
  next
    case (ingest_failed err es)
    then show ?thesis using acc(1) [OF ingest_failed(1)] by simp
  next
    case (advance_failed es err m)
    then show ?thesis using acc(1) [OF advance_failed(1)] by simp
  qed
qed simp

text \<open>With the contiguous flag, every checkpoint the loop writes names a signature at and below
  which everything is accounted for.\<close>

lemma row_ok_keys: "row_ok (settled H content cfg role p K) H cp \<Longrightarrow> K \<subseteq> K' \<Longrightarrow>
    row_ok (settled H content cfg role p K') H cp"
  by (erule row_ok_mono) (rule settled_mono)

lemma poll_loop_row:
  assumes tx: "tx_serves src cfg content"
    and run: "poll_loop src CR ER cfg now role p True firstSync sigs k st = (r, st')"
    and "keyed (checkpoints st)" "H = rev sigs @ tail" "\<forall>x\<in>set tail. settled H content cfg role p (keys st) x"
    and "row_ok (settled H content cfg role p (keys st)) H (row (checkpoints st) (chainID cfg) p)"
  shows "keyed (checkpoints st') \<and> row_ok (settled H content cfg role p (keys st')) H (row (checkpoints st') (chainID cfg) p) \<and>
    (\<forall>q. q \<noteq> p \<longrightarrow> row (checkpoints st') (chainID cfg) q = row (checkpoints st) (chainID cfg) q) \<and>
    (r = Inr 0 \<longrightarrow> sigs \<noteq> [] \<longrightarrow>
       cpLastBlockHash (row (checkpoints st') (chainID cfg) p) = Signature (last sigs))"
  using assms(2-)
proof (induction sigs arbitrary: k st tail)
  case (Cons sig sigs)
  note acc = visited_settles [OF tx]
  have H: "H = rev sigs @ sig # tail" using Cons.prems(3) by simp
  from Cons.prems(1) show ?case
  proof (cases rule: poll_loop_split)
    case (ingest_failed err es)
    then show ?thesis using Cons.prems row_ok_keys [of H content cfg role p "keys st"] acc(1) [OF ingest_failed(1)]
      by auto
  next
    case (advance_failed es err m)
    have "m = checkpoints st"
      using advance_updates [OF Cons.prems(2), of now "Signature sig" "Slot sig" "chainID cfg" p]
      unfolding advance_failed(3) by (simp add: updates_def)
    then show ?thesis using advance_failed Cons.prems row_ok_keys [of H content cfg role p "keys st"]
        acc(1) [OF advance_failed(1)] by auto
  next
    case (advanced es m)
    let ?st = "st\<lparr>events := es, checkpoints := m\<rparr>"
    have mono: "keys st \<subseteq> keys ?st" and sig: "settled H content cfg role p (keys ?st) sig" using acc [OF advanced(1)] by auto
    have tl: "\<forall>x\<in>set tail. settled H content cfg role p (keys ?st) x" using Cons.prems(4) mono settled_mono by (fastforce)
    have up: "keyed m" "row m (chainID cfg) p = (row (checkpoints st) (chainID cfg) p)
        \<lparr>cpLastBlock := Slot sig, cpLastBlockHash := Signature sig, cpBackfillCursor := '''',
         cpBackfillTargetHash := '''', cpBackfillTargetSlot := 0, cpUpdatedAt := now\<rparr>"
      "\<forall>q. q \<noteq> p \<longrightarrow> row m (chainID cfg) q = row (checkpoints st) (chainID cfg) q"
      using advance_updates [OF Cons.prems(2), of now "Signature sig" "Slot sig" "chainID cfg" p]
      unfolding advanced(3) by (simp_all add: updates_def)
    have "row_ok (settled H content cfg role p (keys ?st)) H (row m (chainID cfg) p)"
      unfolding up(2) by (rule row_ok_advance [OF H sig tl])
    with Cons.IH [OF advanced(4), of "sig # tail"] H up tl sig
    have IH: "keyed (checkpoints st') \<and> row_ok (settled H content cfg role p (keys st')) H (row (checkpoints st') (chainID cfg) p) \<and>
      (\<forall>q. q \<noteq> p \<longrightarrow> row (checkpoints st') (chainID cfg) q = row (checkpoints st) (chainID cfg) q) \<and>
      (r = Inr 0 \<longrightarrow> sigs \<noteq> [] \<longrightarrow>
         cpLastBlockHash (row (checkpoints st') (chainID cfg) p) = Signature (last sigs))"
      by simp
    have "st' = ?st" if "sigs = []" using advanced(4) that by simp
    with IH up(2) show ?thesis by auto
  next
    case (counted es)
    let ?st = "st\<lparr>events := es\<rparr>"
    have mono: "keys st \<subseteq> keys ?st" and sig: "settled H content cfg role p (keys ?st) sig" using acc [OF counted(1)] by auto
    have tl: "\<forall>x\<in>set tail. settled H content cfg role p (keys ?st) x" using Cons.prems(4) mono settled_mono by (fastforce)
    have "row_ok (settled H content cfg role p (keys ?st)) H (row (checkpoints ?st) (chainID cfg) p)"
      using row_ok_keys [OF Cons.prems(5)  mono] by (simp)
    with Cons.IH [OF counted(2) [simplified], of "sig # tail"] H tl sig Cons.prems(2)
    have IH: "keyed (checkpoints st') \<and> row_ok (settled H content cfg role p (keys st')) H (row (checkpoints st') (chainID cfg) p) \<and>
      (\<forall>q. q \<noteq> p \<longrightarrow> row (checkpoints st') (chainID cfg) q = row (checkpoints st) (chainID cfg) q) \<and>
      (r = Inr 0 \<longrightarrow> sigs \<noteq> [] \<longrightarrow>
         cpLastBlockHash (row (checkpoints st') (chainID cfg) p) = Signature (last sigs))"
      by simp
    have "r \<noteq> Inr 0" if "sigs = []" using counted(2) that by auto
    with IH show ?thesis by auto
  qed
qed simp

section \<open>A whole poll\<close>

definition preserved :: "(string \<Rightarrow> Tx) \<Rightarrow> config \<Rightarrow> ProgramRole \<Rightarrow> string \<Rightarrow> SigInfo list
    \<Rightarrow> ('m, 'e) idx_state \<Rightarrow> ('m, 'e) idx_state \<Rightarrow> bool" where
  "preserved content cfg role p H st st' \<longleftrightarrow>
     keyed (checkpoints st') \<and> keys st \<subseteq> keys st' \<and>
     row_ok (settled H content cfg role p (keys st')) H (row (checkpoints st') (chainID cfg) p) \<and>
     (\<forall>q. q \<noteq> p \<longrightarrow> row (checkpoints st') (chainID cfg) q = row (checkpoints st) (chainID cfg) q)"

lemma preserved_trans: "preserved content cfg role p H st st1 \<Longrightarrow> preserved content cfg role p H st1 st2 \<Longrightarrow>
    preserved content cfg role p H st st2"
  unfolding preserved_def by auto

lemma on_checkpoints_preserved:
  assumes "on_checkpoints f st = (r, st')" "updates g (chainID cfg) p (checkpoints st) (f (checkpoints st))"
    and "keyed (checkpoints st)"
    and "row_ok (settled H content cfg role p (keys st)) H (row (checkpoints st) (chainID cfg) p)"
    and "row_ok (settled H content cfg role p (keys st)) H (g (row (checkpoints st) (chainID cfg) p))"
  shows "preserved content cfg role p H st st'"
  using assms unfolding on_checkpoints_def updates_def preserved_def
  by (auto split: prod.splits sum.splits)

text \<open>What the fetched signatures are with respect to the history.\<close>

lemma fetched_segment:
  assumes H: "history_ok H" "serves src cfg p H" and ok: "row_ok acc H cp" and cr: "\<And>x. crowded H x \<Longrightarrow> acc x"
    and fetch: "fetchNewSignatures src cfg p (cpBackfillCursor cp) (cpLastBlockHash cp) (cpLastBlock cp) = Inr (sigs, reached)"
    and compl: "cpLastBlockHash cp = '''' \<or> cpBackfillCursor cp \<noteq> '''' \<Longrightarrow> complete src cfg p H"
    and ne: "sigs \<noteq> [] \<or> cpBackfillCursor cp \<noteq> ''''"
  obtains newer mid tail where "H = newer @ mid @ rev sigs @ tail"
    "reached \<longrightarrow> (\<forall>x\<in>set tail. acc x)"
    "cpLastBlockHash cp \<noteq> '''' \<and> \<not> reached \<longrightarrow> cpLastBlockHash cp \<in> Signature ` set tail"
    "cpBackfillCursor cp = '''' \<longrightarrow> newer = [] \<and> mid = []"
    "cpBackfillCursor cp \<noteq> '''' \<longrightarrow> mid \<noteq> [] \<and> (\<forall>x\<in>set mid. acc x) \<and>
       Signature (hd mid) = cpBackfillTargetHash cp \<and> Slot (hd mid) = cpBackfillTargetSlot cp"
proof -
  have "\<exists>newer mid below. H = newer @ mid @ below \<and> after (cpBackfillCursor cp) H = below \<and>
      (cpLastBlockHash cp \<noteq> '''' \<longrightarrow> cpLastBlockHash cp \<in> Signature ` set below) \<and>
      (cpBackfillCursor cp = '''' \<longrightarrow> newer = [] \<and> mid = []) \<and>
      (cpBackfillCursor cp \<noteq> '''' \<longrightarrow> mid \<noteq> [] \<and> (\<forall>x\<in>set mid. acc x) \<and>
         Signature (hd mid) = cpBackfillTargetHash cp \<and> Slot (hd mid) = cpBackfillTargetSlot cp)"
  proof (cases "cpBackfillCursor cp = ''''")
    case True
    moreover have "cpLastBlockHash cp \<in> Signature ` set H" if "cpLastBlockHash cp \<noteq> ''''"
      using ok that by (auto simp: row_ok_def prefix_ok_def)
    ultimately show ?thesis by (intro exI [of _ "[]"] exI [of _ H]) simp
  next
    case False
    with ok obtain newer mid below where nm: "H = newer @ mid @ below" "mid \<noteq> []" "\<forall>x\<in>set mid. acc x"
      "Signature (last mid) = cpBackfillCursor cp" "Signature (hd mid) = cpBackfillTargetHash cp"
      "Slot (hd mid) = cpBackfillTargetSlot cp"
      "cpLastBlockHash cp \<noteq> '''' \<longrightarrow> cpLastBlockHash cp \<in> Signature ` set below"
      unfolding row_ok_def frontier_ok_def by blast
    from nm(1,2) have "H = (newer @ butlast mid) @ last mid # below" by simp
    from after_split [OF H(1) this] nm(4) have "after (cpBackfillCursor cp) H = below" by simp
    with False nm show ?thesis by blast
  qed
  then obtain newer mid below where nm0: "H = newer @ mid @ below" and nm: "after (cpBackfillCursor cp) H = below"
    "cpLastBlockHash cp \<noteq> '''' \<longrightarrow> cpLastBlockHash cp \<in> Signature ` set below"
    "cpBackfillCursor cp = '''' \<longrightarrow> newer = [] \<and> mid = []"
    "cpBackfillCursor cp \<noteq> '''' \<longrightarrow> mid \<noteq> [] \<and> (\<forall>x\<in>set mid. acc x) \<and>
         Signature (hd mid) = cpBackfillTargetHash cp \<and> Slot (hd mid) = cpBackfillTargetSlot cp"
    by blast
  from nm0 have H': "H = (newer @ mid) @ below" by simp
  have "\<exists>tail. below = rev sigs @ tail \<and> (reached \<longrightarrow> (\<forall>x\<in>set tail. acc x)) \<and>
    (cpLastBlockHash cp \<noteq> '''' \<and> \<not> reached \<longrightarrow> cpLastBlockHash cp \<in> Signature ` set tail)"
  proof (rule fetched_tail [OF H(1) H' _ fetchNewSignatures_paged [OF H fetch, unfolded nm(1)]])
    show "cpLastBlockHash cp \<noteq> '''' \<longrightarrow>
      prefix_ok acc H (cpLastBlockHash cp) (cpLastBlock cp) \<and> cpLastBlockHash cp \<in> Signature ` set below"
      using ok nm(2) by (simp add: row_ok_def)
    show "complete src cfg p H" if "cpLastBlockHash cp = '''' \<or> rev sigs = []"
      using that ne compl by auto
  qed (rule cr)
  then obtain tail where "below = rev sigs @ tail" "reached \<longrightarrow> (\<forall>x\<in>set tail. acc x)"
    "cpLastBlockHash cp \<noteq> '''' \<and> \<not> reached \<longrightarrow> cpLastBlockHash cp \<in> Signature ` set tail" by blast
  with nm nm0 show ?thesis by (intro that [of newer mid tail]) simp_all
qed

lemma row_ok_frontier:
  assumes "row_ok acc H cp" "H = newer @ mid @ below" "mid \<noteq> []" "\<forall>x\<in>set mid. acc x"
    and "cpLastBlockHash cp \<noteq> '''' \<longrightarrow> cpLastBlockHash cp \<in> Signature ` set below"
  shows "row_ok acc H (cp\<lparr>cpLastBlock := cpLastBlock cp, cpLastBlockHash := cpLastBlockHash cp,
    cpBackfillCursor := Signature (last mid), cpBackfillTargetHash := Signature (hd mid),
    cpBackfillTargetSlot := Slot (hd mid), cpUpdatedAt := t\<rparr>)"
proof -
  have "frontier_ok acc H (cp\<lparr>cpLastBlock := cpLastBlock cp, cpLastBlockHash := cpLastBlockHash cp,
      cpBackfillCursor := Signature (last mid), cpBackfillTargetHash := Signature (hd mid),
      cpBackfillTargetSlot := Slot (hd mid), cpUpdatedAt := t\<rparr>)"
    unfolding frontier_ok_def
    by (rule exI [of _ newer], rule exI [of _ mid], rule exI [of _ below]) (use assms in simp)
  with assms(1) show ?thesis by (simp add: row_ok_def)
qed

lemma closeBackfill_preserved:
  assumes "on_checkpoints (closeBackfill CR now (chainID cfg) p cp) st = (r, st')"
    and "keyed (checkpoints st)"
    and "row_ok (settled H content cfg role p (keys st)) H (row (checkpoints st) (chainID cfg) p)"
    and "H = newer @ mid @ below" "mid \<noteq> []"
    and "\<forall>x\<in>set (mid @ below). settled H content cfg role p (keys st) x"
    and "Signature (hd mid) = cpBackfillTargetHash cp" "Slot (hd mid) = cpBackfillTargetSlot cp"
  shows "preserved content cfg role p H st st'"
proof -
  from assms(5) obtain x xs where mid: "mid = x # xs" by (cases mid) auto
  then have H: "H = newer @ x # (xs @ below)" using assms(4) by simp
  show ?thesis
    by (rule on_checkpoints_preserved [OF assms(1) _ assms(2,3)], unfold closeBackfill_def,
        rule advance_updates [OF assms(2)])
      (use row_ok_advance [OF H] assms(6-8) mid in auto)
qed

lemma poll_finish_preserved:
  fixes st :: "('m, 'e) idx_state"
  assumes keyed: "keyed (checkpoints st)" and cp: "cp = row (checkpoints st) (chainID cfg) p"
    and ok: "row_ok (settled H content cfg role p (keys st)) H cp"
    and H: "H = newer @ mid @ rev sigs @ tail" and ne: "sigs \<noteq> []"
    and acc: "\<forall>x\<in>set sigs. settled H content cfg role p (keys st) x"
    and tail: "reached \<longrightarrow> (\<forall>x\<in>set tail. settled H content cfg role p (keys st) x)"
      "cpLastBlockHash cp \<noteq> '''' \<and> \<not> reached \<longrightarrow> cpLastBlockHash cp \<in> Signature ` set tail"
    and nb: "cpBackfillCursor cp = '''' \<longrightarrow> newer = [] \<and> mid = []"
    and bf: "cpBackfillCursor cp \<noteq> '''' \<longrightarrow> mid \<noteq> [] \<and> (\<forall>x\<in>set mid. settled H content cfg role p (keys st) x) \<and>
       Signature (hd mid) = cpBackfillTargetHash cp \<and> Slot (hd mid) = cpBackfillTargetSlot cp"
    and mode: "cpBackfillCursor cp \<noteq> '''' \<or> \<not> reached"
    and run: "poll_finish CR cfg now p cp (cpBackfillCursor cp \<noteq> '''') reached (cpLastBlockHash cp) sigs k st = (r, st')"
  shows "preserved content cfg role p H st st'"
proof (cases reached)
  case True
  with mode run bf have "on_checkpoints (closeBackfill CR now (chainID cfg) p cp) st = (r, st')"
    by (simp add: poll_finish_def Let_def)
  then show ?thesis
    by (rule closeBackfill_preserved [OF _ keyed, where newer = newer and mid = mid and below = "rev sigs @ tail"])
      (use ok cp H acc tail True mode bf in auto)
next
  case False
  let ?acc = "settled H content cfg role p (keys st)"
  let ?M = "mid @ rev sigs"
  have M: "H = newer @ ?M @ tail" "?M \<noteq> []" "\<forall>x\<in>set ?M. ?acc x" "Signature (last ?M) = Signature (hd sigs)"
    using H ne acc nb bf by (auto simp: last_rev)
  have hd: "(if cpBackfillCursor cp \<noteq> '''' then (cpBackfillTargetSlot cp, cpBackfillTargetHash cp)
      else (Slot (last sigs), Signature (last sigs))) = (Slot (hd ?M), Signature (hd ?M))"
    using nb bf ne by (auto simp: hd_rev hd_append)
  from run False hd have step: "on_checkpoints (setBackfillFrontier CR now (chainID cfg) p (cpLastBlock cp)
      (cpLastBlockHash cp) (Signature (hd sigs)) (Slot (hd ?M)) (Signature (hd ?M))) st = (r, st')"
    by (simp add: poll_finish_def Let_def split: if_splits)
  show ?thesis
  proof (rule on_checkpoints_preserved [OF step frontier_updates [OF keyed] keyed])
    show "row_ok ?acc H (row (checkpoints st) (chainID cfg) p)" using ok cp by simp
    show "row_ok ?acc H ((row (checkpoints st) (chainID cfg) p)\<lparr>cpLastBlock := cpLastBlock cp,
      cpLastBlockHash := cpLastBlockHash cp, cpBackfillCursor := Signature (hd sigs),
      cpBackfillTargetHash := Signature (hd ?M), cpBackfillTargetSlot := Slot (hd ?M), cpUpdatedAt := now\<rparr>)"
      using row_ok_frontier [OF ok M(1-3), of now] tail(2) False M(4) cp by simp
  qed
qed

lemma poll_contiguous_preserved:
  fixes st :: "('m, 'e) idx_state"
  assumes tx: "tx_serves src cfg content"
    and keyed: "keyed (checkpoints st)"
    and ok: "row_ok (settled H content cfg role p (keys st)) H (row (checkpoints st) (chainID cfg) p)"
    and H: "H = rev sigs @ tail" and ne: "sigs \<noteq> []"
    and tail: "\<forall>x\<in>set tail. settled H content cfg role p (keys st) x"
    and loop: "poll_loop src CR ER cfg now role p True firstSync sigs 0 st = (lr, st2)"
    and fin: "\<And>n. lr = Inr n \<Longrightarrow> poll_finish CR cfg now p cp False True until sigs n st2 = (r, st')"
    and err: "\<And>e. lr = Inl e \<Longrightarrow> st' = st2"
  shows "preserved content cfg role p H st st' \<and>
    (r = Inr () \<and> (\<forall>e. lr \<noteq> Inl e) \<longrightarrow>
      cpLastBlockHash (row (checkpoints st') (chainID cfg) p) = Signature (last sigs))"
proof -
  from poll_loop_row [OF tx loop keyed H tail ok] poll_loop_events [OF tx loop]
  have pres: "preserved content cfg role p H st st2"
    and last0: "lr = Inr 0 \<longrightarrow> sigs \<noteq> [] \<longrightarrow> cpLastBlockHash (row (checkpoints st2) (chainID cfg) p) = Signature (last sigs)"
    and accs: "\<forall>n. lr = Inr n \<longrightarrow> (\<forall>x\<in>set sigs. settled H content cfg role p (keys st2) x)"
    by (auto simp: preserved_def)
  show ?thesis
  proof (cases lr)
    case (Inl e)
    with err pres show ?thesis by simp
  next
    case lr: (Inr n)
    show ?thesis
    proof (cases "n = 0")
      case True
      with fin [OF lr] have "st' = st2" by (simp add: poll_finish_def Let_def)
      with pres last0 lr True ne show ?thesis by simp
    next
      case False
      with fin [OF lr] have adv: "on_checkpoints (advanceProgramCheckpoint CR now (chainID cfg) p (Slot (last sigs))
          (Signature (last sigs))) st2 = (r, st')" by (simp add: poll_finish_def Let_def)
      have keyed2: "keyed (checkpoints st2)" and ok2: "row_ok (settled H content cfg role p (keys st2)) H (row (checkpoints st2) (chainID cfg) p)"
        using pres by (simp_all add: preserved_def)
      have H2: "H = [] @ last sigs # (rev (butlast sigs) @ tail)"
        using H ne by (metis append_Cons append_Nil append_butlast_last_id rev.simps(2) rev_append rev_rev_ident rev_singleton_conv)
      have tail2: "\<forall>x\<in>set (rev (butlast sigs) @ tail). settled H content cfg role p (keys st2) x"
      proof
        fix x
        assume "x \<in> set (rev (butlast sigs) @ tail)"
        then consider "x \<in> set sigs" | "x \<in> set tail" by (auto dest: in_set_butlastD)
        then show "settled H content cfg role p (keys st2) x"
          using accs lr tail pres settled_mono by cases (auto simp: preserved_def)
      qed
      have lastok: "settled H content cfg role p (keys st2) (last sigs)" using accs lr ne by simp
      have "preserved content cfg role p H st2 st'"
        by (rule on_checkpoints_preserved [OF adv advance_updates [OF keyed2] keyed2 ok2])
          (rule row_ok_advance [OF H2 lastok tail2])
      moreover have "cpLastBlockHash (row (checkpoints st') (chainID cfg) p) = Signature (last sigs)" if "r = Inr ()"
        using adv that advance_updates [OF keyed2, of now "Signature (last sigs)" "Slot (last sigs)" "chainID cfg" p]
        by (auto simp: on_checkpoints_def updates_def split: prod.splits)
      ultimately show ?thesis using preserved_trans [OF pres] by blast
    qed
  qed
qed

lemma preserved_refl: "keyed (checkpoints st) \<Longrightarrow>
    row_ok (settled H content cfg role p (keys st)) H (row (checkpoints st) (chainID cfg) p) \<Longrightarrow>
    preserved content cfg role p H st st"
  by (simp add: preserved_def)

lemma preserved_silent [simp]:
  "preserved content cfg role p H (st\<lparr>silentSince := x\<rparr>) st' = preserved content cfg role p H st st'"
  "preserved content cfg role p H st (st'\<lparr>silentSince := x\<rparr>) = preserved content cfg role p H st st'"
  by (simp_all add: preserved_def)

text \<open>A poll that fetched signatures.\<close>

lemma poll_fetched_preserved:
  fixes st st1 :: "('m, 'e) idx_state"
  assumes cp_def: "cp = row (checkpoints st1) (chainID cfg) p"
    and H: "history_ok H" "serves src cfg p H" and tx: "tx_serves src cfg content"
    and keyed: "keyed (checkpoints st1)" and ok: "row_ok (settled H content cfg role p (keys st1)) H cp"
    and compl: "cpLastBlockHash cp = '''' \<or> cpBackfillCursor cp \<noteq> '''' \<Longrightarrow> complete src cfg p H"
    and fetch: "fetchNewSignatures src cfg p (cpBackfillCursor cp) (cpLastBlockHash cp) (cpLastBlock cp) = Inr (sigs, reached)"
    and ne: "sigs \<noteq> []"
    and loop: "poll_loop src CR ER cfg now role p (cpBackfillCursor cp = '''' \<and> reached) firstSync sigs 0 st1 = (lr, st2)"
    and err: "\<And>e. lr = Inl e \<Longrightarrow> st' = st2 \<and> r = Inl e"
    and fin: "\<And>n. lr = Inr n \<Longrightarrow> poll_finish CR cfg now p cp (cpBackfillCursor cp \<noteq> '''') reached
      (cpLastBlockHash cp) sigs n st2 = (r, st')"
  shows "preserved content cfg role p H st1 st' \<and>
    (r = Inr () \<and> cpBackfillCursor cp = '''' \<and> reached \<longrightarrow>
       cpLastBlockHash (row (checkpoints st') (chainID cfg) p) = Signature (hd H))"
proof -
  from fetched_segment [OF H ok settled_crowded fetch compl] ne obtain newer mid tail where seg:
    "H = newer @ mid @ rev sigs @ tail"
    "reached \<longrightarrow> (\<forall>x\<in>set tail. settled H content cfg role p (keys st1) x)"
    "cpLastBlockHash cp \<noteq> '''' \<and> \<not> reached \<longrightarrow> cpLastBlockHash cp \<in> Signature ` set tail"
    "cpBackfillCursor cp = '''' \<longrightarrow> newer = [] \<and> mid = []"
    "cpBackfillCursor cp \<noteq> '''' \<longrightarrow> mid \<noteq> [] \<and> (\<forall>x\<in>set mid. settled H content cfg role p (keys st1) x) \<and>
       Signature (hd mid) = cpBackfillTargetHash cp \<and> Slot (hd mid) = cpBackfillTargetSlot cp" by blast
  show ?thesis
  proof (cases "cpBackfillCursor cp = '''' \<and> reached")
    case True
    then have H': "H = rev sigs @ tail" using seg by simp
    have "preserved content cfg role p H st1 st' \<and> (r = Inr () \<and> (\<forall>e. lr \<noteq> Inl e) \<longrightarrow>
        cpLastBlockHash (row (checkpoints st') (chainID cfg) p) = Signature (last sigs))"
      by (rule poll_contiguous_preserved [OF tx keyed _ H' ne _ loop [unfolded eqTrueI [OF True]]])
        (use ok seg True fin err in \<open>auto simp: cp_def\<close>)
    moreover have "last sigs = hd H" using H' ne by (simp add: hd_rev hd_append)
    moreover have "\<forall>e. lr \<noteq> Inl e" if "r = Inr ()" using err that by auto
    ultimately show ?thesis by auto
  next
    case False
    with poll_loop_events [OF tx loop] have ev: "keys st1 \<subseteq> keys st2" "checkpoints st2 = checkpoints st1"
      "\<And>n. lr = Inr n \<Longrightarrow> \<forall>x\<in>set sigs. settled H content cfg role p (keys st2) x" by auto
    have keyed2: "keyed (checkpoints st2)" and cp2: "cp = row (checkpoints st2) (chainID cfg) p"
      using keyed ev(2) by (simp_all add: cp_def)
    have ok2: "row_ok (settled H content cfg role p (keys st2)) H cp" using row_ok_keys [OF ok ev(1)] .
    have pres: "preserved content cfg role p H st1 st2"
      using keyed2 ok2 ev by (simp add: preserved_def cp_def)
    have mono: "settled H content cfg role p (keys st1) x \<Longrightarrow> settled H content cfg role p (keys st2) x" for x
      using settled_mono ev(1) by blast
    show ?thesis
    proof (cases lr)
      case (Inl e)
      with err pres False show ?thesis by auto
    next
      case lr: (Inr n)
      have "preserved content cfg role p H st2 st'"
        by (rule poll_finish_preserved [OF keyed2 cp2 ok2 seg(1) ne ev(3) [OF lr] _ seg(3,4) _ _ fin [OF lr]])
          (use seg(2,5) mono False in auto)
      with preserved_trans [OF pres] False show ?thesis by blast
    qed
  qed
qed

lemma poll_body_preserved:
  fixes st :: "('m, 'e) idx_state"
  assumes cp_def: "cp = row (checkpoints st) (chainID cfg) p"
    and H: "history_ok H" "serves src cfg p H" and tx: "tx_serves src cfg content"
    and keyed: "keyed (checkpoints st)" and ok: "row_ok (settled H content cfg role p (keys st)) H cp"
    and compl: "cpLastBlockHash cp = '''' \<or> cpBackfillCursor cp \<noteq> '''' \<Longrightarrow> complete src cfg p H"
    and run: "poll_body src CR ER cfg now role p st = (r, st')"
  shows "preserved content cfg role p H st st'"
proof (cases "loadProgramCheckpoint CR (chainID cfg) p (checkpoints st)")
  case (Inl err)
  with run have "st' = st" by (simp add: poll_body_def)
  with preserved_refl keyed ok show ?thesis by (simp add: cp_def)
next
  case (Inr a)
  obtain cp0 existed where a: "a = (cp0, existed)" by fastforce
  from load_row [OF Inr [unfolded a]] have cp0: "cp0 = cp"
    and until: "(if existed then cpLastBlockHash cp else '''') = cpLastBlockHash cp"
    and bf: "(existed \<and> cpBackfillCursor cp \<noteq> '''') = (cpBackfillCursor cp \<noteq> '''')"
    by (auto simp: cp_def newCheckpoint_def)
  have before: "(if cpBackfillCursor cp \<noteq> '''' then cpBackfillCursor cp else '''') = cpBackfillCursor cp" by simp
  note run' = run [unfolded poll_body_def Inr a sum.case prod.case cp0 Let_def until bf before]
  show ?thesis
  proof (cases "fetchNewSignatures src cfg p (cpBackfillCursor cp) (cpLastBlockHash cp) (cpLastBlock cp)")
    case (Inl err)
    with run' have "st' = st" by simp
    with preserved_refl keyed ok show ?thesis by (simp add: cp_def)
  next
    case fetch: (Inr b)
    obtain sigs reached where b: "b = (sigs, reached)" by fastforce
    note fetch' = fetch [unfolded b]
    show ?thesis
    proof (cases "sigs = []")
      case empty: True
      then have reached using fetchNewSignatures_empty fetch' by blast
      show ?thesis
      proof (cases "cpBackfillCursor cp = ''''")
        case True
        with run' fetch' empty have "\<exists>x. st' = st\<lparr>silentSince := x\<rparr>" by auto
        with preserved_refl keyed ok show ?thesis by (auto simp: cp_def)
      next
        case False
        with fetched_segment [OF H ok settled_crowded fetch' compl] obtain newer mid tail where seg:
          "H = newer @ mid @ rev sigs @ tail" "reached \<longrightarrow> (\<forall>x\<in>set tail. settled H content cfg role p (keys st) x)"
          "mid \<noteq> []" "\<forall>x\<in>set mid. settled H content cfg role p (keys st) x"
          "Signature (hd mid) = cpBackfillTargetHash cp" "Slot (hd mid) = cpBackfillTargetSlot cp" by metis
        from run' fetch' empty False have step: "on_checkpoints (closeBackfill CR now (chainID cfg) p cp) st = (r, st')"
          by simp
        show ?thesis
          by (rule closeBackfill_preserved [OF step keyed, where newer = newer and mid = mid and below = tail])
            (use ok seg empty \<open>reached\<close> in \<open>auto simp: cp_def\<close>)
      qed
    next
      case ne: False
      let ?st1 = "st\<lparr>silentSince := clearSilentPoll p (silentSince st)\<rparr>"
      obtain lr st2 where loop: "poll_loop src CR ER cfg now role p (cpBackfillCursor cp = '''' \<and> reached)
          (cpLastBlockHash cp = '''') sigs 0 ?st1 = (lr, st2)" by fastforce
      have "preserved content cfg role p H ?st1 st'"
      proof (rule poll_fetched_preserved [THEN conjunct1, OF _ H tx _ _ compl fetch' ne loop])
        note run'' = run' [unfolded fetch' sum.case prod.case if_not_P [OF ne]]
        show "st' = st2 \<and> r = Inl e" if "lr = Inl e" for e using run'' that loop by simp
        show "poll_finish CR cfg now p cp (cpBackfillCursor cp \<noteq> '''') reached (cpLastBlockHash cp) sigs n st2 = (r, st')"
          if "lr = Inr n" for n using run'' that loop by simp
      qed (use keyed ok in \<open>simp_all add: cp_def\<close>)
      then show ?thesis by simp
    qed
  qed
qed

lemma updates_keeps_history:
  "updates (\<lambda>cp. cp\<lparr>cpLastSuccessfulPollAt := now\<rparr>) (chainID cfg) p (checkpoints st) (hb, m) \<Longrightarrow>
   preserved content cfg role p H st0 st \<Longrightarrow>
   preserved content cfg role p H st0 (st\<lparr>checkpoints := m\<rparr>) \<and>
   (hb = Inr () \<longrightarrow> row m (chainID cfg) p =
      row (checkpoints st) (chainID cfg) p \<lparr>cpLastSuccessfulPollAt := now\<rparr>)"
  by (cases hb) (auto simp: updates_def preserved_def)

lemma pollProgram_preserved:
  fixes st :: "('m, 'e) idx_state"
  assumes "cp = row (checkpoints st) (chainID cfg) p"
    and "history_ok H" "serves src cfg p H" "tx_serves src cfg content" "keyed (checkpoints st)"
    and "row_ok (settled H content cfg role p (keys st)) H cp"
    and "cpLastBlockHash cp = '''' \<or> cpBackfillCursor cp \<noteq> '''' \<Longrightarrow> complete src cfg p H"
    and run: "pollProgram src CR ER cfg now role p st = (r, st')"
  shows "preserved content cfg role p H st st'"
proof -
  obtain br st1 where body: "poll_body src CR ER cfg now role p st = (br, st1)" by fastforce
  from poll_body_preserved [OF assms(1-7) body] have pres: "preserved content cfg role p H st st1" by blast
  show ?thesis
  proof (cases br)
    case (Inl e)
    with run body pres show ?thesis by (simp add: pollProgram_def)
  next
    case (Inr u)
    obtain hb m where hb: "recordSuccessfulPoll CR now (chainID cfg) p (checkpoints st1) = (hb, m)" by fastforce
    have "keyed (checkpoints st1)" using pres by (simp add: preserved_def)
    from heartbeat_updates [OF this, of now "chainID cfg" p, unfolded hb] pres
    have "preserved content cfg role p H st (st1\<lparr>checkpoints := m\<rparr>)"
      using updates_keeps_history by blast
    with run body Inr hb show ?thesis by (cases hb) (auto simp: pollProgram_def)
  qed
qed

section \<open>Catching up\<close>

lemma prefix_ok_whole:
  assumes "history_ok H" "prefix_ok acc H (Signature (hd H)) slot"
  shows "\<forall>x\<in>set H. acc x"
proof -
  from assms(2) obtain newer s older where H: "H = newer @ s # older" "Signature s = Signature (hd H)" "acc s"
    "\<forall>x\<in>set older. acc x" unfolding prefix_ok_def by blast
  have "newer = []"
  proof (rule ccontr)
    assume "newer \<noteq> []"
    then have "hd H \<in> set newer" using H(1) by simp
    moreover have "distinct (map Signature newer @ Signature s # map Signature older)"
      using assms(1) H(1) by (simp add: history_ok_def)
    ultimately show False using H(2) by (auto simp: image_iff)
  qed
  with H show ?thesis by simp
qed

lemma poll_body_caught_up:
  fixes st :: "('m, 'e) idx_state"
  assumes cp_def: "cp = row (checkpoints st) (chainID cfg) p"
    and H: "history_ok H" "serves src cfg p H" and tx: "tx_serves src cfg content"
    and keyed: "keyed (checkpoints st)" and ok: "row_ok (settled H content cfg role p (keys st)) H cp"
    and compl: "complete src cfg p H"
    and run: "poll_body src CR ER cfg now role p st = (Inr (), st')"
    and nb: "cpBackfillCursor cp = ''''" "cpBackfillCursor (row (checkpoints st') (chainID cfg) p) = ''''"
  shows "\<forall>x\<in>set H. settled H content cfg role p (keys st') x"
proof -
  from run obtain a where load: "loadProgramCheckpoint CR (chainID cfg) p (checkpoints st) = Inr a"
    unfolding poll_body_def by (auto split: sum.splits)
  obtain cp0 existed where a: "a = (cp0, existed)" by fastforce
  from load_row [OF load [unfolded a]] have cp0: "cp0 = cp"
    and until: "(if existed then cpLastBlockHash cp else '''') = cpLastBlockHash cp"
    by (auto simp: cp_def newCheckpoint_def)
  note run1 = run [unfolded poll_body_def load a sum.case prod.case cp0 Let_def until nb(1) if_cancel]
  from run1 obtain sigs reached where fetch:
    "fetchNewSignatures src cfg p (cpBackfillCursor cp) (cpLastBlockHash cp) (cpLastBlock cp) = Inr (sigs, reached)"
    unfolding nb(1) by (auto split: sum.splits)
  show ?thesis
  proof (cases "sigs = []")
    case empty: True
    with fetch fetchNewSignatures_empty have reached by blast
    from fetchNewSignatures_paged [OF H fetch [unfolded nb(1)]] empty
    have pg: "paged (complete src cfg p H) (cpLastBlockHash cp) (cpLastBlock cp) H [] reached" by simp
    have st': "keys st' = keys st" using run1 fetch empty unfolding nb(1) by auto
    have "\<exists>tail. H = [] @ tail \<and> (reached \<longrightarrow> (\<forall>x\<in>set tail. settled H content cfg role p (keys st) x)) \<and>
      (cpLastBlockHash cp \<noteq> '''' \<and> \<not> reached \<longrightarrow> cpLastBlockHash cp \<in> Signature ` set tail)"
      by (rule fetched_tail [OF H(1) _ _ pg compl, of "[]"])
        (use ok in \<open>auto simp: row_ok_def prefix_ok_def\<close>)
    with \<open>reached\<close> st' show ?thesis by simp
  next
    case ne: False
    let ?st1 = "st\<lparr>silentSince := clearSilentPoll p (silentSince st)\<rparr>"
    obtain lr st2 where loop: "poll_loop src CR ER cfg now role p (cpBackfillCursor cp = '''' \<and> reached)
        (cpLastBlockHash cp = '''') sigs 0 ?st1 = (lr, st2)" by fastforce
    note run2 = run1 [unfolded fetch [unfolded nb(1)] sum.case prod.case]
    from run2 ne loop nb(1) obtain n where lr: "lr = Inr n" by (cases lr) auto
    with run2 ne loop nb(1) have fin: "poll_finish CR cfg now p cp (cpBackfillCursor cp \<noteq> '''') reached
        (cpLastBlockHash cp) sigs n st2 = (Inr (), st')" by simp
    have pres: "preserved content cfg role p H ?st1 st' \<and>
      (Inr () = (Inr () :: idx_error + unit) \<and> cpBackfillCursor cp = '''' \<and> reached \<longrightarrow>
       cpLastBlockHash (row (checkpoints st') (chainID cfg) p) = Signature (hd H))"
      by (rule poll_fetched_preserved [OF _ H tx _ _ compl fetch ne loop])
        (use keyed ok lr fin in \<open>simp_all add: cp_def\<close>)
    show ?thesis
    proof (cases reached)
      case True
      with pres nb(1) have hash: "cpLastBlockHash (row (checkpoints st') (chainID cfg) p) = Signature (hd H)" by simp
      from fetched_segment [OF H ok settled_crowded fetch compl] ne nb(1) have "H \<noteq> []" by (metis append_is_Nil_conv rev_is_Nil_conv)
      then have "Signature (hd H) \<noteq> ''''" using history_sig [OF H(1)] by simp
      with pres hash have "prefix_ok (settled H content cfg role p (keys st')) H (Signature (hd H))
          (cpLastBlock (row (checkpoints st') (chainID cfg) p))" by (simp add: preserved_def row_ok_def)
      with H(1) show ?thesis by (rule prefix_ok_whole)
    next
      case False
      from poll_loop_events [OF tx loop] False have keyed2: "keyed (checkpoints st2)" using keyed by simp
      from fin nb(1) False have "on_checkpoints (setBackfillFrontier CR now (chainID cfg) p (cpLastBlock cp)
          (cpLastBlockHash cp) (Signature (hd sigs)) (Slot (last sigs)) (Signature (last sigs))) st2 = (Inr (), st')"
        by (simp add: poll_finish_def Let_def)
      then have "cpBackfillCursor (row (checkpoints st') (chainID cfg) p) = Signature (hd sigs)"
        using frontier_updates [OF keyed2, of now "Slot (last sigs)" "Signature (last sigs)" "Signature (hd sigs)"
            "cpLastBlockHash cp" "cpLastBlock cp" "chainID cfg" p]
        by (auto simp: on_checkpoints_def updates_def split: prod.splits)
      moreover from fetched_segment [OF H ok settled_crowded fetch compl] ne have "set sigs \<subseteq> set H"
        by (metis Un_iff set_append set_rev subsetI)
      then have "Signature (hd sigs) \<noteq> ''''" using history_sig [OF H(1)] ne hd_in_set by blast
      ultimately show ?thesis using nb(2) by simp
    qed
  qed
qed

lemma pollProgram_caught_up:
  fixes st :: "('m, 'e) idx_state"
  assumes "cp = row (checkpoints st) (chainID cfg) p"
    and "history_ok H" "serves src cfg p H" "tx_serves src cfg content" "keyed (checkpoints st)"
    and "row_ok (settled H content cfg role p (keys st)) H cp" "complete src cfg p H"
    and run: "pollProgram src CR ER cfg now role p st = (Inr (), st')"
    and nb: "cpBackfillCursor cp = ''''" "cpBackfillCursor (row (checkpoints st') (chainID cfg) p) = ''''"
  shows "\<forall>x\<in>set H. settled H content cfg role p (keys st') x"
proof -
  obtain br st1 where body: "poll_body src CR ER cfg now role p st = (br, st1)" by fastforce
  with run have br: "br = Inr ()" by (cases br) (auto simp: pollProgram_def)
  from poll_body_preserved [OF assms(1-6) assms(7) body] have pres: "preserved content cfg role p H st st1" .
  obtain hb m where hb: "recordSuccessfulPoll CR now (chainID cfg) p (checkpoints st1) = (hb, m)" by fastforce
  with run body br have st': "st' = st1\<lparr>checkpoints := m\<rparr>" "hb = Inr ()"
    by (cases hb; simp add: pollProgram_def)+
  have "keyed (checkpoints st1)" using pres by (simp add: preserved_def)
  from updates_keeps_history [OF heartbeat_updates [OF this, of now "chainID cfg" p, unfolded hb] pres] st' nb(2)
  have "cpBackfillCursor (row (checkpoints st1) (chainID cfg) p) = ''''" by simp
  from poll_body_caught_up [OF assms(1-7) body [unfolded br] nb(1) this] st' show ?thesis by simp
qed

end

section \<open>Runs of the indexer\<close>

text \<open>
  A run starts with no checkpoint stored; the programs' histories grow at the front, the
  process restarts (which loses \<open>silentSince\<close>), and programs are polled. A poll may fail at any
  call of the RPC node or the stores, so it also stands for a crash between two of its effects.
  The node must be complete where the code relies on it: in a first synchronisation and while
  a backfill is open.
\<close>

inductive indexed :: "'m checkpoint_repo \<Rightarrow> ('m \<Rightarrow> int \<Rightarrow> string \<Rightarrow> IndexerCheckpoint option) \<Rightarrow> 'e event_repo
    \<Rightarrow> config \<Rightarrow> (string \<Rightarrow> Tx) \<Rightarrow> (string \<Rightarrow> SigInfo list) \<Rightarrow> ('m, 'e) idx_state \<Rightarrow> bool"
  for CR :: "'m checkpoint_repo" and stored :: "'m \<Rightarrow> int \<Rightarrow> string \<Rightarrow> IndexerCheckpoint option"
    and ER :: "'e event_repo" and cfg :: config and content :: "string \<Rightarrow> Tx" where
  started: "(\<And>c a. stored (checkpoints st) c a = None) \<Longrightarrow> (\<And>p. history_ok (H p)) \<Longrightarrow>
    indexed CR stored ER cfg content H st"
| produced: "indexed CR stored ER cfg content H st \<Longrightarrow> history_ok (new @ H p) \<Longrightarrow>
    indexed CR stored ER cfg content (H(p := new @ H p)) st"
| restarted: "indexed CR stored ER cfg content H st \<Longrightarrow>
    indexed CR stored ER cfg content H (st\<lparr>silentSince := []\<rparr>)"
| polled: "indexed CR stored ER cfg content H st \<Longrightarrow> (role, p) \<in> set (programIDs cfg) \<Longrightarrow>
    serves src cfg p (H p) \<Longrightarrow> tx_serves src cfg content \<Longrightarrow>
    complete src cfg p (H p) \<or>
      (\<exists>cp. stored (checkpoints st) (chainID cfg) p = Some cp \<and> cpLastBlockHash cp \<noteq> '''' \<and> cpBackfillCursor cp = '''') \<Longrightarrow>
    pollProgram src CR ER cfg now role p st = (r, st') \<Longrightarrow>
    indexed CR stored ER cfg content H st'"

context indexer_store
begin

definition state_ok :: "config \<Rightarrow> (string \<Rightarrow> Tx) \<Rightarrow> (string \<Rightarrow> SigInfo list) \<Rightarrow> ('m, 'e) idx_state \<Rightarrow> bool" where
  "state_ok cfg content H st \<longleftrightarrow>
     keyed (checkpoints st) \<and> (\<forall>p. history_ok (H p)) \<and>
     (\<forall>(role, p) \<in> set (programIDs cfg).
        row_ok (settled (H p) content cfg role p (keys st)) (H p) (row (checkpoints st) (chainID cfg) p))"

lemma state_ok_poll:
  assumes ids: "distinct (map snd (programIDs cfg))" and ok: "state_ok cfg content H st"
    and mem: "(role, p) \<in> set (programIDs cfg)"
    and "serves src cfg p (H p)" "tx_serves src cfg content"
    and compl: "complete src cfg p (H p) \<or>
      (\<exists>cp. stored (checkpoints st) (chainID cfg) p = Some cp \<and> cpLastBlockHash cp \<noteq> '''' \<and> cpBackfillCursor cp = '''')"
    and run: "pollProgram src CR ER cfg now role p st = (r, st')"
  shows "state_ok cfg content H st'"
proof -
  have "preserved content cfg role p (H p) st st'"
    by (rule pollProgram_preserved [OF refl _ assms(4,5) _ _ _ run])
      (use ok mem compl in \<open>auto simp: state_ok_def row_def\<close>)
  then have pres: "keyed (checkpoints st')" "keys st \<subseteq> keys st'"
    "row_ok (settled (H p) content cfg role p (keys st')) (H p) (row (checkpoints st') (chainID cfg) p)"
    "\<And>q. q \<noteq> p \<Longrightarrow> row (checkpoints st') (chainID cfg) q = row (checkpoints st) (chainID cfg) q"
    by (simp_all add: preserved_def)
  have "row_ok (settled (H q) content cfg role' q (keys st')) (H q) (row (checkpoints st') (chainID cfg) q)"
    if q: "(role', q) \<in> set (programIDs cfg)" for role' q
  proof (cases "q = p")
    case True
    have "role' = role" using ids mem q True by (metis distinct_map inj_onD prod.inject snd_conv)
    with True pres(3) show ?thesis by simp
  next
    case False
    with pres(4) row_ok_keys [OF _ pres(2)] ok q show ?thesis by (auto simp: state_ok_def)
  qed
  with pres(1) ok show ?thesis by (auto simp: state_ok_def)
qed

lemma indexed_state_ok:
  assumes "distinct (map snd (programIDs cfg))" "indexed CR stored ER cfg content H st"
  shows "state_ok cfg content H st"
  using assms(2)
proof induction
  case (started st H)
  then show ?case by (auto simp: state_ok_def keyed_def row_def)
next
  case (produced H st new p)
  then show ?case by (auto simp: state_ok_def intro: row_ok_settled_grow)
next
  case (restarted H st)
  then show ?case by (simp add: state_ok_def)
next
  case (polled H st role p src now r st')
  from state_ok_poll [OF assms(1) polled(7,2-6)] show ?case .
qed

lemma indexed_no_gap:
  assumes "distinct (map snd (programIDs cfg))" "indexed CR stored ER cfg content H st"
    and "(role, p) \<in> set (programIDs cfg)" "stored (checkpoints st) (chainID cfg) p = Some cp"
    and "cpLastBlockHash cp \<noteq> ''''" "H p = newer @ s # older" "Signature s = cpLastBlockHash cp"
    and "x \<in> set (s # older)"
  shows "settled (H p) content cfg role p (keys st) x"
proof -
  from indexed_state_ok [OF assms(1,2)] assms(3,4)
  have H: "history_ok (H p)" and "row_ok (settled (H p) content cfg role p (keys st)) (H p) cp"
    by (auto simp: state_ok_def row_def)
  with assms(5) obtain n s' o' where s': "H p = n @ s' # o'" "Signature s' = cpLastBlockHash cp"
    "settled (H p) content cfg role p (keys st) s'" "\<forall>x\<in>set o'. settled (H p) content cfg role p (keys st) x"
    unfolding row_ok_def prefix_ok_def by blast
  have "s # older = s' # o'"
    using history_split_unique [OF H assms(6) s'(1)] assms(7) s'(2) by simp
  with assms(8) s'(3,4) show ?thesis by auto
qed

lemma indexed_caught_up:
  assumes "distinct (map snd (programIDs cfg))" "indexed CR stored ER cfg content H st"
    and "(role, p) \<in> set (programIDs cfg)"
    and "serves src cfg p (H p)" "complete src cfg p (H p)" "tx_serves src cfg content"
    and "pollProgram src CR ER cfg now role p st = (Inr (), st')"
    and "\<And>cp. stored (checkpoints st) (chainID cfg) p = Some cp \<Longrightarrow> cpBackfillCursor cp = ''''"
    and "\<And>cp. stored (checkpoints st') (chainID cfg) p = Some cp \<Longrightarrow> cpBackfillCursor cp = ''''"
  shows "\<forall>x\<in>set (H p). settled (H p) content cfg role p (keys st') x"
proof (rule pollProgram_caught_up [OF refl _ assms(4,6) _ _ assms(5,7)])
  show "history_ok (H p)" "keyed (checkpoints st)"
    "row_ok (settled (H p) content cfg role p (keys st)) (H p) (row (checkpoints st) (chainID cfg) p)"
    using indexed_state_ok [OF assms(1,2)] assms(3) by (auto simp: state_ok_def)
  show "cpBackfillCursor (row (checkpoints st) (chainID cfg) p) = ''''"
    using assms(8) by (simp add: row_def newCheckpoint_def split: option.split)
  show "cpBackfillCursor (row (checkpoints st') (chainID cfg) p) = ''''"
    using assms(9) by (simp add: row_def newCheckpoint_def split: option.split)
qed

end

interpretation mi: indexer_store memoryCheckpoints memCpStored memoryEvents map_of
  by unfold_locales

section \<open>Poll keeps to the relation\<close>

lemma poll_roles_indexed:
  assumes "\<And>role p. (role, p) \<in> set (programIDs cfg) \<Longrightarrow> serves src cfg p (H p) \<and> complete src cfg p (H p)"
    and "tx_serves src cfg content"
  shows "indexed CR stored ER cfg content H st \<Longrightarrow> poll_roles src CR ER cfg now roles st = (errs, st') \<Longrightarrow>
    indexed CR stored ER cfg content H st'"
proof (induction roles arbitrary: st errs)
  case (Cons role roles)
  show ?case
  proof (cases "\<exists>p. map_of (programIDs cfg) role = Some p \<and> p \<noteq> ''''")
    case True
    then obtain p where p: "map_of (programIDs cfg) role = Some p" "p \<noteq> ''''" by blast
    obtain pr st1 where poll: "pollProgram src CR ER cfg now role p st = (pr, st1)" by fastforce
    have mem: "(role, p) \<in> set (programIDs cfg)" using p(1) by (rule map_of_SomeD)
    have "indexed CR stored ER cfg content H st1"
      by (rule indexed.polled [OF Cons.prems(1) mem _ assms(2) _ poll]) (use assms(1) [OF mem] in auto)
    with Cons.IH Cons.prems(2) p poll show ?thesis by (auto split: sum.splits prod.splits)
  next
    case False
    with Cons show ?thesis by (auto split: option.splits if_splits)
  qed
qed simp

lemma Poll_indexed:
  assumes "\<And>role p. (role, p) \<in> set (programIDs cfg) \<Longrightarrow> serves src cfg p (H p) \<and> complete src cfg p (H p)"
    and "tx_serves src cfg content" "indexed CR stored ER cfg content H st"
    and "Poll src CR ER cfg now st = (r, st')"
  shows "indexed CR stored ER cfg content H st'"
proof (cases "GetSlot src (commitment cfg)")
  case (Inl e)
  with assms show ?thesis by (simp add: Poll_def)
next
  case (Inr n)
  with assms(4) obtain errs where "poll_roles src CR ER cfg now programOrder st = (errs, st')"
    by (auto simp: Poll_def split: prod.splits)
  from poll_roles_indexed [OF _ assms(2,3) this] assms(1) show ?thesis by blast
qed



section \<open>The extreme answers of the node\<close>

lemma fetch_pages_above:
  "fetch_pages src cfg program until untilSlot pages before all = Inr (all', reached, short) \<Longrightarrow> until \<noteq> '''' \<Longrightarrow>
   \<forall>x\<in>set all. \<not> at_prefix until untilSlot x \<Longrightarrow> \<forall>x\<in>set all'. \<not> at_prefix until untilSlot x"
proof (induction pages arbitrary: before all)
  case (Suc pages)
  obtain page where page: "GetSignaturesForAddress src program sigPageLimit before '''' (commitment cfg) = Inr page"
    using Suc.prems(1) by (auto split: sum.splits)
  show ?case
  proof (cases "list_ex (at_prefix until untilSlot) page")
    case True
    with page Suc.prems show ?thesis by (auto dest: set_takeWhileD split: if_splits)
  next
    case False
    then have all: "\<forall>x\<in>set (all @ page). \<not> at_prefix until untilSlot x"
      using Suc.prems(3) by (auto simp: list_ex_iff)
    with False page Suc.prems Suc.IH [of "Signature (last page)" "all @ page"] show ?thesis
      by (auto split: if_splits)
  qed
qed simp

section \<open>Properties\<close>



text \<open>A fetch returns only signatures strictly above the checkpoint: none of them is the
  checkpointed signature and each lies in a later slot. So nothing is ingested twice, and a
  signature in the very slot of the checkpoint is never fetched again, ingested or not.\<close>

theorem fetch_above_checkpoint:
  assumes "fetchNewSignatures src cfg program before until untilSlot = Inr (sigs, reached)" "until \<noteq> ''''"
  shows "\<forall>x\<in>set sigs. Signature x \<noteq> until \<and> untilSlot < Slot x"
proof -
  from assms(1) obtain all short where
    "fetch_pages src cfg program until untilSlot maxFetchPages before [] = Inr (all, reached, short)" "sigs = rev all"
    unfolding fetchNewSignatures_def by (auto simp: res_iff split: if_splits)
  with fetch_pages_above [OF _ assms(2), of src cfg program untilSlot maxFetchPages before "[]" all reached short]
  show ?thesis by (auto simp: at_prefix_def)
qed

text \<open>An empty answer closes a backfill. With the in-memory stores, a program that is
  backfilling and whose node answers the cursor with an empty page gets the backfill's target
  as its new checkpoint, and no event is stored: whatever lay between the old prefix and the
  cursor is given up, even when the node has merely pruned it.\<close>

theorem empty_page_closes_backfill:
  assumes "memCpStored (checkpoints st) (chainID cfg) p = Some cp" "cpChainID cp = chainID cfg" "cpAddress cp = p"
    and "cpBackfillCursor cp \<noteq> ''''"
    and "GetSignaturesForAddress src p sigPageLimit (cpBackfillCursor cp) '''' (commitment cfg) = Inr []"
  shows "\<exists>m. pollProgram src memoryCheckpoints memoryEvents cfg now role p st = (Inr (), st\<lparr>checkpoints := m\<rparr>) \<and>
    memCpStored m (chainID cfg) p = Some (cp\<lparr>cpLastBlock := cpBackfillTargetSlot cp,
      cpLastBlockHash := cpBackfillTargetHash cp, cpBackfillCursor := '''', cpBackfillTargetHash := '''',
      cpBackfillTargetSlot := 0, cpUpdatedAt := now, cpLastSuccessfulPollAt := now\<rparr>)"
proof -
  have load: "loadProgramCheckpoint memoryCheckpoints (chainID cfg) p m = Inr (c, True)"
    if "memCpStored m (chainID cfg) p = Some c" for m c
    using that by (simp add: loadProgramCheckpoint_def memoryCheckpoints_def memCpGet_def memCpStored_def)
  have store: "store_checkpoint memoryCheckpoints c m =
      (Inr (), AList.update (checkpointKey (cpChainID c) (cpAddress c)) c m)" for c m
    by (simp add: store_checkpoint_def memoryCheckpoints_def memCpSet_def)
  have "fetch_pages src cfg p (cpLastBlockHash cp) (cpLastBlock cp) (Suc n) (cpBackfillCursor cp) [] = Inr ([], True, True)"
    for n using assms(5) by simp
  moreover have pages: "maxFetchPages = Suc 9" by (simp add: maxFetchPages_def)
  ultimately have "fetch_pages src cfg p (cpLastBlockHash cp) (cpLastBlock cp) maxFetchPages (cpBackfillCursor cp) []
      = Inr ([], True, True)" by metis
  then have fetch: "fetchNewSignatures src cfg p (cpBackfillCursor cp) (cpLastBlockHash cp) (cpLastBlock cp) = Inr ([], True)"
    by (simp add: fetchNewSignatures_def bind_res_def)
  show ?thesis
    unfolding pollProgram_def poll_body_def load [OF assms(1)]
    using assms(2-4) fetch
    by (simp add: Let_def on_checkpoints_def closeBackfill_def advanceProgramCheckpoint_def load [OF assms(1)] store
        recordSuccessfulPoll_def load memCpStored_def update_conv')
      (rule exI, rule conjI, rule refl, simp add: update_conv')
qed

section \<open>Witnesses\<close>


















theorem fetch_above_checkpoint_witness:
  "fetchNewSignatures (demo_source\<lparr>GetSignaturesForAddress := (\<lambda>_ _ _ _ _. Inr
      [\<lparr>Signature = ''c'', Slot = 9, SigErr = False\<rparr>, \<lparr>Signature = ''b'', Slot = 7, SigErr = False\<rparr>, demo_sig])\<rparr>)
      demo_config ''p'' '''' ''s'' 7 = Inr ([\<lparr>Signature = ''c'', Slot = 9, SigErr = False\<rparr>], True) \<and>
   Signature \<lparr>Signature = ''c'', Slot = 9, SigErr = False\<rparr> \<noteq> ''s'' \<and>
   (7::u64) < Slot \<lparr>Signature = ''c'', Slot = 9, SigErr = False\<rparr>"
proof -
  let ?src = "demo_source\<lparr>GetSignaturesForAddress := (\<lambda>_ _ _ _ _. Inr
      [\<lparr>Signature = ''c'', Slot = 9, SigErr = False\<rparr>, \<lparr>Signature = ''b'', Slot = 7, SigErr = False\<rparr>, demo_sig])\<rparr>"
  have "fetch_pages ?src demo_config ''p'' ''s'' 7 (Suc n) '''' [] =
      Inr ([\<lparr>Signature = ''c'', Slot = 9, SigErr = False\<rparr>], True, False)" for n
    by (simp add: at_prefix_def demo_sig_def demo_source_def)
  moreover have "maxFetchPages = Suc 9" by (simp add: maxFetchPages_def)
  ultimately have "fetch_pages ?src demo_config ''p'' ''s'' 7 maxFetchPages '''' [] =
      Inr ([\<lparr>Signature = ''c'', Slot = 9, SigErr = False\<rparr>], True, False)" by metis
  then have f: "fetchNewSignatures ?src demo_config ''p'' '''' ''s'' 7 =
      Inr ([\<lparr>Signature = ''c'', Slot = 9, SigErr = False\<rparr>], True)"
    by (simp add: fetchNewSignatures_def bind_res_def)
  with fetch_above_checkpoint [OF f] show ?thesis by simp
qed

theorem empty_page_closes_backfill_witness:
  "\<exists>m. pollProgram demo_source memoryCheckpoints memoryEvents demo_config 5 RoleVault ''p''
      \<lparr>checkpoints = [(checkpointKey 1 ''p'', (newCheckpoint 1 ''p'')\<lparr>cpLastBlock := 3, cpLastBlockHash := ''a'',
         cpBackfillCursor := ''c'', cpBackfillTargetHash := ''d'', cpBackfillTargetSlot := 9\<rparr>)],
       events = [], silentSince = []\<rparr> =
      (Inr (), \<lparr>checkpoints = m, events = [], silentSince = []\<rparr>) \<and>
    memCpStored m 1 ''p'' = Some ((newCheckpoint 1 ''p'')\<lparr>cpLastBlock := 9, cpLastBlockHash := ''d'',
      cpUpdatedAt := 5, cpLastSuccessfulPollAt := 5\<rparr>)"
  using empty_page_closes_backfill [of "\<lparr>checkpoints = [(checkpointKey 1 ''p'', (newCheckpoint 1 ''p'')
      \<lparr>cpLastBlock := 3, cpLastBlockHash := ''a'', cpBackfillCursor := ''c'', cpBackfillTargetHash := ''d'',
       cpBackfillTargetSlot := 9\<rparr>)], events = [], silentSince = []\<rparr>" demo_config "''p''"
      "(newCheckpoint 1 ''p'')\<lparr>cpLastBlock := 3, cpLastBlockHash := ''a'', cpBackfillCursor := ''c'',
        cpBackfillTargetHash := ''d'', cpBackfillTargetSlot := 9\<rparr>" demo_source 5 RoleVault]
  by (simp add: memCpStored_def demo_config_def demo_source_def newCheckpoint_def)

end
