(* ===== verification/Lease.thy ===== *)
theory Lease
  imports ChainStore
begin

text \<open>
  \<^verbatim>\<open>server/internal/dal/memory/lease.go\<close> and \<^verbatim>\<open>dal/models/lease.go\<close>: the fenced lease that elects
  one replica per reconciler tick. Each operation takes the store's clock reading \<open>now\<close>. The
  second part follows any sequence of operations on a clock that does not run backwards and
  remembers, for every token ever granted, until when its holder was last told it may act: the
  abstract contract is that these promises never overlap. Tokens are 64-bit and wrap; the
  bound under which they do not is a hypothesis.
\<close>

section \<open>The repository\<close>

record Lease =
  leaseKey :: string
  HolderID :: string
  Token :: u64
  ExpiresAt :: int
  UpdatedAt :: int

type_synonym lease_map = "(string \<times> Lease) list"

definition Acquire :: "int \<Rightarrow> string \<Rightarrow> string \<Rightarrow> int \<Rightarrow> lease_map \<Rightarrow> (u64 \<times> bool) \<times> lease_map" where
  "Acquire now key holderID ttl m =
     (case map_of m key of
        Some existing \<Rightarrow>
          if now < ExpiresAt existing then ((0, False), m)
          else ((Token existing + 1, True),
                AList.update key \<lparr>leaseKey = key, HolderID = holderID, Token = Token existing + 1,
                  ExpiresAt = now + ttl, UpdatedAt = now\<rparr> m)
      | None \<Rightarrow>
          ((1, True), AList.update key \<lparr>leaseKey = key, HolderID = holderID, Token = 1,
             ExpiresAt = now + ttl, UpdatedAt = now\<rparr> m))"

definition Renew :: "int \<Rightarrow> string \<Rightarrow> string \<Rightarrow> u64 \<Rightarrow> int \<Rightarrow> lease_map \<Rightarrow> bool \<times> lease_map" where
  "Renew now key holderID token ttl m =
     (case map_of m key of
        None \<Rightarrow> (False, m)
      | Some existing \<Rightarrow>
          if HolderID existing \<noteq> holderID \<or> Token existing \<noteq> token then (False, m)
          else (True, AList.update key (existing\<lparr>ExpiresAt := now + ttl, UpdatedAt := now\<rparr>) m))"

definition Release :: "int \<Rightarrow> string \<Rightarrow> string \<Rightarrow> u64 \<Rightarrow> lease_map \<Rightarrow> (repo_error + unit) \<times> lease_map" where
  "Release now key holderID token m =
     (case map_of m key of
        None \<Rightarrow> (Inl ErrFencingTokenMismatch, m)
      | Some existing \<Rightarrow>
          if HolderID existing \<noteq> holderID \<or> Token existing \<noteq> token then (Inl ErrFencingTokenMismatch, m)
          else (Inr (), AList.update key (existing\<lparr>ExpiresAt := now, UpdatedAt := now\<rparr>) m))"

section \<open>Runs\<close>

text \<open>
  \<open>grants key\<close> counts the leases granted on a key; \<open>promise key n\<close> is the expiry last
  announced to the holder of the \<open>n\<close>-th one, and \<open>holder key n\<close> that holder.
\<close>

record lease_run =
  leases :: lease_map
  clock :: int
  grants :: "string \<Rightarrow> nat"
  holder :: "string \<Rightarrow> nat \<Rightarrow> string"
  promise :: "string \<Rightarrow> nat \<Rightarrow> int"

definition lease_init :: "int \<Rightarrow> lease_run" where
  "lease_init t = \<lparr>leases = [], clock = t, grants = (\<lambda>_. 0), holder = (\<lambda>_ _. ''''), promise = (\<lambda>_ _. t)\<rparr>"

definition promised :: "string \<Rightarrow> nat \<Rightarrow> string \<Rightarrow> int \<Rightarrow> lease_run \<Rightarrow> lease_run" where
  "promised key n h t r = r\<lparr>grants := (grants r)(key := max (grants r key) n),
     holder := (holder r)(key := (holder r key)(n := h)), promise := (promise r)(key := (promise r key)(n := t))\<rparr>"

inductive lease_step :: "lease_run \<Rightarrow> lease_run \<Rightarrow> bool" where
  granted: "clock r \<le> now \<Longrightarrow> Acquire now key h ttl (leases r) = ((tok, True), m) \<Longrightarrow>
    lease_step r (promised key (grants r key + 1) h (now + ttl) r\<lparr>leases := m, clock := now\<rparr>)"
| refused: "clock r \<le> now \<Longrightarrow> Acquire now key h ttl (leases r) = ((tok, False), m) \<Longrightarrow>
    lease_step r (r\<lparr>leases := m, clock := now\<rparr>)"
| renewed: "clock r \<le> now \<Longrightarrow> Renew now key h tok ttl (leases r) = (True, m) \<Longrightarrow>
    lease_step r (promised key (unat tok) h (now + ttl) r\<lparr>leases := m, clock := now\<rparr>)"
| not_renewed: "clock r \<le> now \<Longrightarrow> Renew now key h tok ttl (leases r) = (False, m) \<Longrightarrow>
    lease_step r (r\<lparr>leases := m, clock := now\<rparr>)"
| released: "clock r \<le> now \<Longrightarrow> Release now key h tok (leases r) = (Inr (), m) \<Longrightarrow>
    lease_step r (promised key (unat tok) h now r\<lparr>leases := m, clock := now\<rparr>)"
| not_released: "clock r \<le> now \<Longrightarrow> Release now key h tok (leases r) = (Inl err, m) \<Longrightarrow>
    lease_step r (r\<lparr>leases := m, clock := now\<rparr>)"

abbreviation lease_steps :: "lease_run \<Rightarrow> lease_run \<Rightarrow> bool" where
  "lease_steps \<equiv> lease_step\<^sup>*\<^sup>*"

section \<open>The invariant\<close>

text \<open>The record of a key carries the number of its grants as token; every earlier promise had
  run out when the latest lease was granted.\<close>

definition key_ok :: "int \<Rightarrow> Lease option \<Rightarrow> nat \<Rightarrow> (nat \<Rightarrow> string) \<Rightarrow> (nat \<Rightarrow> int) \<Rightarrow> bool" where
  "key_ok now rec n hs ps \<longleftrightarrow>
     (case rec of
        None \<Rightarrow> n = 0
      | Some l \<Rightarrow> 0 < n \<and> unat (Token l) = n \<and> HolderID l = hs n \<and> ExpiresAt l = ps n) \<and>
     (\<forall>i. 0 < i \<and> i < n \<longrightarrow> ps i \<le> now)"

definition lease_inv :: "lease_run \<Rightarrow> bool" where
  "lease_inv r \<longleftrightarrow> (\<forall>key. grants r key < 2 ^ 64 \<longrightarrow>
     key_ok (clock r) (map_of (leases r) key) (grants r key) (holder r key) (promise r key))"

lemma key_ok_later: "key_ok now rec n hs ps \<Longrightarrow> now \<le> now' \<Longrightarrow> key_ok now' rec n hs ps"
  unfolding key_ok_def by (meson order_trans)

lemma key_ok_extend:
  "key_ok now (Some l) n hs ps \<Longrightarrow> key_ok now (Some (l\<lparr>ExpiresAt := e, UpdatedAt := u\<rparr>)) n hs (ps(n := e))"
  unfolding key_ok_def by auto

lemma key_ok_first: "key_ok now None n hs ps \<Longrightarrow>
    key_ok now (Some \<lparr>leaseKey = k, HolderID = h, Token = 1, ExpiresAt = e, UpdatedAt = u\<rparr>) (n + 1)
      (hs(n + 1 := h)) (ps(n + 1 := e))"
  unfolding key_ok_def by auto

lemma key_ok_next:
  assumes "key_ok now (Some l) n hs ps" "ExpiresAt l \<le> now" "n + 1 < 2 ^ 64"
  shows "key_ok now (Some \<lparr>leaseKey = k, HolderID = h, Token = Token l + 1, ExpiresAt = e, UpdatedAt = u\<rparr>) (n + 1)
      (hs(n + 1 := h)) (ps(n + 1 := e))"
proof -
  have "unat (Token l) + 1 < 2 ^ 64" using assms(1,3) by (simp add: key_ok_def)
  then have "unat (Token l + 1) = unat (Token l) + 1" by (simp add: unat_word_ariths)
  with assms show ?thesis unfolding key_ok_def by (auto simp: less_Suc_eq)
qed

lemma lease_inv_init: "lease_inv (lease_init t)"
  by (simp add: lease_inv_def lease_init_def key_ok_def)

lemma lease_inv_tick:
  "lease_inv r \<Longrightarrow> clock r \<le> now \<Longrightarrow> lease_inv (r\<lparr>leases := leases r, clock := now\<rparr>)"
  unfolding lease_inv_def by (auto intro: key_ok_later)

lemma Acquire_grantedD:
  "Acquire now key h ttl m = ((tok, True), m') \<Longrightarrow>
   m' = AList.update key \<lparr>leaseKey = key, HolderID = h, Token = tok, ExpiresAt = now + ttl, UpdatedAt = now\<rparr> m \<and>
   (case map_of m key of None \<Rightarrow> tok = 1 | Some l \<Rightarrow> ExpiresAt l \<le> now \<and> tok = Token l + 1)"
  by (auto simp: Acquire_def split: option.splits if_splits)

lemma Acquire_refusedD: "Acquire now key h ttl m = ((tok, False), m') \<Longrightarrow> m' = m"
  by (auto simp: Acquire_def split: option.splits if_splits)

lemma Renew_D:
  "Renew now key h tok ttl m = (b, m') \<Longrightarrow>
   (if b then \<exists>l. map_of m key = Some l \<and> HolderID l = h \<and> Token l = tok \<and>
      m' = AList.update key (l\<lparr>ExpiresAt := now + ttl, UpdatedAt := now\<rparr>) m else m' = m)"
  by (auto simp: Renew_def split: option.splits if_splits)

lemma Release_D:
  "Release now key h tok m = (res, m') \<Longrightarrow>
   (if res = Inr () then \<exists>l. map_of m key = Some l \<and> HolderID l = h \<and> Token l = tok \<and>
      m' = AList.update key (l\<lparr>ExpiresAt := now, UpdatedAt := now\<rparr>) m else m' = m)"
  by (auto simp: Release_def split: option.splits if_splits)

lemma lease_inv_change:
  assumes inv: "lease_inv r" and t: "clock r \<le> now"
    and key: "max (grants r key) n < 2 ^ 64 \<Longrightarrow>
      key_ok now (Some l) (max (grants r key) n) ((holder r key)(n := h)) ((promise r key)(n := e))"
  shows "lease_inv (promised key n h e r\<lparr>leases := AList.update key l (leases r), clock := now\<rparr>)"
  unfolding lease_inv_def
proof (intro allI impI)
  fix k
  let ?r = "promised key n h e r\<lparr>leases := AList.update key l (leases r), clock := now\<rparr>"
  assume b: "grants ?r k < 2 ^ 64"
  show "key_ok (clock ?r) (map_of (leases ?r) k) (grants ?r k) (holder ?r k) (promise ?r k)"
  proof (cases "k = key")
    case True
    with b key show ?thesis by (simp add: promised_def update_conv')
  next
    case False
    with b inv key_ok_later [OF _ t] show ?thesis by (simp add: promised_def update_conv' lease_inv_def)
  qed
qed

lemma lease_inv_extended:
  assumes inv: "lease_inv r" and t: "clock r \<le> now"
    and l: "map_of (leases r) key = Some l" "HolderID l = h"
  shows "lease_inv (promised key (unat (Token l)) h e r\<lparr>leases := AList.update key
    (l\<lparr>ExpiresAt := e, UpdatedAt := u\<rparr>) (leases r), clock := now\<rparr>)"
proof (rule lease_inv_change [OF inv t])
  assume "max (grants r key) (unat (Token l)) < 2 ^ 64"
  then have ok: "key_ok now (Some l) (grants r key) (holder r key) (promise r key)"
    using inv l(1) key_ok_later [OF _ t] unfolding lease_inv_def by fastforce
  then have "unat (Token l) = grants r key" "(holder r key)(grants r key := h) = holder r key"
    using l(2) by (auto simp: key_ok_def)
  with key_ok_extend [OF ok] show "key_ok now (Some (l\<lparr>ExpiresAt := e, UpdatedAt := u\<rparr>))
      (max (grants r key) (unat (Token l))) ((holder r key)(unat (Token l) := h))
      ((promise r key)(unat (Token l) := e))" by simp
qed

lemma lease_inv_granted:
  assumes inv: "lease_inv r" and t: "clock r \<le> now"
    and acq: "Acquire now key h ttl (leases r) = ((tok, True), m)"
  shows "lease_inv (promised key (grants r key + 1) h (now + ttl) r\<lparr>leases := m, clock := now\<rparr>)"
proof -
  note a = Acquire_grantedD [OF acq]
  have ok: "key_ok now (map_of (leases r) key) (grants r key) (holder r key) (promise r key)"
    if "grants r key + 1 < 2 ^ 64" using inv that key_ok_later [OF _ t] unfolding lease_inv_def by simp
  show ?thesis unfolding conjunct1 [OF a]
  proof (rule lease_inv_change [OF inv t])
    assume "max (grants r key) (grants r key + 1) < 2 ^ 64"
    then have b: "grants r key + 1 < 2 ^ 64" by simp
    show "key_ok now (Some \<lparr>leaseKey = key, HolderID = h, Token = tok, ExpiresAt = now + ttl, UpdatedAt = now\<rparr>)
        (max (grants r key) (grants r key + 1)) ((holder r key)(grants r key + 1 := h))
        ((promise r key)(grants r key + 1 := now + ttl))"
      using a ok [OF b] b key_ok_first key_ok_next
      by (cases "map_of (leases r) key") (simp_all add: max_def)
  qed
qed

lemma lease_inv_step: "lease_step r r' \<Longrightarrow> lease_inv r \<Longrightarrow> lease_inv r'"
proof (induction rule: lease_step.induct)
  case (granted r now key h ttl tok m)
  then show ?case by (intro lease_inv_granted)
next
  case (refused r now key h ttl tok m)
  then show ?case using lease_inv_tick Acquire_refusedD by metis
next
  case (renewed r now key h tok ttl m)
  then show ?case using lease_inv_extended Renew_D [OF renewed(2)] by auto
next
  case (not_renewed r now key h tok ttl m)
  then show ?case using lease_inv_tick Renew_D [OF not_renewed(2)] by auto
next
  case (released r now key h tok m)
  then show ?case using lease_inv_extended Release_D [OF released(2)] by auto
next
  case (not_released r now key h tok err m)
  then show ?case using lease_inv_tick Release_D [OF not_released(2)] by auto
qed

lemma lease_inv_steps: "lease_steps (lease_init t) r \<Longrightarrow> lease_inv r"
  by (induction rule: rtranclp_induct) (auto intro: lease_inv_init lease_inv_step)

section \<open>Properties\<close>

text \<open>C7: mutual exclusion. However Acquire, Renew and Release calls of any replicas interleave
  on a clock that does not run backwards, at no time do two different grants of a key both
  hold an expiry that lies in the future (for fewer than \<open>2^64\<close> grants of the key).\<close>

theorem lease_exclusive:
  assumes "lease_steps (lease_init t) r" "grants r key < 2 ^ 64"
    and "i \<in> {1..grants r key}" "j \<in> {1..grants r key}"
    and "clock r < promise r key i" "clock r < promise r key j"
  shows "i = j"
proof -
  have "promise r key n \<le> clock r" if "0 < n" "n < grants r key" for n
    using lease_inv_steps [OF assms(1)] assms(2) that by (simp add: lease_inv_def key_ok_def)
  from this [of i] this [of j] assms(3-6) show ?thesis by (cases "i < grants r key"; cases "j < grants r key") auto
qed

text \<open>The fencing token of a new grant is one more than the number of grants before it, so it
  exceeds every token ever issued for the key, and it is issued only when every earlier
  promise, renewals included, has run out.\<close>

theorem lease_token_increases:
  assumes "lease_steps (lease_init t) r" "grants r key + 1 < 2 ^ 64" "clock r \<le> now"
    and "Acquire now key h ttl (leases r) = ((tok, True), m)"
  shows "unat tok = grants r key + 1 \<and> (\<forall>n\<in>{1..grants r key}. promise r key n \<le> now)"
proof -
  let ?n = "grants r key"
  have inv: "key_ok (clock r) (map_of (leases r) key) ?n (holder r key) (promise r key)"
    using lease_inv_steps [OF assms(1)] assms(2) by (simp add: lease_inv_def)
  note a = Acquire_grantedD [OF assms(4)]
  show ?thesis
  proof (cases "map_of (leases r) key")
    case None
    with inv a show ?thesis by (simp add: key_ok_def)
  next
    case (Some l)
    with inv have l: "unat (Token l) = ?n" "ExpiresAt l = promise r key ?n"
      and old: "\<And>i. 0 < i \<Longrightarrow> i < ?n \<Longrightarrow> promise r key i \<le> clock r" by (simp_all add: key_ok_def)
    have "unat (Token l + 1) = ?n + 1" using l(1) assms(2) by (simp add: unat_word_ariths)
    moreover have "promise r key i \<le> now" if "i \<in> {1..?n}" for i
      using old [of i] that l(2) a Some assms(3) by (cases "i = ?n") auto
    ultimately show ?thesis using a Some by simp
  qed
qed

text \<open>Fencing. Once a key has been granted again, the holder of any earlier token can neither
  renew nor release: both calls are refused and leave the store as it was.\<close>

theorem stale_holder_refused:
  assumes "lease_steps (lease_init t) r" "grants r key < 2 ^ 64" "unat tok < grants r key"
  shows "Renew now key h tok ttl (leases r) = (False, leases r) \<and>
    Release now key h tok (leases r) = (Inl ErrFencingTokenMismatch, leases r)"
proof -
  obtain l where l: "map_of (leases r) key = Some l" "unat (Token l) = grants r key"
    using lease_inv_steps [OF assms(1)] assms(2,3)
    by (cases "map_of (leases r) key") (auto simp: lease_inv_def key_ok_def)
  with assms(3) have "Token l \<noteq> tok" by auto
  with l(1) show ?thesis by (simp add: Renew_def Release_def)
qed

section \<open>Witnesses\<close>

text \<open>Replica A holds a lease from 10 to 40 and renews it at 30 until 60; B takes over at 70.\<close>

definition lease_at_30 :: lease_run where
  "lease_at_30 =
     \<lparr>leases = [(''k'', \<lparr>leaseKey = ''k'', HolderID = ''A'', Token = 1, ExpiresAt = 60, UpdatedAt = 30\<rparr>)],
      clock = 30, grants = (\<lambda>_. 0)(''k'' := 1), holder = (\<lambda>_ _. '''')(''k'' := (\<lambda>_. '''')(1 := ''A'')),
      promise = (\<lambda>_ _. 0)(''k'' := (\<lambda>_. 0)(1 := 60))\<rparr>"

definition lease_at_70 :: lease_run where
  "lease_at_70 =
     \<lparr>leases = [(''k'', \<lparr>leaseKey = ''k'', HolderID = ''B'', Token = 2, ExpiresAt = 100, UpdatedAt = 70\<rparr>)],
      clock = 70, grants = (\<lambda>_. 0)(''k'' := 2),
      holder = (\<lambda>_ _. '''')(''k'' := (\<lambda>_. '''')(1 := ''A'', 2 := ''B'')),
      promise = (\<lambda>_ _. 0)(''k'' := (\<lambda>_. 0)(1 := 60, 2 := 100))\<rparr>"

definition lease_at_10 :: lease_run where
  "lease_at_10 =
     \<lparr>leases = [(''k'', \<lparr>leaseKey = ''k'', HolderID = ''A'', Token = 1, ExpiresAt = 40, UpdatedAt = 10\<rparr>)],
      clock = 10, grants = (\<lambda>_. 0)(''k'' := 1), holder = (\<lambda>_ _. '''')(''k'' := (\<lambda>_. '''')(1 := ''A'')),
      promise = (\<lambda>_ _. 0)(''k'' := (\<lambda>_. 0)(1 := 40))\<rparr>"

lemma demo_lease_10: "lease_step (lease_init 0) lease_at_10"
proof -
  have "lease_step (lease_init 0) (promised ''k'' (grants (lease_init 0) ''k'' + 1) ''A'' (10 + 30) (lease_init 0)
    \<lparr>leases := leases lease_at_10, clock := 10\<rparr>)"
    by (rule lease_step.granted [of _ _ _ _ _ 1]) (simp_all add: lease_init_def Acquire_def lease_at_10_def)
  moreover have "promised ''k'' (grants (lease_init 0) ''k'' + 1) ''A'' (10 + 30) (lease_init 0)
    \<lparr>leases := leases lease_at_10, clock := 10\<rparr> = lease_at_10"
    by (simp add: promised_def lease_init_def lease_at_10_def)
  ultimately show ?thesis by simp
qed

lemma demo_lease_30: "lease_steps (lease_init 0) lease_at_30"
proof -
  have "lease_step lease_at_10 (promised ''k'' (unat (1 :: u64)) ''A'' (30 + 30) lease_at_10
    \<lparr>leases := leases lease_at_30, clock := 30\<rparr>)"
    by (rule lease_step.renewed) (simp_all add: Renew_def lease_at_10_def lease_at_30_def)
  moreover have "promised ''k'' (unat (1 :: u64)) ''A'' (30 + 30) lease_at_10
    \<lparr>leases := leases lease_at_30, clock := 30\<rparr> = lease_at_30"
    by (simp add: promised_def lease_at_10_def lease_at_30_def)
  ultimately show ?thesis using demo_lease_10 by (metis r_into_rtranclp rtranclp.rtrancl_into_rtrancl)
qed

lemma demo_acquire_70:
  "Acquire 70 ''k'' ''B'' 30 (leases lease_at_30) = ((2, True), leases lease_at_70)"
  by (simp add: Acquire_def lease_at_30_def lease_at_70_def)

lemma demo_lease_70: "lease_steps (lease_init 0) lease_at_70"
proof -
  have "lease_step lease_at_30 (promised ''k'' (grants lease_at_30 ''k'' + 1) ''B'' (70 + 30) lease_at_30
    \<lparr>leases := leases lease_at_70, clock := 70\<rparr>)"
    by (rule lease_step.granted [OF _ demo_acquire_70]) (simp add: lease_at_30_def)
  moreover have "promised ''k'' (grants lease_at_30 ''k'' + 1) ''B'' (70 + 30) lease_at_30
    \<lparr>leases := leases lease_at_70, clock := 70\<rparr> = lease_at_70"
    by (simp add: promised_def lease_at_30_def lease_at_70_def numeral_2_eq_2)
  ultimately show ?thesis using demo_lease_30 by (metis rtranclp.rtrancl_into_rtrancl)
qed

theorem lease_exclusive_witness:
  "lease_steps (lease_init 0) lease_at_70 \<and> clock lease_at_70 < promise lease_at_70 ''k'' 2 \<and>
   \<not> clock lease_at_70 < promise lease_at_70 ''k'' 1"
proof -
  have two: "clock lease_at_70 < promise lease_at_70 ''k'' 2" by (simp add: lease_at_70_def)
  have "\<not> clock lease_at_70 < promise lease_at_70 ''k'' 1"
    using lease_exclusive [OF demo_lease_70, of "''k''" 1 2] two by (auto simp: lease_at_70_def)
  with two demo_lease_70 show ?thesis by blast
qed

theorem lease_token_increases_witness:
  "unat (2 :: u64) = grants lease_at_30 ''k'' + 1 \<and> promise lease_at_30 ''k'' 1 \<le> 70"
  using lease_token_increases [OF demo_lease_30 _ _ demo_acquire_70] by (simp add: lease_at_30_def)

theorem stale_holder_refused_witness:
  "Renew 80 ''k'' ''A'' 1 30 (leases lease_at_70) = (False, leases lease_at_70) \<and>
   Release 80 ''k'' ''A'' 1 (leases lease_at_70) = (Inl ErrFencingTokenMismatch, leases lease_at_70)"
  by (rule stale_holder_refused [OF demo_lease_70]) (simp_all add: lease_at_70_def)

end
