(* ===== verification/Idempotency.thy ===== *)
theory Idempotency
  imports ChainStore
begin

text \<open>
  The Idempotency-Key middleware: \<^verbatim>\<open>server/internal/auth/idempotency.go\<close> over the reservation
  store of \<^verbatim>\<open>dal/memory/idempotency.go\<close>. A request runs the middleware in two atomic pieces
  around the handler: \<open>idem_begin\<close> up to the reservation and \<open>idem_end\<close> after it, so that
  concurrent requests are interleavings of these pieces. SHA-256 is the parameter \<open>sha256\<close>;
  the clock and the random token (None when reading randomness fails) are arguments. The
  locale \<open>reservation_store\<close> is the contract of the repository interface.
\<close>

section \<open>The reservation store\<close>

record IdempotencyRecord =
  irKey :: string
  irMethod :: string
  irPath :: string
  irRequestHash :: string
  irToken :: string
  irResponseStatus :: int
  irResponseBody :: bytes
  irCreatedAt :: int
  irExpiresAt :: int

type_synonym idem_map = "(string \<times> IdempotencyRecord) list"

datatype reservation = Existing IdempotencyRecord | Reserved string

record 's idem_repo =
  idReserve :: "int \<Rightarrow> string option \<Rightarrow> string \<Rightarrow> string \<Rightarrow> string \<Rightarrow> string \<Rightarrow> int \<Rightarrow> 's
    \<Rightarrow> (repo_error + reservation) \<times> 's"
  idComplete :: "string \<Rightarrow> string \<Rightarrow> int \<Rightarrow> bytes \<Rightarrow> 's \<Rightarrow> (repo_error + unit) \<times> 's"
  idRelease :: "string \<Rightarrow> string \<Rightarrow> 's \<Rightarrow> (repo_error + unit) \<times> 's"

definition newFencingToken :: "bytes option \<Rightarrow> string option" where
  "newFencingToken random = map_option hex random"

definition memReserve :: "int \<Rightarrow> string option \<Rightarrow> string \<Rightarrow> string \<Rightarrow> string \<Rightarrow> string \<Rightarrow> int \<Rightarrow> idem_map
    \<Rightarrow> (repo_error + reservation) \<times> idem_map" where
  "memReserve now tok key method path requestHash ttl m =
     (let fresh = (case tok of
            None \<Rightarrow> (Inl (ErrStore ''rand''), m)
          | Some token \<Rightarrow>
              (Inr (Reserved token),
               AList.update key \<lparr>irKey = key, irMethod = method, irPath = path, irRequestHash = requestHash,
                 irToken = token, irResponseStatus = 0, irResponseBody = [], irCreatedAt = now,
                 irExpiresAt = now + ttl\<rparr> m))
      in case map_of m key of
           Some existing \<Rightarrow>
             if now < irExpiresAt existing then (Inr (Existing (existing\<lparr>irToken := ''''\<rparr>)), m) else fresh
         | None \<Rightarrow> fresh)"

definition memComplete :: "string \<Rightarrow> string \<Rightarrow> int \<Rightarrow> bytes \<Rightarrow> idem_map \<Rightarrow> (repo_error + unit) \<times> idem_map" where
  "memComplete key token status body m =
     (case map_of m key of
        None \<Rightarrow> (Inl ErrFencingTokenMismatch, m)
      | Some rec \<Rightarrow>
          if irToken rec \<noteq> token then (Inl ErrFencingTokenMismatch, m)
          else (Inr (), AList.update key (rec\<lparr>irResponseStatus := status, irResponseBody := body\<rparr>) m))"

definition memRelease :: "string \<Rightarrow> string \<Rightarrow> idem_map \<Rightarrow> (repo_error + unit) \<times> idem_map" where
  "memRelease key token m =
     (case map_of m key of
        None \<Rightarrow> (Inl ErrFencingTokenMismatch, m)
      | Some rec \<Rightarrow>
          if irToken rec \<noteq> token then (Inl ErrFencingTokenMismatch, m)
          else (Inr (), AList.delete key m))"

definition memoryIdempotency :: "idem_map idem_repo" where
  "memoryIdempotency = \<lparr>idReserve = memReserve, idComplete = memComplete, idRelease = memRelease\<rparr>"

text \<open>The contract: a live record is returned without its token, a missing or expired one is
  replaced; only the token's owner completes or releases; a failing call changes nothing.\<close>

locale reservation_store =
  fixes R :: "'s idem_repo"
    and entry :: "'s \<Rightarrow> string \<Rightarrow> IdempotencyRecord option"
  assumes reserve_existing: "idReserve R now tok k mt p h ttl s = (Inr (Existing r), s') \<Longrightarrow>
      entry s' = entry s \<and> (\<exists>r0. entry s k = Some r0 \<and> now < irExpiresAt r0 \<and> r = r0\<lparr>irToken := ''''\<rparr>)"
    and reserve_new: "idReserve R now tok k mt p h ttl s = (Inr (Reserved t), s') \<Longrightarrow>
      tok = Some t \<and> (\<forall>r0. entry s k = Some r0 \<longrightarrow> irExpiresAt r0 \<le> now) \<and>
      entry s' = (entry s)(k \<mapsto> \<lparr>irKey = k, irMethod = mt, irPath = p, irRequestHash = h, irToken = t,
        irResponseStatus = 0, irResponseBody = [], irCreatedAt = now, irExpiresAt = now + ttl\<rparr>)"
    and reserve_error: "idReserve R now tok k mt p h ttl s = (Inl err, s') \<Longrightarrow> entry s' = entry s"
    and complete_ok: "idComplete R k t st b s = (Inr u, s') \<Longrightarrow>
      (\<exists>r. entry s k = Some r \<and> irToken r = t \<and>
         entry s' = (entry s)(k \<mapsto> r\<lparr>irResponseStatus := st, irResponseBody := b\<rparr>))"
    and complete_error: "idComplete R k t st b s = (Inl err, s') \<Longrightarrow> entry s' = entry s"
    and release_ok: "idRelease R k t s = (Inr u, s') \<Longrightarrow>
      (\<exists>r. entry s k = Some r \<and> irToken r = t) \<and> entry s' = (entry s)(k := None)"
    and release_error: "idRelease R k t s = (Inl err, s') \<Longrightarrow> entry s' = entry s"
begin

text \<open>No call but a new reservation, or the owner's release, takes a record away from its owner.\<close>

lemma complete_keeps: "idComplete R k t st b s = (r, s') \<Longrightarrow> entry s k' = Some rec \<Longrightarrow>
    \<exists>rec'. entry s' k' = Some rec' \<and> irToken rec' = irToken rec \<and> irExpiresAt rec' = irExpiresAt rec"
  by (cases r) (auto dest!: complete_ok complete_error)

lemma release_keeps: "idRelease R k t s = (r, s') \<Longrightarrow> entry s k' = Some rec \<Longrightarrow>
    irToken rec \<noteq> t \<or> k' \<noteq> k \<Longrightarrow> entry s' k' = Some rec"
  by (cases r) (auto dest!: release_ok release_error)

end

interpretation mr: reservation_store memoryIdempotency "map_of :: idem_map \<Rightarrow> _"
  by unfold_locales
    (auto simp: memoryIdempotency_def memReserve_def memComplete_def memRelease_def Let_def update_conv' delete_conv'
      split: option.splits if_splits)

section \<open>The recorder\<close>

text \<open>\<^verbatim>\<open>responseRecorder\<close>: the handler's writes go through to the client and into a bounded buffer.
  \<open>Write\<close> and \<open>WriteString\<close> are the same function on bytes.\<close>

record recorder =
  recBody :: bytes
  truncated :: bool

definition recorder_write :: "nat \<Rightarrow> bytes \<Rightarrow> recorder \<Rightarrow> recorder" where
  "recorder_write maxCached b r =
     (if truncated r then r
      else if maxCached < length (recBody r) + length b then r\<lparr>truncated := True, recBody := []\<rparr>
      else r\<lparr>recBody := recBody r @ b\<rparr>)"

definition record_writes :: "nat \<Rightarrow> bytes list \<Rightarrow> recorder" where
  "record_writes maxCached ws = fold (recorder_write maxCached) ws \<lparr>recBody = [], truncated = False\<rparr>"

lemma record_writes_truncated: "truncated r \<Longrightarrow> fold (recorder_write n) ws r = r"
  by (induction ws) (simp_all add: recorder_write_def)

text \<open>It holds the response verbatim, or only the fact that it is longer than the limit.\<close>

lemma fold_recorder_write:
  "\<not> truncated r \<Longrightarrow> length (recBody r) \<le> n \<Longrightarrow> fold (recorder_write n) ws r =
    (if length (recBody r) + length (concat ws) \<le> n then r\<lparr>recBody := recBody r @ concat ws\<rparr>
     else r\<lparr>truncated := True, recBody := []\<rparr>)"
proof (induction ws arbitrary: r)
  case (Cons w ws)
  show ?case
  proof (cases "n < length (recBody r) + length w")
    case True
    with Cons.prems have "recorder_write n w r = r\<lparr>truncated := True, recBody := []\<rparr>" by (simp add: recorder_write_def)
    with True show ?thesis by (simp add: record_writes_truncated)
  next
    case False
    with Cons.prems have "recorder_write n w r = r\<lparr>recBody := recBody r @ w\<rparr>" by (simp add: recorder_write_def)
    with False Cons.prems Cons.IH [of "r\<lparr>recBody := recBody r @ w\<rparr>"] show ?thesis by simp
  qed
qed simp

lemma record_writes_eq:
  "record_writes n ws = (if length (concat ws) \<le> n then \<lparr>recBody = concat ws, truncated = False\<rparr>
     else \<lparr>recBody = [], truncated = True\<rparr>)"
  by (simp add: record_writes_def fold_recorder_write)

section \<open>The middleware\<close>

text \<open>What the middleware reads of a request; the body read may fail. \<open>rqFullPath\<close> is the
  registered route template, empty for an unmatched route.\<close>

record idem_request =
  rqKey :: string
  rqFullPath :: string
  rqPath :: string
  rqMethod :: string
  rqQuery :: string
  rqPrincipal :: string
  rqBody :: "string + bytes"

datatype idem_answer =
    Abort int string
  | Replay int bytes
  | Proceed string string

definition maxIdempotencyKeyBytes :: nat where "maxIdempotencyKeyBytes = 256"

definition maxCachedResponseBytes :: nat where "maxCachedResponseBytes = 2 ^ 20"

definition NUL :: char where "NUL = CHR 0x00"

definition route_of :: "idem_request \<Rightarrow> string" where
  "route_of rq = (if rqFullPath rq = '''' then rqPath rq else rqFullPath rq)"

definition scoped_key :: "idem_request \<Rightarrow> string" where
  "scoped_key rq = rqPrincipal rq @ [NUL] @ rqMethod rq @ [NUL] @ route_of rq @ [NUL] @ rqPath rq @ [NUL] @
     rqQuery rq @ [NUL] @ rqKey rq"

definition idem_begin :: "'s idem_repo \<Rightarrow> (bytes \<Rightarrow> bytes) \<Rightarrow> int \<Rightarrow> int \<Rightarrow> string option \<Rightarrow> idem_request \<Rightarrow> 's
    \<Rightarrow> idem_answer \<times> 's" where
  "idem_begin R sha256 ttl now tok rq s =
     (if rqKey rq = '''' then (Abort 400 ''idempotency_key_required'', s)
      else if maxIdempotencyKeyBytes < length (rqKey rq) then (Abort 400 ''idempotency_key_too_long'', s)
      else case rqBody rq of
        Inl err \<Rightarrow> (Abort 413 ''request_body_too_large'', s)
      | Inr bodyBytes \<Rightarrow>
          (let reqHash = hex (sha256 bodyBytes) in
           case idReserve R now tok (scoped_key rq) (rqMethod rq) (route_of rq) reqHash ttl s of
             (Inl err, s') \<Rightarrow> (Abort 500 ''internal_error'', s')
           | (Inr (Existing existing), s') \<Rightarrow>
               (if irRequestHash existing \<noteq> reqHash then (Abort 409 ''idempotency_key_reused'', s')
                else if irResponseStatus existing = 0 then (Abort 409 ''idempotency_key_in_progress'', s')
                else (Replay (irResponseStatus existing) (irResponseBody existing), s'))
           | (Inr (Reserved token), s') \<Rightarrow> (Proceed (scoped_key rq) token, s')))"

definition placeholder :: "nat \<Rightarrow> bytes" where
  "placeholder maxCached = bytes_of_string
     (''{\"code\":\"idempotent_response_not_cached\",\"message\":\"the request completed successfully; its response exceeded the '' @
      dec_nat maxCached @
      ''-byte idempotency cache limit and was not stored for replay, but the side effect was NOT re-executed\"}'')"

text \<open>After the handler: it answered \<open>status\<close> and wrote \<open>ws\<close>. A store error is only logged; it
  is returned here so that runs can tell.\<close>

definition idem_end :: "'s idem_repo \<Rightarrow> nat \<Rightarrow> string \<Rightarrow> string \<Rightarrow> int \<Rightarrow> bytes list \<Rightarrow> 's
    \<Rightarrow> (repo_error + unit) \<times> 's" where
  "idem_end R maxCached scopedKey token status ws s =
     (let rec = record_writes maxCached ws in
      if 200 \<le> status \<and> status < 300 then
        (if truncated rec then idComplete R scopedKey token status (placeholder maxCached) s
         else idComplete R scopedKey token status (recBody rec) s)
      else idRelease R scopedKey token s)"

section \<open>Concurrent requests\<close>

text \<open>
  A run interleaves the pieces of any number of requests. \<open>executions\<close> lists every time a
  handler was entered, with the reservation it entered under; \<open>given_up\<close> holds the tokens
  whose reservation the middleware released because the handler did not answer 2xx. A process
  may crash while its handler runs. Tokens are 16 random bytes: no two winning reservations
  share one. The clock does not run backwards.
\<close>

record execution =
  exKey :: string
  exToken :: string
  exStart :: int

record 's idem_run =
  idStore :: 's
  idClock :: int
  running :: "(string \<times> string) list"
  executions :: "execution list"
  given_up :: "string set"

inductive idem_step :: "'s idem_repo \<Rightarrow> (bytes \<Rightarrow> bytes) \<Rightarrow> nat \<Rightarrow> int \<Rightarrow> 's idem_run \<Rightarrow> 's idem_run \<Rightarrow> bool"
  for R :: "'s idem_repo" and sha256 :: "bytes \<Rightarrow> bytes" and maxCached :: nat and ttl :: int where
  entered: "idClock r \<le> now \<Longrightarrow> t \<notin> exToken ` set (executions r) \<Longrightarrow>
    idem_begin R sha256 ttl now tok rq (idStore r) = (Proceed k t, s) \<Longrightarrow>
    idem_step R sha256 maxCached ttl r (r\<lparr>idStore := s, idClock := now, running := (k, t) # running r,
      executions := executions r @ [\<lparr>exKey = k, exToken = t, exStart = now\<rparr>]\<rparr>)"
| answered: "idClock r \<le> now \<Longrightarrow> idem_begin R sha256 ttl now tok rq (idStore r) = (a, s) \<Longrightarrow>
    (\<forall>k t. a \<noteq> Proceed k t) \<Longrightarrow> idem_step R sha256 maxCached ttl r (r\<lparr>idStore := s, idClock := now\<rparr>)"
| finished: "idClock r \<le> now \<Longrightarrow> (k, t) \<in> set (running r) \<Longrightarrow>
    idem_end R maxCached k t status ws (idStore r) = (res, s) \<Longrightarrow>
    idem_step R sha256 maxCached ttl r (r\<lparr>idStore := s, idClock := now, running := removeAll (k, t) (running r),
      given_up := (if 200 \<le> status \<and> status < 300 then given_up r else insert t (given_up r))\<rparr>)"
| crashed: "idClock r \<le> now \<Longrightarrow>
    idem_step R sha256 maxCached ttl r (r\<lparr>idClock := now, running := removeAll (k, t) (running r)\<rparr>)"

definition idem_init :: "'s \<Rightarrow> int \<Rightarrow> 's idem_run" where
  "idem_init s t = \<lparr>idStore = s, idClock = t, running = [], executions = [], given_up = {}\<rparr>"

text \<open>Completing with a 2xx answer makes the record a replay of it, or of the placeholder.\<close>

definition cached_body :: "nat \<Rightarrow> bytes list \<Rightarrow> bytes" where
  "cached_body maxCached ws = (if length (concat ws) \<le> maxCached then concat ws else placeholder maxCached)"

context reservation_store
begin

lemma idem_begin_other:
  assumes "idem_begin R sha256 ttl now tok rq s = (a, s')" "\<forall>k t. a \<noteq> Proceed k t"
  shows "entry s' = entry s"
proof -
  let ?h = "\<lambda>b. hex (sha256 b)"
  have "entry s' = entry s" if "rqBody rq = Inr b" "idReserve R now tok (scoped_key rq) (rqMethod rq) (route_of rq) (?h b) ttl s = (x, s2)"
    "s' = s2" "\<forall>t. x \<noteq> Inr (Reserved t)" for b x s2
  proof (cases x)
    case (Inl err)
    with that reserve_error show ?thesis by blast
  next
    case (Inr y)
    with that(2-4) reserve_existing show ?thesis by (cases y) auto
  qed
  with assms show ?thesis unfolding idem_begin_def
    by (auto simp: Let_def split: if_splits sum.splits prod.splits reservation.splits)
qed

lemma idem_begin_proceed:
  assumes "idem_begin R sha256 ttl now tok rq s = (Proceed k t, s')"
  obtains b where "k = scoped_key rq" "rqBody rq = Inr b" "\<forall>r0. entry s k = Some r0 \<longrightarrow> irExpiresAt r0 \<le> now"
    "entry s' = (entry s)(k \<mapsto> \<lparr>irKey = k, irMethod = rqMethod rq, irPath = route_of rq,
        irRequestHash = hex (sha256 b), irToken = t, irResponseStatus = 0, irResponseBody = [], irCreatedAt = now,
        irExpiresAt = now + ttl\<rparr>)"
proof -
  from assms obtain b where "rqBody rq = Inr b" "k = scoped_key rq"
    "idReserve R now tok k (rqMethod rq) (route_of rq) (hex (sha256 b)) ttl s = (Inr (Reserved t), s')"
    unfolding idem_begin_def
    by (auto simp: Let_def split: if_splits sum.splits prod.splits reservation.splits)
  with reserve_new [OF this(3)] that show thesis by blast
qed

text \<open>What a run keeps: an execution that was not given up either still owns the record of its
  key, or its time is over; and executions of a key are a ttl apart unless given up.\<close>

definition owns :: "int \<Rightarrow> 's idem_run \<Rightarrow> execution \<Rightarrow> bool" where
  "owns ttl r e \<longleftrightarrow> exStart e + ttl \<le> idClock r \<or>
     (\<exists>rec. entry (idStore r) (exKey e) = Some rec \<and> irToken rec = exToken e \<and> irExpiresAt rec = exStart e + ttl)"

definition idem_inv :: "int \<Rightarrow> 's idem_run \<Rightarrow> bool" where
  "idem_inv ttl r \<longleftrightarrow>
     distinct (map exToken (executions r)) \<and>
     (\<forall>(k, t) \<in> set (running r). \<exists>e \<in> set (executions r). exKey e = k \<and> exToken e = t) \<and>
     (\<forall>e \<in> set (executions r). exToken e \<notin> given_up r \<longrightarrow> owns ttl r e) \<and>
     sorted_wrt (\<lambda>e f. exKey e = exKey f \<longrightarrow> exToken e \<notin> given_up r \<longrightarrow> exStart e + ttl \<le> exStart f) (executions r)"

lemma idem_inv_quiet:
  assumes "idem_inv ttl r" "idClock r \<le> now" "entry s = entry (idStore r)" "set rs \<subseteq> set (running r)"
  shows "idem_inv ttl (r\<lparr>idStore := s, idClock := now, running := rs\<rparr>)"
  using assms unfolding idem_inv_def owns_def by fastforce

lemma idem_inv_step:
  assumes inv: "idem_inv ttl r" and step: "idem_step R sha256 maxCached ttl r r'"
  shows "idem_inv ttl r'"
  using step
proof cases
  case (entered now t tok rq k s)
  from idem_begin_proceed [OF entered(4)] obtain b where free: "\<forall>r0. entry (idStore r) k = Some r0 \<longrightarrow> irExpiresAt r0 \<le> now"
    and s: "entry s = (entry (idStore r))(k \<mapsto> \<lparr>irKey = k, irMethod = rqMethod rq, irPath = route_of rq,
        irRequestHash = hex (sha256 b), irToken = t, irResponseStatus = 0, irResponseBody = [], irCreatedAt = now,
        irExpiresAt = now + ttl\<rparr>)" by blast
  let ?e = "\<lparr>exKey = k, exToken = t, exStart = now\<rparr>"
  have old: "exStart e + ttl \<le> now" if "e \<in> set (executions r)" "exToken e \<notin> given_up r" "exKey e = k" for e
    using inv that free entered(2) unfolding idem_inv_def owns_def by fastforce
  have "owns ttl r' e" if e: "e \<in> set (executions r')" "exToken e \<notin> given_up r'" for e
  proof (cases "e = ?e")
    case True
    then show ?thesis by (simp add: entered(1) owns_def s)
  next
    case False
    with e have e': "e \<in> set (executions r)" "exToken e \<notin> given_up r" by (auto simp: entered(1))
    show ?thesis
    proof (cases "exKey e = k")
      case True
      with old [OF e'] show ?thesis by (simp add: entered(1) owns_def)
    next
      case False
      with e' inv entered(2) show ?thesis by (fastforce simp: entered(1) owns_def idem_inv_def s)
    qed
  qed
  with inv old entered(3) show ?thesis
    by (auto simp: idem_inv_def entered(1) sorted_wrt_append)
next
  case (answered now tok rq a s)
  with idem_inv_quiet [OF inv answered(2) idem_begin_other [OF answered(3,4)], of "running r"] show ?thesis by simp
next
  case (crashed now k t)
  with idem_inv_quiet [OF inv crashed(2) refl, of "removeAll (k, t) (running r)"] show ?thesis by simp
next
  case (finished now k t status ws res s)
  have keep: "\<exists>rec'. entry s k' = Some rec' \<and> irToken rec' = irToken rec \<and> irExpiresAt rec' = irExpiresAt rec"
    if rec: "entry (idStore r) k' = Some rec" and nt: "irToken rec \<noteq> t \<or> 200 \<le> status \<and> status < 300" for k' rec
    using finished(4) rec nt complete_keeps [of k t status _ "idStore r" res s k' rec] release_keeps [of k t "idStore r" res s k' rec]
    unfolding idem_end_def by (auto simp: Let_def split: if_splits)
  have "owns ttl r' e" if e: "e \<in> set (executions r)" "exToken e \<notin> given_up r'" for e
  proof -
    from e(2) have ng: "exToken e \<notin> given_up r" and nt: "exToken e \<noteq> t \<or> 200 \<le> status \<and> status < 300"
      by (auto simp: finished(1) split: if_splits)
    with inv e(1) have "owns ttl r e" by (simp add: idem_inv_def)
    then show ?thesis unfolding owns_def
    proof (elim disjE exE conjE)
      assume "exStart e + ttl \<le> idClock r"
      with finished(2) show "exStart e + ttl \<le> idClock r' \<or> (\<exists>rec. entry (idStore r') (exKey e) = Some rec \<and>
          irToken rec = exToken e \<and> irExpiresAt rec = exStart e + ttl)" by (simp add: finished(1))
    next
      fix rec
      assume rec: "entry (idStore r) (exKey e) = Some rec" "irToken rec = exToken e" "irExpiresAt rec = exStart e + ttl"
      with nt obtain rec' where "entry s (exKey e) = Some rec'" "irToken rec' = irToken rec" "irExpiresAt rec' = irExpiresAt rec"
        using keep [OF rec(1)] by auto
      with rec show "exStart e + ttl \<le> idClock r' \<or> (\<exists>rec. entry (idStore r') (exKey e) = Some rec \<and>
          irToken rec = exToken e \<and> irExpiresAt rec = exStart e + ttl)" by (simp add: finished(1))
    qed
  qed
  moreover have "sorted_wrt (\<lambda>e f. exKey e = exKey f \<longrightarrow> exToken e \<notin> given_up r' \<longrightarrow> exStart e + ttl \<le> exStart f) (executions r)"
    by (rule sorted_wrt_mono_rel [of _ "\<lambda>e f. exKey e = exKey f \<longrightarrow> exToken e \<notin> given_up r \<longrightarrow> exStart e + ttl \<le> exStart f"])
      (use inv in \<open>auto simp: idem_inv_def finished(1) split: if_splits\<close>)
  ultimately show ?thesis using inv by (auto simp: idem_inv_def finished(1))
qed

lemma idem_inv_steps:
  assumes "(idem_step R sha256 maxCached ttl)\<^sup>*\<^sup>* (idem_init s t) r"
  shows "idem_inv ttl r"
  using assms
proof (induction rule: rtranclp_induct)
  case base
  show ?case by (simp add: idem_init_def idem_inv_def)
next
  case (step r r')
  from idem_inv_step [OF step.IH step.hyps(2)] show ?case .
qed

lemma once_per_ttl:
  assumes "(idem_step R sha256 maxCached ttl)\<^sup>*\<^sup>* (idem_init s t) r"
    and "i < j" "j < length (executions r)" "exKey (executions r ! i) = exKey (executions r ! j)"
    and "exToken (executions r ! i) \<notin> given_up r"
  shows "exStart (executions r ! i) + ttl \<le> exStart (executions r ! j)"
  using idem_inv_steps [OF assms(1)] assms(2-) by (auto simp: idem_inv_def sorted_wrt_iff_nth_less)

lemma idem_end_ok:
  assumes "idem_end R maxCached k t status ws s = (Inr u, s')" "200 \<le> status" "status < 300"
  obtains rec where "entry s k = Some rec" "irToken rec = t"
    "entry s' = (entry s)(k \<mapsto> rec\<lparr>irResponseStatus := status, irResponseBody := cached_body maxCached ws\<rparr>)"
proof -
  from assms have "idComplete R k t status (cached_body maxCached ws) s = (Inr u, s')"
    by (simp add: idem_end_def Let_def record_writes_eq cached_body_def split: if_splits)
  from complete_ok [OF this] that show thesis by blast
qed

lemma idem_begin_live:
  assumes "idem_begin R sha256 ttl now tok rq s = (a, s')"
    and "rqKey rq \<noteq> ''''" "length (rqKey rq) \<le> maxIdempotencyKeyBytes" "rqBody rq = Inr b"
    and rec: "entry s (scoped_key rq) = Some rec" "now < irExpiresAt rec" "irResponseStatus rec \<noteq> 0"
  shows "a = Abort 500 ''internal_error'' \<or>
    a = (if irRequestHash rec = hex (sha256 b) then Replay (irResponseStatus rec) (irResponseBody rec)
         else Abort 409 ''idempotency_key_reused'')"
proof -
  obtain x s2 where x: "idReserve R now tok (scoped_key rq) (rqMethod rq) (route_of rq) (hex (sha256 b)) ttl s = (x, s2)"
    by fastforce
  note run = assms(1) [unfolded idem_begin_def]
  show ?thesis
  proof (cases x)
    case (Inl err)
    with run assms(2-4) x show ?thesis by (simp add: Let_def)
  next
    case (Inr y)
    show ?thesis
    proof (cases y)
      case (Existing e)
      with reserve_existing [OF x [unfolded Inr Existing]] rec(1) have "e = rec\<lparr>irToken := ''''\<rparr>" by auto
      with run assms(2-4) x rec(3) Inr Existing show ?thesis by (auto simp: Let_def split: if_splits)
    next
      case (Reserved t)
      with reserve_new [OF x [unfolded Inr Reserved]] rec(1,2) show ?thesis by auto
    qed
  qed
qed

text \<open>While its time lasts, the record of a key stays what its owner made it, whatever the other requests do.\<close>

definition kept :: "string \<Rightarrow> string \<Rightarrow> (string \<times> string) set \<Rightarrow> IdempotencyRecord \<Rightarrow> 's idem_run \<Rightarrow> bool" where
  "kept k t own rec r \<longleftrightarrow> t \<in> exToken ` set (executions r) \<and>
     ((k, t) \<in> own \<or> (k, t) \<notin> set (running r)) \<and>
     (idClock r < irExpiresAt rec \<longrightarrow> (k, t) \<in> own - set (running r) \<or> entry (idStore r) k = Some rec)"

lemma kept_step:
  assumes step: "idem_step R sha256 maxCached ttl r r'" and k: "kept k t own rec r" and t: "irToken rec = t"
  shows "kept k t own rec r'"
  using step
proof cases
  case (entered now t2 tok rq k2 s)
  from idem_begin_proceed [OF entered(4)] obtain b where
    free: "\<forall>r0. entry (idStore r) k2 = Some r0 \<longrightarrow> irExpiresAt r0 \<le> now"
    and s: "\<And>k'. k' \<noteq> k2 \<Longrightarrow> entry s k' = entry (idStore r) k'" by (metis fun_upd_other)
  have ne: "t2 \<noteq> t" using entered(3) k by (auto simp: kept_def)
  have "entry s k = Some rec" if "now < irExpiresAt rec" "entry (idStore r) k = Some rec"
    using that free s [of k] by (cases "k2 = k") auto
  then show ?thesis using k ne entered(2) by (auto simp: kept_def entered(1))
next
  case (answered now tok rq a s)
  with idem_begin_other [OF answered(3,4)] k show ?thesis by (auto simp: kept_def)
next
  case (crashed now k2 t2)
  with k show ?thesis by (auto simp: kept_def)
next
  case (finished now k2 t2 status ws res s)
  have "entry s k = Some rec" if "entry (idStore r) k = Some rec" "(k2, t2) \<noteq> (k, t)"
  proof (cases "k2 = k")
    case True
    with that t have "irToken rec \<noteq> t2" by auto
    with that(1) True finished(4) show ?thesis unfolding idem_end_def
      by (cases res) (auto simp: Let_def split: if_splits dest!: complete_ok complete_error release_ok release_error)
  next
    case False
    with that(1) finished(4) show ?thesis unfolding idem_end_def
      by (cases res) (auto simp: Let_def split: if_splits dest!: complete_ok complete_error release_ok release_error)
  qed
  then show ?thesis using k finished(2,3) by (auto simp: kept_def finished(1))
qed

lemma kept_steps:
  assumes "(idem_step R sha256 maxCached ttl)\<^sup>*\<^sup>* r r'" "kept k t own rec r" "irToken rec = t"
  shows "kept k t own rec r'"
  using assms by (induction rule: rtranclp_induct) (auto intro: kept_step)

lemma idem_clock: "(idem_step R sha256 maxCached ttl)\<^sup>*\<^sup>* r r' \<Longrightarrow> idClock r \<le> idClock r'"
  by (induction rule: rtranclp_induct) (auto elim: idem_step.cases)

lemma replay_after_success:
  assumes first: "idem_begin R sha256 ttl now tok rq s = (Proceed k t, s1)" "rqBody rq = Inr b"
    and meantime: "entry s2 k = entry s1 k"
    and finish: "idem_end R maxCached k t status ws s2 = (Inr u, s3)" "200 \<le> status" "status < 300"
    and later: "entry s4 k = entry s3 k" "now' < now + ttl"
    and again: "idem_begin R sha256 ttl now' tok' rq' s4 = (a, s5)" "scoped_key rq' = k"
      "rqKey rq' \<noteq> ''''" "length (rqKey rq') \<le> maxIdempotencyKeyBytes" "rqBody rq' = Inr b'"
  shows "a = Abort 500 ''internal_error'' \<or>
    a = (if hex (sha256 b') = hex (sha256 b) then Replay status (cached_body maxCached ws)
         else Abort 409 ''idempotency_key_reused'')"
proof -
  from idem_begin_proceed [OF first(1)] first(2) obtain rec where
    rec: "entry s1 k = Some rec" "irRequestHash rec = hex (sha256 b)" "irExpiresAt rec = now + ttl"
    by (metis (no_types, lifting) IdempotencyRecord.select_convs(4) IdempotencyRecord.select_convs(9) fun_upd_same sum.inject(2))
  from idem_end_ok [OF finish] obtain rec2 where rec2: "entry s2 k = Some rec2"
    "entry s3 = (entry s2)(k \<mapsto> rec2\<lparr>irResponseStatus := status, irResponseBody := cached_body maxCached ws\<rparr>)" by blast
  define rec' where "rec' = rec\<lparr>irResponseStatus := status, irResponseBody := cached_body maxCached ws\<rparr>"
  have r: "entry s4 k = Some rec'" using later(1) rec2 rec(1) meantime by (simp add: rec'_def)
  have r': "irRequestHash rec' = hex (sha256 b)" "irExpiresAt rec' = now + ttl" "irResponseStatus rec' = status"
    "irResponseBody rec' = cached_body maxCached ws" using rec by (simp_all add: rec'_def)
  have "a = Abort 500 ''internal_error'' \<or>
    a = (if irRequestHash rec' = hex (sha256 b') then Replay (irResponseStatus rec') (irResponseBody rec')
         else Abort 409 ''idempotency_key_reused'')"
    by (rule idem_begin_live [OF again(1,3-5)]) (use r r' again(2) later(2) finish(2) in auto)
  with r' show ?thesis by (auto split: if_splits)
qed

lemma replay_in_run:
  assumes first: "idem_begin R sha256 ttl now tok rq (idStore r0) = (Proceed k t, s1)" "rqBody rq = Inr b"
    and r1: "r1 = r0\<lparr>idStore := s1, idClock := now, running := (k, t) # running r0,
      executions := executions r0 @ [\<lparr>exKey = k, exToken = t, exStart = now\<rparr>]\<rparr>"
    and run: "(idem_step R sha256 maxCached ttl)\<^sup>*\<^sup>* r1 r2" "(k, t) \<in> set (running r2)"
    and finish: "idem_end R maxCached k t status ws (idStore r2) = (Inr u, s3)" "200 \<le> status" "status < 300"
      "idClock r2 \<le> now3"
    and r3: "r3 = r2\<lparr>idStore := s3, idClock := now3, running := removeAll (k, t) (running r2)\<rparr>"
    and run': "(idem_step R sha256 maxCached ttl)\<^sup>*\<^sup>* r3 r4"
    and later: "idClock r4 \<le> now'" "now' < now + ttl"
    and again: "idem_begin R sha256 ttl now' tok' rq' (idStore r4) = (a, s5)" "scoped_key rq' = k"
      "rqKey rq' \<noteq> ''''" "length (rqKey rq') \<le> maxIdempotencyKeyBytes" "rqBody rq' = Inr b'"
  shows "a = Abort 500 ''internal_error'' \<or>
    a = (if hex (sha256 b') = hex (sha256 b) then Replay status (cached_body maxCached ws)
         else Abort 409 ''idempotency_key_reused'')"
proof (rule replay_after_success [OF first _ finish(1-3) _ later(2) again])
  from idem_begin_proceed [OF first(1)] first(2) obtain rec where
    rec: "entry s1 k = Some rec" "irToken rec = t" "irExpiresAt rec = now + ttl"
    by (metis (no_types, lifting) IdempotencyRecord.select_convs(5) IdempotencyRecord.select_convs(9) fun_upd_same)
  have clock: "idClock r2 < now + ttl" "idClock r4 < now + ttl"
    using idem_clock [OF run'] later finish(4) by (simp_all add: r3)
  have k2: "kept k t UNIV rec r2"
    by (rule kept_steps [OF run(1) _ rec(2)]) (simp add: kept_def r1 rec)
  with run(2) clock(1) rec show same: "entry (idStore r2) k = entry s1 k" by (simp add: kept_def)
  from idem_end_ok [OF finish(1-3)] obtain old where old: "entry (idStore r2) k = Some old"
    "entry s3 = (entry (idStore r2))(k \<mapsto> old\<lparr>irResponseStatus := status, irResponseBody := cached_body maxCached ws\<rparr>)"
    by blast
  define rec2 where "rec2 = old\<lparr>irResponseStatus := status, irResponseBody := cached_body maxCached ws\<rparr>"
  have rec2: "entry s3 k = Some rec2" "irToken rec2 = t" "irExpiresAt rec2 = now + ttl"
    using old same rec by (simp_all add: rec2_def)
  have "kept k t {} rec2 r4"
    by (rule kept_steps [OF run' _ rec2(2)]) (use k2 rec2 in \<open>simp add: kept_def r3\<close>)
  with clock(2) rec2 show "entry (idStore r4) k = entry s3 k" by (simp add: kept_def)
qed

end

section \<open>The scope of a key\<close>

lemma NUL_split:
  assumes "NUL \<notin> set a" "NUL \<notin> set a'" "a @ [NUL] @ x = a' @ [NUL] @ x'"
  shows "a = a' \<and> x = x'"
  using append_sep_inject [of NUL a a' x x'] assms by simp

lemma NUL_split_right:
  assumes "NUL \<notin> set a" "NUL \<notin> set a'" "x @ [NUL] @ a = x' @ [NUL] @ a'"
  shows "a = a' \<and> x = x'"
proof -
  have "rev a @ [NUL] @ rev x = rev a' @ [NUL] @ rev x'" using arg_cong [OF assms(3), of rev] by simp
  from NUL_split [OF _ _ this] assms(1,2) show ?thesis by simp
qed

section \<open>Properties\<close>

text \<open>C8: at most one execution. However concurrent requests, handler crashes and store failures
  interleave, two handler executions under the same scoped key are at least a ttl apart,
  unless the reservation of the earlier one was given up because its handler did not answer
  2xx. It holds over any store that keeps the repository's contract.\<close>

theorem idempotent_once:
  assumes "reservation_store R entry"
    and "(idem_step R sha256 maxCached ttl)\<^sup>*\<^sup>* (idem_init s t) r"
    and "i < j" "j < length (executions r)" "exKey (executions r ! i) = exKey (executions r ! j)"
    and "exToken (executions r ! i) \<notin> given_up r"
  shows "exStart (executions r ! i) + ttl \<le> exStart (executions r ! j)"
  by (rule reservation_store.once_per_ttl [OF assms])

text \<open>C9: replay, with the in-memory repository. A request enters the handler under a key, any other requests
  come, run, end and crash, the handler answers 2xx and its answer is recorded, and again any other requests
  follow: a well-formed request (a key of at most 256 bytes, a readable body) with the same scoped key that
  arrives before the reservation expires is answered without executing the handler. With a body of the same SHA-256
  it gets the recorded status and the response verbatim (or the fixed placeholder when the response exceeded
  the cache limit), with a body of another SHA-256 a 409.\<close>

theorem idempotent_replay:
  assumes "idem_begin memoryIdempotency sha256 ttl now tok rq (idStore r0) = (Proceed k t, s1)" "rqBody rq = Inr b"
    and "r1 = r0\<lparr>idStore := s1, idClock := now, running := (k, t) # running r0,
      executions := executions r0 @ [\<lparr>exKey = k, exToken = t, exStart = now\<rparr>]\<rparr>"
    and "(idem_step memoryIdempotency sha256 maxCached ttl)\<^sup>*\<^sup>* r1 r2" "(k, t) \<in> set (running r2)"
    and "idem_end memoryIdempotency maxCached k t status ws (idStore r2) = (Inr u, s3)" "200 \<le> status" "status < 300"
      "idClock r2 \<le> now3"
    and "r3 = r2\<lparr>idStore := s3, idClock := now3, running := removeAll (k, t) (running r2)\<rparr>"
    and "(idem_step memoryIdempotency sha256 maxCached ttl)\<^sup>*\<^sup>* r3 r4"
    and "idClock r4 \<le> now'" "now' < now + ttl"
    and "idem_begin memoryIdempotency sha256 ttl now' (Some t') rq' (idStore r4) = (a, s5)" "scoped_key rq' = k"
    and "rqKey rq' \<noteq> ''''" "length (rqKey rq') \<le> maxIdempotencyKeyBytes" "rqBody rq' = Inr b'"
  shows "a = (if hex (sha256 b') = hex (sha256 b)
      then Replay status (if length (concat ws) \<le> maxCached then concat ws else placeholder maxCached)
      else Abort 409 ''idempotency_key_reused'')"
proof -
  have "a \<noteq> Abort 500 ''internal_error''"
    using assms(14,16-18) unfolding idem_begin_def memoryIdempotency_def memReserve_def
    by (auto simp: Let_def split: if_splits option.splits)
  with mr.replay_in_run [OF assms(1-18)] show ?thesis
    by (simp add: cached_body_def split: if_splits)
qed

text \<open>The scope of a key. Two requests share a reservation only when the principal, the
  method, the route template, the concrete path, the canonical query and the caller's key all
  agree; a path may contain NUL bytes, the other parts never do.\<close>

theorem scoped_key_injective:
  assumes "\<forall>s \<in> {rqPrincipal rq, rqMethod rq, route_of rq, rqQuery rq, rqKey rq}. NUL \<notin> set s"
    and "\<forall>s \<in> {rqPrincipal rq', rqMethod rq', route_of rq', rqQuery rq', rqKey rq'}. NUL \<notin> set s"
  shows "scoped_key rq = scoped_key rq' \<longleftrightarrow>
    rqPrincipal rq = rqPrincipal rq' \<and> rqMethod rq = rqMethod rq' \<and> route_of rq = route_of rq' \<and>
    rqPath rq = rqPath rq' \<and> rqQuery rq = rqQuery rq' \<and> rqKey rq = rqKey rq'" (is "?l \<longleftrightarrow> ?r")
proof
  assume l: ?l
  let ?t = "\<lambda>rq. rqPath rq @ [NUL] @ rqQuery rq @ [NUL] @ rqKey rq"
  from l have "rqPrincipal rq = rqPrincipal rq' \<and> rqMethod rq @ [NUL] @ route_of rq @ [NUL] @ ?t rq =
      rqMethod rq' @ [NUL] @ route_of rq' @ [NUL] @ ?t rq'"
    unfolding scoped_key_def by (intro NUL_split) (use assms in auto)
  moreover from this have "rqMethod rq = rqMethod rq' \<and> route_of rq @ [NUL] @ ?t rq = route_of rq' @ [NUL] @ ?t rq'"
    by (intro NUL_split) (use assms in auto)
  moreover from this have "route_of rq = route_of rq' \<and> ?t rq = ?t rq'"
    by (intro NUL_split) (use assms in auto)
  moreover from this have "rqKey rq = rqKey rq' \<and> rqPath rq @ [NUL] @ rqQuery rq = rqPath rq' @ [NUL] @ rqQuery rq'"
    by (intro NUL_split_right) (use assms in auto)
  moreover from this have "rqQuery rq = rqQuery rq' \<and> rqPath rq = rqPath rq'"
    by (intro NUL_split_right) (use assms in auto)
  ultimately show ?r by simp
qed (simp add: scoped_key_def)

section \<open>Witnesses\<close>

definition demo_rq :: idem_request where
  "demo_rq = \<lparr>rqKey = ''k1'', rqFullPath = ''/assets/:id'', rqPath = ''/assets/7'', rqMethod = ''POST'', rqQuery = '''',
     rqPrincipal = ''p'', rqBody = Inr [1, 2]\<rparr>"

definition demo_rec :: "string \<Rightarrow> int \<Rightarrow> IdempotencyRecord" where
  "demo_rec t now = \<lparr>irKey = scoped_key demo_rq, irMethod = ''POST'', irPath = ''/assets/:id'', irRequestHash = hex [1, 2],
     irToken = t, irResponseStatus = 0, irResponseBody = [], irCreatedAt = now, irExpiresAt = now + 100\<rparr>"

definition demo_done :: "string \<Rightarrow> int \<Rightarrow> IdempotencyRecord" where
  "demo_done t now = (demo_rec t now)\<lparr>irResponseStatus := 201, irResponseBody := [7, 8]\<rparr>"

lemma demo_begin:
  "map_of m (scoped_key demo_rq) = None \<or> (\<exists>r. map_of m (scoped_key demo_rq) = Some r \<and> irExpiresAt r \<le> now) \<Longrightarrow>
   idem_begin memoryIdempotency id 100 now (Some t) demo_rq m =
     (Proceed (scoped_key demo_rq) t, AList.update (scoped_key demo_rq) (demo_rec t now) m)"
  by (auto simp: idem_begin_def demo_rq_def maxIdempotencyKeyBytes_def memoryIdempotency_def memReserve_def Let_def
      demo_rec_def route_of_def split: option.split)

lemma demo_end:
  "idem_end memoryIdempotency 10 (scoped_key demo_rq) t 201 [[7], [8]] [(scoped_key demo_rq, demo_rec t now)] =
     (Inr (), [(scoped_key demo_rq, demo_done t now)])"
  by (simp add: idem_end_def record_writes_eq memoryIdempotency_def memComplete_def demo_rec_def demo_done_def Let_def)

definition demo_idem_run :: "idem_map idem_run" where
  "demo_idem_run = \<lparr>idStore = [(scoped_key demo_rq, demo_rec ''t2'' 110)], idClock = 110,
     running = [(scoped_key demo_rq, ''t2'')],
     executions = [\<lparr>exKey = scoped_key demo_rq, exToken = ''t1'', exStart = 10\<rparr>,
                   \<lparr>exKey = scoped_key demo_rq, exToken = ''t2'', exStart = 110\<rparr>], given_up = {}\<rparr>"

lemma demo_idem_steps: "(idem_step memoryIdempotency id 10 100)\<^sup>*\<^sup>* (idem_init [] 0) demo_idem_run"
proof -
  let ?k = "scoped_key demo_rq" and ?step = "idem_step memoryIdempotency id 10 100"
  let ?r1 = "\<lparr>idStore = [(?k, demo_rec ''t1'' 10)], idClock = 10, running = [(?k, ''t1'')],
     executions = [\<lparr>exKey = ?k, exToken = ''t1'', exStart = 10\<rparr>], given_up = {}\<rparr>"
  let ?r2 = "\<lparr>idStore = [(?k, demo_done ''t1'' 10)], idClock = 20, running = [],
     executions = [\<lparr>exKey = ?k, exToken = ''t1'', exStart = 10\<rparr>], given_up = {}\<rparr>"
  have 1: "?step (idem_init [] 0) ?r1"
    using idem_step.entered [of "idem_init [] 0" 10 "''t1''" memoryIdempotency id 100 "Some ''t1''" demo_rq ?k _ 10,
        OF _ _ demo_begin] by (simp add: idem_init_def)
  have 2: "?step ?r1 ?r2"
    using idem_step.finished [of ?r1 20 ?k "''t1''" memoryIdempotency 10 201 "[[7], [8]]" "Inr ()"
        "[(?k, demo_done ''t1'' 10)]" id 100] demo_end [of "''t1''" 10] by simp
  have "idem_begin memoryIdempotency id 100 110 (Some ''t2'') demo_rq (idStore ?r2) =
      (Proceed ?k ''t2'', [(?k, demo_rec ''t2'' 110)])"
    by (subst demo_begin) (simp_all add: demo_done_def demo_rec_def)
  from idem_step.entered [OF _ _ this, of 10] have 3: "?step ?r2 demo_idem_run"
    by (simp add: demo_idem_run_def)
  from 1 2 3 show ?thesis by (meson rtranclp.rtrancl_refl rtranclp.rtrancl_into_rtrancl)
qed

theorem idempotent_once_witness:
  "exStart (executions demo_idem_run ! 0) + 100 \<le> exStart (executions demo_idem_run ! 1) \<and>
   length (executions demo_idem_run) = 2"
  using idempotent_once [OF mr.reservation_store_axioms demo_idem_steps, of 0 1] by (simp add: demo_idem_run_def)

theorem idempotent_replay_witness:
  "idem_begin memoryIdempotency id 100 50 (Some ''t2'') demo_rq [(scoped_key demo_rq, demo_done ''t1'' 10)] =
     (Replay 201 [7, 8], [(scoped_key demo_rq, demo_done ''t1'' 10)])"
proof -
  let ?k = "scoped_key demo_rq"
  have first: "idem_begin memoryIdempotency id 100 10 (Some ''t1'') demo_rq [] = (Proceed ?k ''t1'', [(?k, demo_rec ''t1'' 10)])"
    by (subst demo_begin) simp_all
  obtain a s5 where again: "idem_begin memoryIdempotency id 100 50 (Some ''t2'') demo_rq [(?k, demo_done ''t1'' 10)] = (a, s5)"
    by fastforce
  have "s5 = [(?k, demo_done ''t1'' 10)]"
    using again by (auto simp: idem_begin_def demo_rq_def [symmetric] memoryIdempotency_def memReserve_def Let_def
        demo_done_def demo_rec_def split: if_splits sum.splits)
  moreover have "a = Replay 201 [7, 8]"
  proof -
    let ?e = "\<lparr>exKey = ?k, exToken = ''t1'', exStart = 10\<rparr>"
    let ?r0 = "idem_init [] 0 :: idem_map idem_run"
    let ?r1 = "?r0\<lparr>idStore := [(?k, demo_rec ''t1'' 10)], idClock := 10,
      running := (?k, ''t1'') # running ?r0, executions := executions ?r0 @ [?e]\<rparr>"
    let ?r3 = "?r1\<lparr>idStore := [(?k, demo_done ''t1'' 10)], idClock := 20, running := removeAll (?k, ''t1'') (running ?r1)\<rparr>"
    have f: "idem_begin memoryIdempotency id 100 10 (Some ''t1'') demo_rq (idStore ?r0) =
        (Proceed ?k ''t1'', [(?k, demo_rec ''t1'' 10)])" using first by (simp add: idem_init_def)
    have e: "idem_end memoryIdempotency 10 ?k ''t1'' 201 [[7], [8]] (idStore ?r1) = (Inr (), [(?k, demo_done ''t1'' 10)])"
      using demo_end [of "''t1''" 10] by simp
    have g: "idem_begin memoryIdempotency id 100 50 (Some ''t2'') demo_rq (idStore ?r3) = (a, s5)" using again by simp
    show ?thesis
      using idempotent_replay [OF f _ refl rtranclp.rtrancl_refl _ e _ _ _ refl rtranclp.rtrancl_refl _ _ g refl, of "[1, 2]" "[1, 2]"]
      by (simp add: demo_rq_def maxIdempotencyKeyBytes_def)
  qed
  ultimately show ?thesis using again by simp
qed

theorem scoped_key_injective_witness:
  "scoped_key demo_rq \<noteq> scoped_key (demo_rq\<lparr>rqPath := ''/assets/8''\<rparr>)"
  using scoped_key_injective [of demo_rq "demo_rq\<lparr>rqPath := ''/assets/8''\<rparr>"]
  by (simp add: demo_rq_def route_of_def NUL_def)

end
