(* ===== verification/GoText.thy ===== *)
theory GoText
  imports GoStd
begin

text \<open>
  More of Go's text functions: joining and splitting, \<^verbatim>\<open>path.Clean\<close>, letter case on ASCII text, and
  the character classes of the regular expressions the code compiles.
\<close>

section \<open>Joining and splitting\<close>

fun join_with :: "char \<Rightarrow> string list \<Rightarrow> string" where
  "join_with c [] = ''''"
| "join_with c [x] = x"
| "join_with c (x # xs) = x @ c # join_with c xs"

fun split_on :: "char \<Rightarrow> string \<Rightarrow> string list" where
  "split_on c [] = [[]]"
| "split_on c (x # s) =
     (if x = c then [] # split_on c s else (x # hd (split_on c s)) # tl (split_on c s))"

lemma split_on_ne [simp]: "split_on c s \<noteq> []"
  by (induction s) auto

lemma split_on_free: "p \<in> set (split_on c s) \<Longrightarrow> c \<notin> set p"
proof (induction s arbitrary: p)
  case (Cons x s)
  have "hd (split_on c s) \<in> set (split_on c s)" "set (tl (split_on c s)) \<subseteq> set (split_on c s)"
    by (auto intro: list.set_sel(2))
  with Cons show ?case by (auto split: if_splits)
qed simp

lemma split_on_free_part: "c \<notin> set p \<Longrightarrow> split_on c p = [p]"
  by (induction p) auto

lemma split_on_append: "c \<notin> set p \<Longrightarrow> split_on c (p @ c # s) = p # split_on c s"
  by (induction p) auto

lemma split_join: "ps \<noteq> [] \<Longrightarrow> (\<And>p. p \<in> set ps \<Longrightarrow> c \<notin> set p) \<Longrightarrow> split_on c (join_with c ps) = ps"
  by (induction c ps rule: join_with.induct) (auto simp: split_on_free_part split_on_append)

section \<open>Paths\<close>

text \<open>\<^verbatim>\<open>path.Clean\<close> works on the elements of a path; the stack holds them last first.\<close>

fun clean_elements :: "bool \<Rightarrow> string list \<Rightarrow> string list \<Rightarrow> string list" where
  "clean_elements rooted st [] = rev st"
| "clean_elements rooted st (p # ps) =
     (if p = [] \<or> p = ''.'' then clean_elements rooted st ps
      else if p = ''..'' then
        (if st \<noteq> [] \<and> hd st \<noteq> ''..'' then clean_elements rooted (tl st) ps
         else if rooted then clean_elements rooted st ps
         else clean_elements rooted (p # st) ps)
      else clean_elements rooted (p # st) ps)"

definition path_Clean :: "string \<Rightarrow> string" where
  "path_Clean s =
     (if s = [] then ''.''
      else
        let rooted = hasPrefix s ''/'';
            ps = clean_elements rooted [] (split_on (CHR ''/'') s);
            t = (if rooted then ''/'' else []) @ join_with (CHR ''/'') ps
        in if t = [] then ''.'' else t)"

text \<open>An element list is canonical when no element is empty or a dot, and dot-dots only lead.\<close>

definition canonical_elements :: "string list \<Rightarrow> bool" where
  "canonical_elements ps \<longleftrightarrow> (\<forall>p\<in>set ps. p \<noteq> [] \<and> p \<noteq> ''.'' \<and> CHR ''/'' \<notin> set p) \<and>
     (\<exists>n rest. ps = replicate n ''..'' @ rest \<and> ''..'' \<notin> set rest)"

lemma canonical_snoc:
  assumes "canonical_elements ps" "p \<noteq> []" "p \<noteq> ''.''" "CHR ''/'' \<notin> set p" "p = ''..'' \<longrightarrow> ps = [] \<or> last ps = ''..''"
  shows "canonical_elements (ps @ [p])"
proof -
  obtain n rest where ps: "ps = replicate n ''..'' @ rest" "''..'' \<notin> set rest" using assms(1) by (auto simp: canonical_elements_def)
  have "\<exists>n rest. ps @ [p] = replicate n ''..'' @ rest \<and> ''..'' \<notin> set rest"
  proof (cases "p = ''..''")
    case True
    then have "rest = []" using assms(5) ps by (cases rest rule: rev_cases) auto
    then have "ps @ [p] = replicate (Suc n) ''..'' @ []" using ps True by (simp add: replicate_append_same)
    then show ?thesis by (metis empty_iff list.set(1))
  next
    case False
    then have "ps @ [p] = replicate n ''..'' @ (rest @ [p])" "''..'' \<notin> set (rest @ [p])" using ps by auto
    then show ?thesis by blast
  qed
  with assms show ?thesis by (auto simp: canonical_elements_def)
qed

lemma canonical_butlast:
  assumes "canonical_elements (ps @ [p])"
  shows "canonical_elements ps"
proof -
  obtain n rest where ps: "ps @ [p] = replicate n ''..'' @ rest" "''..'' \<notin> set rest" using assms by (auto simp: canonical_elements_def)
  have "\<exists>n rest. ps = replicate n ''..'' @ rest \<and> ''..'' \<notin> set rest"
  proof (cases rest rule: rev_cases)
    case Nil
    then have "ps = butlast (replicate n ''..'')" using ps by (metis append_Nil2 butlast_snoc)
    also have "\<dots> = replicate (n - 1) ''..'' @ []" by (cases n) (simp_all flip: replicate_append_same)
    finally show ?thesis by (metis empty_iff list.set(1))
  next
    case (snoc r q)
    then have "ps = replicate n ''..'' @ r" "''..'' \<notin> set r" using ps by auto
    then show ?thesis by blast
  qed
  with assms show ?thesis by (auto simp: canonical_elements_def)
qed

lemma clean_canonical:
  assumes "canonical_elements (rev st)" "\<forall>p\<in>set ps. CHR ''/'' \<notin> set p"
  shows "canonical_elements (clean_elements rooted st ps)"
  using assms
proof (induction rooted st ps rule: clean_elements.induct)
  case (2 rooted st p ps)
  consider "p = [] \<or> p = ''.''" | "p = ''..''" "st \<noteq> [] \<and> hd st \<noteq> ''..''" | "p = ''..''" "\<not> (st \<noteq> [] \<and> hd st \<noteq> ''..'')" "rooted"
    | "p = ''..''" "\<not> (st \<noteq> [] \<and> hd st \<noteq> ''..'')" "\<not> rooted" | "p \<noteq> []" "p \<noteq> ''.''" "p \<noteq> ''..''" by blast
  then show ?case
  proof cases
    case 2
    then have "canonical_elements (rev (tl st))" using \<open>canonical_elements (rev st)\<close> canonical_butlast by (cases st) auto
    then show ?thesis using 2 "2.IH"(2) "2.prems"(2) by simp
  next
    case 4
    then have "canonical_elements (rev (p # st))" using canonical_snoc [OF "2.prems"(1), of p] "2.prems"(2) by (auto simp: last_rev)
    then show ?thesis using 4 "2.IH"(4) "2.prems"(2) by auto
  next
    case 5
    then have "canonical_elements (rev (p # st))" using canonical_snoc [OF "2.prems"(1), of p] "2.prems"(2) by auto
    then show ?thesis using 5 "2.IH"(5) "2.prems"(2) by simp
  qed (use "2.IH" "2.prems" in auto)
qed simp

lemma cleaned_elements:
  assumes "path_Clean s = s" "s \<noteq> ''.''" "\<not> hasPrefix s ''/''" "s \<noteq> ''..''" "\<not> hasPrefix s ''../''"
  shows "\<forall>p\<in>set (split_on (CHR ''/'') s). p \<noteq> [] \<and> p \<noteq> ''.'' \<and> p \<noteq> ''..''"
proof -
  define ps where "ps = clean_elements False [] (split_on (CHR ''/'') s)"
  have "s \<noteq> []" using assms(1,2) by (auto simp: path_Clean_def)
  with assms(1-3) have s: "s = join_with (CHR ''/'') ps" "ps \<noteq> []"
    by (auto simp: path_Clean_def Let_def ps_def [symmetric] split: if_splits)
  have "canonical_elements ([] :: string list)" by (simp add: canonical_elements_def)
  then have c: "canonical_elements ps"
    unfolding ps_def by (intro clean_canonical) (auto dest: split_on_free)
  then have sp: "split_on (CHR ''/'') s = ps" unfolding s(1) by (intro split_join s(2)) (auto simp: canonical_elements_def)
  obtain n rest where ps: "ps = replicate n ''..'' @ rest" "''..'' \<notin> set rest" using c by (auto simp: canonical_elements_def)
  have "n = 0"
  proof (rule ccontr)
    assume "n \<noteq> 0"
    then obtain qs where qs: "ps = ''..'' # qs" using ps(1) by (cases n) auto
    show False
    proof (cases qs)
      case Nil
      then show ?thesis using qs s(1) assms(4) by simp
    next
      case (Cons q qs')
      then have "s = ''../'' @ join_with (CHR ''/'') qs" using qs s(1) by simp
      then show ?thesis using assms(5) by (simp add: hasPrefix_iff)
    qed
  qed
  then show ?thesis using sp ps c by (auto simp: canonical_elements_def)
qed

section \<open>Letter case\<close>

text \<open>\<^verbatim>\<open>strings.ToLower\<close> on ASCII text.\<close>

definition toLower :: "string \<Rightarrow> string" where
  "toLower s = map (\<lambda>c. if 65 \<le> (of_char c :: nat) \<and> (of_char c :: nat) \<le> 90 then char_of ((of_char c :: nat) + 32) else c) s"

text \<open>\<^verbatim>\<open>strings.EqualFold\<close> on ASCII text.\<close>

definition EqualFold :: "string \<Rightarrow> string \<Rightarrow> bool" where
  "EqualFold s t \<longleftrightarrow> toLower s = toLower t"

section \<open>Character classes\<close>

definition in_range :: "char \<Rightarrow> char \<Rightarrow> char \<Rightarrow> bool" where
  "in_range a b c \<longleftrightarrow> (of_char a :: nat) \<le> of_char c \<and> (of_char c :: nat) \<le> of_char b"

definition lower_hex :: "char \<Rightarrow> bool" where
  "lower_hex c \<longleftrightarrow> in_range CHR ''0'' CHR ''9'' c \<or> in_range CHR ''a'' CHR ''f'' c"

definition any_hex :: "char \<Rightarrow> bool" where
  "any_hex c \<longleftrightarrow> lower_hex c \<or> in_range CHR ''A'' CHR ''F'' c"

definition alnum :: "char \<Rightarrow> bool" where
  "alnum c \<longleftrightarrow> in_range CHR ''A'' CHR ''Z'' c \<or> in_range CHR ''a'' CHR ''z'' c \<or> in_range CHR ''0'' CHR ''9'' c"

text \<open>\<open>all_of P n\<close> is a class repeated exactly n times, \<open>hex0x P n\<close> such a text after \<open>0x\<close>.\<close>

definition all_of :: "(char \<Rightarrow> bool) \<Rightarrow> nat \<Rightarrow> string \<Rightarrow> bool" where
  "all_of P n s \<longleftrightarrow> length s = n \<and> list_all P s"

definition hex0x :: "(char \<Rightarrow> bool) \<Rightarrow> nat \<Rightarrow> string \<Rightarrow> bool" where
  "hex0x P n s \<longleftrightarrow> hasPrefix s ''0x'' \<and> all_of P n (drop 2 s)"

lemma hex_digit_lower: "d < 16 \<Longrightarrow> lower_hex (hex_digit d)"
proof -
  have "list_all (\<lambda>d. lower_hex (hex_digit d)) [0..<16]" by code_simp
  then show "d < 16 \<Longrightarrow> lower_hex (hex_digit d)" by (simp add: list_all_iff)
qed

lemma hex_lower: "list_all lower_hex (hex b)"
proof (induction b)
  case (Cons x b)
  have "unat x div 16 < 16" by (simp add: less_mult_imp_div_less)
  then have "list_all lower_hex (hex_byte x)" by (simp add: hex_byte_def hex_digit_lower)
  moreover have "hex (x # b) = hex_byte x @ hex b" by (simp add: hex_def)
  ultimately show ?case using Cons by simp
qed (simp add: hex_def)

lemma hex0x_hex: "length b = n \<Longrightarrow> hex0x lower_hex (2 * n) (''0x'' @ hex b)"
  using hex_lower [of b] by (simp add: hex0x_def all_of_def hasPrefix_def)

lemma hex0x_any: "hex0x lower_hex n s \<Longrightarrow> hex0x any_hex n s"
  by (auto simp: hex0x_def all_of_def list_all_iff any_hex_def)

end
