(* ===== verification/QueryKey.thy ===== *)
theory QueryKey
  imports Idempotency GoText "HOL-Library.Multiset"
begin

text \<open>
  \<^verbatim>\<open>canonicalQuery\<close> of \<^verbatim>\<open>server/internal/auth/idempotency.go\<close>: the query part of an idempotency
  scope. The lemmas show that it identifies exactly the queries that agree up to the order of
  keys and of each key's values.
\<close>

section \<open>The canonical query\<close>

text \<open>
  \<^verbatim>\<open>url.QueryEscape\<close>, and \<^verbatim>\<open>canonicalQuery\<close> on a parsed query (a map from keys to value lists; its
  association list stands for the map's iteration order).
\<close>

definition unreserved :: "char \<Rightarrow> bool" where
  "unreserved c \<longleftrightarrow> isDigit c \<or> (CHR ''a'' \<le> c \<and> c \<le> CHR ''z'') \<or> (CHR ''A'' \<le> c \<and> c \<le> CHR ''Z'') \<or>
     c \<in> set ''-_.~''"

definition upper_hex :: "nat \<Rightarrow> char" where
  "upper_hex d = ''0123456789ABCDEF'' ! d"

definition escape_char :: "char \<Rightarrow> string" where
  "escape_char c =
     (if unreserved c then [c] else if c = CHR '' '' then ''+''
      else [CHR ''%'', upper_hex (of_char c div 16), upper_hex (of_char c mod 16)])"

definition query_escape :: "string \<Rightarrow> string" where
  "query_escape s = concat (map escape_char s)"

definition query_segment :: "string \<Rightarrow> string list \<Rightarrow> string" where
  "query_segment k vs = query_escape k @ concat (map (\<lambda>v. CHR ''='' # query_escape v) (sort vs))"

definition canonicalQuery :: "(string \<times> string list) list \<Rightarrow> string" where
  "canonicalQuery q =
     (if q = [] then ''''
      else join_with (CHR ''&'') (map (\<lambda>k. query_segment k (the (map_of q k))) (sort (map fst q))))"

lemma upper_hex_inject: "i < 16 \<Longrightarrow> j < 16 \<Longrightarrow> upper_hex i = upper_hex j \<longleftrightarrow> i = j"
  unfolding upper_hex_def by (rule nth_eq_iff_index_eq) auto

lemma upper_hex_in: "i < 16 \<Longrightarrow> upper_hex i \<in> set ''0123456789ABCDEF''"
  unfolding upper_hex_def by (rule nth_mem) simp

lemma escape_char_inject:
  assumes "escape_char c @ x = escape_char d @ y"
  shows "c = d \<and> x = y"
proof -
  have lt: "(of_char e :: nat) div 16 < 16" "(of_char e :: nat) mod 16 < 16" for e
    using of_char_of [of "of_char e :: nat"] by (auto simp: less_mult_imp_div_less)
  have "c = d" if "\<not> unreserved c" "\<not> unreserved d" "c \<noteq> CHR '' ''" "d \<noteq> CHR '' ''"
  proof -
    from assms that have "(of_char c :: nat) div 16 = of_char d div 16" "(of_char c :: nat) mod 16 = of_char d mod 16"
      using upper_hex_inject lt by (simp_all add: escape_char_def)
    then have "(of_char c :: nat) = of_char d" by (metis div_mult_mod_eq)
    then show "c = d" by simp
  qed
  moreover have "\<not> unreserved (CHR ''+'')" "\<not> unreserved (CHR ''%'')" "\<not> unreserved (CHR '' '')"
    by (simp_all add: unreserved_def isDigit_def less_eq_char_def)
  ultimately show ?thesis using assms by (auto simp: escape_char_def split: if_splits)
qed

lemma query_escape_inject [simp]: "query_escape s = query_escape t \<longleftrightarrow> s = t"
proof
  assume "query_escape s = query_escape t"
  then show "s = t"
  proof (induction s arbitrary: t)
    case Nil
    then show ?case by (cases t) (auto simp: query_escape_def escape_char_def split: if_splits)
  next
    case (Cons c s)
    then obtain d u where t: "t = d # u"
      by (cases t) (auto simp: query_escape_def escape_char_def split: if_splits)
    with Cons.prems escape_char_inject [of c "query_escape s" d "query_escape u"] Cons.IH [of u]
    show ?case by (simp add: query_escape_def)
  qed
qed simp

lemma query_escape_chars: "c \<in> set ''&='' \<Longrightarrow> c \<notin> set (query_escape s)"
proof -
  assume c: "c \<in> set ''&=''"
  have up: "c \<noteq> upper_hex i" if "i < 16" for i
    using upper_hex_in [OF that] c by auto
  have "(of_char d :: nat) div 16 < 16" for d
    using of_char_of [of "of_char d :: nat"] by (auto simp: less_mult_imp_div_less)
  then have "c \<noteq> upper_hex (of_char d div 16)" "c \<noteq> upper_hex (of_char d mod 16)" for d
    by (rule up, intro up) simp
  moreover have "\<not> unreserved c" using c by (auto simp: unreserved_def isDigit_def less_eq_char_def)
  moreover have "c \<noteq> CHR ''+''" "c \<noteq> CHR ''%''" using c by auto
  ultimately have no: "c \<notin> set (escape_char d)" for d
  proof (cases "unreserved d")
    case True
    with \<open>\<not> unreserved c\<close> have "c \<noteq> d" by blast
    with True show ?thesis by (simp add: escape_char_def)
  qed (simp add: escape_char_def)
  show ?thesis unfolding query_escape_def set_concat set_map UN_iff using no by blast
qed

lemma values_inject:
  "concat (map (\<lambda>v. CHR ''='' # query_escape v) vs) = concat (map (\<lambda>v. CHR ''='' # query_escape v) ws) \<Longrightarrow> vs = ws"
proof (induction vs arbitrary: ws)
  case Nil
  then show ?case by (cases ws) auto
next
  case (Cons v vs)
  then obtain w ws' where ws: "ws = w # ws'" by (cases ws) auto
  let ?f = "\<lambda>v. CHR ''='' # query_escape v"
  have e: "query_escape v @ concat (map ?f vs) = query_escape w @ concat (map ?f ws')"
    using Cons.prems ws by simp
  have tw: "takeWhile (\<lambda>c. c \<noteq> CHR ''='') (query_escape u @ concat (map ?f us)) = query_escape u" for u us
    using query_escape_chars [of "CHR ''=''" u] by (cases us) (auto simp: takeWhile_append2 takeWhile_tail)
  have "query_escape v = query_escape w" using tw [of v vs] tw [of w ws'] e by simp
  with e Cons.IH [of ws'] ws show ?case by simp
qed

lemma query_segment_inject:
  assumes "query_segment k vs = query_segment k' vs'"
  shows "k = k' \<and> sort vs = sort vs'"
proof -
  let ?f = "\<lambda>v. CHR ''='' # query_escape v"
  have tw: "takeWhile (\<lambda>c. c \<noteq> CHR ''='') (query_segment u us) = query_escape u" for u us
    unfolding query_segment_def using query_escape_chars [of "CHR ''=''" u]
    by (cases "sort us") (auto simp: takeWhile_append2 takeWhile_tail)
  have k: "k = k'" using tw [of k vs] tw [of k' vs'] assms by simp
  with assms have "concat (map ?f (sort vs)) = concat (map ?f (sort vs'))" by (simp add: query_segment_def)
  with k values_inject show ?thesis by blast
qed

lemma query_segment_no_amp: "CHR ''&'' \<notin> set (query_segment k vs)"
  using query_escape_chars [of "CHR ''&''"] by (auto simp: query_segment_def)

lemma join_with_inject:
  "join_with c xs = join_with c ys \<Longrightarrow> \<forall>x\<in>set xs. c \<notin> set x \<Longrightarrow> \<forall>y\<in>set ys. c \<notin> set y \<Longrightarrow>
   xs \<noteq> [] \<Longrightarrow> ys \<noteq> [] \<Longrightarrow> xs = ys"
proof (induction c xs arbitrary: ys rule: join_with.induct)
  case (2 c x)
  then show ?case by (cases "(c, ys)" rule: join_with.cases) auto
next
  case (3 c x y ys zs)
  show ?case
  proof (cases "(c, zs)" rule: join_with.cases)
    case (3 c' u v vs)
    with \<open>join_with c (x # y # ys) = join_with c zs\<close> have e: "x @ c # join_with c (y # ys) = u @ c # join_with c (v # vs)" by simp
    have "x = u \<and> join_with c (y # ys) = join_with c (v # vs)"
      by (rule append_sep_inject [OF _ _ e]) (use "3.prems" 3 in auto)
    with 3 "3.IH" [of "v # vs"] "3.prems" show ?thesis by auto
  qed (use "3.prems" in auto)
qed simp

lemma map_segment_keys:
  "map (\<lambda>k. query_segment k (f k)) ks = map (\<lambda>k. query_segment k (g k)) ks' \<Longrightarrow> ks = ks'"
proof (induction ks arbitrary: ks')
  case (Cons k ks)
  then obtain l ls where l: "ks' = l # ls" by (cases ks') auto
  with Cons.prems have "query_segment k (f k) = query_segment l (g l)" by simp
  from query_segment_inject [OF this] have "k = l" ..
  with Cons.IH [of ls] Cons.prems l show ?case by simp
qed simp

text \<open>A Go map of non-empty value lists, as \<^verbatim>\<open>url.Values\<close> is after parsing.\<close>

definition query_ok :: "(string \<times> string list) list \<Rightarrow> bool" where
  "query_ok q \<longleftrightarrow> distinct (map fst q) \<and> (\<forall>(k, vs) \<in> set q. vs \<noteq> [])"

lemma canonical_segments:
  assumes "query_ok q" "query_ok q'" "canonicalQuery q = canonicalQuery q'"
  shows "map (\<lambda>k. query_segment k (the (map_of q k))) (sort (map fst q)) =
    map (\<lambda>k. query_segment k (the (map_of q' k))) (sort (map fst q'))"
proof -
  let ?segs = "\<lambda>q. map (\<lambda>k. query_segment k (the (map_of q k))) (sort (map fst q))"
  have ne: "canonicalQuery q \<noteq> ''''" if "query_ok q" "q \<noteq> []" for q
  proof -
    from that(2) have "sort (map fst q) \<noteq> []" by (metis length_0_conv length_map length_sort)
    then obtain k ks where ks: "sort (map fst q) = k # ks" by (cases "sort (map fst q)") auto
    then have "k \<in> set (map fst q)" by (metis list.set_intros(1) set_sort)
    then obtain vs where "(k, vs) \<in> set q" by auto
    with that(1) have "the (map_of q k) \<noteq> []" by (auto simp: query_ok_def)
    then have "sort (the (map_of q k)) \<noteq> []" by (metis length_0_conv length_sort)
    then have "query_segment k (the (map_of q k)) \<noteq> []"
      by (cases "sort (the (map_of q k))") (auto simp: query_segment_def)
    then have "join_with (CHR ''&'') (?segs q) \<noteq> []" unfolding ks by (cases ks) auto
    with that(2) show ?thesis by (simp add: canonicalQuery_def)
  qed
  show ?thesis
  proof (cases "q = [] \<or> q' = []")
    case True
    moreover have "canonicalQuery [] = ''''" by (simp add: canonicalQuery_def)
    ultimately have "q = []" "q' = []" using ne [OF assms(1)] ne [OF assms(2)] assms(3) by metis+
    then show ?thesis by simp
  next
    case False
    have segs: "?segs r \<noteq> []" if "r \<noteq> []" for r :: "(string \<times> string list) list"
      using that by (metis length_0_conv length_map length_sort)
    from False assms(3) have "join_with (CHR ''&'') (?segs q) = join_with (CHR ''&'') (?segs q')"
      by (simp add: canonicalQuery_def)
    then show ?thesis
      by (rule join_with_inject) (use query_segment_no_amp segs False in auto)
  qed
qed

section \<open>Property\<close>

text \<open>C10: two queries have the same canonical form exactly when they have the same keys with the
  same values, in any order: reordering parameters does not change an idempotency scope, and
  changing, adding or dropping any key or value does.\<close>

theorem canonicalQuery_eq_iff:
  assumes "query_ok q" "query_ok q'"
  shows "canonicalQuery q = canonicalQuery q' \<longleftrightarrow>
    (\<forall>k. map_option mset (map_of q k) = map_option mset (map_of q' k))"
proof
  assume "canonicalQuery q = canonicalQuery q'"
  note segs = canonical_segments [OF assms this]
  have keys: "sort (map fst q) = sort (map fst q')"
    by (rule map_segment_keys [OF segs])
  show "\<forall>k. map_option mset (map_of q k) = map_option mset (map_of q' k)"
  proof
    fix k
    have dom: "k \<in> set (map fst q) \<longleftrightarrow> k \<in> set (map fst q')" using keys by (metis set_sort)
    show "map_option mset (map_of q k) = map_option mset (map_of q' k)"
    proof (cases "k \<in> set (map fst q)")
      case True
      then obtain vs vs' where v: "map_of q k = Some vs" "map_of q' k = Some vs'"
        using dom by (metis map_of_eq_None_iff not_None_eq set_map)
      have "k \<in> set (sort (map fst q))" using True by simp
      with segs keys have "query_segment k (the (map_of q k)) = query_segment k (the (map_of q' k))" by auto
      with v have "sort vs = sort vs'" by (auto dest: query_segment_inject)
      then have "mset vs = mset vs'" by (metis mset_sort)
      with v show ?thesis by simp
    next
      case False
      with dom have "map_of q k = None" "map_of q' k = None" by (simp_all add: map_of_eq_None_iff)
      then show ?thesis by simp
    qed
  qed
next
  assume r: "\<forall>k. map_option mset (map_of q k) = map_option mset (map_of q' k)"
  have dom: "set (map fst q) = set (map fst q')"
    using r by (metis (no_types, opaque_lifting) map_of_eq_None_iff option.map_disc_iff set_eqI set_map)
  have keys: "sort (map fst q) = sort (map fst q')"
    using dom assms by (metis query_ok_def sorted_list_of_set_sort_remdups distinct_remdups_id)
  have "query_segment k (the (map_of q k)) = query_segment k (the (map_of q' k))" if "k \<in> set (map fst q)" for k
  proof -
    have "k \<in> set (map fst q')" using that dom by blast
    with that obtain vs vs' where v: "map_of q k = Some vs" "map_of q' k = Some vs'"
      by (cases "map_of q k"; cases "map_of q' k") (auto simp: map_of_eq_None_iff)
    with r [rule_format, of k] have "mset vs = mset vs'" by simp
    then have "sort vs = sort vs'" by (metis properties_for_sort mset_sort sorted_sort)
    with v show ?thesis by (simp add: query_segment_def)
  qed
  then have "map (\<lambda>k. query_segment k (the (map_of q k))) (sort (map fst q)) =
      map (\<lambda>k. query_segment k (the (map_of q' k))) (sort (map fst q'))" unfolding keys [symmetric] by simp
  moreover have "q = [] \<longleftrightarrow> q' = []" using dom by (metis map_is_Nil_conv set_empty)
  ultimately show "canonicalQuery q = canonicalQuery q'" by (simp add: canonicalQuery_def)
qed

theorem canonicalQuery_eq_iff_witness:
  "canonicalQuery [(''a'', [''1'', ''2'']), (''b'', [''x''])] = canonicalQuery [(''b'', [''x'']), (''a'', [''2'', ''1''])] \<and>
   canonicalQuery [(''a'', [''1''])] \<noteq> canonicalQuery [(''a'', [''1'', ''1''])]"
proof
  show "canonicalQuery [(''a'', [''1'', ''2'']), (''b'', [''x''])] = canonicalQuery [(''b'', [''x'']), (''a'', [''2'', ''1''])]"
    by (rule iffD2 [OF canonicalQuery_eq_iff]) (simp_all add: query_ok_def add_mset_commute)
  show "canonicalQuery [(''a'', [''1''])] \<noteq> canonicalQuery [(''a'', [''1'', ''1''])]"
  proof
    assume e: "canonicalQuery [(''a'', [''1''])] = canonicalQuery [(''a'', [''1'', ''1''])]"
    have "\<forall>k. map_option mset (map_of [(''a'', [''1''])] k) = map_option mset (map_of [(''a'', [''1'', ''1''])] k)"
      by (rule iffD1 [OF canonicalQuery_eq_iff e]) (simp_all add: query_ok_def)
    from this [rule_format, of "''a''"] show False by simp
  qed
qed

end
