(* ===== verification/Attestation.thy ===== *)
theory Attestation
  imports GoStd
begin

text \<open>
  \<^verbatim>\<open>signer/internal/attestation/attestation.go\<close>: the typed-data digest an auditor signs, and the
  compact signature the on-chain program verifies. Keccak-256 is the parameter \<open>keccak\<close>; the
  secp256k1 primitives of go-ethereum are parameters too, and \<open>n\<close> is the group order. A fixed
  array \<^verbatim>\<open>[32]byte\<close> is a byte list; \<open>domain_ok\<close>, \<open>mint_ok\<close> and \<open>burn_ok\<close> state the lengths the
  Go types fix. The lemmas show that a digest binds every field, that minting and burning never
  share one, and that signature normalisation is canonical and keeps the signer.
\<close>

unbundle bit_operations_syntax

section \<open>Type strings\<close>

definition DomainTypeString :: string where
  "DomainTypeString = ''SolanaSupplyAttestation(string name,string version,bytes32 cluster,bytes32 program,bytes32 config)''"

definition MintTypeString :: string where
  "MintTypeString = ''MintAttestation(bytes32 auditor,bytes32 profileDigest,bytes32 recordKey,bytes32 metadataDigest,uint64 amount,bytes32 nonce,uint64 validUntil,bytes32 vault)''"

definition BurnTypeString :: string where
  "BurnTypeString = ''BurnAttestation(bytes32 auditor,bytes32 profileDigest,bytes32 operationId,bytes32 metadataDigest,uint64 amount,bytes32 nonce,uint64 validUntil,bytes32 vault)''"

definition DomainName :: string where "DomainName = ''RWA-Supply-Attestation-Solana''"

definition DomainVersion :: string where "DomainVersion = ''1''"

section \<open>Digests\<close>

record Domain =
  Cluster :: bytes
  Program :: bytes
  Config :: bytes

record MintAttestation =
  mAuditor :: bytes
  mProfileDigest :: bytes
  mRecordKey :: bytes
  mMetadataDigest :: bytes
  mAmount :: u64
  mNonce :: bytes
  mValidUntil :: u64
  mVault :: bytes

record BurnAttestation =
  bAuditor :: bytes
  bProfileDigest :: bytes
  bOperationID :: bytes
  bMetadataDigest :: bytes
  bAmount :: u64
  bNonce :: bytes
  bValidUntil :: u64
  bVault :: bytes

definition Digest :: "(bytes \<Rightarrow> bytes) \<Rightarrow> bytes \<Rightarrow> bytes \<Rightarrow> bytes" where
  "Digest keccak domainSeparator hashStruct = keccak ([0x19, 0x01] @ domainSeparator @ hashStruct)"

definition RecordKey :: "(bytes \<Rightarrow> bytes) \<Rightarrow> string \<Rightarrow> bytes" where
  "RecordKey keccak recordID = keccak (bytes_of_string recordID)"

definition wordU64 :: "u64 \<Rightarrow> bytes" where
  "wordU64 x = fold (\<lambda>i w. w[31 - i := ucast (drop_bit (8 * i) x)]) [0..<8] (replicate 32 0)"

definition separator_buf :: "(bytes \<Rightarrow> bytes) \<Rightarrow> Domain \<Rightarrow> bytes" where
  "separator_buf keccak d =
     keccak (bytes_of_string DomainTypeString) @ keccak (bytes_of_string DomainName) @
     keccak (bytes_of_string DomainVersion) @ Cluster d @ Program d @ Config d"

definition Separator :: "(bytes \<Rightarrow> bytes) \<Rightarrow> Domain \<Rightarrow> bytes" where
  "Separator keccak d = keccak (separator_buf keccak d)"

definition mint_buf :: "(bytes \<Rightarrow> bytes) \<Rightarrow> MintAttestation \<Rightarrow> bytes" where
  "mint_buf keccak m =
     keccak (bytes_of_string MintTypeString) @ left_pad 32 (mAuditor m) @ mProfileDigest m @ mRecordKey m @
     mMetadataDigest m @ wordU64 (mAmount m) @ mNonce m @ wordU64 (mValidUntil m) @ mVault m"

definition mint_HashStruct :: "(bytes \<Rightarrow> bytes) \<Rightarrow> MintAttestation \<Rightarrow> bytes" where
  "mint_HashStruct keccak m = keccak (mint_buf keccak m)"

definition burn_buf :: "(bytes \<Rightarrow> bytes) \<Rightarrow> BurnAttestation \<Rightarrow> bytes" where
  "burn_buf keccak b =
     keccak (bytes_of_string BurnTypeString) @ left_pad 32 (bAuditor b) @ bProfileDigest b @ bOperationID b @
     bMetadataDigest b @ wordU64 (bAmount b) @ bNonce b @ wordU64 (bValidUntil b) @ bVault b"

definition burn_HashStruct :: "(bytes \<Rightarrow> bytes) \<Rightarrow> BurnAttestation \<Rightarrow> bytes" where
  "burn_HashStruct keccak b = keccak (burn_buf keccak b)"

definition mint_Digest :: "(bytes \<Rightarrow> bytes) \<Rightarrow> Domain \<Rightarrow> MintAttestation \<Rightarrow> bytes" where
  "mint_Digest keccak d m = Digest keccak (Separator keccak d) (mint_HashStruct keccak m)"

definition burn_Digest :: "(bytes \<Rightarrow> bytes) \<Rightarrow> Domain \<Rightarrow> BurnAttestation \<Rightarrow> bytes" where
  "burn_Digest keccak d b = Digest keccak (Separator keccak d) (burn_HashStruct keccak b)"

section \<open>Amounts and signatures\<close>

datatype att_error =
    ErrNil
  | ErrNegative
  | ErrExceedsU64 int
  | ErrNilKey
  | ErrSigLength nat
  | ErrRecoveryByte byte
  | ErrROutOfRange
  | ErrSOutOfRange
  | ErrRecoveryID byte
  | ErrCrypto string

definition Amount :: "int option \<Rightarrow> att_error + u64" where
  "Amount v = (case v of
      None \<Rightarrow> Inl ErrNil
    | Some i \<Rightarrow>
        if i < 0 then Inl ErrNegative
        else if \<not> i < 2 ^ 64 then Inl (ErrExceedsU64 i)
        else Inr (word_of_int i))"

definition Sign :: "(bytes \<Rightarrow> 'k \<Rightarrow> string + bytes) \<Rightarrow> bytes \<Rightarrow> 'k option \<Rightarrow> att_error + bytes" where
  "Sign crypto_sign digest key = (case key of
      None \<Rightarrow> Inl ErrNilKey
    | Some k \<Rightarrow>
        (case crypto_sign digest k of
           Inl err \<Rightarrow> Inl (ErrCrypto err)
         | Inr sig \<Rightarrow> Inr (sig[64 := sig ! 64 + 27])))"

record CompactSignature =
  Compact :: bytes
  RecoveryID :: byte

definition compact_Hex :: "CompactSignature \<Rightarrow> string" where
  "compact_Hex s = ''0x'' @ hex (Compact s)"

definition CompactSignatureFromEth :: "nat \<Rightarrow> bytes \<Rightarrow> att_error + CompactSignature" where
  "CompactSignatureFromEth n sig =
     (if length sig \<noteq> 65 then Inl (ErrSigLength (length sig))
      else
        (let v = (if 27 \<le> sig ! 64 then sig ! 64 - 27 else sig ! 64) in
         if 1 < v then Inl (ErrRecoveryByte (sig ! 64))
         else
           (let r = be_nat (take 32 sig); s = be_nat (take 32 (drop 32 sig)) in
            if r = 0 \<or> n \<le> r then Inl ErrROutOfRange
            else if s = 0 \<or> n \<le> s then Inl ErrSOutOfRange
            else
              (let (s', v') = (if n div 2 < s then (n - s, v XOR 1) else (s, v)) in
               Inr \<lparr>Compact = left_pad 32 (nat_be r) @ left_pad 32 (nat_be s'), RecoveryID = v'\<rparr>))))"

definition EthSignature :: "CompactSignature \<Rightarrow> bytes" where
  "EthSignature s = Compact s @ [RecoveryID s]"

definition IsLowS :: "nat \<Rightarrow> CompactSignature \<Rightarrow> bool" where
  "IsLowS n s \<longleftrightarrow> (let v = be_nat (take 32 (drop 32 (Compact s))) in v \<noteq> 0 \<and> v \<le> n div 2)"

definition SignCompact :: "nat \<Rightarrow> (bytes \<Rightarrow> 'k \<Rightarrow> string + bytes) \<Rightarrow> bytes \<Rightarrow> 'k option \<Rightarrow> att_error + CompactSignature" where
  "SignCompact n crypto_sign digest key = (case key of
      None \<Rightarrow> Inl ErrNilKey
    | Some k \<Rightarrow>
        (case crypto_sign digest k of
           Inl err \<Rightarrow> Inl (ErrCrypto err)
         | Inr sig \<Rightarrow> CompactSignatureFromEth n sig))"

text \<open>\<open>sig_to_address\<close> stands for \<^verbatim>\<open>crypto.SigToPub\<close> followed by \<^verbatim>\<open>PubkeyToAddress\<close>.\<close>

definition RecoverCompact :: "(bytes \<Rightarrow> bytes \<Rightarrow> string + bytes) \<Rightarrow> bytes \<Rightarrow> CompactSignature \<Rightarrow> att_error + bytes" where
  "RecoverCompact sig_to_address digest sig =
     (if 1 < RecoveryID sig then Inl (ErrRecoveryID (RecoveryID sig))
      else case sig_to_address digest (EthSignature sig) of
             Inl err \<Rightarrow> Inl (ErrCrypto err)
           | Inr a \<Rightarrow> Inr a)"

section \<open>The word encoding\<close>

lemma wordU64_eq: "wordU64 x = replicate 24 0 @ map (\<lambda>i. ucast (drop_bit (8 * (7 - i)) x)) [0..<8]"
  by (simp add: wordU64_def upt_rec numeral_eq_Suc)

lemma length_wordU64 [simp]: "length (wordU64 x) = 32"
  by (simp add: wordU64_eq)

lemma wordU64_inject [simp]: "wordU64 x = wordU64 y \<longleftrightarrow> x = y"
proof
  assume "wordU64 x = wordU64 y"
  then have b: "(ucast (drop_bit (8 * (7 - i)) x) :: byte) = ucast (drop_bit (8 * (7 - i)) y)" if "i < 8" for i
    using that by (simp add: wordU64_eq)
  have "bit x k = bit y k" if "k < 64" for k
  proof -
    have i: "7 - k div 8 < 8" "8 * (7 - (7 - k div 8)) + k mod 8 = k" using that by auto
    from b [OF i(1)] have "bit (ucast (drop_bit (8 * (7 - (7 - k div 8))) x) :: byte) (k mod 8) =
        bit (ucast (drop_bit (8 * (7 - (7 - k div 8))) y) :: byte) (k mod 8)" by simp
    then show ?thesis using i(2) by (simp add: bit_ucast_iff bit_drop_bit_eq)
  qed
  then show "x = y" by (intro bit_word_eqI) simp
qed simp

section \<open>What the digests bind\<close>

definition domain_ok :: "Domain \<Rightarrow> bool" where
  "domain_ok d \<longleftrightarrow> length (Cluster d) = 32 \<and> length (Program d) = 32 \<and> length (Config d) = 32"

definition mint_ok :: "MintAttestation \<Rightarrow> bool" where
  "mint_ok m \<longleftrightarrow> length (mAuditor m) = 20 \<and> length (mProfileDigest m) = 32 \<and> length (mRecordKey m) = 32 \<and>
     length (mMetadataDigest m) = 32 \<and> length (mNonce m) = 32 \<and> length (mVault m) = 32"

definition burn_ok :: "BurnAttestation \<Rightarrow> bool" where
  "burn_ok b \<longleftrightarrow> length (bAuditor b) = 20 \<and> length (bProfileDigest b) = 32 \<and> length (bOperationID b) = 32 \<and>
     length (bMetadataDigest b) = 32 \<and> length (bNonce b) = 32 \<and> length (bVault b) = 32"

text \<open>The byte strings hashed for one digest, outside the type strings; collision freedom is only
  ever assumed on such finite sets.\<close>

definition final_buf :: "(bytes \<Rightarrow> bytes) \<Rightarrow> bytes \<Rightarrow> bytes \<Rightarrow> bytes" where
  "final_buf keccak sep hs = [0x19, 0x01] @ keccak sep @ keccak hs"

definition hashed :: "(bytes \<Rightarrow> bytes) \<Rightarrow> bytes \<Rightarrow> bytes \<Rightarrow> bytes set" where
  "hashed keccak sep hs = {sep, hs, final_buf keccak sep hs}"

definition type_strings :: "bytes set" where
  "type_strings = {bytes_of_string MintTypeString, bytes_of_string BurnTypeString}"

lemma append_32: "length a = 32 \<Longrightarrow> length b = 32 \<Longrightarrow> a @ x = b @ y \<longleftrightarrow> a = b \<and> x = (y :: bytes)"
  by simp

lemma left_pad_inject: "length a = length b \<Longrightarrow> left_pad k a = left_pad k b \<longleftrightarrow> a = b"
  by (simp add: left_pad_def)

lemma digest_parts:
  assumes "\<And>b. length (keccak b) = 32" "inj_on keccak (hashed keccak p h \<union> hashed keccak p' h')"
    and "keccak (final_buf keccak p h) = keccak (final_buf keccak p' h')"
  shows "p = p' \<and> h = h'"
proof -
  have "final_buf keccak p h = final_buf keccak p' h'"
    by (rule inj_onD [OF assms(2,3)]) (simp_all add: hashed_def)
  then have "keccak p = keccak p'" "keccak h = keccak h'" using assms(1) by (auto simp: final_buf_def)
  with inj_onD [OF assms(2), of p p'] inj_onD [OF assms(2), of h h'] show ?thesis by (simp add: hashed_def)
qed

lemma separator_buf_inject:
  assumes "domain_ok d" "domain_ok d'" "separator_buf keccak d = separator_buf keccak d'"
  shows "d = d'"
proof -
  have "Cluster d @ Program d @ Config d = Cluster d' @ Program d' @ Config d'"
    using assms(3) by (simp add: separator_buf_def)
  with assms(1,2) show ?thesis by (auto simp: domain_ok_def intro: Domain.equality)
qed

lemma mint_buf_inject:
  assumes "mint_ok m" "mint_ok m'" "mint_buf keccak m = mint_buf keccak m'"
  shows "m = m'"
proof -
  have "left_pad 32 (mAuditor m) @ mProfileDigest m @ mRecordKey m @ mMetadataDigest m @ wordU64 (mAmount m) @
      mNonce m @ wordU64 (mValidUntil m) @ mVault m =
    left_pad 32 (mAuditor m') @ mProfileDigest m' @ mRecordKey m' @ mMetadataDigest m' @ wordU64 (mAmount m') @
      mNonce m' @ wordU64 (mValidUntil m') @ mVault m'"
    using assms(3) by (simp add: mint_buf_def)
  with assms(1,2) show ?thesis by (auto simp: mint_ok_def left_pad_inject intro: MintAttestation.equality)
qed

lemma burn_buf_inject:
  assumes "burn_ok b" "burn_ok b'" "burn_buf keccak b = burn_buf keccak b'"
  shows "b = b'"
proof -
  have "left_pad 32 (bAuditor b) @ bProfileDigest b @ bOperationID b @ bMetadataDigest b @ wordU64 (bAmount b) @
      bNonce b @ wordU64 (bValidUntil b) @ bVault b =
    left_pad 32 (bAuditor b') @ bProfileDigest b' @ bOperationID b' @ bMetadataDigest b' @ wordU64 (bAmount b') @
      bNonce b' @ wordU64 (bValidUntil b') @ bVault b'"
    using assms(3) by (simp add: burn_buf_def)
  with assms(1,2) show ?thesis by (auto simp: burn_ok_def left_pad_inject intro: BurnAttestation.equality)
qed

lemma digest_final: "mint_Digest keccak d m = keccak (final_buf keccak (separator_buf keccak d) (mint_buf keccak m))"
  "burn_Digest keccak d b = keccak (final_buf keccak (separator_buf keccak d) (burn_buf keccak b))"
  by (simp_all add: mint_Digest_def burn_Digest_def Digest_def Separator_def mint_HashStruct_def
      burn_HashStruct_def final_buf_def)

section \<open>Normalising signatures\<close>

definition sig_parts :: "bytes \<Rightarrow> nat \<times> nat \<times> byte" where
  "sig_parts sig = (be_nat (take 32 sig), be_nat (take 32 (drop 32 sig)), sig ! 64)"

definition eth_sig :: "nat \<Rightarrow> nat \<Rightarrow> byte \<Rightarrow> bytes" where
  "eth_sig r s v = left_pad 32 (nat_be r) @ left_pad 32 (nat_be s) @ [v]"

text \<open>Every 65-byte signature is the encoding of its parts.\<close>

lemma eth_sig_parts:
  assumes "length sig = 65"
  shows "sig = eth_sig (be_nat (take 32 sig)) (be_nat (take 32 (drop 32 sig))) (sig ! 64)"
proof -
  have "sig = take 32 sig @ take 32 (drop 32 sig) @ drop 64 sig"
    by (metis (no_types, lifting) append_take_drop_id drop_drop numeral_Bit0)
  moreover have "drop 64 sig = [sig ! 64]" using assms by (metis Cons_nth_drop_Suc drop_eq_Nil2 eval_nat_numeral(3) le_refl lessI)
  moreover have "left_pad 32 (nat_be (be_nat (take 32 sig))) = take 32 sig"
    "left_pad 32 (nat_be (be_nat (take 32 (drop 32 sig)))) = take 32 (drop 32 sig)"
    using left_pad_nat_be_be_nat [of "take 32 sig"] left_pad_nat_be_be_nat [of "take 32 (drop 32 sig)"] assms by simp_all
  ultimately show ?thesis by (simp add: eth_sig_def)
qed

lemma from_eth_sig:
  assumes "r < 256 ^ 32" "s < 256 ^ 32"
  shows "CompactSignatureFromEth n (eth_sig r s v) =
    (let w = (if 27 \<le> v then v - 27 else v) in
     if 1 < w then Inl (ErrRecoveryByte v)
     else if r = 0 \<or> n \<le> r then Inl ErrROutOfRange
     else if s = 0 \<or> n \<le> s then Inl ErrSOutOfRange
     else if n div 2 < s then Inr \<lparr>Compact = left_pad 32 (nat_be r) @ left_pad 32 (nat_be (n - s)), RecoveryID = w XOR 1\<rparr>
     else Inr \<lparr>Compact = left_pad 32 (nat_be r) @ left_pad 32 (nat_be s), RecoveryID = w\<rparr>)"
proof -
  have len: "length (left_pad 32 (nat_be r)) = 32" "length (left_pad 32 (nat_be s)) = 32"
    using assms by (simp_all add: length_left_pad_nat_be)
  then have parts: "length (eth_sig r s v) = 65" "be_nat (take 32 (eth_sig r s v)) = r"
    "be_nat (take 32 (drop 32 (eth_sig r s v))) = s" "eth_sig r s v ! 64 = v"
    by (simp_all add: eth_sig_def nth_append be_nat_nat_be)
  show ?thesis unfolding CompactSignatureFromEth_def Let_def parts
    by (cases "n div 2 < s") simp_all
qed

lemma byte_le_1: "\<not> 1 < (v :: byte) \<longleftrightarrow> v = 0 \<or> v = 1"
proof
  assume "\<not> 1 < v"
  then have "unat v \<le> 1" by (simp add: word_less_nat_alt)
  then have "unat v = 0 \<or> unat v = 1" by auto
  then show "v = 0 \<or> v = 1" by (metis unat_0 unat_1 word_unat_eq_iff)
qed auto

lemma byte_xor_1 [simp]: "(0 :: byte) XOR 1 = 1" "(1 :: byte) XOR 1 = 0"
  by simp_all

lemma byte_27 [simp]: "\<not> 27 \<le> (0 :: byte)" "\<not> 27 \<le> (1 :: byte)" "\<not> 1 < (0 :: byte)"
  by (simp_all add: word_le_nat_alt word_less_nat_alt)

text \<open>A signature that is accepted, in terms of its parts.\<close>

definition recovery_bit :: "byte \<Rightarrow> byte" where
  "recovery_bit v = (if 27 \<le> v then v - 27 else v)"

lemma recovery_bit_simps [simp]: "recovery_bit 0 = 0" "recovery_bit 1 = 1"
  by (simp_all add: recovery_bit_def)

lemma from_eth_iff:
  assumes "r < 256 ^ 32" "s < 256 ^ 32"
  shows "CompactSignatureFromEth n (eth_sig r s v) = Inr c \<longleftrightarrow>
    (recovery_bit v = 0 \<or> recovery_bit v = 1) \<and> 0 < r \<and> r < n \<and> 0 < s \<and> s < n \<and>
    c = (if n div 2 < s
         then \<lparr>Compact = left_pad 32 (nat_be r) @ left_pad 32 (nat_be (n - s)), RecoveryID = recovery_bit v XOR 1\<rparr>
         else \<lparr>Compact = left_pad 32 (nat_be r) @ left_pad 32 (nat_be s), RecoveryID = recovery_bit v\<rparr>)"
  unfolding from_eth_sig [OF assms] recovery_bit_def [symmetric] Let_def byte_le_1 [symmetric] by auto

lemma from_eth_parts:
  assumes "CompactSignatureFromEth n sig = Inr c"
  obtains r s v where "sig = eth_sig r s v" "r < 256 ^ 32" "s < 256 ^ 32" "v = sig ! 64"
proof -
  have len: "length sig = 65" using assms by (auto simp: CompactSignatureFromEth_def split: if_splits)
  show thesis
    by (rule that [OF eth_sig_parts [OF len] _ _ refl])
      (use be_nat_less [of "take 32 sig"] be_nat_less [of "take 32 (drop 32 sig)"] len in simp_all)
qed

lemma from_eth_low:
  assumes "n < 256 ^ 32" "0 < r" "r < n" "0 < s" "s \<le> n div 2" "w = 0 \<or> w = 1"
  shows "CompactSignatureFromEth n (eth_sig r s w) =
    Inr \<lparr>Compact = left_pad 32 (nat_be r) @ left_pad 32 (nat_be s), RecoveryID = w\<rparr>"
proof -
  have "s < n" using assms by auto
  with assms from_eth_sig [of r s n w] show ?thesis by (auto simp: Let_def)
qed

lemma eth_compact: "EthSignature \<lparr>Compact = left_pad 32 (nat_be r) @ left_pad 32 (nat_be s), RecoveryID = w\<rparr> = eth_sig r s w"
  by (simp add: EthSignature_def eth_sig_def)

lemma low_s:
  assumes "s < 256 ^ 32" "r < 256 ^ 32"
  shows "IsLowS n \<lparr>Compact = left_pad 32 (nat_be r) @ left_pad 32 (nat_be s), RecoveryID = w\<rparr> \<longleftrightarrow> s \<noteq> 0 \<and> s \<le> n div 2"
  using length_left_pad_nat_be [OF assms(1)] length_left_pad_nat_be [OF assms(2)]
  by (simp add: IsLowS_def Let_def be_nat_nat_be)

section \<open>Properties\<close>

text \<open>C11: the digest an auditor signs for a mint binds the deployment (cluster, program, config) and
  every field of the attestation: equal digests come from equal domains and equal payloads,
  unless Keccak collides on the few strings hashed for the two digests.\<close>

theorem mint_digest_binds:
  assumes "\<And>b. length (keccak b) = 32" "domain_ok d" "domain_ok d'" "mint_ok m" "mint_ok m'"
    and "inj_on keccak (hashed keccak (separator_buf keccak d) (mint_buf keccak m) \<union>
      hashed keccak (separator_buf keccak d') (mint_buf keccak m'))"
    and "mint_Digest keccak d m = mint_Digest keccak d' m'"
  shows "d = d' \<and> m = m'"
  using digest_parts [OF assms(1,6) assms(7) [unfolded digest_final]]
    separator_buf_inject [OF assms(2,3)] mint_buf_inject [OF assms(4,5)] by blast

text \<open>No signature serves both for minting and for burning: the digest of a mint differs from
  the digest of any burn, in any domains, although the two structs have the same fields, unless
  Keccak collides on the strings hashed for them.\<close>

theorem mint_burn_disjoint:
  assumes "\<And>b. length (keccak b) = 32"
    and "inj_on keccak (hashed keccak (separator_buf keccak d) (mint_buf keccak m) \<union>
      hashed keccak (separator_buf keccak d') (burn_buf keccak b) \<union> type_strings)"
  shows "mint_Digest keccak d m \<noteq> burn_Digest keccak d' b"
proof
  assume e: "mint_Digest keccak d m = burn_Digest keccak d' b"
  from assms(2) have i: "inj_on keccak (hashed keccak (separator_buf keccak d) (mint_buf keccak m) \<union>
      hashed keccak (separator_buf keccak d') (burn_buf keccak b))" by (rule inj_on_subset) blast
  from digest_parts [OF assms(1) i e [unfolded digest_final]]
  have "mint_buf keccak m = burn_buf keccak b" by blast
  then have "keccak (bytes_of_string MintTypeString) = keccak (bytes_of_string BurnTypeString)"
    using assms(1) by (auto simp: mint_buf_def burn_buf_def)
  with assms(2) have "bytes_of_string MintTypeString = bytes_of_string BurnTypeString"
    by (rule inj_onD) (simp_all add: type_strings_def)
  then show False by (simp add: MintTypeString_def BurnTypeString_def)
qed

text \<open>C12: normalisation is canonical. An accepted signature comes out as 64 bytes with a recovery id
  of 0 or 1 and a low S; normalising it again gives it back; and the other valid encoding of the
  same signature (S negated, recovery id flipped) has the same canonical form.\<close>

theorem compact_canonical:
  assumes "odd n" "n < 256 ^ 32" "CompactSignatureFromEth n (eth_sig r s v) = Inr c" "r < 256 ^ 32" "s < 256 ^ 32"
  shows "IsLowS n c \<and> (RecoveryID c = 0 \<or> RecoveryID c = 1) \<and> length (Compact c) = 64 \<and>
    CompactSignatureFromEth n (EthSignature c) = Inr c \<and>
    CompactSignatureFromEth n (eth_sig r (n - s) ((if 27 \<le> v then v - 27 else v) XOR 1)) = Inr c"
proof -
  define w where "w = recovery_bit v"
  from assms(3) have w: "w = 0 \<or> w = 1" and rs: "0 < r" "r < n" "0 < s" "s < n"
    and c: "c = (if n div 2 < s then \<lparr>Compact = left_pad 32 (nat_be r) @ left_pad 32 (nat_be (n - s)), RecoveryID = w XOR 1\<rparr>
          else \<lparr>Compact = left_pad 32 (nat_be r) @ left_pad 32 (nat_be s), RecoveryID = w\<rparr>)"
    unfolding from_eth_iff [OF assms(4,5)] w_def by blast+
  have w1: "w XOR 1 = 0 \<or> w XOR 1 = 1" "w XOR 1 XOR 1 = w" "recovery_bit w = w" "recovery_bit (w XOR 1) = w XOR 1"
    using w by (elim disjE; simp)+
  define s' where "s' = (if n div 2 < s then n - s else s)"
  define w' where "w' = (if n div 2 < s then w XOR 1 else w)"
  have half: "n div 2 < n - x \<longleftrightarrow> \<not> n div 2 < x" if "x < n" for x using that assms(1) by (auto elim!: oddE)
  have s': "0 < s'" "s' < n" "\<not> n div 2 < s'" using rs half [of s] by (auto simp: s'_def)
  have w': "w' = 0 \<or> w' = 1" "recovery_bit w' = w'" using w w1 by (auto simp: w'_def)
  have c': "c = \<lparr>Compact = left_pad 32 (nat_be r) @ left_pad 32 (nat_be s'), RecoveryID = w'\<rparr>"
    using c by (simp add: s'_def w'_def)
  have b: "s' < 256 ^ 32" "n - s < 256 ^ 32" using s'(2) assms(2) by linarith+
  have again: "CompactSignatureFromEth n (EthSignature c) = Inr c"
    unfolding c' eth_compact from_eth_iff [OF assms(4) b(1)] using w' rs s' by simp
  have other: "CompactSignatureFromEth n (eth_sig r (n - s) (w XOR 1)) = Inr c"
    using w w1 rs half [of s] c' unfolding from_eth_iff [OF assms(4) b(2)]
    by (elim disjE) (simp_all add: s'_def w'_def)
  have "IsLowS n c" using s' unfolding c' low_s [OF b(1) assms(4)] by simp
  moreover have "length (Compact c) = 64" using b(1) assms(4) unfolding c' by (simp add: length_left_pad_nat_be)
  ultimately show ?thesis using again other w' c' unfolding w_def recovery_bit_def by simp
qed

text \<open>Normalisation keeps the signer. For any recovery primitive under which the two encodings
  of a signature recover the same address (as ECDSA has it), recovering from the compact form
  gives what recovering from the original signature gives, errors included.\<close>

theorem compact_keeps_signer:
  assumes "\<And>r s v. 0 < r \<Longrightarrow> r < n \<Longrightarrow> 0 < s \<Longrightarrow> s < n \<Longrightarrow> v = 0 \<or> v = 1 \<Longrightarrow>
      sig_to_address digest (eth_sig r (n - s) (v XOR 1)) = sig_to_address digest (eth_sig r s v)"
    and "CompactSignatureFromEth n sig = Inr c" "sig ! 64 = 0 \<or> sig ! 64 = 1"
  shows "RecoverCompact sig_to_address digest c =
    (case sig_to_address digest sig of Inl err \<Rightarrow> Inl (ErrCrypto err) | Inr a \<Rightarrow> Inr a)"
proof -
  from from_eth_parts [OF assms(2)] obtain r s v where sig: "sig = eth_sig r s v" "r < 256 ^ 32" "s < 256 ^ 32" "v = sig ! 64"
    by blast
  have v1: "v = 0 \<or> v = 1" using assms(3) unfolding sig(4) .
  then have v2: "recovery_bit v = v" by (elim disjE) simp_all
  note v = v1 v2
  from assms(2) have rs: "0 < r" "r < n" "0 < s" "s < n"
    and c: "c = (if n div 2 < s then \<lparr>Compact = left_pad 32 (nat_be r) @ left_pad 32 (nat_be (n - s)), RecoveryID = v XOR 1\<rparr>
         else \<lparr>Compact = left_pad 32 (nat_be r) @ left_pad 32 (nat_be s), RecoveryID = v\<rparr>)"
    unfolding sig(1) from_eth_iff [OF sig(2,3)] v(2) by blast+
  have "\<not> 1 < RecoveryID c" using v(1) unfolding c by (elim disjE) simp_all
  moreover have "sig_to_address digest (EthSignature c) = sig_to_address digest sig"
    using assms(1) [OF rs v(1)] unfolding c sig(1) by (simp add: eth_compact)
  ultimately show ?thesis by (simp add: RecoverCompact_def)
qed

text \<open>The two signing routines agree: the compact signature is the normal form of the 65-byte
  wire signature, whose recovery byte is offset by 27, for any primitive that returns 65 bytes
  with a recovery byte of 0 or 1.\<close>

theorem sign_compact_agrees:
  assumes "\<And>k sig. crypto_sign digest k = Inr sig \<Longrightarrow> length sig = 65 \<and> (sig ! 64 = 0 \<or> sig ! 64 = 1)"
  shows "SignCompact n crypto_sign digest key =
    bind_res (Sign crypto_sign digest key) (CompactSignatureFromEth n)"
proof (cases key)
  case (Some k)
  show ?thesis
  proof (cases "crypto_sign digest k")
    case (Inr sig)
    with assms have len: "length sig = 65" and v: "sig ! 64 = 0 \<or> sig ! 64 = 1" by auto
    define r where "r = be_nat (take 32 sig)"
    define s where "s = be_nat (take 32 (drop 32 sig))"
    have rs: "r < 256 ^ 32" "s < 256 ^ 32"
      using be_nat_less [of "take 32 sig"] be_nat_less [of "take 32 (drop 32 sig)"] len by (simp_all add: r_def s_def)
    have sig: "sig = eth_sig r s (sig ! 64)" unfolding r_def s_def by (rule eth_sig_parts [OF len])
    have "length (sig[64 := sig ! 64 + 27]) = 65" using len by simp
    from eth_sig_parts [OF this] len have sig': "sig[64 := sig ! 64 + 27] = eth_sig r s (sig ! 64 + 27)"
      by (simp add: r_def s_def drop_update_swap)
    have "recovery_bit (sig ! 64 + 27) = recovery_bit (sig ! 64)"
      using v by (elim disjE) (simp_all add: recovery_bit_def word_le_nat_alt)
    then have "CompactSignatureFromEth n (eth_sig r s (sig ! 64)) = Inr c \<longleftrightarrow>
        CompactSignatureFromEth n (eth_sig r s (sig ! 64 + 27)) = Inr c" for c
      by (simp add: from_eth_iff [OF rs])
    have "CompactSignatureFromEth n (eth_sig r s (sig ! 64)) = CompactSignatureFromEth n (eth_sig r s (sig ! 64 + 27))"
      using v by (elim disjE) (simp_all add: from_eth_sig [OF rs] Let_def word_le_nat_alt word_less_nat_alt)
    with Inr Some sig sig' show ?thesis by (simp add: SignCompact_def Sign_def)
  qed (use Some in \<open>simp add: SignCompact_def Sign_def\<close>)
qed (simp add: SignCompact_def Sign_def)

text \<open>An amount is encoded exactly when it fits 64 bits, and then without loss; an absent, a
  negative or a larger one is refused.\<close>

theorem Amount_iff:
  "Amount v = Inr w \<longleftrightarrow> v = Some (uint w)"
proof -
  have "uint (w :: u64) < 2 ^ 64" "0 \<le> uint w" using uint_range_size [of w] by (simp_all add: word_size)
  moreover have "uint (word_of_int i :: u64) = i" if "0 \<le> i" "i < 2 ^ 64" for i
    using that by (simp add: uint_word_of_int)
  ultimately show ?thesis by (auto simp: Amount_def split: option.splits if_splits)
qed

section \<open>Witnesses\<close>

text \<open>A stand-in for Keccak with 32-byte values: the first and the last 16 bytes.\<close>

definition toy_hash :: "bytes \<Rightarrow> bytes" where
  "toy_hash b = take 16 (b @ replicate 16 0) @ take 16 (rev b @ replicate 16 0)"

lemma length_toy_hash [simp]: "length (toy_hash b) = 32"
  by (simp add: toy_hash_def)

definition demo_domain :: Domain where
  "demo_domain = \<lparr>Cluster = replicate 32 1, Program = replicate 32 2, Config = replicate 32 3\<rparr>"

definition demo_mint :: "byte \<Rightarrow> MintAttestation" where
  "demo_mint vault = \<lparr>mAuditor = replicate 20 4, mProfileDigest = replicate 32 5, mRecordKey = replicate 32 6,
     mMetadataDigest = replicate 32 7, mAmount = 1000, mNonce = replicate 32 8, mValidUntil = 99,
     mVault = replicate 32 vault\<rparr>"

definition demo_burn :: BurnAttestation where
  "demo_burn = \<lparr>bAuditor = replicate 20 4, bProfileDigest = replicate 32 5, bOperationID = replicate 32 6,
     bMetadataDigest = replicate 32 7, bAmount = 1000, bNonce = replicate 32 8, bValidUntil = 99,
     bVault = replicate 32 10\<rparr>"

lemma inj_on_list: "distinct (map f xs) \<Longrightarrow> inj_on f (set xs)"
  by (simp add: distinct_map)

theorem mint_digest_binds_witness:
  "mint_Digest toy_hash demo_domain (demo_mint 9) \<noteq> mint_Digest toy_hash demo_domain (demo_mint 10)"
proof
  assume e: "mint_Digest toy_hash demo_domain (demo_mint 9) = mint_Digest toy_hash demo_domain (demo_mint 10)"
  let ?s = "separator_buf toy_hash demo_domain"
  let ?b = "\<lambda>v. mint_buf toy_hash (demo_mint v)"
  have "distinct (map toy_hash [?s, ?b 9, ?b 10, final_buf toy_hash ?s (?b 9), final_buf toy_hash ?s (?b 10)])"
    by code_simp
  from inj_on_list [OF this] have i: "inj_on toy_hash (hashed toy_hash ?s (?b 9) \<union> hashed toy_hash ?s (?b 10))"
    by (rule inj_on_subset) (auto simp: hashed_def)
  have "demo_mint 9 = demo_mint 10"
    using mint_digest_binds [OF length_toy_hash _ _ _ _ i e] by (simp add: domain_ok_def mint_ok_def demo_domain_def demo_mint_def)
  then show False by (simp add: demo_mint_def)
qed

theorem mint_burn_disjoint_witness:
  "mint_Digest toy_hash demo_domain (demo_mint 9) \<noteq> burn_Digest toy_hash demo_domain demo_burn"
proof (rule mint_burn_disjoint [OF length_toy_hash])
  let ?s = "separator_buf toy_hash demo_domain"
  let ?m = "mint_buf toy_hash (demo_mint 9)" and ?b = "burn_buf toy_hash demo_burn"
  have "distinct (map toy_hash [?s, ?m, ?b, final_buf toy_hash ?s ?m, final_buf toy_hash ?s ?b,
      bytes_of_string MintTypeString, bytes_of_string BurnTypeString])" by code_simp
  from inj_on_list [OF this] show "inj_on toy_hash (hashed toy_hash ?s ?m \<union> hashed toy_hash ?s ?b \<union> type_strings)"
    by (rule inj_on_subset) (auto simp: hashed_def type_strings_def)
qed

theorem compact_canonical_witness:
  "\<exists>c. CompactSignatureFromEth 101 (eth_sig 7 90 27) = Inr c \<and> IsLowS 101 c \<and>
     CompactSignatureFromEth 101 (eth_sig 7 11 1) = Inr c"
proof -
  have v: "recovery_bit 27 = 0" by (simp add: recovery_bit_def)
  obtain c where c: "CompactSignatureFromEth 101 (eth_sig 7 90 27) = Inr c"
    using from_eth_iff [of 7 90 101 27] v by auto
  have "IsLowS 101 c \<and> CompactSignatureFromEth 101 (eth_sig 7 (101 - 90) ((if 27 \<le> (27 :: byte) then 27 - 27 else 27) XOR 1)) = Inr c"
    using compact_canonical [OF _ _ c] by simp
  with c show ?thesis by auto
qed

theorem compact_keeps_signer_witness:
  "\<exists>c. CompactSignatureFromEth 101 (eth_sig 7 90 0) = Inr c \<and>
     RecoverCompact (\<lambda>_ sig. Inr (take 32 sig)) [] c = Inr (left_pad 32 (nat_be 7))"
proof -
  obtain c where c: "CompactSignatureFromEth 101 (eth_sig 7 90 0) = Inr c"
    using from_eth_iff [of 7 90 101 0] by auto
  have take: "take 32 (eth_sig r s v) = left_pad 32 (nat_be r)" if "r < 101" for r s v
    using that length_left_pad_nat_be [of r 32] by (simp add: eth_sig_def)
  have last: "eth_sig 7 90 0 ! 64 = 0"
    using length_left_pad_nat_be [of 7 32] length_left_pad_nat_be [of 90 32] by (simp add: eth_sig_def nth_append)
  have "RecoverCompact (\<lambda>_ sig. Inr (take 32 sig)) [] c =
      (case Inr (take 32 (eth_sig 7 90 0)) of Inl err \<Rightarrow> Inl (ErrCrypto err) | Inr a \<Rightarrow> Inr a)"
    by (rule compact_keeps_signer [OF _ c]) (use take last in auto)
  with c take [of 7 90 0] show ?thesis by auto
qed

theorem sign_compact_agrees_witness:
  "SignCompact 101 (\<lambda>_ _. Inr (replicate 65 1)) [] (Some ()) =
   bind_res (Sign (\<lambda>_ _. Inr (replicate 65 1)) [] (Some ())) (CompactSignatureFromEth 101)"
  by (rule sign_compact_agrees) auto

end
