(* ===== verification/Eip712.thy ===== *)
theory Eip712
  imports Attestation
begin

text \<open>
  \<^verbatim>\<open>server/internal/eip712/attestation.go\<close>: the server's own port of the digest, with which it
  builds the package the offline signer reviews. It is written out again here from that file
  and proved to compute the digests of the signer's \<^verbatim>\<open>Attestation\<close>.
\<close>

unbundle bit_operations_syntax

definition domainTypeString :: string where
  "domainTypeString = ''SolanaSupplyAttestation(string name,string version,bytes32 cluster,bytes32 program,bytes32 config)''"

definition mintTypeString :: string where
  "mintTypeString = ''MintAttestation(bytes32 auditor,bytes32 profileDigest,bytes32 recordKey,bytes32 metadataDigest,uint64 amount,bytes32 nonce,uint64 validUntil,bytes32 vault)''"

definition burnTypeString :: string where
  "burnTypeString = ''BurnAttestation(bytes32 auditor,bytes32 profileDigest,bytes32 operationId,bytes32 metadataDigest,uint64 amount,bytes32 nonce,uint64 validUntil,bytes32 vault)''"

definition srvDomainName :: string where "srvDomainName = ''RWA-Supply-Attestation-Solana''"

definition srvDomainVersion :: string where "srvDomainVersion = ''1''"

record srvDomain =
  sCluster :: bytes
  sProgram :: bytes
  sConfig :: bytes

record srvMint =
  smAuditor :: bytes
  smProfileDigest :: bytes
  smRecordKey :: bytes
  smMetadataDigest :: bytes
  smAmount :: u64
  smNonce :: bytes
  smValidUntil :: u64
  smVault :: bytes

record srvBurn =
  sbAuditor :: bytes
  sbProfileDigest :: bytes
  sbOperationID :: bytes
  sbMetadataDigest :: bytes
  sbAmount :: u64
  sbNonce :: bytes
  sbValidUntil :: u64
  sbVault :: bytes

definition srvWordU64 :: "u64 \<Rightarrow> bytes" where
  "srvWordU64 x = fold (\<lambda>i w. w[31 - i := ucast (drop_bit (8 * i) x)]) [0..<8] (replicate 32 0)"

definition srvAmount :: "int option \<Rightarrow> att_error + u64" where
  "srvAmount v = (case v of
      None \<Rightarrow> Inl ErrNil
    | Some i \<Rightarrow>
        if i < 0 then Inl ErrNegative
        else if \<not> i < 2 ^ 64 then Inl (ErrExceedsU64 i)
        else Inr (word_of_int i))"

definition DomainSeparator :: "(bytes \<Rightarrow> bytes) \<Rightarrow> srvDomain \<Rightarrow> bytes" where
  "DomainSeparator keccak d =
     keccak (keccak (bytes_of_string domainTypeString) @ keccak (bytes_of_string srvDomainName) @
       keccak (bytes_of_string srvDomainVersion) @ sCluster d @ sProgram d @ sConfig d)"

definition HashMintAttestation :: "(bytes \<Rightarrow> bytes) \<Rightarrow> srvMint \<Rightarrow> bytes" where
  "HashMintAttestation keccak m =
     (let amountWord = srvWordU64 (smAmount m); validUntilWord = srvWordU64 (smValidUntil m) in
      keccak (keccak (bytes_of_string mintTypeString) @ left_pad 32 (smAuditor m) @ smProfileDigest m @
        smRecordKey m @ smMetadataDigest m @ amountWord @ smNonce m @ validUntilWord @ smVault m))"

definition HashBurnAttestation :: "(bytes \<Rightarrow> bytes) \<Rightarrow> srvBurn \<Rightarrow> bytes" where
  "HashBurnAttestation keccak b =
     (let amountWord = srvWordU64 (sbAmount b); validUntilWord = srvWordU64 (sbValidUntil b) in
      keccak (keccak (bytes_of_string burnTypeString) @ left_pad 32 (sbAuditor b) @ sbProfileDigest b @
        sbOperationID b @ sbMetadataDigest b @ amountWord @ sbNonce b @ validUntilWord @ sbVault b))"

definition srvDigest :: "(bytes \<Rightarrow> bytes) \<Rightarrow> bytes \<Rightarrow> bytes \<Rightarrow> bytes" where
  "srvDigest keccak domainSeparator hashStruct = keccak ([0x19, 0x01] @ domainSeparator @ hashStruct)"

definition MintDigest :: "(bytes \<Rightarrow> bytes) \<Rightarrow> srvDomain \<Rightarrow> srvMint \<Rightarrow> bytes" where
  "MintDigest keccak d m = srvDigest keccak (DomainSeparator keccak d) (HashMintAttestation keccak m)"

definition BurnDigest :: "(bytes \<Rightarrow> bytes) \<Rightarrow> srvDomain \<Rightarrow> srvBurn \<Rightarrow> bytes" where
  "BurnDigest keccak d b = srvDigest keccak (DomainSeparator keccak d) (HashBurnAttestation keccak b)"

section \<open>The same values in the signer's types\<close>

definition to_domain :: "srvDomain \<Rightarrow> Domain" where
  "to_domain d = \<lparr>Cluster = sCluster d, Program = sProgram d, Config = sConfig d\<rparr>"

definition to_mint :: "srvMint \<Rightarrow> MintAttestation" where
  "to_mint m = \<lparr>mAuditor = smAuditor m, mProfileDigest = smProfileDigest m, mRecordKey = smRecordKey m,
     mMetadataDigest = smMetadataDigest m, mAmount = smAmount m, mNonce = smNonce m,
     mValidUntil = smValidUntil m, mVault = smVault m\<rparr>"

definition to_burn :: "srvBurn \<Rightarrow> BurnAttestation" where
  "to_burn b = \<lparr>bAuditor = sbAuditor b, bProfileDigest = sbProfileDigest b, bOperationID = sbOperationID b,
     bMetadataDigest = sbMetadataDigest b, bAmount = sbAmount b, bNonce = sbNonce b,
     bValidUntil = sbValidUntil b, bVault = sbVault b\<rparr>"

text \<open>C13: the server and the offline signer compute the same digests: for the same deployment and
  payload the package the server builds names exactly the digest the signer will sign, for
  mints and for burns, and both accept the same amounts.\<close>

theorem server_signer_agree:
  "MintDigest keccak d m = mint_Digest keccak (to_domain d) (to_mint m) \<and>
   BurnDigest keccak d b = burn_Digest keccak (to_domain d) (to_burn b) \<and> srvAmount v = Amount v"
  by (simp add: MintDigest_def BurnDigest_def srvDigest_def DomainSeparator_def HashMintAttestation_def
      HashBurnAttestation_def mint_Digest_def burn_Digest_def Digest_def Separator_def separator_buf_def
      mint_HashStruct_def mint_buf_def burn_HashStruct_def burn_buf_def to_domain_def to_mint_def to_burn_def
      domainTypeString_def DomainTypeString_def mintTypeString_def MintTypeString_def burnTypeString_def
      BurnTypeString_def srvDomainName_def DomainName_def srvDomainVersion_def DomainVersion_def
      srvWordU64_def wordU64_def srvAmount_def Amount_def Let_def)

end
