(* ===== verification/AuditLog.thy ===== *)
theory AuditLog
  imports GoStd
begin

text \<open>
  \<^verbatim>\<open>signer/internal/keystore/auditlog.go\<close>: the hash-chained log of keystore unlocks and its
  anchor. A file is an optional byte string. JSON marshalling and parsing of the two kinds of
  line and SHA-256 are parameters; \<open>line_ok\<close> says what the code relies on of JSON. The lock
  file that serialises appends is not modelled: each operation is atomic. The lemmas show that
  appending keeps the log verifiable, also when a write fails half way, and that an anchored
  log is determined by its anchor, so that truncation and rewriting are detected.
\<close>

section \<open>Lines and files\<close>

record AuditEvent =
  aeSeq :: int
  aeTime :: string
  aeEvent :: string
  aeFields :: "(string \<times> string) list"
  aePrevHash :: string
  aeHash :: string

record AnchorEntry =
  anSeq :: int
  anHash :: string
  anTime :: string

record audit_json =
  encEvent :: "AuditEvent \<Rightarrow> bytes"
  decEvent :: "bytes \<Rightarrow> AuditEvent option"
  encAnchor :: "AnchorEntry \<Rightarrow> bytes"
  decAnchor :: "bytes \<Rightarrow> AnchorEntry option"

record audit_files =
  mainLog :: "bytes option"
  anchorLog :: "bytes option"

datatype audit_error =
    ErrLine nat
  | ErrPrevHash nat
  | ErrSeq nat int
  | ErrHash nat
  | ErrBrokenChain audit_error
  | ErrAppendMain
  | ErrAppendAnchor int
  | ErrAnchorCorrupted
  | ErrTruncated nat int
  | ErrRewritten int
  | IndexPanic int

text \<open>\<^verbatim>\<open>bytes.TrimRight\<close> and \<^verbatim>\<open>bytes.Split\<close> on newlines.\<close>

definition trim_newlines :: "bytes \<Rightarrow> bytes" where
  "trim_newlines b = rev (dropWhile (\<lambda>x. x = 10) (rev b))"

fun split_lines :: "bytes \<Rightarrow> bytes list" where
  "split_lines [] = [[]]"
| "split_lines (x # xs) =
     (if x = 10 then [] # split_lines xs
      else case split_lines xs of [] \<Rightarrow> [[x]] | l # ls \<Rightarrow> (x # l) # ls)"

definition readLines :: "bytes option \<Rightarrow> bytes list" where
  "readLines file = (case file of
      None \<Rightarrow> []
    | Some data \<Rightarrow> (let d = trim_newlines data in if d = [] then [] else split_lines d))"

definition append_line :: "bytes option \<Rightarrow> bytes \<Rightarrow> bytes option" where
  "append_line file line = Some ((case file of None \<Rightarrow> [] | Some data \<Rightarrow> data) @ line)"

section \<open>The chain\<close>

definition hashEvent :: "audit_json \<Rightarrow> (bytes \<Rightarrow> bytes) \<Rightarrow> AuditEvent \<Rightarrow> string" where
  "hashEvent J sha256 e = hex (sha256 (encEvent J (e\<lparr>aeHash := ''''\<rparr>)))"

fun verify_lines :: "audit_json \<Rightarrow> (bytes \<Rightarrow> bytes) \<Rightarrow> nat \<Rightarrow> int \<Rightarrow> string \<Rightarrow> bytes list
    \<Rightarrow> audit_error + int \<times> string" where
  "verify_lines J sha256 i prevSeq prevHash [] = Inr (prevSeq, prevHash)"
| "verify_lines J sha256 i prevSeq prevHash (line # lines) =
     (case decEvent J line of
        None \<Rightarrow> Inl (ErrLine (i + 1))
      | Some e \<Rightarrow>
          if aePrevHash e \<noteq> prevHash then Inl (ErrPrevHash (i + 1))
          else if aeSeq e \<noteq> prevSeq + 1 then Inl (ErrSeq (i + 1) (aeSeq e))
          else if aeHash e \<noteq> hashEvent J sha256 e then Inl (ErrHash (i + 1))
          else verify_lines J sha256 (i + 1) (aeSeq e) (aeHash e) lines)"

definition verifyChain :: "audit_json \<Rightarrow> (bytes \<Rightarrow> bytes) \<Rightarrow> bytes list \<Rightarrow> audit_error + int \<times> string" where
  "verifyChain J sha256 lines = verify_lines J sha256 0 0 '''' lines"

text \<open>How a write of \<open>appendDurable\<close> fails: the file does not open, the write stops after some bytes of the
  line, or the whole line is in the file and only \<^verbatim>\<open>Sync\<close> fails.\<close>

datatype reach = Unopened | Torn nat | Unsynced

datatype fault = NoFault | MainFault reach | AnchorFault reach

fun spilled :: "reach \<Rightarrow> bytes option \<Rightarrow> bytes \<Rightarrow> bytes option" where
  "spilled Unopened file line = file"
| "spilled (Torn n) file line = append_line file (take n line)"
| "spilled Unsynced file line = append_line file line"

definition AppendAuditEventTo :: "audit_json \<Rightarrow> (bytes \<Rightarrow> bytes) \<Rightarrow> string \<Rightarrow> fault \<Rightarrow> string
    \<Rightarrow> (string \<times> string) list \<Rightarrow> audit_files \<Rightarrow> (audit_error + unit) \<times> audit_files" where
  "AppendAuditEventTo J sha256 now flt event flds fs =
     (case verifyChain J sha256 (readLines (mainLog fs)) of
        Inl err \<Rightarrow> (Inl (ErrBrokenChain err), fs)
      | Inr (lastSeq, lastHash) \<Rightarrow>
          (let e0 = \<lparr>aeSeq = lastSeq + 1, aeTime = now, aeEvent = event, aeFields = flds,
                     aePrevHash = lastHash, aeHash = ''''\<rparr>;
               e = e0\<lparr>aeHash := hashEvent J sha256 e0\<rparr>
           in case flt of
                MainFault w \<Rightarrow> (Inl ErrAppendMain, fs\<lparr>mainLog := spilled w (mainLog fs) (encEvent J e @ [10])\<rparr>)
              | _ \<Rightarrow>
                (let fs1 = fs\<lparr>mainLog := append_line (mainLog fs) (encEvent J e @ [10])\<rparr>;
                     anchor = \<lparr>anSeq = aeSeq e, anHash = aeHash e, anTime = aeTime e\<rparr>
                 in case flt of
                      AnchorFault w \<Rightarrow> (Inl (ErrAppendAnchor (aeSeq e)),
                        fs1\<lparr>anchorLog := spilled w (anchorLog fs) (encAnchor J anchor @ [10])\<rparr>)
                    | _ \<Rightarrow> (Inr (), fs1\<lparr>anchorLog := append_line (anchorLog fs) (encAnchor J anchor @ [10])\<rparr>))))"

definition VerifyAuditLog :: "audit_json \<Rightarrow> (bytes \<Rightarrow> bytes) \<Rightarrow> audit_files \<Rightarrow> audit_error + unit" where
  "VerifyAuditLog J sha256 fs =
     (case verifyChain J sha256 (readLines (mainLog fs)) of Inl err \<Rightarrow> Inl err | Inr _ \<Rightarrow> Inr ())"

definition VerifyAuditLogAnchored :: "audit_json \<Rightarrow> (bytes \<Rightarrow> bytes) \<Rightarrow> audit_files \<Rightarrow> audit_error + unit" where
  "VerifyAuditLogAnchored J sha256 fs =
     bind_res (VerifyAuditLog J sha256 fs) (\<lambda>_.
       let anchorLines = readLines (anchorLog fs); mainLines = readLines (mainLog fs) in
       if anchorLines = [] then Inr ()
       else case decAnchor J (last anchorLines) of
          None \<Rightarrow> Inl ErrAnchorCorrupted
        | Some a \<Rightarrow>
            if int (length mainLines) < anSeq a then Inl (ErrTruncated (length mainLines) (anSeq a))
            else if anSeq a \<le> 0 then Inl (IndexPanic (anSeq a - 1))
            else case decEvent J (mainLines ! nat (anSeq a - 1)) of
               None \<Rightarrow> Inl (ErrLine (nat (anSeq a)))
             | Some e \<Rightarrow> if aeHash e \<noteq> anHash a then Inl (ErrRewritten (anSeq a)) else Inr ())"

section \<open>Lines written and read back\<close>

lemma split_lines_no_newline: "10 \<notin> set l \<Longrightarrow> split_lines l = [l]"
  by (induction l) auto

lemma split_lines_ne [simp]: "split_lines xs \<noteq> []"
  by (induction xs) (auto split: list.splits)

lemma split_lines_append: "split_lines (a @ 10 # b) = split_lines a @ split_lines b"
proof (induction a)
  case (Cons x a)
  then show ?case by (cases "split_lines a") (auto split: list.splits)
qed simp

definition unlines :: "bytes list \<Rightarrow> bytes" where
  "unlines ls = concat (map (\<lambda>l. l @ [10]) ls)"

lemma unlines_snoc: "unlines (ls @ [l]) = unlines ls @ l @ [10]"
  by (simp add: unlines_def)

lemma readLines_unlines:
  assumes "\<forall>l\<in>set ls. 10 \<notin> set l \<and> l \<noteq> []"
  shows "readLines (Some (unlines ls)) = ls"
proof (cases ls rule: rev_cases)
  case (snoc init l)
  have l: "10 \<notin> set l" "l \<noteq> []" using assms snoc by auto
  have trim: "trim_newlines (unlines ls) = unlines init @ l"
  proof -
    have "last l \<noteq> 10" using l by (metis last_in_set)
    then have "dropWhile (\<lambda>x. x = 10) (rev l @ rev (unlines init)) = rev l @ rev (unlines init)"
      using l(2) by (cases l rule: rev_cases) auto
    then show ?thesis by (simp add: snoc unlines_snoc trim_newlines_def)
  qed
  have split: "\<forall>l\<in>set ks. 10 \<notin> set l \<Longrightarrow> split_lines (unlines ks @ l) = ks @ [l]" for ks
  proof (induction ks)
    case Nil
    then show ?case using split_lines_no_newline l(1) by (simp add: unlines_def)
  next
    case (Cons k ks)
    have "split_lines (unlines (k # ks) @ l) = split_lines k @ split_lines (unlines ks @ l)"
      using split_lines_append by (simp add: unlines_def)
    with Cons split_lines_no_newline show ?case by simp
  qed
  show ?thesis using trim split [of init] assms snoc l by (simp add: readLines_def Let_def)
qed (simp add: readLines_def unlines_def trim_newlines_def Let_def)

text \<open>A file that holds the lines \<open>ls\<close>, each ended by a newline.\<close>

definition file_holds :: "bytes option \<Rightarrow> bytes list \<Rightarrow> bool" where
  "file_holds file ls \<longleftrightarrow> (file = None \<and> ls = [] \<or> file = Some (unlines ls)) \<and> (\<forall>l\<in>set ls. 10 \<notin> set l \<and> l \<noteq> [])"

lemma readLines_holds: "file_holds file ls \<Longrightarrow> readLines file = ls"
  unfolding file_holds_def using readLines_unlines by (auto simp: readLines_def)

lemma append_holds: "file_holds file ls \<Longrightarrow> 10 \<notin> set l \<Longrightarrow> l \<noteq> [] \<Longrightarrow> file_holds (append_line file (l @ [10])) (ls @ [l])"
  by (auto simp: file_holds_def append_line_def unlines_snoc) (simp add: unlines_def)

section \<open>Appending\<close>

text \<open>What the code needs of JSON for an event and an anchor entry: the line parses back, is not
  empty and has no newline. It is needed for what the code itself writes: positive sequence
  numbers, hexadecimal hashes, and the given times, events and fields.\<close>

definition event_ok :: "audit_json \<Rightarrow> AuditEvent \<Rightarrow> bool" where
  "event_ok J e \<longleftrightarrow> decEvent J (encEvent J e) = Some e \<and> encEvent J e \<noteq> [] \<and> 10 \<notin> set (encEvent J e)"

definition anchor_ok :: "audit_json \<Rightarrow> AnchorEntry \<Rightarrow> bool" where
  "anchor_ok J a \<longleftrightarrow> decAnchor J (encAnchor J a) = Some a \<and> encAnchor J a \<noteq> [] \<and> 10 \<notin> set (encAnchor J a)"

type_synonym audit_values = "(string \<times> string \<times> (string \<times> string) list) set"

definition written :: "audit_values \<Rightarrow> AuditEvent \<Rightarrow> bool" where
  "written V e \<longleftrightarrow> 0 < aeSeq e \<and> (aeTime e, aeEvent e, aeFields e) \<in> V \<and>
     aePrevHash e \<in> insert '''' (range hex) \<and> aeHash e \<in> range hex"

definition json_ok :: "audit_json \<Rightarrow> audit_values \<Rightarrow> bool" where
  "json_ok J V \<longleftrightarrow> (\<forall>e. written V e \<longrightarrow> event_ok J e) \<and>
     (\<forall>a. 0 < anSeq a \<and> anHash a \<in> range hex \<and> anTime a \<in> fst ` V \<longrightarrow> anchor_ok J a)"

lemma verify_lines_snoc:
  "verify_lines J sha i s h (ls @ [l]) =
   (case verify_lines J sha i s h ls of
      Inl err \<Rightarrow> Inl err
    | Inr (s', h') \<Rightarrow> verify_lines J sha (i + length ls) s' h' [l])"
  by (induction J sha i s h ls rule: verify_lines.induct) (auto split: option.splits sum.splits)

lemma verify_lines_seq:
  "verify_lines J sha i s h ls = Inr (s', h') \<Longrightarrow> s' = s + int (length ls)"
  by (induction J sha i s h ls rule: verify_lines.induct) (auto split: option.splits if_splits)

text \<open>The line a write left, when it left none or all of it.\<close>

fun whole :: "reach \<Rightarrow> bool" where
  "whole Unopened \<longleftrightarrow> True" | "whole (Torn n) \<longleftrightarrow> n = 0" | "whole Unsynced \<longleftrightarrow> True"

fun untorn :: "fault \<Rightarrow> bool" where
  "untorn NoFault \<longleftrightarrow> True" | "untorn (MainFault w) \<longleftrightarrow> whole w" | "untorn (AnchorFault w) \<longleftrightarrow> whole w"

definition logged :: "fault \<Rightarrow> bool" where
  "logged flt \<longleftrightarrow> (case flt of MainFault w \<Rightarrow> w = Unsynced | _ \<Rightarrow> True)"

lemma append_nothing: "file_holds file ls \<Longrightarrow> file_holds (append_line file []) ls"
  by (auto simp: file_holds_def append_line_def unlines_def)

lemma whole_holds:
  assumes "whole w" "file_holds file ls" "10 \<notin> set l" "l \<noteq> []"
  shows "file_holds (spilled w file (l @ [10])) (if w = Unsynced then ls @ [l] else ls)"
  using assms append_holds append_nothing by (cases w) auto

text \<open>A log as the code leaves it: the lines of a verified chain, and an anchor file whose entries
  name entries of the log.\<close>

definition log_inv :: "audit_json \<Rightarrow> (bytes \<Rightarrow> bytes) \<Rightarrow> audit_files \<Rightarrow> AuditEvent list \<Rightarrow> AnchorEntry list \<Rightarrow> bool" where
  "log_inv J sha fs es as \<longleftrightarrow>
     file_holds (mainLog fs) (map (encEvent J) es) \<and> file_holds (anchorLog fs) (map (encAnchor J) as) \<and>
     (\<forall>e\<in>set es. event_ok J e) \<and> (\<forall>a\<in>set as. anchor_ok J a) \<and>
     (\<exists>h \<in> insert '''' (range hex). verifyChain J sha (map (encEvent J) es) = Inr (int (length es), h)) \<and>
     (\<forall>a\<in>set as. 0 < anSeq a \<and> anSeq a \<le> int (length es) \<and> anHash a = aeHash (es ! nat (anSeq a - 1)))"

lemma log_inv_verifies:
  assumes "log_inv J sha fs es as"
  shows "VerifyAuditLogAnchored J sha fs = Inr ()"
proof -
  have main: "readLines (mainLog fs) = map (encEvent J) es" and anchor: "readLines (anchorLog fs) = map (encAnchor J) as"
    using assms readLines_holds by (auto simp: log_inv_def)
  have ok: "VerifyAuditLog J sha fs = Inr ()" using assms main by (auto simp: VerifyAuditLog_def log_inv_def)
  show ?thesis
  proof (cases as rule: rev_cases)
    case Nil
    with ok anchor show ?thesis by (simp add: VerifyAuditLogAnchored_def Let_def)
  next
    case (snoc as' a)
    with assms have a: "0 < anSeq a" "anSeq a \<le> int (length es)" "anHash a = aeHash (es ! nat (anSeq a - 1))"
      "decAnchor J (encAnchor J a) = Some a" by (auto simp: log_inv_def anchor_ok_def)
    then have "nat (anSeq a - 1) < length es" by simp
    moreover from this assms have "decEvent J (encEvent J (es ! nat (anSeq a - 1))) = Some (es ! nat (anSeq a - 1))"
      by (auto simp: log_inv_def event_ok_def)
    ultimately show ?thesis using ok anchor main snoc a
      by (simp add: VerifyAuditLogAnchored_def Let_def not_less)
  qed
qed

lemma log_inv_append:
  assumes inv: "log_inv J sha fs es as" and J: "json_ok J V" and v: "(now, event, flds) \<in> V" and u: "untorn flt"
    and run: "AppendAuditEventTo J sha now flt event flds fs = (r, fs')"
  obtains e as' where "log_inv J sha fs' (if logged flt then es @ [e] else es) as'"
    "written V e" "aeEvent e = event" "aeFields e = flds" "r = Inr () \<longleftrightarrow> flt = NoFault"
    "flt = NoFault \<Longrightarrow> as' \<noteq> [] \<and> anSeq (last as') = int (length es) + 1"
proof -
  from inv obtain h where h: "h \<in> insert '''' (range hex)"
    "verifyChain J sha (map (encEvent J) es) = Inr (int (length es), h)" by (auto simp: log_inv_def)
  have main: "readLines (mainLog fs) = map (encEvent J) es" using inv readLines_holds by (auto simp: log_inv_def)
  define e0 where "e0 = \<lparr>aeSeq = int (length es) + 1, aeTime = now, aeEvent = event, aeFields = flds,
                     aePrevHash = h, aeHash = ''''\<rparr>"
  define e where "e = e0\<lparr>aeHash := hashEvent J sha e0\<rparr>"
  define a where "a = \<lparr>anSeq = aeSeq e, anHash = aeHash e, anTime = aeTime e\<rparr>"
  have hash: "hashEvent J sha e = hashEvent J sha e0" "hashEvent J sha e0 \<in> range hex"
    by (simp_all add: hashEvent_def e_def e0_def)
  have w: "written V e" using h(1) v hash(2) by (auto simp: written_def e_def e0_def)
  then have eok: "event_ok J e" using J by (auto simp: json_ok_def)
  have aok: "anchor_ok J a" using J v hash(2) by (force simp: json_ok_def a_def e_def e0_def)
  have chain: "verifyChain J sha (map (encEvent J) (es @ [e])) = Inr (int (length (es @ [e])), aeHash e)"
    using h(2) eok hash(1) by (simp add: verifyChain_def verify_lines_snoc event_ok_def) (simp add: e_def e0_def)
  have fields: "aeEvent e = event" "aeFields e = flds" by (simp_all add: e_def e0_def)
  have line: "10 \<notin> set (encEvent J e)" "encEvent J e \<noteq> []" "10 \<notin> set (encAnchor J a)" "encAnchor J a \<noteq> []"
    using eok aok by (simp_all add: event_ok_def anchor_ok_def)
  have files: "file_holds (mainLog fs) (map (encEvent J) es)" "file_holds (anchorLog fs) (map (encAnchor J) as)"
    using inv by (simp_all add: log_inv_def)
  have mainf: "file_holds (append_line (mainLog fs) (encEvent J e @ [10])) (map (encEvent J) (es @ [e]))"
    using append_holds [OF files(1) line(1,2)] by simp
  have anchorf: "file_holds (append_line (anchorLog fs) (encAnchor J a @ [10])) (map (encAnchor J) (as @ [a]))"
    using append_holds [OF files(2) line(3,4)] by simp
  note run' = run [unfolded AppendAuditEventTo_def main h(2) sum.case prod.case Let_def, folded e0_def, folded e_def, folded a_def]
  have nth: "(es @ [e]) ! nat (anSeq b - 1) = es ! nat (anSeq b - 1)" if "0 < anSeq b" "anSeq b \<le> int (length es)" for b
    using that by (simp add: nth_append nat_less_iff)
  have old: "\<forall>b\<in>set as. 0 < anSeq b \<and> anSeq b \<le> int (length (es @ [e])) \<and> anHash b = aeHash ((es @ [e]) ! nat (anSeq b - 1))"
    using inv nth unfolding log_inv_def by fastforce
  have new: "0 < anSeq a" "anSeq a \<le> int (length (es @ [e]))" "anHash a = aeHash ((es @ [e]) ! nat (anSeq a - 1))"
    "anSeq a = int (length es) + 1"
    by (simp_all add: a_def e_def e0_def)
  have longer: "log_inv J sha gs (es @ [e]) bs"
    if "mainLog gs = append_line (mainLog fs) (encEvent J e @ [10])" "file_holds (anchorLog gs) (map (encAnchor J) bs)"
      "set bs \<subseteq> insert a (set as)" for gs bs
    using that inv mainf eok aok chain hash(2) old new unfolding log_inv_def by (auto simp: e_def)
  show thesis
  proof (cases flt)
    case NoFault
    with run' have fs': "fs' = fs\<lparr>mainLog := append_line (mainLog fs) (encEvent J e @ [10]),
        anchorLog := append_line (anchorLog fs) (encAnchor J a @ [10])\<rparr>" "r = Inr ()" by auto
    have "log_inv J sha fs' (es @ [e]) (as @ [a])" by (rule longer) (use fs' anchorf in auto)
    with that [of e "as @ [a]"] w fields fs' NoFault new show thesis by (simp add: logged_def)
  next
    case (MainFault k)
    with run' have fs': "fs' = fs\<lparr>mainLog := spilled k (mainLog fs) (encEvent J e @ [10])\<rparr>" "r \<noteq> Inr ()" by auto
    have hold: "file_holds (mainLog fs') (if k = Unsynced then map (encEvent J) es @ [encEvent J e] else map (encEvent J) es)"
      using whole_holds [OF _ files(1) line(1,2), of k] u MainFault by (simp add: fs')
    have "log_inv J sha fs' (if logged flt then es @ [e] else es) as"
    proof (cases "k = Unsynced")
      case True
      then show ?thesis using longer [of fs' as] files(2) fs' MainFault by (auto simp: logged_def)
    next
      case False
      with hold inv show ?thesis by (simp add: logged_def MainFault log_inv_def fs')
    qed
    with that [of e as] w fields fs' MainFault show thesis by simp
  next
    case (AnchorFault k)
    with run' have fs': "fs' = fs\<lparr>mainLog := append_line (mainLog fs) (encEvent J e @ [10]),
        anchorLog := spilled k (anchorLog fs) (encAnchor J a @ [10])\<rparr>" "r \<noteq> Inr ()" by auto
    have "log_inv J sha fs' (es @ [e]) (if k = Unsynced then as @ [a] else as)"
      by (rule longer) (use fs' whole_holds [OF _ files(2) line(3,4), of k] u AnchorFault in auto)
    with that [of e "if k = Unsynced then as @ [a] else as"] w fields fs' AnchorFault show thesis by (simp add: logged_def)
  qed
qed

section \<open>Tampering\<close>

text \<open>The strings hashed to verify a list of lines.\<close>

definition hashed_events :: "audit_json \<Rightarrow> bytes list \<Rightarrow> bytes set" where
  "hashed_events J ls = {encEvent J (e\<lparr>aeHash := ''''\<rparr>) | e l. l \<in> set ls \<and> decEvent J l = Some e}"

definition events_in :: "audit_json \<Rightarrow> bytes list \<Rightarrow> AuditEvent set" where
  "events_in J ls = {e. \<exists>l\<in>set ls. decEvent J l = Some e}"

lemma events_in_take: "events_in J (take n ls) \<subseteq> events_in J ls"
  unfolding events_in_def using in_set_takeD by fast

lemma hashed_events_take: "hashed_events J (take n ls) \<subseteq> hashed_events J ls"
  unfolding hashed_events_def using in_set_takeD by fast

lemma chain_determined:
  "inj_on (encEvent J) ((\<lambda>e. e\<lparr>aeHash := ''''\<rparr>) ` (events_in J ls \<union> events_in J ls')) \<Longrightarrow>
    verifyChain J sha ls = Inr (s, h) \<Longrightarrow> verifyChain J sha ls' = Inr (s', h) \<Longrightarrow> s = s' \<Longrightarrow>
    inj_on sha (hashed_events J ls \<union> hashed_events J ls') \<Longrightarrow> map (decEvent J) ls = map (decEvent J) ls'"
proof (induction ls arbitrary: ls' s s' h rule: rev_induct)
  case Nil
  from verify_lines_seq Nil(2-4) have "length ls' = 0" unfolding verifyChain_def by fastforce
  then show ?case by simp
next
  case (snoc l ls)
  from snoc.prems(2,3) have len: "s = int (length (ls @ [l]))" "s' = int (length ls')"
    unfolding verifyChain_def using verify_lines_seq by fastforce+
  with snoc.prems(4) obtain ks k where ls': "ls' = ks @ [k]" by (cases ls' rule: rev_cases) auto
  from snoc.prems(2) obtain t g e where e: "verifyChain J sha ls = Inr (t, g)" "decEvent J l = Some e"
    "aePrevHash e = g" "aeSeq e = t + 1" "aeHash e = hashEvent J sha e" "h = aeHash e"
    unfolding verifyChain_def verify_lines_snoc by (auto split: sum.splits option.splits if_splits)
  from snoc.prems(3) obtain t' g' e' where e': "verifyChain J sha ks = Inr (t', g')" "decEvent J k = Some e'"
    "aePrevHash e' = g'" "aeSeq e' = t' + 1" "aeHash e' = hashEvent J sha e'" "h = aeHash e'"
    unfolding ls' verifyChain_def verify_lines_snoc by (auto split: sum.splits option.splits if_splits)
  have "sha (encEvent J (e\<lparr>aeHash := ''''\<rparr>)) = sha (encEvent J (e'\<lparr>aeHash := ''''\<rparr>))"
    using e(5,6) e'(5,6) by (simp add: hashEvent_def)
  with snoc.prems(5) have "encEvent J (e\<lparr>aeHash := ''''\<rparr>) = encEvent J (e'\<lparr>aeHash := ''''\<rparr>)"
    by (rule inj_onD) (use e(2) e'(2) ls' in \<open>auto simp: hashed_events_def\<close>)
  then have "e\<lparr>aeHash := ''''\<rparr> = e'\<lparr>aeHash := ''''\<rparr>" by (rule inj_onD [OF snoc.prems(1)]) (use e(2) e'(2) ls' in \<open>auto simp: events_in_def\<close>)
  then have ee: "e = e'" using e(6) e'(6) by (cases e; cases e') simp
  have "map (decEvent J) ls = map (decEvent J) ks"
  proof (rule snoc.IH [OF _ e(1)])
    show "inj_on (encEvent J) ((\<lambda>e. e\<lparr>aeHash := ''''\<rparr>) ` (events_in J ls \<union> events_in J ks))"
      by (rule inj_on_subset [OF snoc.prems(1)]) (auto simp: events_in_def ls')
    show "verifyChain J sha ks = Inr (t', g)" using e' e ee by simp
    show "t = t'" using e(4) e'(4) ee by simp
    show "inj_on sha (hashed_events J ls \<union> hashed_events J ks)"
      by (rule inj_on_subset [OF snoc.prems(5)]) (auto simp: hashed_events_def ls')
  qed
  with ee e(2) e'(2) ls' show ?case by simp
qed

lemma verifyChain_prefix:
  assumes "verifyChain J sha (ls @ ks) = Inr r"
  obtains h where "verifyChain J sha ls = Inr (int (length ls), h)"
    "ls \<noteq> [] \<Longrightarrow> \<exists>e. decEvent J (last ls) = Some e \<and> aeHash e = h"
proof -
  have "\<exists>h. verifyChain J sha ls = Inr (int (length ls), h) \<and>
      (ls \<noteq> [] \<longrightarrow> (\<exists>e. decEvent J (last ls) = Some e \<and> aeHash e = h))"
    using assms
  proof (induction ks arbitrary: r rule: rev_induct)
    case Nil
    then have v: "verifyChain J sha ls = Inr r" by simp
    obtain s h where r: "r = (s, h)" by fastforce
    with v have "s = int (length ls)" unfolding verifyChain_def using verify_lines_seq by fastforce
    moreover have "\<exists>e. decEvent J (last ls) = Some e \<and> aeHash e = h" if "ls \<noteq> []"
      using v that r unfolding verifyChain_def
      by (cases ls rule: rev_cases) (auto simp: verify_lines_snoc split: sum.splits option.splits if_splits)
    ultimately show ?case using v r by blast
  next
    case (snoc k ks)
    then have "\<exists>r. verifyChain J sha (ls @ ks) = Inr r"
      unfolding verifyChain_def append_assoc [symmetric] verify_lines_snoc by (auto split: sum.splits)
    with snoc.IH show ?case by blast
  qed
  with that show thesis by blast
qed

section \<open>Properties\<close>

type_synonym audit_request = "string \<times> fault \<times> string \<times> (string \<times> string) list"

definition append_all :: "audit_json \<Rightarrow> (bytes \<Rightarrow> bytes) \<Rightarrow> audit_request list \<Rightarrow> audit_files \<Rightarrow> audit_files" where
  "append_all J sha256 reqs fs =
     fold (\<lambda>(now, flt, event, flds) fs. snd (AppendAuditEventTo J sha256 now flt event flds fs)) reqs fs"

lemma append_all_inv:
  assumes "json_ok J V"
  shows "log_inv J sha fs es as \<Longrightarrow> \<forall>(now, flt, event, flds) \<in> set reqs. (now, event, flds) \<in> V \<and> untorn flt \<Longrightarrow>
    \<exists>es' as'. log_inv J sha (append_all J sha reqs fs) es' as' \<and>
      length es' = length es + length (filter (\<lambda>(_, flt, _, _). logged flt) reqs)"
proof (induction reqs arbitrary: fs es as)
  case Nil
  then show ?case by (auto simp: append_all_def)
next
  case (Cons rq reqs)
  obtain now flt event flds where rq: "rq = (now, flt, event, flds)" by (cases rq)
  obtain r fs' where run: "AppendAuditEventTo J sha now flt event flds fs = (r, fs')" by fastforce
  have "(now, event, flds) \<in> V" "untorn flt" using Cons.prems(2) rq by simp_all
  from log_inv_append [OF Cons.prems(1) assms this run] obtain e as1 where
    inv: "log_inv J sha fs' (if logged flt then es @ [e] else es) as1" by blast
  have "append_all J sha (rq # reqs) fs = append_all J sha reqs fs'" by (simp add: append_all_def rq run)
  with Cons.IH [OF inv] Cons.prems(2) rq show ?case by (auto split: if_splits)
qed

text \<open>C14: whatever is appended to a new log, and however often a write of the log or of its anchor fails (the
  file does not open, nothing is written, or the whole line is written and the sync fails), as long as no
  write stops inside a line the log passes the anchored verification afterwards, and it holds one entry per
  append whose line reached it. A line torn in the middle is the case of \<open>torn_line_refused\<close>.\<close>

theorem appended_log_verifies:
  assumes "json_ok J V" "\<forall>(now, flt, event, flds) \<in> set reqs. (now, event, flds) \<in> V \<and> untorn flt"
  shows "VerifyAuditLogAnchored J sha256 (append_all J sha256 reqs \<lparr>mainLog = None, anchorLog = None\<rparr>) = Inr () \<and>
    length (readLines (mainLog (append_all J sha256 reqs \<lparr>mainLog = None, anchorLog = None\<rparr>))) =
      length (filter (\<lambda>(_, flt, _, _). logged flt) reqs)"
proof -
  have "log_inv J sha256 \<lparr>mainLog = None, anchorLog = None\<rparr> [] []"
    by (simp add: log_inv_def file_holds_def verifyChain_def)
  from append_all_inv [OF assms(1) this assms(2)] obtain es as where
    inv: "log_inv J sha256 (append_all J sha256 reqs \<lparr>mainLog = None, anchorLog = None\<rparr>) es as"
    "length es = length (filter (\<lambda>(_, flt, _, _). logged flt) reqs)" by auto
  then have "readLines (mainLog (append_all J sha256 reqs \<lparr>mainLog = None, anchorLog = None\<rparr>)) = map (encEvent J) es"
    by (simp add: log_inv_def readLines_holds)
  with inv log_inv_verifies [OF inv(1)] show ?thesis by simp
qed

text \<open>A write that stops inside a line leaves a log that is refused from then on: when the remains are no JSON
  value, every verification fails and every append refuses and changes nothing, so that, outside its unsafe
  test mode, the signer unlocks and signs nothing with this keystore until somebody repairs the file.\<close>

lemma torn_line_refused:
  assumes inv: "log_inv J sha fs es as" and l: "mainLog fs' = append_line (mainLog fs) rest" "rest \<noteq> []" "10 \<notin> set rest"
    and bad: "decEvent J rest = None"
  shows "VerifyAuditLogAnchored J sha fs' \<noteq> Inr ()"
    and "AppendAuditEventTo J sha now flt event flds fs' = (Inl (ErrBrokenChain (ErrLine (length es + 1))), fs')"
proof -
  from inv obtain h where h: "verifyChain J sha (map (encEvent J) es) = Inr (int (length es), h)"
    and f: "file_holds (mainLog fs) (map (encEvent J) es)" by (auto simp: log_inv_def)
  have "file_holds (Some (unlines (map (encEvent J) es @ [rest]))) (map (encEvent J) es @ [rest])"
    using append_holds [OF f l(3,2)] f by (auto simp: file_holds_def append_line_def unlines_def)
  then have "readLines (Some (unlines (map (encEvent J) es @ [rest]))) = map (encEvent J) es @ [rest]"
    by (rule readLines_holds)
  moreover have "mainLog fs' = Some (unlines (map (encEvent J) es) @ rest)"
    using l(1) f by (auto simp: file_holds_def append_line_def unlines_def)
  moreover have "trim_newlines (x @ rest) = trim_newlines ((x @ rest) @ [10])" for x
    by (simp add: trim_newlines_def)
  ultimately have lines: "readLines (mainLog fs') = map (encEvent J) es @ [rest]"
    by (simp add: readLines_def unlines_snoc)
  have "verifyChain J sha (map (encEvent J) es @ [rest]) = Inl (ErrLine (length es + 1))"
    using h bad by (simp add: verifyChain_def verify_lines_snoc)
  then show "VerifyAuditLogAnchored J sha fs' \<noteq> Inr ()"
    "AppendAuditEventTo J sha now flt event flds fs' = (Inl (ErrBrokenChain (ErrLine (length es + 1))), fs')"
    by (simp_all add: VerifyAuditLogAnchored_def VerifyAuditLog_def AppendAuditEventTo_def lines)
qed

text \<open>C15: tampering is detected. When two logs both pass the anchored verification against the same
  last anchor entry, they hold the same events up to the anchored one, unless SHA-256 or
  the JSON encoding collides on the events of the two logs: entries cannot be edited, reordered, removed or truncated away
  below the anchor without the verification failing.\<close>

theorem anchored_log_determined:
  assumes "inj_on (encEvent J) ((\<lambda>e. e\<lparr>aeHash := ''''\<rparr>) `
      (events_in J (readLines (mainLog fs)) \<union> events_in J (readLines (mainLog fs'))))"
    and "VerifyAuditLogAnchored J sha256 fs = Inr ()" "VerifyAuditLogAnchored J sha256 fs' = Inr ()"
    and "readLines (anchorLog fs) \<noteq> []" "decAnchor J (last (readLines (anchorLog fs))) = Some a"
    and "readLines (anchorLog fs') \<noteq> []" "decAnchor J (last (readLines (anchorLog fs'))) = Some a"
    and "inj_on sha256 (hashed_events J (readLines (mainLog fs)) \<union> hashed_events J (readLines (mainLog fs')))"
  shows "0 < anSeq a \<and> anSeq a \<le> int (length (readLines (mainLog fs))) \<and>
    map (decEvent J) (take (nat (anSeq a)) (readLines (mainLog fs))) =
    map (decEvent J) (take (nat (anSeq a)) (readLines (mainLog fs')))"
proof -
  let ?n = "nat (anSeq a)"
  have part: "0 < anSeq a \<and> anSeq a \<le> int (length (readLines (mainLog gs))) \<and>
      verifyChain J sha256 (take ?n (readLines (mainLog gs))) = Inr (anSeq a, anHash a)"
    if v: "VerifyAuditLogAnchored J sha256 gs = Inr ()" and ne: "readLines (anchorLog gs) \<noteq> []"
      and d: "decAnchor J (last (readLines (anchorLog gs))) = Some a" for gs
  proof -
    let ?ls = "readLines (mainLog gs)"
    from v ne d obtain e where e: "VerifyAuditLog J sha256 gs = Inr ()" "0 < anSeq a" "anSeq a \<le> int (length ?ls)"
      "decEvent J (?ls ! nat (anSeq a - 1)) = Some e" "aeHash e = anHash a"
      unfolding VerifyAuditLogAnchored_def by (auto simp: Let_def res_iff split: if_splits option.splits)
    from e(1) obtain r where "verifyChain J sha256 (take ?n ?ls @ drop ?n ?ls) = Inr r"
      by (auto simp: VerifyAuditLog_def split: sum.splits)
    from verifyChain_prefix [OF this] obtain h where h: "verifyChain J sha256 (take ?n ?ls) = Inr (int (length (take ?n ?ls)), h)"
      "take ?n ?ls \<noteq> [] \<Longrightarrow> \<exists>e. decEvent J (last (take ?n ?ls)) = Some e \<and> aeHash e = h" by blast
    have len: "length (take ?n ?ls) = ?n" "take ?n ?ls \<noteq> []" using e(2,3) by auto
    have "last (take ?n ?ls) = ?ls ! nat (anSeq a - 1)"
    proof -
      have "last (take ?n ?ls) = take ?n ?ls ! (?n - 1)" using len by (simp add: last_conv_nth)
      also have "\<dots> = ?ls ! (?n - 1)" using e(2) by simp
      finally show ?thesis using e(2) by (simp add: nat_diff_distrib)
    qed
    with h(2) [OF len(2)] e(4,5) have "h = anHash a" by auto
    with h(1) len(1) e(2,3) show ?thesis by simp
  qed
  note p = part [OF assms(2,4,5)] and q = part [OF assms(3,6,7)]
  have "inj_on sha256 (hashed_events J (take ?n (readLines (mainLog fs))) \<union> hashed_events J (take ?n (readLines (mainLog fs'))))"
    by (rule inj_on_subset [OF assms(8)]) (intro Un_mono hashed_events_take)
  moreover have "inj_on (encEvent J) ((\<lambda>e. e\<lparr>aeHash := ''''\<rparr>) ` (events_in J (take ?n (readLines (mainLog fs))) \<union>
      events_in J (take ?n (readLines (mainLog fs')))))"
    by (rule inj_on_subset [OF assms(1)]) (intro image_mono Un_mono events_in_take)
  ultimately show ?thesis using p
    chain_determined [OF _ conjunct2 [OF conjunct2 [OF p]] conjunct2 [OF conjunct2 [OF q]] refl] by blast
qed

text \<open>An anchor file whose last entry carries a sequence number of zero or below makes the
  verification of a sound log panic on the index, instead of refusing the anchor.\<close>

theorem nonpositive_anchor_panics:
  assumes "VerifyAuditLog J sha256 fs = Inr ()" "readLines (anchorLog fs) \<noteq> []"
    and "decAnchor J (last (readLines (anchorLog fs))) = Some a" "anSeq a \<le> 0"
  shows "VerifyAuditLogAnchored J sha256 fs = Inl (IndexPanic (anSeq a - 1))"
  using assms by (simp add: VerifyAuditLogAnchored_def Let_def)

section \<open>Witnesses\<close>

text \<open>A codec for events with one fixed time, event name and no fields: sequence number and the two
  hashes, separated by a semicolon.\<close>

definition demo_json :: audit_json where
  "demo_json =
    \<lparr>encEvent = (\<lambda>e. bytes_of_string (dec_nat (nat (aeSeq e)) @ '';'' @ aePrevHash e @ '';'' @ aeHash e)),
     decEvent = (\<lambda>b. case cut (string_of_bytes b) '';'' of None \<Rightarrow> None | Some (n, r) \<Rightarrow>
        (case parse_dec n of None \<Rightarrow> None | Some s \<Rightarrow>
        (case cut r '';'' of None \<Rightarrow> None | Some (p, h) \<Rightarrow>
          Some \<lparr>aeSeq = int s, aeTime = ''t'', aeEvent = ''unlock'', aeFields = [], aePrevHash = p, aeHash = h\<rparr>))),
     encAnchor = (\<lambda>a. bytes_of_string (dec_nat (nat (anSeq a)) @ '';'' @ anHash a)),
     decAnchor = (\<lambda>b. case cut (string_of_bytes b) '';'' of None \<Rightarrow> None | Some (n, h) \<Rightarrow>
        (case parse_dec n of None \<Rightarrow> None | Some s \<Rightarrow> Some \<lparr>anSeq = int s, anHash = h, anTime = ''t''\<rparr>))\<rparr>"

lemma bytes_of_string_Nil [simp]: "bytes_of_string s = [] \<longleftrightarrow> s = []"
  by (simp add: bytes_of_string_def)

lemma hex_chars: "c \<in> set (hex b) \<Longrightarrow> c \<in> set ''0123456789abcdef''"
proof -
  have d: "hex_digit d \<in> set ''0123456789abcdef''" if "d < 16" for d
    unfolding hex_digit_def by (rule nth_mem) (use that in simp)
  assume "c \<in> set (hex b)"
  then obtain x where "c = hex_digit (unat (x :: byte) div 16) \<or> c = hex_digit (unat x mod 16)"
    by (auto simp: hex_def hex_byte_def)
  with d [of "unat x div 16"] d [of "unat x mod 16"] unat_byte_less [of x] show ?thesis
    by (auto simp: less_mult_imp_div_less)
qed

lemma demo_sep: "CHR '';'' \<notin> set (dec_nat n)" "CHR '';'' \<notin> set (hex b)"
  using dec_nat_not_minus [of "CHR '';''" n] hex_chars [of "CHR '';''" b] by (auto simp: isDigit_def)

lemma demo_newline: "CHR 0x0A \<notin> set (dec_nat n)" "CHR 0x0A \<notin> set (hex b)"
  using dec_nat_not_minus [of "CHR 0x0A" n] hex_chars [of "CHR 0x0A" b] by (auto simp: isDigit_def)

lemma newline_byte: "10 \<notin> set (bytes_of_string s) \<longleftrightarrow> CHR 0x0A \<notin> set s"
proof -
  have "(of_char (CHR 0x0A) :: byte) = 10" by simp
  then have "(of_char c :: byte) = 10 \<longleftrightarrow> c = CHR 0x0A" for c
    by (metis of_char_byte_inject)
  then show ?thesis unfolding bytes_of_string_def set_map image_iff by metis
qed

lemma demo_json_ok: "json_ok demo_json {(''t'', ''unlock'', [])}"
  unfolding json_ok_def
proof (intro conjI allI impI)
  fix e
  assume w: "written {(''t'', ''unlock'', [])} e"
  have p: "CHR '';'' \<notin> set (aePrevHash e)" "CHR 0x0A \<notin> set (aePrevHash e)" "CHR 0x0A \<notin> set (aeHash e)"
    using w demo_sep(2) demo_newline(2) by (auto simp: written_def)
  have "cut (dec_nat (nat (aeSeq e)) @ '';'' @ aePrevHash e @ '';'' @ aeHash e) '';'' =
      Some (dec_nat (nat (aeSeq e)), aePrevHash e @ '';'' @ aeHash e)"
    using cut_at_first [OF demo_sep(1), of _ "[]"] by simp
  moreover have "cut (aePrevHash e @ '';'' @ aeHash e) '';'' = Some (aePrevHash e, aeHash e)"
    using cut_at_first [OF p(1), of "[]"] by simp
  ultimately show "event_ok demo_json e"
    using w p demo_newline(1) by (simp add: event_ok_def demo_json_def written_def newline_byte)
next
  fix a :: AnchorEntry
  assume a: "0 < anSeq a \<and> anHash a \<in> range hex \<and> anTime a \<in> fst ` {(''t'', ''unlock'', [] :: (string \<times> string) list)}"
  have "cut (dec_nat (nat (anSeq a)) @ '';'' @ anHash a) '';'' = Some (dec_nat (nat (anSeq a)), anHash a)"
    using cut_at_first [OF demo_sep(1), of _ "[]"] by simp
  with a demo_newline show "anchor_ok demo_json a"
    by (auto simp: anchor_ok_def demo_json_def newline_byte)
qed

definition demo_appends :: "audit_request list" where
  "demo_appends = [(''t'', NoFault, ''unlock'', []), (''t'', AnchorFault Unopened, ''unlock'', []),
     (''t'', MainFault (Torn 0), ''unlock'', []), (''t'', MainFault Unsynced, ''unlock'', [])]"

theorem appended_log_verifies_witness:
  "VerifyAuditLogAnchored demo_json id (append_all demo_json id demo_appends \<lparr>mainLog = None, anchorLog = None\<rparr>) = Inr () \<and>
   length (readLines (mainLog (append_all demo_json id demo_appends \<lparr>mainLog = None, anchorLog = None\<rparr>))) = 3"
  using appended_log_verifies [OF demo_json_ok, of demo_appends id] by (simp add: demo_appends_def logged_def)

theorem nonpositive_anchor_panics_witness:
  "VerifyAuditLogAnchored demo_json id \<lparr>mainLog = None, anchorLog = Some (bytes_of_string ''0;ab'')\<rparr> = Inl (IndexPanic (- 1))"
proof -
  let ?fs = "\<lparr>mainLog = None, anchorLog = Some (bytes_of_string ''0;ab'')\<rparr>"
  have "readLines (anchorLog ?fs) = [bytes_of_string ''0;ab'']" by code_simp
  moreover have "decAnchor demo_json (bytes_of_string ''0;ab'') = Some \<lparr>anSeq = 0, anHash = ''ab'', anTime = ''t''\<rparr>"
    by code_simp
  moreover have "VerifyAuditLog demo_json id ?fs = Inr ()" by (simp add: VerifyAuditLog_def readLines_def verifyChain_def)
  ultimately show ?thesis
    using nonpositive_anchor_panics [of demo_json id ?fs "\<lparr>anSeq = 0, anHash = ''ab'', anTime = ''t''\<rparr>"] by simp
qed

text \<open>Two logs with the same anchored first entry; the second entry of one is not anchored.\<close>

definition demo_first :: AuditEvent where
  "demo_first = \<lparr>aeSeq = 1, aeTime = ''t'', aeEvent = ''unlock'', aeFields = [], aePrevHash = '''', aeHash = ''313b3b''\<rparr>"

definition demo_second :: AuditEvent where
  "demo_second = \<lparr>aeSeq = 2, aeTime = ''t'', aeEvent = ''unlock'', aeFields = [], aePrevHash = ''313b3b'',
     aeHash = ''323b3331336233623b''\<rparr>"

definition demo_log1 :: audit_files where
  "demo_log1 = \<lparr>mainLog = Some (unlines [encEvent demo_json demo_first]),
     anchorLog = Some (unlines [bytes_of_string ''1;313b3b''])\<rparr>"

definition demo_log2 :: audit_files where
  "demo_log2 = \<lparr>mainLog = Some (unlines [encEvent demo_json demo_first, encEvent demo_json demo_second]),
     anchorLog = Some (unlines [bytes_of_string ''1;313b3b''])\<rparr>"

theorem anchored_log_determined_witness:
  "VerifyAuditLogAnchored demo_json id demo_log1 = Inr () \<and> VerifyAuditLogAnchored demo_json id demo_log2 = Inr () \<and>
   map (decEvent demo_json) (take 1 (readLines (mainLog demo_log1))) =
   map (decEvent demo_json) (take 1 (readLines (mainLog demo_log2)))"
proof -
  let ?a = "\<lparr>anSeq = 1, anHash = ''313b3b'', anTime = ''t''\<rparr>"
  have v: "VerifyAuditLogAnchored demo_json id demo_log1 = Inr ()" "VerifyAuditLogAnchored demo_json id demo_log2 = Inr ()"
    by code_simp+
  have anc: "readLines (anchorLog demo_log1) = [bytes_of_string ''1;313b3b'']"
    "readLines (anchorLog demo_log2) = [bytes_of_string ''1;313b3b'']"
    "decAnchor demo_json (bytes_of_string ''1;313b3b'') = Some ?a" by code_simp+
  have "map (decEvent demo_json) (readLines (mainLog demo_log1)) = [Some demo_first]"
    "map (decEvent demo_json) (readLines (mainLog demo_log2)) = [Some demo_first, Some demo_second]" by code_simp+
  then have sub: "events_in demo_json (readLines (mainLog demo_log1)) \<union> events_in demo_json (readLines (mainLog demo_log2))
      \<subseteq> {demo_first, demo_second}"
    unfolding events_in_def by (auto simp: map_eq_Cons_conv)
  have "distinct (map (encEvent demo_json) [demo_first\<lparr>aeHash := ''''\<rparr>, demo_second\<lparr>aeHash := ''''\<rparr>])" by code_simp
  then have inj: "inj_on (encEvent demo_json) {demo_first\<lparr>aeHash := ''''\<rparr>, demo_second\<lparr>aeHash := ''''\<rparr>}"
    by (simp add: inj_on_def)
  have "inj_on (encEvent demo_json) ((\<lambda>e. e\<lparr>aeHash := ''''\<rparr>) `
      (events_in demo_json (readLines (mainLog demo_log1)) \<union> events_in demo_json (readLines (mainLog demo_log2))))"
    by (rule inj_on_subset [OF inj]) (use sub in auto)
  from anchored_log_determined [OF this v, of ?a] anc v show ?thesis by simp
qed

end
