(* ===== verification/TxMessage.thy ===== *)
theory TxMessage
  imports GoStd "HOL-Library.AList"
begin

unbundle bit_operations_syntax

text \<open>
  \<^verbatim>\<open>server/internal/blockchain/tx.go\<close>: assembling a legacy Solana message
  (\<open>CompileLegacyMessage\<close>) and signing it (\<open>SignTransaction\<close>), with the compact-u16 length
  prefix (\<open>encodeShortVecLen\<close>, \<open>decodeShortVecLen\<close>). Public keys are lists of 32 bytes. Base58
  decoding and ed25519 are libraries on the server and parameters here. The Go map of account
  flags is an association list; the order of first occurrence is kept beside it, as in the code.

  The contract is stated against a reader of the wire format (\<open>read_message\<close>): what it finds in
  a compiled message is the given instructions, each account with the union of the permissions
  it was given anywhere.
\<close>

section \<open>Data\<close>

record AccountMeta =
  amPubkey :: bytes
  amIsSigner :: bool
  amIsWritable :: bool

record Instruction =
  inProgramID :: bytes
  inAccounts :: "AccountMeta list"
  inData :: bytes

record accountFlags =
  afSigner :: bool
  afWritable :: bool

datatype tx_error =
    NoInstruction
  | BlockhashDecode string
  | BlockhashLength nat
  | TooManyAccounts
  | ProgramMissing bytes
  | AccountMissing bytes
  | LengthTooLarge
  | LengthTruncated
  | MessageTooShort
  | NoAccountKeys
  | MessageTruncated
  | SignerKeyLength nat
  | NotSingleSigner byte
  | WrongFeePayer

section \<open>Lengths\<close>

function encodeShortVecLen :: "nat \<Rightarrow> bytes" where
  "encodeShortVecLen n =
     (let b = of_nat (n AND 0x7f) :: byte; n' = drop_bit 7 n
      in if n' = 0 then [b] else (b OR 0x80) # encodeShortVecLen n')"
  by pat_completeness auto
termination by (relation "measure id") (auto simp: drop_bit_eq_div div_eq_0_iff)

declare encodeShortVecLen.simps [simp del]

fun short_vec_loop :: "nat \<Rightarrow> nat \<Rightarrow> nat \<Rightarrow> bytes \<Rightarrow> tx_error + (nat \<times> nat)" where
  "short_vec_loop i shift n [] = Inl LengthTruncated"
| "short_vec_loop i shift n (b # bs) =
     (let n' = n OR push_bit shift (unat (b AND 0x7f)); shift' = shift + 7
      in if b AND 0x80 = 0 then Inr (n', i + 1)
         else if 21 < shift' then Inl LengthTooLarge
         else short_vec_loop (i + 1) shift' n' bs)"

definition decodeShortVecLen :: "bytes \<Rightarrow> tx_error + (nat \<times> nat)" where
  "decodeShortVecLen buf = short_vec_loop 0 0 0 buf"

section \<open>Compiling a message\<close>

type_synonym account_table = "bytes list \<times> (bytes \<times> accountFlags) list"

definition ensure :: "bytes \<Rightarrow> bool \<Rightarrow> bool \<Rightarrow> account_table \<Rightarrow> account_table" where
  "ensure pk signer writable tab =
     (let (order, meta) = tab;
          order' = (if pk \<in> set order then order else order @ [pk]);
          f = (case map_of meta pk of None \<Rightarrow> \<lparr>afSigner = False, afWritable = False\<rparr> | Some f \<Rightarrow> f)
      in (order', AList.update pk \<lparr>afSigner = afSigner f \<or> signer, afWritable = afWritable f \<or> writable\<rparr> meta))"

definition ensure_instr :: "Instruction \<Rightarrow> account_table \<Rightarrow> account_table" where
  "ensure_instr instr tab =
     ensure (inProgramID instr) False False
       (fold (\<lambda>a. ensure (amPubkey a) (amIsSigner a) (amIsWritable a)) (inAccounts instr) tab)"

definition collect_accounts :: "bytes \<Rightarrow> Instruction list \<Rightarrow> account_table" where
  "collect_accounts feePayer instrs = fold ensure_instr instrs (ensure feePayer True True ([], []))"

definition bucket :: "bytes \<Rightarrow> account_table \<Rightarrow> bool \<Rightarrow> bool \<Rightarrow> bytes list" where
  "bucket feePayer tab s w =
     sort (filter (\<lambda>pk. pk \<noteq> feePayer \<and> map_of (snd tab) pk = Some \<lparr>afSigner = s, afWritable = w\<rparr>) (fst tab))"

definition key_index :: "bytes list \<Rightarrow> bytes \<Rightarrow> nat option" where
  "key_index keys pk = (let i = length (takeWhile (\<lambda>k. k \<noteq> pk) keys) in if i < length keys then Some i else None)"

definition account_index :: "bytes list \<Rightarrow> AccountMeta \<Rightarrow> tx_error + byte" where
  "account_index keys a =
     (case key_index keys (amPubkey a) of None \<Rightarrow> Inl (AccountMissing (amPubkey a)) | Some i \<Rightarrow> Inr (of_nat i))"

definition compile_instr :: "bytes list \<Rightarrow> Instruction \<Rightarrow> tx_error + bytes" where
  "compile_instr keys instr =
     (case key_index keys (inProgramID instr) of
        None \<Rightarrow> Inl (ProgramMissing (inProgramID instr))
      | Some progIdx \<Rightarrow>
          bind_res (map_res (account_index keys) (inAccounts instr)) (\<lambda>accIdx.
            Inr ([of_nat progIdx] @ encodeShortVecLen (length accIdx) @ accIdx @
                 encodeShortVecLen (length (inData instr)) @ inData instr)))"

definition CompileLegacyMessage :: "(string \<Rightarrow> string + bytes) \<Rightarrow> bytes \<Rightarrow> string \<Rightarrow> Instruction list \<Rightarrow> tx_error + bytes" where
  "CompileLegacyMessage b58 feePayer recentBlockhash instrs =
     (if instrs = [] then Inl NoInstruction
      else case b58 recentBlockhash of
        Inl err \<Rightarrow> Inl (BlockhashDecode err)
      | Inr blockhashBytes \<Rightarrow>
          if length blockhashBytes \<noteq> 32 then Inl (BlockhashLength (length blockhashBytes))
          else
            (let tab = collect_accounts feePayer instrs;
                 writableSigners = bucket feePayer tab True True;
                 readonlySigners = bucket feePayer tab True False;
                 writableNon = bucket feePayer tab False True;
                 readonlyNon = bucket feePayer tab False False;
                 accountKeys = feePayer # writableSigners @ readonlySigners @ writableNon @ readonlyNon;
                 numRequired = 1 + length writableSigners + length readonlySigners
             in if 255 < numRequired \<or> 255 < length accountKeys then Inl TooManyAccounts
                else bind_res (map_res (compile_instr accountKeys) instrs) (\<lambda>compiled.
                  Inr ([of_nat numRequired, of_nat (length readonlySigners), of_nat (length readonlyNon)] @
                       encodeShortVecLen (length accountKeys) @ concat accountKeys @
                       blockhashBytes @ encodeShortVecLen (length instrs) @ concat compiled))))"

section \<open>Signing\<close>

definition messageFeePayer :: "bytes \<Rightarrow> tx_error + bytes" where
  "messageFeePayer message =
     (if length message < 3 then Inl MessageTooShort
      else bind_res (decodeShortVecLen (drop 3 message)) (\<lambda>(count, consumed).
        if count < 1 then Inl NoAccountKeys
        else let start = 3 + consumed
             in if length message < start + 32 then Inl MessageTruncated
                else Inr (take 32 (drop start message))))"

text \<open>A private key is its bytes; its public key and the signature are parameters. The result is
  the wire transaction (base64-encoded by the code) and the signature (base58-encoded by it).\<close>

definition SignTransaction :: "(bytes \<Rightarrow> bytes) \<Rightarrow> (bytes \<Rightarrow> bytes \<Rightarrow> bytes) \<Rightarrow> bytes \<Rightarrow> bytes
    \<Rightarrow> tx_error + (bytes \<times> bytes)" where
  "SignTransaction public ed_sign message signer =
     (if length signer \<noteq> 64 then Inl (SignerKeyLength (length signer))
      else case message of
        [] \<Rightarrow> Inl MessageTooShort
      | h # _ \<Rightarrow>
          if h \<noteq> 1 then Inl (NotSingleSigner h)
          else bind_res (messageFeePayer message) (\<lambda>feePayer.
            if public signer \<noteq> feePayer then Inl WrongFeePayer
            else let sig = ed_sign signer message
                 in Inr (encodeShortVecLen 1 @ sig @ message, sig)))"

section \<open>The length prefix\<close>

lemma or_push_bit: "n < 2 ^ s \<Longrightarrow> n OR push_bit s m = n + m * 2 ^ s" for n m s :: nat
proof -
  assume n: "n < 2 ^ s"
  have "n + push_bit s m = n OR push_bit s m"
  proof (rule disjunctive_add_eq_or)
    have "\<not> bit n k \<or> \<not> bit (push_bit s m) k" for k
      using n bit_take_bit_iff [of s n k] by (auto simp: bit_push_bit_iff take_bit_nat_eq_self)
    then show "n AND push_bit s m = 0"
      by (auto intro!: bit_eqI simp: bit_and_iff)
  qed
  then show ?thesis by (simp add: push_bit_eq_mult)
qed

lemma and_7f: "n AND 0x7f = n mod 128" for n :: nat
  using take_bit_eq_mask [of 7 n] by (simp add: take_bit_eq_mod mask_eq_exp_minus_1)

lemma unat_low7: "unat (of_nat (n AND 0x7f) :: byte) = n mod 128"
  unfolding and_7f by (simp add: unat_of_nat)

lemma encodeShortVecLen_rec:
  "encodeShortVecLen n = (if n < 128 then [of_nat n] else (of_nat (n mod 128) OR 0x80) # encodeShortVecLen (n div 128))"
  by (subst encodeShortVecLen.simps) (simp add: and_7f drop_bit_eq_div div_eq_0_iff Let_def)

lemma bit_128: "bit (0x80 :: byte) k \<longleftrightarrow> k = 7"
proof -
  have "(0x80 :: byte) = push_bit 7 1" by (simp add: push_bit_eq_mult)
  then show ?thesis by (simp only: bit_push_bit_iff) (auto simp: bit_1_iff)
qed

lemma bit_127: "bit (0x7f :: byte) k \<longleftrightarrow> k < 7"
proof -
  have "(0x7f :: byte) = mask 7" by (simp add: mask_eq_exp_minus_1)
  then show ?thesis by (simp only: bit_mask_iff) auto
qed

lemma small_byte: "m < 128 \<Longrightarrow> \<not> bit (of_nat m :: byte) k \<or> k < 7"
proof -
  assume "m < 128"
  then have "take_bit 7 m = m" by (simp add: take_bit_nat_eq_self)
  then show ?thesis by (metis bit_of_nat_iff bit_take_bit_iff)
qed

lemma stop_byte:
  assumes "m < 128"
  shows "(of_nat m :: byte) AND 0x80 = 0" and "unat ((of_nat m :: byte) AND 0x7f) = m"
proof -
  show "(of_nat m :: byte) AND 0x80 = 0"
  proof (rule bit_word_eqI)
    fix k
    show "bit ((of_nat m :: byte) AND 0x80) k \<longleftrightarrow> bit (0 :: byte) k"
      unfolding bit_and_iff bit_128 using small_byte [OF assms, of k] by auto
  qed
  have "(of_nat m :: byte) AND 0x7f = of_nat m"
  proof (rule bit_word_eqI)
    fix k
    show "bit ((of_nat m :: byte) AND 0x7f) k \<longleftrightarrow> bit (of_nat m :: byte) k"
      unfolding bit_and_iff bit_127 using small_byte [OF assms, of k] by auto
  qed
  then show "unat ((of_nat m :: byte) AND 0x7f) = m" using assms by (simp add: unat_of_nat)
qed

lemma more_byte:
  assumes "m < 128"
  shows "((of_nat m :: byte) OR 0x80) AND 0x80 \<noteq> 0" and "unat (((of_nat m :: byte) OR 0x80) AND 0x7f) = m"
proof -
  have "bit (((of_nat m :: byte) OR 0x80) AND 0x80) 7" by (simp add: bit_and_iff bit_or_iff bit_128)
  then show "((of_nat m :: byte) OR 0x80) AND 0x80 \<noteq> 0" by (metis bit_0_eq bot_apply bot_bool_def)
  have "((of_nat m :: byte) OR 0x80) AND 0x7f = of_nat m"
  proof (rule bit_word_eqI)
    fix k
    show "bit (((of_nat m :: byte) OR 0x80) AND 0x7f) k \<longleftrightarrow> bit (of_nat m :: byte) k"
      unfolding bit_and_iff bit_or_iff bit_127 bit_128 using small_byte [OF assms, of k] by auto
  qed
  then show "unat (((of_nat m :: byte) OR 0x80) AND 0x7f) = m" using assms by (simp add: unat_of_nat)
qed

lemma short_vec_loop_more:
  assumes "m < 128"
  shows "short_vec_loop i s n ((of_nat m OR 0x80) # bs) =
    (if 21 < s + 7 then Inl LengthTooLarge else short_vec_loop (i + 1) (s + 7) (n OR push_bit s m) bs)"
  unfolding short_vec_loop.simps Let_def more_byte(2) [OF assms] if_not_P [OF more_byte(1) [OF assms]] ..

lemma short_vec_loop_stop:
  assumes "m < 128"
  shows "short_vec_loop i s n (of_nat m # bs) = Inr (n OR push_bit s m, i + 1)"
  unfolding short_vec_loop.simps Let_def stop_byte(2) [OF assms] if_P [OF stop_byte(1) [OF assms]] ..

declare short_vec_loop.simps(2) [simp del]

lemma short_vec_loop_encode:
  assumes "k \<le> 3" "n < 2 ^ (28 - 7 * k)" "acc < 2 ^ (7 * k)"
  shows "short_vec_loop i (7 * k) acc (encodeShortVecLen n @ rest) =
    Inr (acc + n * 2 ^ (7 * k), i + length (encodeShortVecLen n))"
  using assms
proof (induction n arbitrary: i k acc rule: less_induct)
  case (less n)
  let ?m = "n mod 128"
  show ?case
  proof (cases "n < 128")
    case True
    then show ?thesis using less.prems
      by (subst (1 2) encodeShortVecLen_rec) (simp add: short_vec_loop_stop or_push_bit)
  next
    case False
    have k: "k \<le> 2"
    proof (rule ccontr)
      assume "\<not> k \<le> 2"
      with less.prems(1) have "k = 3" by simp
      with less.prems(2) False show False by simp
    qed
    have "n < 2 ^ (28 - 7 * Suc k) * 128"
    proof -
      have "28 - 7 * k = (28 - 7 * Suc k) + 7" using k by simp
      then have "(2::nat) ^ (28 - 7 * k) = 2 ^ (28 - 7 * Suc k) * 2 ^ 7" by (simp only: power_add)
      with less.prems(2) show ?thesis by simp
    qed
    then have n': "n div 128 < 2 ^ (28 - 7 * Suc k)" by (simp add: less_mult_imp_div_less)
    have acc: "acc + ?m * 2 ^ (7 * k) < 2 ^ (7 * Suc k)"
    proof -
      have "acc + ?m * 2 ^ (7 * k) < (?m + 1) * 2 ^ (7 * k)" using less.prems(3) by simp
      also have "\<dots> \<le> 128 * 2 ^ (7 * k)" by (intro mult_le_mono1) (simp add: Suc_le_eq)
      finally show ?thesis by (simp add: power_add)
    qed
    have r: "short_vec_loop i (7 * k) acc (encodeShortVecLen n @ rest) =
        short_vec_loop (i + 1) (7 * Suc k) (acc + ?m * 2 ^ (7 * k)) (encodeShortVecLen (n div 128) @ rest)"
      using False k less.prems(3)
      by (subst encodeShortVecLen_rec) (simp add: short_vec_loop_more or_push_bit add.commute)
    have "n div 128 < n" using False by simp
    from less.IH [OF this _ n' acc, of "i + 1"] k
    have "short_vec_loop i (7 * k) acc (encodeShortVecLen n @ rest) =
        Inr (acc + ?m * 2 ^ (7 * k) + n div 128 * 2 ^ (7 * Suc k), i + 1 + length (encodeShortVecLen (n div 128)))"
      unfolding r by simp
    moreover have "acc + ?m * 2 ^ (7 * k) + n div 128 * 2 ^ (7 * Suc k) = acc + n * 2 ^ (7 * k)"
    proof -
      have "?m * 2 ^ (7 * k) + n div 128 * 2 ^ (7 * Suc k) = (?m + n div 128 * 128) * 2 ^ (7 * k)"
      proof -
        have "(2::nat) ^ (7 * Suc k) = 128 * 2 ^ (7 * k)" by (simp add: power_add)
        then show ?thesis by (simp only: distrib_right mult.assoc)
      qed
      also have "\<dots> = n * 2 ^ (7 * k)" by (simp only: mod_div_mult_eq)
      finally show ?thesis by simp
    qed
    moreover have "length (encodeShortVecLen n) = 1 + length (encodeShortVecLen (n div 128))"
      using False by (subst encodeShortVecLen_rec) simp
    ultimately show ?thesis by simp
  qed
qed

lemma decode_encode_len:
  "n < 2 ^ 28 \<Longrightarrow> decodeShortVecLen (encodeShortVecLen n @ rest) = Inr (n, length (encodeShortVecLen n))"
  using short_vec_loop_encode [of 0 n 0 0 rest] by (simp add: decodeShortVecLen_def)

section \<open>The account table\<close>

text \<open>A request is a key with the permissions asked for it; a table is right for a set of requests
  when it lists each key once with the union of its permissions.\<close>

type_synonym request = "bytes \<times> bool \<times> bool"

definition tab_ok :: "request set \<Rightarrow> account_table \<Rightarrow> bool" where
  "tab_ok R tab \<longleftrightarrow> distinct (fst tab) \<and> set (fst tab) = fst ` R \<and>
     (\<forall>pk. map_of (snd tab) pk = (if pk \<in> fst ` R
        then Some \<lparr>afSigner = (\<exists>w. (pk, True, w) \<in> R), afWritable = (\<exists>s. (pk, s, True) \<in> R)\<rparr> else None))"

definition account_request :: "AccountMeta \<Rightarrow> request" where
  "account_request a = (amPubkey a, amIsSigner a, amIsWritable a)"

definition instr_requests :: "Instruction \<Rightarrow> request set" where
  "instr_requests i = insert (inProgramID i, False, False) (account_request ` set (inAccounts i))"

definition requests :: "bytes \<Rightarrow> Instruction list \<Rightarrow> request set" where
  "requests fp instrs = insert (fp, True, True) (\<Union>i\<in>set instrs. instr_requests i)"

definition accounts :: "bytes \<Rightarrow> Instruction list \<Rightarrow> bytes set" where
  "accounts fp instrs = fst ` requests fp instrs"

definition signs :: "bytes \<Rightarrow> Instruction list \<Rightarrow> bytes \<Rightarrow> bool" where
  "signs fp instrs pk \<longleftrightarrow> (\<exists>w. (pk, True, w) \<in> requests fp instrs)"

definition writes :: "bytes \<Rightarrow> Instruction list \<Rightarrow> bytes \<Rightarrow> bool" where
  "writes fp instrs pk \<longleftrightarrow> (\<exists>s. (pk, s, True) \<in> requests fp instrs)"

lemma tab_ok_ensure:
  assumes "tab_ok R tab"
  shows "tab_ok (insert (pk, s, w) R) (ensure pk s w tab)"
proof -
  obtain order meta where tab: "tab = (order, meta)" by (cases tab)
  have "\<exists>w'. (pk, True, w') \<in> R" if "(pk, True, w') \<in> R" for w' using that by blast
  then show ?thesis
    using assms unfolding tab tab_ok_def ensure_def Let_def
    by (auto simp: update_conv' image_iff)
qed

lemma tab_ok_fold_accounts: "tab_ok R tab \<Longrightarrow>
  tab_ok (R \<union> account_request ` set as) (fold (\<lambda>a. ensure (amPubkey a) (amIsSigner a) (amIsWritable a)) as tab)"
proof (induction as arbitrary: R tab)
  case (Cons a as)
  from Cons.IH [OF tab_ok_ensure [OF Cons.prems, of "amPubkey a" "amIsSigner a" "amIsWritable a"]]
  show ?case by (simp add: account_request_def)
qed simp

lemma tab_ok_ensure_instr: "tab_ok R tab \<Longrightarrow> tab_ok (R \<union> instr_requests i) (ensure_instr i tab)"
  using tab_ok_ensure [OF tab_ok_fold_accounts [where as = "inAccounts i"], of R tab "inProgramID i" False False]
  by (simp add: ensure_instr_def instr_requests_def)

lemma tab_ok_fold_instrs: "tab_ok R tab \<Longrightarrow>
  tab_ok (R \<union> (\<Union>i\<in>set instrs. instr_requests i)) (fold ensure_instr instrs tab)"
proof (induction instrs arbitrary: R tab)
  case (Cons i instrs)
  from Cons.IH [OF tab_ok_ensure_instr [OF Cons.prems, of i]] show ?case by (simp add: Un_assoc)
qed simp

lemma tab_ok_collect: "tab_ok (requests fp instrs) (collect_accounts fp instrs)"
proof -
  have "tab_ok {} ([], [])" by (simp add: tab_ok_def)
  from tab_ok_fold_instrs [OF tab_ok_ensure [OF this, of fp True True], of instrs]
  show ?thesis by (simp add: requests_def collect_accounts_def)
qed

section \<open>The account keys of a message\<close>

definition account_keys :: "bytes \<Rightarrow> Instruction list \<Rightarrow> bytes list" where
  "account_keys fp instrs =
     (let tab = collect_accounts fp instrs
      in fp # bucket fp tab True True @ bucket fp tab True False @ bucket fp tab False True @ bucket fp tab False False)"

lemma set_bucket: "set (bucket fp (collect_accounts fp instrs) s w) =
    {pk \<in> accounts fp instrs. pk \<noteq> fp \<and> signs fp instrs pk = s \<and> writes fp instrs pk = w}"
  using tab_ok_collect [of fp instrs]
  by (auto simp: bucket_def tab_ok_def accounts_def signs_def writes_def)

lemma distinct_bucket: "distinct (bucket fp (collect_accounts fp instrs) s w)"
  using tab_ok_collect [of fp instrs] by (simp add: bucket_def tab_ok_def)

lemma fp_requests: "fp \<in> accounts fp instrs" "signs fp instrs fp" "writes fp instrs fp"
  by (auto simp: accounts_def signs_def writes_def requests_def)

lemma set_account_keys: "set (account_keys fp instrs) = accounts fp instrs"
  using fp_requests by (auto simp: account_keys_def set_bucket Let_def)

lemma distinct_account_keys: "distinct (account_keys fp instrs)"
  by (auto simp: account_keys_def set_bucket distinct_bucket Let_def)

lemma key_index_Some: "key_index keys pk = Some i \<Longrightarrow> i < length keys \<and> keys ! i = pk"
  using nth_length_takeWhile [of "\<lambda>k. k \<noteq> pk" keys] by (auto simp: key_index_def Let_def split: if_splits)

lemma key_index_member: "pk \<in> set keys \<Longrightarrow> \<exists>i. key_index keys pk = Some i"
proof -
  assume "pk \<in> set keys"
  then have "takeWhile (\<lambda>k. k \<noteq> pk) keys \<noteq> keys" by (auto simp: takeWhile_eq_all_conv)
  moreover have "length (takeWhile (\<lambda>k. k \<noteq> pk) keys) \<le> length keys" by (rule length_takeWhile_le)
  ultimately have "length (takeWhile (\<lambda>k. k \<noteq> pk) keys) < length keys"
    by (metis le_neq_implies_less takeWhile_eq_take take_all_iff order_refl)
  then show ?thesis by (simp add: key_index_def Let_def)
qed

section \<open>Reading a message\<close>

text \<open>The reader of the wire format: header, account keys, blockhash, instructions. Signers come
  first, and in each half the read-only accounts last, which is how permissions are found.\<close>

record Message =
  msgSigners :: nat
  msgReadonlySigned :: nat
  msgReadonlyUnsigned :: nat
  msgKeys :: "bytes list"
  msgBlockhash :: bytes
  msgInstrs :: "(nat \<times> nat list \<times> bytes) list"

definition read_len :: "bytes \<Rightarrow> (nat \<times> bytes) option" where
  "read_len bs = (case decodeShortVecLen bs of Inl _ \<Rightarrow> None | Inr (n, c) \<Rightarrow> Some (n, drop c bs))"

definition read_bytes :: "nat \<Rightarrow> bytes \<Rightarrow> (bytes \<times> bytes) option" where
  "read_bytes n bs = (if length bs < n then None else Some (take n bs, drop n bs))"

fun read_many :: "(bytes \<Rightarrow> ('a \<times> bytes) option) \<Rightarrow> nat \<Rightarrow> bytes \<Rightarrow> ('a list \<times> bytes) option" where
  "read_many f 0 bs = Some ([], bs)"
| "read_many f (Suc n) bs =
     Option.bind (f bs) (\<lambda>(x, bs). Option.bind (read_many f n bs) (\<lambda>(xs, bs). Some (x # xs, bs)))"

definition read_instr :: "bytes \<Rightarrow> ((nat \<times> nat list \<times> bytes) \<times> bytes) option" where
  "read_instr bs =
     Option.bind (read_bytes 1 bs) (\<lambda>(p, bs). Option.bind (read_len bs) (\<lambda>(n, bs).
     Option.bind (read_bytes n bs) (\<lambda>(as, bs). Option.bind (read_len bs) (\<lambda>(n, bs).
     Option.bind (read_bytes n bs) (\<lambda>(d, bs). Some ((unat (hd p), map unat as, d), bs))))))"

definition read_message :: "bytes \<Rightarrow> Message option" where
  "read_message bs =
     Option.bind (read_bytes 3 bs) (\<lambda>(h, bs). Option.bind (read_len bs) (\<lambda>(n, bs).
     Option.bind (read_many (read_bytes 32) n bs) (\<lambda>(ks, bs). Option.bind (read_bytes 32 bs) (\<lambda>(bh, bs).
     Option.bind (read_len bs) (\<lambda>(n, bs). Option.bind (read_many read_instr n bs) (\<lambda>(is, bs).
       if bs = [] then Some \<lparr>msgSigners = unat (h ! 0), msgReadonlySigned = unat (h ! 1),
         msgReadonlyUnsigned = unat (h ! 2), msgKeys = ks, msgBlockhash = bh, msgInstrs = is\<rparr> else None))))))"

definition account_at :: "Message \<Rightarrow> nat \<Rightarrow> AccountMeta" where
  "account_at M i =
     \<lparr>amPubkey = msgKeys M ! i, amIsSigner = i < msgSigners M,
      amIsWritable = (if i < msgSigners M then i < msgSigners M - msgReadonlySigned M
                      else i < length (msgKeys M) - msgReadonlyUnsigned M)\<rparr>"

definition message_instrs :: "Message \<Rightarrow> Instruction list" where
  "message_instrs M = map (\<lambda>(p, as, d).
     \<lparr>inProgramID = msgKeys M ! p, inAccounts = map (account_at M) as, inData = d\<rparr>) (msgInstrs M)"

lemma read_len_encode [simp]: "n < 2 ^ 28 \<Longrightarrow> read_len (encodeShortVecLen n @ rest) = Some (n, rest)"
  by (simp add: read_len_def decode_encode_len)

lemma read_bytes_append [simp]: "length xs = n \<Longrightarrow> read_bytes n (xs @ rest) = Some (xs, rest)"
  by (simp add: read_bytes_def)

lemma read_many_concat:
  "list_all2 (\<lambda>x e. \<forall>rest. f (e @ rest) = Some (x, rest)) xs es \<Longrightarrow>
   read_many f (length xs) (concat es @ rest) = Some (xs, rest)"
  by (induction xs es rule: list_all2_induct) auto

section \<open>A compiled message reads back\<close>

lemma nth_four:
  assumes K: "K = A @ B @ C @ D" and i: "i < length K"
  shows "i < length A \<Longrightarrow> K ! i \<in> set A"
    and "length A \<le> i \<Longrightarrow> i < length A + length B \<Longrightarrow> K ! i \<in> set B"
    and "length A + length B \<le> i \<Longrightarrow> i < length K - length D \<Longrightarrow> K ! i \<in> set C"
    and "length A + length B \<le> i \<Longrightarrow> length K - length D \<le> i \<Longrightarrow> K ! i \<in> set D"
proof -
  show "K ! i \<in> set A" if "i < length A" using that by (simp add: K nth_append)
  show "K ! i \<in> set B" if "length A \<le> i" "i < length A + length B"
  proof -
    from that have "i - length A < length B" by linarith
    then show ?thesis using that by (simp add: K nth_append)
  qed
  show "K ! i \<in> set C" if "length A + length B \<le> i" "i < length K - length D"
  proof -
    from that have "i - length A - length B < length C" "\<not> i - length A < length B" by (auto simp: K)
    then show ?thesis using that by (simp add: K nth_append)
  qed
  show "K ! i \<in> set D" if "length A + length B \<le> i" "length K - length D \<le> i"
  proof -
    from that i have "i - length A - length B - length C < length D" "\<not> i - length A < length B"
      "\<not> i - length A - length B < length C" by (auto simp: K)
    then show ?thesis using that by (simp add: K nth_append)
  qed
qed

definition num_signers :: "bytes \<Rightarrow> Instruction list \<Rightarrow> nat" where
  "num_signers fp instrs = (let tab = collect_accounts fp instrs
     in 1 + length (bucket fp tab True True) + length (bucket fp tab True False))"

lemma account_at_keys:
  assumes "msgKeys M = account_keys fp instrs" "i < length (msgKeys M)"
    "msgSigners M = num_signers fp instrs"
    "msgReadonlySigned M = length (bucket fp (collect_accounts fp instrs) True False)"
    "msgReadonlyUnsigned M = length (bucket fp (collect_accounts fp instrs) False False)"
  shows "account_at M i = \<lparr>amPubkey = msgKeys M ! i, amIsSigner = signs fp instrs (msgKeys M ! i),
    amIsWritable = writes fp instrs (msgKeys M ! i)\<rparr>"
proof -
  let ?b = "bucket fp (collect_accounts fp instrs)"
  have K: "msgKeys M = (fp # ?b True True) @ ?b True False @ ?b False True @ ?b False False"
    by (simp add: assms(1) account_keys_def Let_def)
  note nth = nth_four [OF K assms(2)]
  have s: "msgSigners M = length (fp # ?b True True) + length (?b True False)"
    by (simp add: assms(3) num_signers_def Let_def)
  have A: "pk \<in> set (fp # ?b True True) \<Longrightarrow> signs fp instrs pk \<and> writes fp instrs pk" for pk
    using fp_requests by (auto simp: set_bucket)
  have B: "pk \<in> set (?b True False) \<Longrightarrow> signs fp instrs pk \<and> \<not> writes fp instrs pk" for pk
    by (simp add: set_bucket)
  have C: "pk \<in> set (?b False True) \<Longrightarrow> \<not> signs fp instrs pk \<and> writes fp instrs pk" for pk
    by (simp add: set_bucket)
  have D: "pk \<in> set (?b False False) \<Longrightarrow> \<not> signs fp instrs pk \<and> \<not> writes fp instrs pk" for pk
    by (simp add: set_bucket)
  consider "i < length (fp # ?b True True)"
    | "length (fp # ?b True True) \<le> i" "i < msgSigners M"
    | "msgSigners M \<le> i" "i < length (msgKeys M) - length (?b False False)"
    | "msgSigners M \<le> i" "length (msgKeys M) - length (?b False False) \<le> i" by linarith
  then show ?thesis
  proof cases
    case 1
    with A [OF nth(1) [OF 1]] s show ?thesis by (simp add: account_at_def assms(4))
  next
    case 2
    with B [OF nth(2) [OF 2(1)]] s show ?thesis by (simp add: account_at_def assms(4))
  next
    case 3
    with C [OF nth(3)] s show ?thesis by (simp add: account_at_def assms(5))
  next
    case 4
    with D [OF nth(4)] s show ?thesis by (simp add: account_at_def assms(5))
  qed
qed

definition instr_ok :: "Instruction \<Rightarrow> bool" where
  "instr_ok i \<longleftrightarrow> length (inAccounts i) < 2 ^ 28 \<and> length (inData i) < 2 ^ 28"

lemma account_index_Inr: "account_index K a = Inr b \<Longrightarrow> length K \<le> 255 \<Longrightarrow>
  unat b < length K \<and> K ! unat b = amPubkey a"
  by (auto simp: account_index_def unat_of_nat dest!: key_index_Some split: option.splits)

lemma read_compiled_instr:
  assumes "compile_instr K i = Inr e" "length K \<le> 255" "instr_ok i"
  obtains p as where "\<forall>rest. read_instr (e @ rest) = Some ((p, as, inData i), rest)"
    "p < length K" "K ! p = inProgramID i" "list_all2 (\<lambda>a j. j < length K \<and> K ! j = amPubkey a) (inAccounts i) as"
proof -
  from assms(1) obtain p js where p: "key_index K (inProgramID i) = Some p"
    and js: "map_res (account_index K) (inAccounts i) = Inr js"
    and e: "e = [of_nat p] @ encodeShortVecLen (length js) @ js @ encodeShortVecLen (length (inData i)) @ inData i"
    by (auto simp: compile_instr_def res_iff split: option.splits)
  from js have l: "list_all2 (\<lambda>a b. account_index K a = Inr b) (inAccounts i) js" by (simp add: map_res_eq_Inr)
  then have len: "length js = length (inAccounts i)" by (simp add: list_all2_lengthD)
  from key_index_Some [OF p] assms(2) have p': "p < length K" "K ! p = inProgramID i" "unat (of_nat p :: byte) = p"
    by (auto simp: unat_of_nat)
  have "read_instr (e @ rest) = Some ((p, map unat js, inData i), rest)" for rest
  proof -
    have h: "read_bytes (Suc 0) (of_nat p # xs) = Some ([of_nat p], xs)" for xs :: bytes
      by (simp add: read_bytes_def)
    show ?thesis using assms(3) p'(3) len unfolding e read_instr_def instr_ok_def by (simp add: h)
  qed
  moreover have "list_all2 (\<lambda>a j. j < length K \<and> K ! j = amPubkey a) (inAccounts i) (map unat js)"
    using l account_index_Inr assms(2) by (auto simp: list_all2_map2 elim!: list_all2_mono)
  ultimately show ?thesis using p' that by blast
qed

lemma compile_Inr:
  assumes "CompileLegacyMessage b58 fp rb instrs = Inr msg"
  obtains bh compiled where "b58 rb = Inr bh" "length bh = 32" "instrs \<noteq> []"
    "length (account_keys fp instrs) \<le> 255" "num_signers fp instrs \<le> 255"
    "map_res (compile_instr (account_keys fp instrs)) instrs = Inr compiled"
    "msg = [of_nat (num_signers fp instrs), of_nat (length (bucket fp (collect_accounts fp instrs) True False)),
        of_nat (length (bucket fp (collect_accounts fp instrs) False False))] @
      encodeShortVecLen (length (account_keys fp instrs)) @ concat (account_keys fp instrs) @
      bh @ encodeShortVecLen (length instrs) @ concat compiled"
  using assms by (auto simp: CompileLegacyMessage_def account_keys_def num_signers_def Let_def res_iff
      split: if_splits sum.splits)

definition widen :: "bytes \<Rightarrow> Instruction list \<Rightarrow> AccountMeta \<Rightarrow> AccountMeta" where
  "widen fp instrs a = \<lparr>amPubkey = amPubkey a, amIsSigner = signs fp instrs (amPubkey a),
     amIsWritable = writes fp instrs (amPubkey a)\<rparr>"

lemma read_compiled_instrs:
  assumes "map_res (compile_instr K) is = Inr es" "length K \<le> 255" "list_all instr_ok is"
    and at: "\<And>i. i < length K \<Longrightarrow> at i = \<lparr>amPubkey = K ! i, amIsSigner = s (K ! i), amIsWritable = w (K ! i)\<rparr>"
  obtains ts where "list_all2 (\<lambda>t e. \<forall>rest. read_instr (e @ rest) = Some (t, rest)) ts es"
    "map (\<lambda>(p, as, d). \<lparr>inProgramID = K ! p, inAccounts = map at as, inData = d\<rparr>) ts =
     map (\<lambda>i. i\<lparr>inAccounts := map (\<lambda>a. \<lparr>amPubkey = amPubkey a, amIsSigner = s (amPubkey a),
       amIsWritable = w (amPubkey a)\<rparr>) (inAccounts i)\<rparr>) is"
    "length ts = length is"
  using assms(1,3)
proof (induction "is" arbitrary: es thesis)
  case Nil
  then show ?case by simp
next
  case (Cons i "is")
  from Cons.prems obtain e es' where e: "compile_instr K i = Inr e" and es': "map_res (compile_instr K) is = Inr es'"
    and es: "es = e # es'" and ok: "instr_ok i" "list_all instr_ok is" by (auto simp: res_iff list_all2_Cons1)
  obtain p as where r: "\<forall>rest. read_instr (e @ rest) = Some ((p, as, inData i), rest)"
    and "p < length K" and p: "K ! p = inProgramID i"
    and as: "list_all2 (\<lambda>a j. j < length K \<and> K ! j = amPubkey a) (inAccounts i) as"
    by (rule read_compiled_instr [OF e assms(2) ok(1)])
  from as have as': "map at as = map (\<lambda>a. \<lparr>amPubkey = amPubkey a, amIsSigner = s (amPubkey a),
      amIsWritable = w (amPubkey a)\<rparr>) (inAccounts i)"
    by (induction rule: list_all2_induct) (auto simp: at)
  obtain ts where ts: "list_all2 (\<lambda>t e. \<forall>rest. read_instr (e @ rest) = Some (t, rest)) ts es'"
    "map (\<lambda>(p, as, d). \<lparr>inProgramID = K ! p, inAccounts = map at as, inData = d\<rparr>) ts =
     map (\<lambda>i. i\<lparr>inAccounts := map (\<lambda>a. \<lparr>amPubkey = amPubkey a, amIsSigner = s (amPubkey a),
       amIsWritable = w (amPubkey a)\<rparr>) (inAccounts i)\<rparr>) is" "length ts = length is"
    using Cons.IH [OF _ es' ok(2)] by blast
  show ?case
  proof (rule Cons.prems(1) [of "(p, as, inData i) # ts"])
    show "list_all2 (\<lambda>t e. \<forall>rest. read_instr (e @ rest) = Some (t, rest)) ((p, as, inData i) # ts) es"
      unfolding es using r ts(1) by simp
    show "length ((p, as, inData i) # ts) = length (i # is)" using ts(3) by simp
  qed (simp only: list.map prod.case ts(2) as' p, simp)
qed

lemma read_keys: "(\<And>k. k \<in> set K \<Longrightarrow> length k = 32) \<Longrightarrow>
  read_many (read_bytes 32) (length K) (concat K @ rest) = Some (K, rest)"
  by (rule read_many_concat) (auto simp: list_all2_same)

lemma read_message_parts:
  assumes "length h = 3" "length K < 2 ^ 28" "\<And>k. k \<in> set K \<Longrightarrow> length k = 32" "length bh = 32" "length ts < 2 ^ 28"
    "list_all2 (\<lambda>t e. \<forall>rest. read_instr (e @ rest) = Some (t, rest)) ts es"
  shows "read_message (h @ encodeShortVecLen (length K) @ concat K @ bh @ encodeShortVecLen (length ts) @ concat es) =
    Some \<lparr>msgSigners = unat (h ! 0), msgReadonlySigned = unat (h ! 1), msgReadonlyUnsigned = unat (h ! 2),
      msgKeys = K, msgBlockhash = bh, msgInstrs = ts\<rparr>"
  using assms read_many_concat [OF assms(6), of "[]"] unfolding read_message_def
  by (simp add: read_keys)

definition message_ok :: "bytes \<Rightarrow> Instruction list \<Rightarrow> bool" where
  "message_ok fp instrs \<longleftrightarrow> length instrs < 2 ^ 28 \<and> list_all instr_ok instrs \<and>
     length fp = 32 \<and> list_all (\<lambda>i. length (inProgramID i) = 32 \<and>
       list_all (\<lambda>a. length (amPubkey a) = 32) (inAccounts i)) instrs"

lemma message_ok_keys: "message_ok fp instrs \<Longrightarrow> pk \<in> accounts fp instrs \<Longrightarrow> length pk = 32"
  by (auto simp: message_ok_def accounts_def requests_def instr_requests_def account_request_def list_all_iff)

lemma read_back_compiled:
  assumes "CompileLegacyMessage b58 fp rb instrs = Inr msg" and "message_ok fp instrs"
  shows "\<exists>M. read_message msg = Some M \<and>
    message_instrs M = map (\<lambda>i. i\<lparr>inAccounts := map (widen fp instrs) (inAccounts i)\<rparr>) instrs \<and>
    account_at M 0 = \<lparr>amPubkey = fp, amIsSigner = True, amIsWritable = True\<rparr> \<and>
    distinct (msgKeys M) \<and> set (msgKeys M) = accounts fp instrs \<and> b58 rb = Inr (msgBlockhash M)"
proof -
  let ?K = "account_keys fp instrs"
  let ?b = "\<lambda>s w. length (bucket fp (collect_accounts fp instrs) s w)"
  obtain bh es where bh: "b58 rb = Inr bh" "length bh = 32"
    and K: "length ?K \<le> 255" "num_signers fp instrs \<le> 255"
    and es: "map_res (compile_instr ?K) instrs = Inr es"
    and msg: "msg = [of_nat (num_signers fp instrs), of_nat (?b True False), of_nat (?b False False)] @
      encodeShortVecLen (length ?K) @ concat ?K @ bh @ encodeShortVecLen (length instrs) @ concat es"
    by (rule compile_Inr [OF assms(1)])
  define M0 where "M0 = \<lparr>msgSigners = num_signers fp instrs, msgReadonlySigned = ?b True False,
    msgReadonlyUnsigned = ?b False False, msgKeys = ?K, msgBlockhash = bh, msgInstrs = []\<rparr>"
  have at: "account_at M0 i = \<lparr>amPubkey = ?K ! i, amIsSigner = signs fp instrs (?K ! i),
      amIsWritable = writes fp instrs (?K ! i)\<rparr>" if "i < length ?K" for i
    using account_at_keys [of M0 fp instrs i] that by (simp add: M0_def)
  have ok: "list_all instr_ok instrs" using assms(2) by (simp add: message_ok_def)
  obtain ts where ts: "list_all2 (\<lambda>t e. \<forall>rest. read_instr (e @ rest) = Some (t, rest)) ts es"
    and view: "map (\<lambda>(p, as, d). \<lparr>inProgramID = ?K ! p, inAccounts = map (account_at M0) as, inData = d\<rparr>) ts =
      map (\<lambda>i. i\<lparr>inAccounts := map (widen fp instrs) (inAccounts i)\<rparr>) instrs"
    and len: "length ts = length instrs"
    unfolding widen_def by (rule read_compiled_instrs [OF es K(1) ok at])
  let ?M = "M0\<lparr>msgInstrs := ts\<rparr>"
  have b: "?b True False \<le> 255" "?b False False \<le> 255" using K(1) by (auto simp: account_keys_def Let_def)
  have "read_message msg = Some ?M"
  proof -
    have u: "unat (of_nat n :: byte) = n" if "n \<le> 255" for n using that by (simp add: unat_of_nat)
    have "length ts < 2 ^ 28" using assms(2) len by (simp add: message_ok_def)
    moreover have "k \<in> set ?K \<Longrightarrow> length k = 32" for k
      unfolding set_account_keys by (rule message_ok_keys [OF assms(2)])
    moreover have "length ?K < 2 ^ 28" using K(1) by simp
    ultimately show ?thesis
      unfolding msg len [symmetric] M0_def
      by (subst read_message_parts [OF _ _ _ bh(2) _ ts]) (simp_all add: u [OF K(2)] u [OF b(1)] u [OF b(2)])
  qed
  moreover have "account_at ?M = account_at M0" by (rule ext) (simp add: account_at_def)
  moreover have "?K ! 0 = fp" "0 < length ?K" by (simp_all add: account_keys_def Let_def)
  moreover have "message_instrs ?M = map (\<lambda>i. i\<lparr>inAccounts := map (widen fp instrs) (inAccounts i)\<rparr>) instrs"
    using view calculation(2) by (simp add: message_instrs_def M0_def)
  moreover have "msgKeys ?M = ?K" "msgBlockhash ?M = bh" by (simp_all add: M0_def)
  moreover have "account_at M0 0 = \<lparr>amPubkey = fp, amIsSigner = True, amIsWritable = True\<rparr>"
    using at [of 0] fp_requests calculation(3,4) by simp
  ultimately show ?thesis using bh(1)
    by (intro exI [of _ ?M]) (simp only: distinct_account_keys set_account_keys simp_thms)
qed

text \<open>C19: a compiled message means what was asked for. Read back from its bytes, it holds the
  given instructions in order, each with its program, its data and its accounts in order; every
  account has the union of the permissions it was given in any instruction, the fee payer is the
  first key and signs and pays; no key occurs twice and the blockhash is the decoded one.\<close>

theorem compiled_message_reads_back:
  assumes "CompileLegacyMessage b58 fp rb instrs = Inr msg" and "message_ok fp instrs"
  shows "\<exists>M. read_message msg = Some M \<and>
    message_instrs M = map (\<lambda>i. i\<lparr>inAccounts := map (widen fp instrs) (inAccounts i)\<rparr>) instrs \<and>
    account_at M 0 = \<lparr>amPubkey = fp, amIsSigner = True, amIsWritable = True\<rparr> \<and>
    distinct (msgKeys M) \<and> set (msgKeys M) = accounts fp instrs \<and> b58 rb = Inr (msgBlockhash M)"
  by (rule read_back_compiled [OF assms])

text \<open>Compilation succeeds whenever the blockhash is good and the accounts fit.\<close>

lemma compile_succeeds:
  assumes "instrs \<noteq> []" "b58 rb = Inr bh" "length bh = 32" "card (accounts fp instrs) \<le> 255"
  shows "\<exists>msg. CompileLegacyMessage b58 fp rb instrs = Inr msg"
proof -
  let ?K = "account_keys fp instrs"
  have K: "length ?K \<le> 255"
    using assms(4) distinct_card [OF distinct_account_keys, of fp instrs] by (simp add: set_account_keys)
  then have n: "num_signers fp instrs \<le> 255" by (simp add: account_keys_def num_signers_def Let_def)
  have "\<exists>e. compile_instr ?K i = Inr e" if i: "i \<in> set instrs" for i
  proof -
    have "inProgramID i \<in> set ?K" using i by (force simp: set_account_keys accounts_def requests_def instr_requests_def)
    then obtain p where p: "key_index ?K (inProgramID i) = Some p" using key_index_member by blast
    have "\<exists>b. account_index ?K a = Inr b" if "a \<in> set (inAccounts i)" for a
    proof -
      have "amPubkey a \<in> set ?K"
        using i that by (force simp: set_account_keys accounts_def requests_def instr_requests_def account_request_def)
      then show ?thesis using key_index_member by (fastforce simp: account_index_def)
    qed
    then obtain bs where "map_res (account_index ?K) (inAccounts i) = Inr bs" using map_res_total by blast
    with p show ?thesis by (simp add: compile_instr_def)
  qed
  then obtain es where "map_res (compile_instr ?K) instrs = Inr es" using map_res_total by blast
  then show ?thesis
    using assms(1-3) K n by (simp add: CompileLegacyMessage_def account_keys_def num_signers_def Let_def)
qed

section \<open>Signing a compiled message\<close>

lemma num_signers_1: "num_signers fp instrs = 1 \<longleftrightarrow> (\<forall>pk. signs fp instrs pk \<longrightarrow> pk = fp)"
proof -
  have "num_signers fp instrs = 1 \<longleftrightarrow>
      set (bucket fp (collect_accounts fp instrs) True True) = {} \<and> set (bucket fp (collect_accounts fp instrs) True False) = {}"
    by (simp add: num_signers_def Let_def)
  also have "\<dots> \<longleftrightarrow> (\<forall>pk\<in>accounts fp instrs. pk \<noteq> fp \<longrightarrow> \<not> signs fp instrs pk)"
    unfolding set_bucket by auto
  also have "\<dots> \<longleftrightarrow> (\<forall>pk. signs fp instrs pk \<longrightarrow> pk = fp)"
    by (force simp: accounts_def signs_def)
  finally show ?thesis .
qed

lemma messageFeePayer_compiled:
  assumes "CompileLegacyMessage b58 fp rb instrs = Inr msg" and "length fp = 32"
  shows "messageFeePayer msg = Inr fp" and "\<exists>t. msg = of_nat (num_signers fp instrs) # t" and "num_signers fp instrs \<le> 255"
proof -
  let ?K = "account_keys fp instrs"
  obtain bh es a b where K: "length ?K \<le> 255" and n: "num_signers fp instrs \<le> 255"
    and msg: "msg = [of_nat (num_signers fp instrs), a, b] @
      encodeShortVecLen (length ?K) @ concat ?K @ bh @ encodeShortVecLen (length instrs) @ concat es"
    by (rule compile_Inr [OF assms(1)]) blast
  obtain K' where K': "?K = fp # K'" by (simp add: account_keys_def Let_def)
  have d: "decodeShortVecLen (encodeShortVecLen (length ?K) @ r) = Inr (length ?K, length (encodeShortVecLen (length ?K)))" for r
    using K by (intro decode_encode_len) simp
  show "messageFeePayer msg = Inr fp"
    using assms(2) d unfolding messageFeePayer_def msg by (simp add: K' Let_def numeral_3_eq_3)
  show "\<exists>t. msg = of_nat (num_signers fp instrs) # t" unfolding msg by simp
  show "num_signers fp instrs \<le> 255" by (rule n)
qed

lemma encode_len_1: "encodeShortVecLen 1 = [1]"
  by (subst encodeShortVecLen_rec) simp

lemma byte_of_nat_1: "n \<le> 255 \<Longrightarrow> (of_nat n :: byte) = 1 \<longleftrightarrow> n = 1"
proof -
  assume "n \<le> 255"
  then have "unat (of_nat n :: byte) = n" by (simp add: unat_of_nat)
  then show ?thesis by (metis of_nat_1 unat_1)
qed

lemma sign_compiled:
  assumes "CompileLegacyMessage b58 fp rb instrs = Inr msg" and "length fp = 32" and "length signer = 64"
  shows "SignTransaction public ed_sign msg signer =
    (if \<exists>pk. signs fp instrs pk \<and> pk \<noteq> fp then Inl (NotSingleSigner (of_nat (num_signers fp instrs)))
     else if public signer \<noteq> fp then Inl WrongFeePayer
     else Inr ([1] @ ed_sign signer msg @ msg, ed_sign signer msg))"
proof -
  obtain h t where msg: "msg = h # t" and h: "of_nat (num_signers fp instrs) = h"
    using messageFeePayer_compiled(2) [OF assms(1,2)] by blast
  have n: "(of_nat (num_signers fp instrs) :: byte) = 1 \<longleftrightarrow> \<not> (\<exists>pk. signs fp instrs pk \<and> pk \<noteq> fp)"
    using byte_of_nat_1 [OF messageFeePayer_compiled(3) [OF assms(1,2)]] num_signers_1 by blast
  have "SignTransaction public ed_sign msg signer =
      (if (of_nat (num_signers fp instrs) :: byte) \<noteq> 1 then Inl (NotSingleSigner (of_nat (num_signers fp instrs)))
       else if public signer \<noteq> fp then Inl WrongFeePayer
       else Inr ([1] @ ed_sign signer msg @ msg, ed_sign signer msg))"
    using assms(3) messageFeePayer_compiled(1) [OF assms(1,2)] encode_len_1
    unfolding SignTransaction_def msg h by (cases "h = 1") (simp_all add: Let_def)
  then show ?thesis unfolding n by simp
qed

text \<open>Signing. A compiled message is signed exactly when the fee payer is its only signer and
  the key is the fee payer's; the wire transaction is then one signature and the message. With a
  further signer, or another key, it is refused.\<close>

theorem sign_compiled_message:
  assumes "CompileLegacyMessage b58 fp rb instrs = Inr msg" and "length fp = 32" and "length signer = 64"
  shows "SignTransaction public ed_sign msg signer =
    (if \<exists>pk. signs fp instrs pk \<and> pk \<noteq> fp then Inl (NotSingleSigner (of_nat (num_signers fp instrs)))
     else if public signer \<noteq> fp then Inl WrongFeePayer
     else Inr ([1] @ ed_sign signer msg @ msg, ed_sign signer msg))"
  by (rule sign_compiled [OF assms])

section \<open>Witnesses\<close>

definition demo_key :: "byte \<Rightarrow> bytes" where "demo_key b = replicate 32 b"

definition demo_instrs :: "Instruction list" where
  "demo_instrs = [\<lparr>inProgramID = demo_key 9,
     inAccounts = [\<lparr>amPubkey = demo_key 5, amIsSigner = True, amIsWritable = False\<rparr>,
                   \<lparr>amPubkey = demo_key 3, amIsSigner = False, amIsWritable = True\<rparr>,
                   \<lparr>amPubkey = demo_key 5, amIsSigner = True, amIsWritable = True\<rparr>],
     inData = [1, 2]\<rparr>]"

definition demo_b58 :: "string \<Rightarrow> string + bytes" where "demo_b58 s = Inr (demo_key 7)"

lemma demo_compiles: "\<exists>msg. CompileLegacyMessage demo_b58 (demo_key 5) ''h'' demo_instrs = Inr msg"
proof -
  have "\<not> isl (CompileLegacyMessage demo_b58 (demo_key 5) ''h'' demo_instrs)" by code_simp
  then show ?thesis by (metis sum.collapse(2))
qed

theorem compiled_message_reads_back_witness: "\<exists>msg M.
  CompileLegacyMessage demo_b58 (demo_key 5) ''h'' demo_instrs = Inr msg \<and> read_message msg = Some M \<and>
  message_instrs M = map (\<lambda>i. i\<lparr>inAccounts := map (widen (demo_key 5) demo_instrs) (inAccounts i)\<rparr>) demo_instrs"
proof -
  obtain msg where c: "CompileLegacyMessage demo_b58 (demo_key 5) ''h'' demo_instrs = Inr msg" using demo_compiles by blast
  have ok: "message_ok (demo_key 5) demo_instrs" by (simp add: message_ok_def demo_instrs_def demo_key_def instr_ok_def)
  from compiled_message_reads_back [OF c ok] c show ?thesis by blast
qed

theorem sign_compiled_message_witness: "\<exists>msg. CompileLegacyMessage demo_b58 (demo_key 5) ''h'' demo_instrs = Inr msg \<and>
  SignTransaction (\<lambda>_. demo_key 5) (\<lambda>_ _. [7]) msg (replicate 64 0) = Inr ([1] @ [7] @ msg, [7])"
proof -
  obtain msg where c: "CompileLegacyMessage demo_b58 (demo_key 5) ''h'' demo_instrs = Inr msg" using demo_compiles by blast
  have "\<not> (\<exists>pk. signs (demo_key 5) demo_instrs pk \<and> pk \<noteq> demo_key 5)"
    by (auto simp: signs_def requests_def instr_requests_def account_request_def demo_instrs_def)
  with sign_compiled_message [OF c, of "replicate 64 0" "\<lambda>_. demo_key 5" "\<lambda>_ _. [7]"] c show ?thesis
    by (intro exI [of _ msg]) (simp add: demo_key_def)
qed

end
