(* ===== verification/Pda.thy ===== *)
theory Pda
  imports GoStd
begin

text \<open>
  \<^verbatim>\<open>server/internal/blockchain/pda.go\<close>: the derivation of a program derived address. SHA-256, the
  test whether 32 bytes are a point of the ed25519 curve and base58 are libraries and parameters.
\<close>

definition pdaMarker :: bytes where "pdaMarker = bytes_of_string ''ProgramDerivedAddress''"

definition maxSeedLen :: nat where "maxSeedLen = 32"

definition maxSeeds :: nat where "maxSeeds = 16"

datatype pda_error =
    TooManySeeds nat
  | SeedTooLong bytes
  | ProgramIdDecode string
  | ProgramIdLength nat
  | NoBump

definition pda_candidate :: "(bytes \<Rightarrow> bytes) \<Rightarrow> bytes list \<Rightarrow> bytes \<Rightarrow> nat \<Rightarrow> bytes" where
  "pda_candidate sha256 seeds programBytes bump =
     sha256 (concat seeds @ [of_nat bump] @ programBytes @ pdaMarker)"

fun pda_loop :: "(bytes \<Rightarrow> bool) \<Rightarrow> (nat \<Rightarrow> bytes) \<Rightarrow> nat \<Rightarrow> (bytes \<times> nat) option" where
  "pda_loop on_curve cand 0 = (if on_curve (cand 0) then None else Some (cand 0, 0))"
| "pda_loop on_curve cand (Suc bump) =
     (if on_curve (cand (Suc bump)) then pda_loop on_curve cand bump else Some (cand (Suc bump), Suc bump))"

definition check_seeds :: "bytes list \<Rightarrow> pda_error + unit" where
  "check_seeds seeds = for_res (\<lambda>s. if maxSeedLen < length s then Inl (SeedTooLong s) else Inr ()) seeds"

definition FindProgramAddress :: "(bytes \<Rightarrow> bytes) \<Rightarrow> (bytes \<Rightarrow> bool) \<Rightarrow> (string \<Rightarrow> string + bytes) \<Rightarrow> (bytes \<Rightarrow> string)
    \<Rightarrow> bytes list \<Rightarrow> string \<Rightarrow> pda_error + (string \<times> byte)" where
  "FindProgramAddress sha256 on_curve b58dec b58enc seeds programID =
     (if maxSeeds < length seeds then Inl (TooManySeeds (length seeds))
      else bind_res (check_seeds seeds) (\<lambda>_.
        case b58dec programID of
          Inl err \<Rightarrow> Inl (ProgramIdDecode err)
        | Inr programBytes \<Rightarrow>
            if length programBytes \<noteq> 32 then Inl (ProgramIdLength (length programBytes))
            else case pda_loop on_curve (pda_candidate sha256 seeds programBytes) 255 of
                   None \<Rightarrow> Inl NoBump
                 | Some (candidate, bump) \<Rightarrow> Inr (b58enc candidate, of_nat bump)))"

lemma pda_loop_Some: "pda_loop oc cand n = Some (c, b) \<longleftrightarrow>
  b \<le> n \<and> c = cand b \<and> \<not> oc (cand b) \<and> (\<forall>b'. b < b' \<and> b' \<le> n \<longrightarrow> oc (cand b'))"
proof (induction n)
  case 0
  show ?case by (cases "b = 0") auto
next
  case (Suc n)
  then show ?case by (auto simp: le_Suc_eq)
qed

lemma pda_loop_case:
  "(case pda_loop oc cand n of None \<Rightarrow> Inl e | Some (c, b) \<Rightarrow> Inr (f c, of_nat b)) = Inr (addr, bump) \<longleftrightarrow>
   (\<exists>b\<le>n. of_nat b = bump \<and> addr = f (cand b) \<and> \<not> oc (cand b) \<and> (\<forall>b'. b < b' \<and> b' \<le> n \<longrightarrow> oc (cand b')))"
  (is "?l \<longleftrightarrow> ?r")
proof -
  have "?l \<longleftrightarrow> (\<exists>c b. pda_loop oc cand n = Some (c, b) \<and> f c = addr \<and> of_nat b = bump)"
    by (auto split: option.splits)
  also have "\<dots> \<longleftrightarrow> ?r" unfolding pda_loop_Some by blast
  finally show ?thesis .
qed

lemma check_seeds_Inr: "check_seeds seeds = Inr u \<longleftrightarrow> list_all (\<lambda>s. length s \<le> 32) seeds"
  by (auto simp: check_seeds_def for_res_eq_Inr list_all_iff maxSeedLen_def not_less)

lemma byte_of_unat: "of_nat (unat b) = (b :: byte)"
  by simp

lemma byte_range: "(\<exists>n\<le>255. of_nat n = b \<and> Q n) \<longleftrightarrow> Q (unat b)" for b :: byte
proof -
  have "unat b \<le> 255" using unat_byte_less [of b] by linarith
  moreover have "n = unat (of_nat n :: byte)" if "n \<le> 255" for n using that by (simp add: unat_of_nat)
  ultimately show ?thesis by (metis byte_of_unat)
qed

text \<open>The derived address is the candidate of the highest bump that lies off the curve, every
  higher bump having given a curve point, and that bump is returned with it; more than 16 seeds, a
  seed of more than 32 bytes and a program id that is not 32 bytes are refused.\<close>

theorem pda_highest_bump:
  "FindProgramAddress sha256 on_curve b58dec b58enc seeds programID = Inr (addr, bump) \<longleftrightarrow>
   length seeds \<le> 16 \<and> list_all (\<lambda>s. length s \<le> 32) seeds \<and>
   (\<exists>p cand. b58dec programID = Inr p \<and> length p = 32 \<and>
      cand = (\<lambda>b. sha256 (concat seeds @ [b] @ p @ bytes_of_string ''ProgramDerivedAddress'')) \<and>
      addr = b58enc (cand bump) \<and> \<not> on_curve (cand bump) \<and> {bump<..} \<subseteq> {b. on_curve (cand b)})"
proof -
  have c: "pda_candidate sha256 seeds p n = sha256 (concat seeds @ [of_nat n] @ p @ bytes_of_string ''ProgramDerivedAddress'')" for p n
    by (simp add: pda_candidate_def pdaMarker_def)
  have up: "(\<forall>b'. unat bump < b' \<and> b' \<le> 255 \<longrightarrow> P (of_nat b')) \<longleftrightarrow> {bump<..} \<subseteq> {b. P b}" for P :: "byte \<Rightarrow> bool"
  proof
    assume a: "\<forall>b'. unat bump < b' \<and> b' \<le> 255 \<longrightarrow> P (of_nat b')"
    show "{bump<..} \<subseteq> {b. P b}"
    proof
      fix b assume "b \<in> {bump<..}"
      moreover have "unat b \<le> 255" using unat_byte_less [of b] by linarith
      ultimately have "P (of_nat (unat b))" using a [rule_format, of "unat b"] by (simp add: word_less_nat_alt)
      then show "b \<in> {b. P b}" by simp
    qed
  next
    assume s: "{bump<..} \<subseteq> {b. P b}"
    have "P (of_nat b')" if "unat bump < b'" "b' \<le> 255" for b'
    proof -
      have "bump < of_nat b'" using that by (simp add: word_less_nat_alt unat_of_nat)
      with s show ?thesis by auto
    qed
    then show "\<forall>b'. unat bump < b' \<and> b' \<le> 255 \<longrightarrow> P (of_nat b')" by blast
  qed
  have l: "(case pda_loop on_curve (pda_candidate sha256 seeds p) 255 of
        None \<Rightarrow> Inl NoBump | Some (candidate, bump) \<Rightarrow> Inr (b58enc candidate, of_nat bump)) = Inr (addr, bump) \<longleftrightarrow>
      (\<exists>cand. cand = (\<lambda>b. sha256 (concat seeds @ [b] @ p @ bytes_of_string ''ProgramDerivedAddress'')) \<and>
        addr = b58enc (cand bump) \<and> \<not> on_curve (cand bump) \<and> {bump<..} \<subseteq> {b. on_curve (cand b)})" for p
  proof -
    have "(case pda_loop on_curve (pda_candidate sha256 seeds p) 255 of
        None \<Rightarrow> Inl NoBump | Some (candidate, bump) \<Rightarrow> Inr (b58enc candidate, of_nat bump)) = Inr (addr, bump) \<longleftrightarrow>
        (\<exists>n\<le>255. of_nat n = bump \<and> addr = b58enc (pda_candidate sha256 seeds p n) \<and>
          \<not> on_curve (pda_candidate sha256 seeds p n) \<and>
          (\<forall>b'. n < b' \<and> b' \<le> 255 \<longrightarrow> on_curve (pda_candidate sha256 seeds p b')))"
      by (rule pda_loop_case)
    also have "\<dots> \<longleftrightarrow> addr = b58enc (pda_candidate sha256 seeds p (unat bump)) \<and>
          \<not> on_curve (pda_candidate sha256 seeds p (unat bump)) \<and>
          (\<forall>b'. unat bump < b' \<and> b' \<le> 255 \<longrightarrow> on_curve (pda_candidate sha256 seeds p b'))"
      by (rule byte_range)
    finally show ?thesis
      unfolding c using up [of "\<lambda>b. on_curve (sha256 (concat seeds @ [b] @ p @ bytes_of_string ''ProgramDerivedAddress''))"]
      by simp
  qed
  define tail :: "bytes \<Rightarrow> pda_error + (string \<times> byte)" where "tail p = (case pda_loop on_curve (pda_candidate sha256 seeds p) 255 of
      None \<Rightarrow> Inl NoBump | Some (candidate, bump) \<Rightarrow> Inr (b58enc candidate, of_nat bump))" for p
  have "FindProgramAddress sha256 on_curve b58dec b58enc seeds programID = Inr (addr, bump) \<longleftrightarrow>
      length seeds \<le> 16 \<and> check_seeds seeds = Inr () \<and>
      (\<exists>p. b58dec programID = Inr p \<and> length p = 32 \<and> tail p = Inr (addr, bump))"
    unfolding FindProgramAddress_def maxSeeds_def tail_def [symmetric]
    by (cases "b58dec programID"; cases "check_seeds seeds") simp_all
  then show ?thesis unfolding tail_def l check_seeds_Inr by blast
qed

end
