(* ===== verification/ComplianceStore.thy ===== *)
theory ComplianceStore
  imports ChainStore
begin

text \<open>
  The documents and repositories of the compliance component: \<^verbatim>\<open>dal/models/kyc_event.go\<close>,
  \<^verbatim>\<open>transaction.go\<close>, \<^verbatim>\<open>investor.go\<close>, \<^verbatim>\<open>compliance.go\<close> with \<^verbatim>\<open>dal/memory/kyc_event.go\<close>,
  \<^verbatim>\<open>transaction.go\<close>, \<^verbatim>\<open>investor.go\<close>. Go maps are association lists whose order is the
  unspecified iteration order; \<^verbatim>\<open>sort.Slice\<close> is \<open>sort_key\<close>. An interface is a record of functions
  on the store; every operation returns its result and the store, so that an implementation may
  also fail. Times are integers. The locale \<open>claim_store\<close> is what the webhook code relies on.
\<close>

section \<open>KYC events\<close>

datatype KYCApplyStatus =
    KYCApplyClaiming | KYCApplyAccepted | KYCApplyApplying | KYCApplyApplied
  | KYCApplySuperseded | KYCApplyFailed | KYCApplyRecorded

record KYCEvent =
  keID :: string
  keAddress :: string
  keStatus :: string
  keProvider :: string
  keEventID :: string
  keOutcome :: string
  keApplyStatus :: KYCApplyStatus
  keValidUntil :: int
  keTxID :: string
  keOccurredAt :: int
  keReceivedAt :: int
  kePayloadHash :: string

definition kycEventIDKey :: "string \<Rightarrow> string \<Rightarrow> string" where
  "kycEventIDKey provider eventID = provider @ ''|'' @ eventID"

record 'k kyc_repo =
  keExists :: "string \<Rightarrow> 'k \<Rightarrow> (repo_error + bool) \<times> 'k"
  keCreate :: "KYCEvent \<Rightarrow> 'k \<Rightarrow> (repo_error + unit) \<times> 'k"
  keUpdate :: "KYCEvent \<Rightarrow> 'k \<Rightarrow> (repo_error + unit) \<times> 'k"
  keListPending :: "'k \<Rightarrow> (repo_error + KYCEvent list) \<times> 'k"
  keClaimLatest :: "string \<Rightarrow> int \<Rightarrow> string \<Rightarrow> 'k \<Rightarrow> (repo_error + bool) \<times> 'k"
  keCurrentClaim :: "string \<Rightarrow> 'k \<Rightarrow> (repo_error + string) \<times> 'k"

section \<open>The in-memory KYC event repository\<close>

record claimState =
  csOccurredAt :: int
  csEventKey :: string

record KYCEventRepository =
  byID :: "(string \<times> KYCEvent) list"
  byHash :: "string list"
  byEventID :: "string list"
  claims :: "(string \<times> claimState) list"

definition newKYCEventRepository :: KYCEventRepository where
  "newKYCEventRepository = \<lparr>byID = [], byHash = [], byEventID = [], claims = []\<rparr>"

definition claimIsNewer :: "int \<Rightarrow> string \<Rightarrow> int \<Rightarrow> string \<Rightarrow> bool" where
  "claimIsNewer at key curAt curKey = (if curAt < at then True else if at < curAt then False else curKey < key)"

definition memKycExists :: "string \<Rightarrow> KYCEventRepository \<Rightarrow> (repo_error + bool) \<times> KYCEventRepository" where
  "memKycExists payloadHash r = (Inr (payloadHash \<in> set (byHash r)), r)"

definition memKycCreate :: "KYCEvent \<Rightarrow> KYCEventRepository \<Rightarrow> (repo_error + unit) \<times> KYCEventRepository" where
  "memKycCreate e r =
     (if kePayloadHash e \<in> set (byHash r) then (Inl ErrAlreadyExists, r)
      else
        (let eventKey = kycEventIDKey (keProvider e) (keEventID e)
         in if eventKey \<in> set (byEventID r) then (Inl ErrAlreadyExists, r)
            else (Inr (), r\<lparr>byID := AList.update (keID e) e (byID r), byHash := kePayloadHash e # byHash r,
                            byEventID := eventKey # byEventID r\<rparr>)))"

definition memKycList :: "KYCEventRepository \<Rightarrow> KYCEvent list" where
  "memKycList r = sort_key keReceivedAt (map snd (byID r))"

definition memKycUpdate :: "KYCEvent \<Rightarrow> KYCEventRepository \<Rightarrow> (repo_error + unit) \<times> KYCEventRepository" where
  "memKycUpdate e r =
     (case map_of (byID r) (keID e) of
        None \<Rightarrow> (Inl ErrNotFound, r)
      | Some _ \<Rightarrow> (Inr (), r\<lparr>byID := AList.update (keID e) e (byID r)\<rparr>))"

definition memKycListPending :: "KYCEventRepository \<Rightarrow> (repo_error + KYCEvent list) \<times> KYCEventRepository" where
  "memKycListPending r =
     (Inr (sort_key keOccurredAt (filter
        (\<lambda>v. \<not> (keApplyStatus v \<noteq> KYCApplyClaiming \<and> keApplyStatus v \<noteq> KYCApplyAccepted \<and>
                keApplyStatus v \<noteq> KYCApplyApplying)) (map snd (byID r)))), r)"

definition memClaimLatest :: "string \<Rightarrow> int \<Rightarrow> string \<Rightarrow> KYCEventRepository \<Rightarrow> (repo_error + bool) \<times> KYCEventRepository" where
  "memClaimLatest address occurredAt eventKey r =
     (let won = (Inr True, r\<lparr>claims := AList.update address \<lparr>csOccurredAt = occurredAt, csEventKey = eventKey\<rparr> (claims r)\<rparr>)
      in case map_of (claims r) address of
           None \<Rightarrow> won
         | Some cur \<Rightarrow>
             if \<not> claimIsNewer occurredAt eventKey (csOccurredAt cur) (csEventKey cur) then (Inr False, r) else won)"

definition memCurrentClaim :: "string \<Rightarrow> KYCEventRepository \<Rightarrow> (repo_error + string) \<times> KYCEventRepository" where
  "memCurrentClaim address r =
     (case map_of (claims r) address of None \<Rightarrow> (Inl ErrNotFound, r) | Some cur \<Rightarrow> (Inr (csEventKey cur), r))"

definition memoryKyc :: "KYCEventRepository kyc_repo" where
  "memoryKyc = \<lparr>keExists = memKycExists, keCreate = memKycCreate, keUpdate = memKycUpdate,
     keListPending = memKycListPending, keClaimLatest = memClaimLatest, keCurrentClaim = memCurrentClaim\<rparr>"

section \<open>What a client relies on\<close>

text \<open>
  \<open>stored s\<close> are the events a store holds, \<open>used s\<close> the event keys ever accepted, \<open>claim s\<close>
  who holds the claim on an address. The laws say what an operation that reports success did; an
  operation that reports an error changed nothing.
\<close>

abbreviation event_id_key :: "KYCEvent \<Rightarrow> string" where
  "event_id_key e \<equiv> kycEventIDKey (keProvider e) (keEventID e)"

abbreviation outranks :: "int \<Rightarrow> string \<Rightarrow> claimState \<Rightarrow> bool" where
  "outranks at key c \<equiv> csOccurredAt c < at \<or> csOccurredAt c = at \<and> csEventKey c < key"

lemma claimIsNewer_iff: "claimIsNewer at key (csOccurredAt c) (csEventKey c) \<longleftrightarrow> outranks at key c"
  by (auto simp: claimIsNewer_def)

locale claim_store =
  fixes R :: "'k kyc_repo"
    and stored :: "'k \<Rightarrow> KYCEvent set"
    and used :: "'k \<Rightarrow> string set"
    and claim :: "'k \<Rightarrow> string \<Rightarrow> claimState option"
  assumes exists_same: "snd (keExists R h s) = s"
    and create_ok: "keCreate R e s = (Inr u, s') \<Longrightarrow> event_id_key e \<notin> used s \<and>
      stored s' \<subseteq> insert e (stored s) \<and> used s' = insert (event_id_key e) (used s) \<and> claim s' = claim s"
    and create_fails: "keCreate R e s = (Inl err, s') \<Longrightarrow> s' = s"
    and update_ok: "keUpdate R e s = (Inr u, s') \<Longrightarrow>
      stored s' \<subseteq> insert e (stored s) \<and> used s' = used s \<and> claim s' = claim s"
    and update_fails: "keUpdate R e s = (Inl err, s') \<Longrightarrow> s' = s"
    and pending_same: "snd (keListPending R s) = s"
    and pending_sound: "keListPending R s = (Inr es, s') \<Longrightarrow> set es \<subseteq> stored s"
    and claim_won: "keClaimLatest R a t k s = (Inr True, s') \<Longrightarrow>
      (case claim s a of None \<Rightarrow> True | Some c \<Rightarrow> outranks t k c) \<and>
      claim s' = (claim s)(a \<mapsto> \<lparr>csOccurredAt = t, csEventKey = k\<rparr>) \<and> stored s' = stored s \<and> used s' = used s"
    and claim_lost: "keClaimLatest R a t k s = (Inr False, s') \<Longrightarrow>
      s' = s \<and> (\<exists>c. claim s a = Some c \<and> \<not> outranks t k c)"
    and claim_fails: "keClaimLatest R a t k s = (Inl err, s') \<Longrightarrow> s' = s"
    and current_same: "snd (keCurrentClaim R a s) = s"
    and current_found: "keCurrentClaim R a s = (Inr k, s') \<Longrightarrow> \<exists>c. claim s a = Some c \<and> csEventKey c = k"
    and current_none: "keCurrentClaim R a s = (Inl ErrNotFound, s') \<Longrightarrow> claim s a = None"

definition memStored :: "KYCEventRepository \<Rightarrow> KYCEvent set" where
  "memStored r = snd ` set (byID r)"

lemma set_updateD: "(k', w) \<in> set (AList.update k v al) \<Longrightarrow> w = v \<or> w \<in> snd ` set al"
  by (induction al) (auto split: if_splits intro: rev_image_eqI)

interpretation mk: claim_store memoryKyc memStored "\<lambda>r. set (byEventID r)" "\<lambda>r. map_of (claims r)"
proof
  fix e u and s s' :: KYCEventRepository
  show "keCreate memoryKyc e s = (Inr u, s') \<Longrightarrow> event_id_key e \<notin> set (byEventID s) \<and>
      memStored s' \<subseteq> insert e (memStored s) \<and> set (byEventID s') = insert (event_id_key e) (set (byEventID s)) \<and>
      map_of (claims s') = map_of (claims s)"
    by (auto simp: memoryKyc_def memKycCreate_def memStored_def Let_def split: if_splits dest: set_updateD)
  show "keUpdate memoryKyc e s = (Inr u, s') \<Longrightarrow> memStored s' \<subseteq> insert e (memStored s) \<and>
      set (byEventID s') = set (byEventID s) \<and> map_of (claims s') = map_of (claims s)"
    by (auto simp: memoryKyc_def memKycUpdate_def memStored_def split: option.splits dest: set_updateD)
next
  fix a t k and s s' :: KYCEventRepository
  show "keClaimLatest memoryKyc a t k s = (Inr True, s') \<Longrightarrow>
      (case map_of (claims s) a of None \<Rightarrow> True | Some c \<Rightarrow> outranks t k c) \<and>
      map_of (claims s') = (map_of (claims s))(a \<mapsto> \<lparr>csOccurredAt = t, csEventKey = k\<rparr>) \<and>
      memStored s' = memStored s \<and> set (byEventID s') = set (byEventID s)"
    by (auto simp: memoryKyc_def memClaimLatest_def memStored_def claimIsNewer_iff update_conv Let_def
        split: option.splits if_splits)
  show "keClaimLatest memoryKyc a t k s = (Inr False, s') \<Longrightarrow>
      s' = s \<and> (\<exists>c. map_of (claims s) a = Some c \<and> \<not> outranks t k c)"
    by (auto simp: memoryKyc_def memClaimLatest_def claimIsNewer_iff Let_def split: option.splits if_splits)
qed (auto simp: memoryKyc_def memKycExists_def memKycCreate_def memKycUpdate_def memKycListPending_def
    memClaimLatest_def memCurrentClaim_def memStored_def Let_def split: option.splits if_splits)

section \<open>Transactions\<close>

datatype TxStatus = TxPending | TxConfirmed | TxFailed

record Transaction =
  txID :: string
  txIdempotencyKey :: string
  txKind :: string
  txChainID :: int
  txFrom :: string
  txTo :: string
  txHash :: string
  txStatus :: TxStatus
  txBlockNumber :: u64
  txSubmittedAt :: int
  txUpdatedAt :: int

definition EventDerivedTxIDPrefix :: string where "EventDerivedTxIDPrefix = ''evt:''"

definition IsEventDerived :: "Transaction \<Rightarrow> bool" where
  "IsEventDerived tx \<longleftrightarrow> length EventDerivedTxIDPrefix < length (txID tx) \<and>
     take (length EventDerivedTxIDPrefix) (txID tx) = EventDerivedTxIDPrefix"

record 't tx_repo =
  trCreate :: "Transaction \<Rightarrow> 't \<Rightarrow> (repo_error + unit) \<times> 't"
  trGet :: "string \<Rightarrow> 't \<Rightarrow> (repo_error + Transaction) \<times> 't"
  trGetByIdempotencyKey :: "string \<Rightarrow> 't \<Rightarrow> (repo_error + Transaction) \<times> 't"
  trUpdate :: "Transaction \<Rightarrow> 't \<Rightarrow> (repo_error + unit) \<times> 't"

type_synonym tx_map = "(string \<times> Transaction) list"

definition memTxCreate :: "Transaction \<Rightarrow> tx_map \<Rightarrow> (repo_error + unit) \<times> tx_map" where
  "memTxCreate tx m =
     (case map_of m (txID tx) of
        Some _ \<Rightarrow> (Inl ErrAlreadyExists, m)
      | None \<Rightarrow> (Inr (), AList.update (txID tx) tx m))"

definition memTxGet :: "string \<Rightarrow> tx_map \<Rightarrow> (repo_error + Transaction) \<times> tx_map" where
  "memTxGet ident m = (case map_of m ident of None \<Rightarrow> (Inl ErrNotFound, m) | Some v \<Rightarrow> (Inr v, m))"

definition memTxGetByIdempotencyKey :: "string \<Rightarrow> tx_map \<Rightarrow> (repo_error + Transaction) \<times> tx_map" where
  "memTxGetByIdempotencyKey key m =
     (case find (\<lambda>v. txIdempotencyKey v = key \<and> key \<noteq> '''') (map snd m) of
        None \<Rightarrow> (Inl ErrNotFound, m)
      | Some v \<Rightarrow> (Inr v, m))"

definition memTxGetByTxHash :: "int \<Rightarrow> string \<Rightarrow> tx_map \<Rightarrow> (repo_error + Transaction) \<times> tx_map" where
  "memTxGetByTxHash chainID hash m =
     (if hash = '''' then (Inl ErrNotFound, m)
      else case find (\<lambda>v. \<not> (txChainID v \<noteq> chainID \<or> txHash v \<noteq> hash)) (map snd m) of
             None \<Rightarrow> (Inl ErrNotFound, m)
           | Some v \<Rightarrow> (Inr v, m))"

definition memTxUpdate :: "Transaction \<Rightarrow> tx_map \<Rightarrow> (repo_error + unit) \<times> tx_map" where
  "memTxUpdate tx m =
     (case map_of m (txID tx) of
        None \<Rightarrow> (Inl ErrNotFound, m)
      | Some _ \<Rightarrow> (Inr (), AList.update (txID tx) tx m))"

definition memTxDelete :: "string \<Rightarrow> tx_map \<Rightarrow> tx_map" where
  "memTxDelete ident m = AList.delete ident m"

definition memTxList :: "tx_map \<Rightarrow> Transaction list" where
  "memTxList m = sort_key txSubmittedAt (map snd m)"

definition memTxListByStatus :: "TxStatus \<Rightarrow> tx_map \<Rightarrow> Transaction list" where
  "memTxListByStatus status m = filter (\<lambda>v. txStatus v = status) (memTxList m)"

definition memoryTxs :: "tx_map tx_repo" where
  "memoryTxs = \<lparr>trCreate = memTxCreate, trGet = memTxGet, trGetByIdempotencyKey = memTxGetByIdempotencyKey,
     trUpdate = memTxUpdate\<rparr>"

locale tx_store =
  fixes T :: "'t tx_repo"
    and tx_ok :: "'t \<Rightarrow> bool"
    and tx_at :: "'t \<Rightarrow> string \<Rightarrow> Transaction option"
  assumes create_ok: "trCreate T tx t = (Inr u, t') \<Longrightarrow> tx_at t (txID tx) = None \<and> tx_at t' = (tx_at t)(txID tx \<mapsto> tx)"
    and create_wf: "tx_ok t \<Longrightarrow> tx_ok (snd (trCreate T tx t))"
    and create_fails: "trCreate T tx t = (Inl err, t') \<Longrightarrow> t' = t"
    and get_same: "snd (trGet T i t) = t"
    and get_ok: "trGet T i t = (Inr tx, t') \<Longrightarrow> tx_at t i = Some tx"
    and by_key_same: "snd (trGetByIdempotencyKey T k t) = t"
    and by_key_ok: "tx_ok t \<Longrightarrow> trGetByIdempotencyKey T k t = (Inr tx, t') \<Longrightarrow>
      (\<exists>i. tx_at t i = Some tx) \<and> txIdempotencyKey tx = k"
    and by_key_none: "trGetByIdempotencyKey T k t = (Inl ErrNotFound, t') \<Longrightarrow> k \<noteq> '''' \<Longrightarrow>
      tx_at t i = Some tx \<Longrightarrow> txIdempotencyKey tx \<noteq> k"
    and update_ok: "trUpdate T tx t = (Inr u, t') \<Longrightarrow> tx_at t' = (tx_at t)(txID tx \<mapsto> tx)"
    and update_wf: "tx_ok t \<Longrightarrow> tx_ok (snd (trUpdate T tx t))"
    and update_fails: "trUpdate T tx t = (Inl err, t') \<Longrightarrow> t' = t"

definition distinct_keys :: "('a \<times> 'b) list \<Rightarrow> bool" where
  "distinct_keys m \<longleftrightarrow> distinct (map fst m)"

lemma distinct_keys_update [simp]: "distinct_keys m \<Longrightarrow> distinct_keys (AList.update k v m)"
  by (simp add: distinct_keys_def distinct_update)

lemma find_None_map_of: "find P (map snd m) = None \<Longrightarrow> map_of m i = Some v \<Longrightarrow> \<not> P v"
  by (auto simp: find_None_iff dest!: map_of_SomeD)

lemma find_Some_map_of: "distinct_keys m \<Longrightarrow> find P (map snd m) = Some v \<Longrightarrow> P v \<and> (\<exists>i. map_of m i = Some v)"
proof -
  assume d: "distinct_keys m" and f: "find P (map snd m) = Some v"
  then have "v \<in> snd ` set m" "P v" by (auto simp: find_Some_iff)
  with d show ?thesis by (auto simp: distinct_keys_def)
qed

interpretation mt: tx_store memoryTxs distinct_keys "map_of :: tx_map \<Rightarrow> _"
proof
  fix k i tx and t t' :: tx_map
  show "trGetByIdempotencyKey memoryTxs k t = (Inl ErrNotFound, t') \<Longrightarrow> k \<noteq> '''' \<Longrightarrow> map_of t i = Some tx \<Longrightarrow>
      txIdempotencyKey tx \<noteq> k"
    by (auto simp: memoryTxs_def memTxGetByIdempotencyKey_def split: option.splits dest: find_None_map_of)
  show "distinct_keys t \<Longrightarrow> trGetByIdempotencyKey memoryTxs k t = (Inr tx, t') \<Longrightarrow>
      (\<exists>i. map_of t i = Some tx) \<and> txIdempotencyKey tx = k"
    by (auto simp: memoryTxs_def memTxGetByIdempotencyKey_def split: option.splits dest: find_Some_map_of)
qed (auto simp: memoryTxs_def memTxCreate_def memTxGet_def memTxGetByIdempotencyKey_def memTxUpdate_def
    update_conv split: option.splits)

section \<open>Investors\<close>

datatype ComplianceStatus = ComplianceUnknown | ComplianceAllowed | ComplianceBlocked

record Investor =
  invAddress :: string
  invStatus :: ComplianceStatus
  invValidUntil :: int
  invOwnershipVerified :: bool
  invCreatedAt :: int
  invUpdatedAt :: int

type_synonym investor_map = "(string \<times> Investor) list"

definition memInvGet :: "string \<Rightarrow> investor_map \<Rightarrow> repo_error + Investor" where
  "memInvGet address m = (case map_of m address of None \<Rightarrow> Inl ErrNotFound | Some v \<Rightarrow> Inr v)"

definition memInvList :: "investor_map \<Rightarrow> Investor list" where
  "memInvList m = sort_key invAddress (map snd m)"

definition memInvUpsert :: "Investor \<Rightarrow> investor_map \<Rightarrow> investor_map" where
  "memInvUpsert v m = AList.update (invAddress v) v m"

end
