(* ===== verification/StatusService.thy ===== *)
theory StatusService
  imports TxMessage Pda ComplianceStore
begin

text \<open>
  \<^verbatim>\<open>server/internal/compliance/status.go\<close> and \<^verbatim>\<open>status_service.go\<close>: writing one wallet's compliance
  status on chain with the server's hot key. A call takes the network's answers as arguments
  (\<open>chain_env\<close>: the blockhash, and the answer to a broadcast), the clock and a fresh id, and runs on
  a state that holds the transaction repository and the log of what was broadcast. The
  libraries (base58, SHA-256, ed25519) are the record \<open>crypto\<close>. \<open>None\<close> for the repository is the
  nil interface. Error values carry what the callers look at, not the message texts.
\<close>

section \<open>Statuses\<close>

type_synonym OnChainStatus = byte

definition OnChainStatusUnknown :: OnChainStatus where "OnChainStatusUnknown = 0"
definition OnChainStatusAllowed :: OnChainStatus where "OnChainStatusAllowed = 1"
definition OnChainStatusBlocked :: OnChainStatus where "OnChainStatusBlocked = 2"

definition StatusFromString :: "string \<Rightarrow> OnChainStatus option" where
  "StatusFromString s =
     (if s = ''Unknown'' then Some OnChainStatusUnknown
      else if s = ''Allowed'' then Some OnChainStatusAllowed
      else if s = ''Blocked'' then Some OnChainStatusBlocked
      else None)"

section \<open>The service\<close>

record crypto =
  b58dec :: "string \<Rightarrow> string + bytes"
  b58enc :: "bytes \<Rightarrow> string"
  sha256 :: "bytes \<Rightarrow> bytes"
  on_curve :: "bytes \<Rightarrow> bool"
  public_key :: "bytes \<Rightarrow> bytes"
  ed_sign :: "bytes \<Rightarrow> bytes \<Rightarrow> bytes"

definition setStatusDiscriminator :: bytes where
  "setStatusDiscriminator = [181, 184, 224, 203, 193, 29, 177, 224]"

definition systemProgramID :: string where "systemProgramID = ''11111111111111111111111111111111''"

definition registrySeed :: string where "registrySeed = ''registry''"
definition recordSeed :: string where "recordSeed = ''record''"

record StatusService =
  complianceProgramID :: string
  registryPDA :: string
  ssSigner :: bytes
  signerBytes :: bytes

datatype status_error =
    IdempotencyLookup repo_error
  | AccountDecode string
  | AccountLength nat
  | DerivePDA pda_error
  | Decode32 string
  | Blockhash string
  | Compiling tx_error
  | Signing tx_error
  | PersistFailed repo_error
  | SendFailed string
  | SignatureMismatch string
  | SignerLength nat
  | SignerPublicKey

definition findPDA :: "crypto \<Rightarrow> bytes list \<Rightarrow> string \<Rightarrow> pda_error + (string \<times> byte)" where
  "findPDA C = FindProgramAddress (sha256 C) (on_curve C) (b58dec C) (b58enc C)"

definition NewStatusService :: "crypto \<Rightarrow> string \<Rightarrow> bytes \<Rightarrow> status_error + StatusService" where
  "NewStatusService C programID signer =
     (if length signer \<noteq> 64 then Inl (SignerLength (length signer))
      else case findPDA C [bytes_of_string registrySeed] programID of
        Inl err \<Rightarrow> Inl (DerivePDA err)
      | Inr (pda, _) \<Rightarrow>
          if length (public_key C signer) \<noteq> 32 then Inl SignerPublicKey
          else Inr \<lparr>complianceProgramID = programID, registryPDA = pda, ssSigner = signer, signerBytes = public_key C signer\<rparr>)"

definition ss_PublicKey :: "crypto \<Rightarrow> StatusService \<Rightarrow> string" where
  "ss_PublicKey C s = b58enc C (signerBytes s)"

definition wordU64LE :: "u64 \<Rightarrow> bytes" where
  "wordU64LE n = map (\<lambda>i. ucast (drop_bit (8 * i) n)) [0..<8]"

definition decode32 :: "(string \<Rightarrow> string + bytes) \<Rightarrow> string \<Rightarrow> status_error + bytes" where
  "decode32 b58 s =
     (case b58 s of
        Inl err \<Rightarrow> Inl (Decode32 s)
      | Inr b \<Rightarrow> if length b \<noteq> 32 then Inl (Decode32 s) else Inr b)"

definition isStatusRetryable :: "Transaction \<Rightarrow> bool" where
  "isStatusRetryable tx \<longleftrightarrow> txStatus tx = TxFailed"

definition set_status_data :: "OnChainStatus \<Rightarrow> u64 \<Rightarrow> bytes" where
  "set_status_data status validUntil = setStatusDiscriminator @ [status] @ wordU64LE validUntil"

definition set_status_instr :: "crypto \<Rightarrow> StatusService \<Rightarrow> string \<Rightarrow> OnChainStatus \<Rightarrow> u64 \<Rightarrow> status_error + Instruction" where
  "set_status_instr C s account status validUntil =
     (case b58dec C account of
        Inl err \<Rightarrow> Inl (AccountDecode err)
      | Inr wallet \<Rightarrow>
          if length wallet \<noteq> 32 then Inl (AccountLength (length wallet))
          else case findPDA C [bytes_of_string recordSeed, wallet] (complianceProgramID s) of
            Inl err \<Rightarrow> Inl (DerivePDA err)
          | Inr (recordPDA, _) \<Rightarrow>
              bind_res (decode32 (b58dec C) (registryPDA s)) (\<lambda>registryBytes.
              bind_res (decode32 (b58dec C) recordPDA) (\<lambda>recordBytes.
              bind_res (decode32 (b58dec C) (complianceProgramID s)) (\<lambda>programBytes.
              bind_res (decode32 (b58dec C) systemProgramID) (\<lambda>systemProgramBytes.
                Inr \<lparr>inProgramID = programBytes,
                     inAccounts = [
                       \<lparr>amPubkey = registryBytes, amIsSigner = False, amIsWritable = False\<rparr>,
                       \<lparr>amPubkey = signerBytes s, amIsSigner = True, amIsWritable = False\<rparr>,
                       \<lparr>amPubkey = wallet, amIsSigner = False, amIsWritable = False\<rparr>,
                       \<lparr>amPubkey = recordBytes, amIsSigner = False, amIsWritable = True\<rparr>,
                       \<lparr>amPubkey = signerBytes s, amIsSigner = True, amIsWritable = True\<rparr>,
                       \<lparr>amPubkey = systemProgramBytes, amIsSigner = False, amIsWritable = False\<rparr>],
                     inData = set_status_data status validUntil\<rparr>)))))"

text \<open>The answers of the network to one call: the latest blockhash, and what a broadcast returns.\<close>

record chain_env =
  ceBlockhash :: "string + string"
  ceSend :: "bytes \<Rightarrow> string + string"
  ceNow :: int
  ceLater :: int
  ceUUID :: string

definition set_status_tx :: "crypto \<Rightarrow> StatusService \<Rightarrow> chain_env \<Rightarrow> string \<Rightarrow> OnChainStatus \<Rightarrow> u64
    \<Rightarrow> status_error + (bytes \<times> string)" where
  "set_status_tx C s env account status validUntil =
     bind_res (set_status_instr C s account status validUntil) (\<lambda>instr.
       case ceBlockhash env of
         Inl err \<Rightarrow> Inl (Blockhash err)
       | Inr blockhash \<Rightarrow>
           (case CompileLegacyMessage (b58dec C) (signerBytes s) blockhash [instr] of
              Inl err \<Rightarrow> Inl (Compiling err)
            | Inr message \<Rightarrow>
                (case SignTransaction (public_key C) (ed_sign C) message (ssSigner s) of
                   Inl err \<Rightarrow> Inl (Signing err)
                 | Inr (wire, sig) \<Rightarrow> Inr (wire, b58enc C sig))))"

record 't ss_state =
  ssTxs :: 't
  ssSent :: "bytes list"

definition ss_update :: "'t tx_repo option \<Rightarrow> Transaction \<Rightarrow> 't ss_state \<Rightarrow> 't ss_state" where
  "ss_update T tx st = (case T of None \<Rightarrow> st | Some T \<Rightarrow> st\<lparr>ssTxs := snd (trUpdate T tx (ssTxs st))\<rparr>)"

definition markFailed :: "'t tx_repo option \<Rightarrow> int \<Rightarrow> Transaction \<Rightarrow> 't ss_state \<Rightarrow> 't ss_state" where
  "markFailed T now tx st = ss_update T (tx\<lparr>txStatus := TxFailed, txUpdatedAt := now\<rparr>) st"

definition ss_lookup :: "'t tx_repo option \<Rightarrow> string \<Rightarrow> 't ss_state \<Rightarrow> (status_error + Transaction option) \<times> 't ss_state" where
  "ss_lookup T key st =
     (case T of
        None \<Rightarrow> (Inr None, st)
      | Some T \<Rightarrow>
          if key = '''' then (Inr None, st)
          else case trGetByIdempotencyKey T key (ssTxs st) of
            (Inl ErrNotFound, t) \<Rightarrow> (Inr None, st\<lparr>ssTxs := t\<rparr>)
          | (Inl err, t) \<Rightarrow> (Inl (IdempotencyLookup err), st\<lparr>ssTxs := t\<rparr>)
          | (Inr existing, t) \<Rightarrow> (Inr (if isStatusRetryable existing then None else Some existing), st\<lparr>ssTxs := t\<rparr>))"

definition ss_persist :: "'t tx_repo option \<Rightarrow> Transaction \<Rightarrow> 't ss_state \<Rightarrow> (status_error + unit) \<times> 't ss_state" where
  "ss_persist T tx st =
     (case T of
        None \<Rightarrow> (Inr (), st)
      | Some T \<Rightarrow>
          (case trCreate T tx (ssTxs st) of
             (Inl err, t) \<Rightarrow> (Inl (PersistFailed err), st\<lparr>ssTxs := t\<rparr>)
           | (Inr _, t) \<Rightarrow> (Inr (), st\<lparr>ssTxs := t\<rparr>)))"

definition ss_broadcast :: "'t tx_repo option \<Rightarrow> chain_env \<Rightarrow> bytes \<Rightarrow> Transaction \<Rightarrow> 't ss_state
    \<Rightarrow> (status_error + Transaction) \<times> 't ss_state" where
  "ss_broadcast T env wire tx st =
     (let st = st\<lparr>ssSent := ssSent st @ [wire]\<rparr>
      in case ceSend env wire of
           Inl err \<Rightarrow> (Inl (SendFailed err), markFailed T (ceLater env) tx st)
         | Inr rpcSig \<Rightarrow>
             if rpcSig \<noteq> '''' \<and> rpcSig \<noteq> txHash tx then (Inl (SignatureMismatch rpcSig), markFailed T (ceLater env) tx st)
             else (let tx = tx\<lparr>txStatus := TxConfirmed, txUpdatedAt := ceLater env\<rparr>
                   in (Inr tx, ss_update T tx st)))"

definition ss_newTx :: "crypto \<Rightarrow> StatusService \<Rightarrow> chain_env \<Rightarrow> string \<Rightarrow> string \<Rightarrow> Transaction" where
  "ss_newTx C s env key localSig =
     \<lparr>txID = ceUUID env, txIdempotencyKey = key, txKind = ''compliance.setStatus'', txChainID = 0,
      txFrom = ss_PublicKey C s, txTo = complianceProgramID s, txHash = localSig, txStatus = TxPending,
      txBlockNumber = 0, txSubmittedAt = ceNow env, txUpdatedAt = ceNow env\<rparr>"

definition SetStatus :: "'t tx_repo option \<Rightarrow> crypto \<Rightarrow> StatusService \<Rightarrow> chain_env \<Rightarrow> string \<Rightarrow> string \<Rightarrow> OnChainStatus
    \<Rightarrow> u64 \<Rightarrow> 't ss_state \<Rightarrow> (status_error + Transaction) \<times> 't ss_state" where
  "SetStatus T C s env key account status validUntil st =
     (case ss_lookup T key st of
        (Inl err, st) \<Rightarrow> (Inl err, st)
      | (Inr (Some existing), st) \<Rightarrow> (Inr existing, st)
      | (Inr None, st) \<Rightarrow>
          (case set_status_tx C s env account status validUntil of
             Inl err \<Rightarrow> (Inl err, st)
           | Inr (wire, localSig) \<Rightarrow>
               (let tx = ss_newTx C s env key localSig
                in case ss_persist T tx st of
                     (Inl err, st) \<Rightarrow> (Inl err, st)
                   | (Inr _, st) \<Rightarrow> ss_broadcast T env wire tx st)))"

section \<open>What a call does\<close>

lemma ss_lookup_same:
  assumes "\<And>key t. snd (trGetByIdempotencyKey T key t) = t" and "ss_lookup (Some T) key st = (r, st')"
  shows "st' = st"
proof -
  obtain x t where g: "trGetByIdempotencyKey T key (ssTxs st) = (x, t)" by (cases "trGetByIdempotencyKey T key (ssTxs st)")
  with assms(1) [of key "ssTxs st"] have "t = ssTxs st" by simp
  with assms(2) g show ?thesis
    by (auto simp: ss_lookup_def split: if_splits sum.splits repo_error.splits)
qed

lemma ss_lookup_sent: "ss_lookup T key st = (r, st') \<Longrightarrow> ssSent st' = ssSent st"
  by (auto simp: ss_lookup_def split: option.splits if_splits sum.splits prod.splits repo_error.splits)

lemma ss_persist_sent: "ss_persist T tx st = (r, st') \<Longrightarrow> ssSent st' = ssSent st"
  by (auto simp: ss_persist_def split: option.splits sum.splits prod.splits)

lemma ss_update_sent: "ssSent (ss_update T tx st) = ssSent st"
  by (simp add: ss_update_def split: option.splits)

lemma ss_broadcast_sent: "ss_broadcast T env wire tx st = (r, st') \<Longrightarrow> ssSent st' = ssSent st @ [wire]"
  by (auto simp: ss_broadcast_def markFailed_def ss_update_sent Let_def split: sum.splits if_splits)

text \<open>Either a call broadcasts nothing, or it looked the key up, built the transaction and stored
  its record first.\<close>

lemma SetStatus_cases:
  assumes "SetStatus T C s env key account status vu st = (r, st')"
  obtains (quiet) "ssSent st' = ssSent st"
  | (sent) st0 wire sig st1 where "ss_lookup T key st = (Inr None, st0)"
      "set_status_tx C s env account status vu = Inr (wire, sig)"
      "ss_persist T (ss_newTx C s env key sig) st0 = (Inr (), st1)"
      "ss_broadcast T env wire (ss_newTx C s env key sig) st1 = (r, st')" "ssSent st' = ssSent st @ [wire]"
proof -
  obtain l st0 where l: "ss_lookup T key st = (l, st0)" by (cases "ss_lookup T key st")
  note s0 = ss_lookup_sent [OF l]
  consider "\<exists>e. l = Inl e" | "\<exists>x. l = Inr (Some x)" | "l = Inr None"
    by (metis option.exhaust sum.exhaust)
  then show ?thesis
  proof cases
    case 3
    show ?thesis
    proof (cases "set_status_tx C s env account status vu")
      case (Inl e)
      with assms l 3 s0 quiet show ?thesis by (auto simp: SetStatus_def)
    next
      case (Inr w)
      obtain wire sig where w: "w = (wire, sig)" by (cases w)
      let ?tx = "ss_newTx C s env key sig"
      obtain p st1 where p: "ss_persist T ?tx st0 = (p, st1)" by (cases "ss_persist T ?tx st0")
      note s1 = ss_persist_sent [OF p]
      show ?thesis
      proof (cases p)
        case (Inl e)
        with assms l 3 Inr w p s0 s1 quiet show ?thesis by (auto simp: SetStatus_def Let_def)
      next
        case (Inr u)
        then have b: "ss_broadcast T env wire ?tx st1 = (r, st')"
          using assms l 3 \<open>set_status_tx C s env account status vu = Inr w\<close> w p by (simp add: SetStatus_def Let_def)
        from sent [OF _ _ _ b] ss_broadcast_sent [OF b] s0 s1 l 3 p Inr
          \<open>set_status_tx C s env account status vu = Inr w\<close> w show ?thesis by simp
      qed
    qed
  next
    case 1
    then obtain e where "l = Inl e" by blast
    with assms l s0 quiet show ?thesis by (simp add: SetStatus_def)
  next
    case 2
    then obtain x where "l = Inr (Some x)" by blast
    with assms l s0 quiet show ?thesis by (simp add: SetStatus_def)
  qed
qed

lemma set_status_txE:
  assumes "set_status_tx C s env account status vu = Inr (wire, sig)"
  obtains instr bh msg ws where "set_status_instr C s account status vu = Inr instr" "ceBlockhash env = Inr bh"
    "CompileLegacyMessage (b58dec C) (signerBytes s) bh [instr] = Inr msg"
    "SignTransaction (public_key C) (ed_sign C) msg (ssSigner s) = Inr (wire, ws)" "sig = b58enc C ws"
proof -
  from assms obtain instr where i: "set_status_instr C s account status vu = Inr instr"
    and r: "(case ceBlockhash env of
         Inl err \<Rightarrow> Inl (Blockhash err)
       | Inr blockhash \<Rightarrow>
           (case CompileLegacyMessage (b58dec C) (signerBytes s) blockhash [instr] of
              Inl err \<Rightarrow> Inl (Compiling err)
            | Inr message \<Rightarrow>
                (case SignTransaction (public_key C) (ed_sign C) message (ssSigner s) of
                   Inl err \<Rightarrow> Inl (Signing err)
                 | Inr (wire, sig) \<Rightarrow> Inr (wire, b58enc C sig)))) = Inr (wire, sig)"
    unfolding set_status_tx_def bind_res_eq_Inr by blast
  from r obtain bh where bh: "ceBlockhash env = Inr bh" by (cases "ceBlockhash env") simp_all
  with r obtain msg where msg: "CompileLegacyMessage (b58dec C) (signerBytes s) bh [instr] = Inr msg"
    by (cases "CompileLegacyMessage (b58dec C) (signerBytes s) bh [instr]") simp_all
  with r bh obtain ws where "SignTransaction (public_key C) (ed_sign C) msg (ssSigner s) = Inr (wire, ws)" "sig = b58enc C ws"
    by (cases "SignTransaction (public_key C) (ed_sign C) msg (ssSigner s)") auto
  with i bh msg show ?thesis by (rule that)
qed

lemma decode32_Inr: "decode32 b58 s = Inr b \<longleftrightarrow> b58 s = Inr b \<and> length b = 32"
  by (auto simp: decode32_def split: sum.splits if_splits)

text \<open>The instruction of \<open>set_status\<close> as the program expects it.\<close>

lemma set_status_instr_Inr:
  "set_status_instr C s account status vu = Inr instr \<longleftrightarrow>
   (\<exists>wallet pda bump reg rec prog sys. b58dec C account = Inr wallet \<and> length wallet = 32 \<and>
      findPDA C [bytes_of_string ''record'', wallet] (complianceProgramID s) = Inr (pda, bump) \<and>
      decode32 (b58dec C) (registryPDA s) = Inr reg \<and> decode32 (b58dec C) pda = Inr rec \<and>
      decode32 (b58dec C) (complianceProgramID s) = Inr prog \<and> decode32 (b58dec C) systemProgramID = Inr sys \<and>
      instr = \<lparr>inProgramID = prog, inAccounts =
        [\<lparr>amPubkey = reg, amIsSigner = False, amIsWritable = False\<rparr>,
         \<lparr>amPubkey = signerBytes s, amIsSigner = True, amIsWritable = False\<rparr>,
         \<lparr>amPubkey = wallet, amIsSigner = False, amIsWritable = False\<rparr>,
         \<lparr>amPubkey = rec, amIsSigner = False, amIsWritable = True\<rparr>,
         \<lparr>amPubkey = signerBytes s, amIsSigner = True, amIsWritable = True\<rparr>,
         \<lparr>amPubkey = sys, amIsSigner = False, amIsWritable = False\<rparr>],
        inData = set_status_data status vu\<rparr>)"
  unfolding set_status_instr_def recordSeed_def
  by (auto simp: bind_res_eq_Inr split: sum.splits prod.splits if_splits)

lemma length_set_status_data [simp]: "length (set_status_data status vu) = 17"
  by (simp add: set_status_data_def setStatusDiscriminator_def wordU64LE_def)

lemma set_status_instr_ok:
  "set_status_instr C s account status vu = Inr instr \<Longrightarrow> length (signerBytes s) = 32 \<Longrightarrow>
   message_ok (signerBytes s) [instr] \<and> \<not> (\<exists>pk. signs (signerBytes s) [instr] pk \<and> pk \<noteq> signerBytes s)"
  by (auto simp: set_status_instr_Inr decode32_Inr message_ok_def instr_ok_def signs_def requests_def
      instr_requests_def account_request_def)

section \<open>Properties\<close>

text \<open>What a broadcast says. Whenever a call sends a transaction, it is one signature of the hot
  key followed by a message which reads back as the single \<open>set_status\<close> instruction for the given
  wallet, status and expiry, to the configured program, with the accounts in the order the
  program expects and only the hot key signing.\<close>

theorem set_status_sends_instruction:
  assumes "SetStatus T C s env key account status vu st = (r, st')" and "ssSent st' \<noteq> ssSent st"
    and "length (signerBytes s) = 32" and "length (ssSigner s) = 64"
  shows "\<exists>msg M instr. ssSent st' = ssSent st @ [[1] @ ed_sign C (ssSigner s) msg @ msg] \<and>
    public_key C (ssSigner s) = signerBytes s \<and> read_message msg = Some M \<and>
    set_status_instr C s account status vu = Inr instr \<and>
    message_instrs M = [instr\<lparr>inAccounts := map (widen (signerBytes s) [instr]) (inAccounts instr)\<rparr>] \<and>
    msgKeys M ! 0 = signerBytes s \<and> inData instr = setStatusDiscriminator @ [status] @ wordU64LE vu"
  using assms(1)
proof (cases rule: SetStatus_cases)
  case quiet
  with assms(2) show ?thesis by simp
next
  case (sent st0 wire sig st1)
  obtain instr bh msg ws where i: "set_status_instr C s account status vu = Inr instr"
    and "ceBlockhash env = Inr bh" and m: "CompileLegacyMessage (b58dec C) (signerBytes s) bh [instr] = Inr msg"
    and sg: "SignTransaction (public_key C) (ed_sign C) msg (ssSigner s) = Inr (wire, ws)" and "sig = b58enc C ws"
    by (rule set_status_txE [OF sent(2)])
  note ok = set_status_instr_ok [OF i assms(3)]
  obtain M where M: "read_message msg = Some M"
    "message_instrs M = map (\<lambda>i. i\<lparr>inAccounts := map (widen (signerBytes s) [instr]) (inAccounts i)\<rparr>) [instr]"
    "account_at M 0 = \<lparr>amPubkey = signerBytes s, amIsSigner = True, amIsWritable = True\<rparr>"
    using read_back_compiled [OF m] ok by blast
  from sg sign_compiled [OF m assms(3,4)] ok
  have "public_key C (ssSigner s) = signerBytes s" "wire = [1] @ ed_sign C (ssSigner s) msg @ msg"
    by (auto split: if_splits)
  moreover have "inData instr = setStatusDiscriminator @ [status] @ wordU64LE vu"
    using i by (auto simp: set_status_instr_Inr set_status_data_def)
  ultimately show ?thesis using M sent(5) i
    by (intro exI [of _ msg] exI [of _ M] exI [of _ instr]) (simp add: account_at_def)
qed

section \<open>The idempotency key\<close>

text \<open>What any number of calls, one after the other, can make of store and chain. Nothing else under
  src/ creates or updates a transaction record.\<close>

inductive ss_runs :: "'t tx_repo \<Rightarrow> 't ss_state \<Rightarrow> 't ss_state \<Rightarrow> bool" for T where
  no_call: "ss_runs T st st"
| one_more_call: "ss_runs T st st' \<Longrightarrow> SetStatus (Some T) C s env key account status vu st' = (r, st'') \<Longrightarrow> ss_runs T st st''"

context tx_store
begin

definition under_key :: "'t \<Rightarrow> string \<Rightarrow> Transaction set" where
  "under_key t k = {tx \<in> ran (tx_at t). txIdempotencyKey tx = k}"

definition fails :: "'t \<Rightarrow> string \<Rightarrow> bool" where
  "fails t k \<longleftrightarrow> (\<exists>tx\<in>under_key t k. txStatus tx = TxFailed)"


lemma lookup_cases:
  assumes "ss_lookup (Some T) k st = (l, st')" "tx_ok (ssTxs st)" "k \<noteq> ''''"
  obtains (none) "l = Inr None" "under_key (ssTxs st) k = {}" "st' = st"
  | (failed) tx where "l = Inr None" "tx \<in> under_key (ssTxs st) k" "txStatus tx = TxFailed" "st' = st"
  | (found) tx where "l = Inr (Some tx)" "tx \<in> under_key (ssTxs st) k" "txStatus tx \<noteq> TxFailed" "st' = st"
  | (err) e where "l = Inl e" "st' = st"
proof -
  have same: "st' = st" by (rule ss_lookup_same [OF by_key_same assms(1)])
  obtain x t where g: "trGetByIdempotencyKey T k (ssTxs st) = (x, t)" by (cases "trGetByIdempotencyKey T k (ssTxs st)")
  show ?thesis
  proof (cases x)
    case (Inr tx)
    with g have "trGetByIdempotencyKey T k (ssTxs st) = (Inr tx, t)" by simp
    from by_key_ok [OF assms(2) this] have tx: "tx \<in> under_key (ssTxs st) k"
      unfolding under_key_def by (auto simp: ran_def)
    show ?thesis
    proof (cases "txStatus tx = TxFailed")
      case True
      with assms g Inr have "l = Inr None" by (simp add: ss_lookup_def isStatusRetryable_def)
      from failed [OF this tx True same] show ?thesis .
    next
      case False
      with assms g Inr have "l = Inr (Some tx)" by (simp add: ss_lookup_def isStatusRetryable_def)
      from found [OF this tx False same] show ?thesis .
    qed
  next
    case (Inl e)
    show ?thesis
    proof (cases "e = ErrNotFound")
      case True
      with g Inl have g': "trGetByIdempotencyKey T k (ssTxs st) = (Inl ErrNotFound, t)" by simp
      have "under_key (ssTxs st) k = {}" using by_key_none [OF g' assms(3)] by (auto simp: under_key_def ran_def)
      moreover have "l = Inr None" using assms g' by (simp add: ss_lookup_def)
      ultimately show ?thesis using none same by blast
    next
      case False
      with assms g Inl have "l = Inl (IdempotencyLookup e)" by (cases e) (simp_all add: ss_lookup_def)
      with err same show ?thesis by blast
    qed
  qed
qed

lemma update_cases: "trUpdate T tx t = (r, t') \<Longrightarrow> tx_at t' = (tx_at t)(txID tx \<mapsto> tx) \<or> t' = t"
  by (cases r) (auto dest: update_ok update_fails)

lemma persist_cases: "ss_persist (Some T) tx st = (Inr u, st') \<Longrightarrow>
  tx_at (ssTxs st) (txID tx) = None \<and> tx_at (ssTxs st') = (tx_at (ssTxs st))(txID tx \<mapsto> tx)"
  by (auto simp: ss_persist_def dest: create_ok split: sum.splits prod.splits)

lemma persist_wf: "tx_ok (ssTxs st) \<Longrightarrow> tx_ok (ssTxs (snd (ss_persist (Some T) tx st)))"
  using create_wf [of "ssTxs st" tx] by (auto simp: ss_persist_def split: sum.splits prod.splits)

text \<open>What the record of a broadcast looks like afterwards, whatever became of the last update.\<close>

lemma broadcast_record:
  assumes "ss_broadcast (Some T) env wire tx st = (r, st')" and "tx_at (ssTxs st) (txID tx) = Some tx"
    and "txStatus tx = TxPending"
  shows "\<exists>tx'. tx_at (ssTxs st') = (tx_at (ssTxs st))(txID tx \<mapsto> tx') \<and>
    txIdempotencyKey tx' = txIdempotencyKey tx \<and> txHash tx' = txHash tx \<and>
    (txStatus tx' = TxPending \<or> txStatus tx' = (if isl r then TxFailed else TxConfirmed))"
proof -
  have up: "\<exists>tx'. tx_at (ssTxs (ss_update (Some T) (tx\<lparr>txStatus := S, txUpdatedAt := n\<rparr>) st0)) = (tx_at (ssTxs st))(txID tx \<mapsto> tx') \<and>
      txIdempotencyKey tx' = txIdempotencyKey tx \<and> txHash tx' = txHash tx \<and> (txStatus tx' = TxPending \<or> txStatus tx' = S)"
    if "ssTxs st0 = ssTxs st" for S n st0
  proof -
    let ?n = "tx\<lparr>txStatus := S, txUpdatedAt := n\<rparr>"
    obtain u t where u: "trUpdate T ?n (ssTxs st) = (u, t)" by (cases "trUpdate T ?n (ssTxs st)")
    from update_cases [OF u] show ?thesis
    proof
      assume "tx_at t = (tx_at (ssTxs st))(txID ?n \<mapsto> ?n)"
      then show ?thesis using u that by (intro exI [of _ ?n]) (simp add: ss_update_def)
    next
      assume "t = ssTxs st"
      then show ?thesis using u that assms(2,3) by (intro exI [of _ tx]) (auto simp: ss_update_def)
    qed
  qed
  show ?thesis
  proof (cases "isl r")
    case True
    then have "st' = markFailed (Some T) (ceLater env) tx (st\<lparr>ssSent := ssSent st @ [wire]\<rparr>)"
      using assms(1) by (auto simp: ss_broadcast_def Let_def split: sum.splits if_splits)
    with up [of "st\<lparr>ssSent := ssSent st @ [wire]\<rparr>" _ TxFailed] True show ?thesis by (simp add: markFailed_def)
  next
    case False
    then have "st' = ss_update (Some T) (tx\<lparr>txStatus := TxConfirmed, txUpdatedAt := ceLater env\<rparr>) (st\<lparr>ssSent := ssSent st @ [wire]\<rparr>)"
      using assms(1) by (auto simp: ss_broadcast_def Let_def split: sum.splits if_splits)
    with up [of "st\<lparr>ssSent := ssSent st @ [wire]\<rparr>" _ TxConfirmed] False show ?thesis by simp
  qed
qed

text \<open>A call that broadcasts leaves a record of it behind, under the key.\<close>

lemma sent_record:
  assumes "SetStatus (Some T) C s env k account status vu st = (r, st')" "ssSent st' \<noteq> ssSent st"
  shows "\<exists>tx wire sig. ssSent st' = ssSent st @ [wire] \<and> set_status_tx C s env account status vu = Inr (wire, sig) \<and>
    tx_at (ssTxs st) (ceUUID env) = None \<and> tx_at (ssTxs st') = (tx_at (ssTxs st))(ceUUID env \<mapsto> tx) \<and>
    txIdempotencyKey tx = k \<and> txHash tx = sig \<and>
    (txStatus tx = TxPending \<or> txStatus tx = (if isl r then TxFailed else TxConfirmed))"
  using assms(1)
proof (cases rule: SetStatus_cases)
  case quiet
  with assms(2) show ?thesis by simp
next
  case (sent st0 wire sig st1)
  let ?tx = "ss_newTx C s env k sig"
  have id: "txID ?tx = ceUUID env" "txIdempotencyKey ?tx = k" "txHash ?tx = sig" "txStatus ?tx = TxPending"
    by (simp_all add: ss_newTx_def)
  have st0: "st0 = st" by (rule ss_lookup_same [OF by_key_same sent(1)])
  note p = persist_cases [OF sent(3)]
  have "tx_at (ssTxs st1) (txID ?tx) = Some ?tx" using p by simp
  from broadcast_record [OF sent(4) this id(4)] p sent(2,5) st0 id show ?thesis by auto
qed

lemma quiet_same:
  assumes "SetStatus (Some T) C s env k account status vu st = (r, st')" "ssSent st' = ssSent st"
  shows "st' = st"
proof -
  obtain l st0 where l: "ss_lookup (Some T) k st = (l, st0)" by (cases "ss_lookup (Some T) k st")
  have st0: "st0 = st" by (rule ss_lookup_same [OF by_key_same l])
  consider e where "l = Inl e" | x where "l = Inr (Some x)" | "l = Inr None"
    by (metis option.exhaust sum.exhaust)
  then show ?thesis
  proof cases
    case 3
    show ?thesis
    proof (cases "set_status_tx C s env account status vu")
      case (Inr w)
      obtain wire sig where w: "w = (wire, sig)" by (cases w)
      obtain p st1 where p: "ss_persist (Some T) (ss_newTx C s env k sig) st = (p, st1)"
        by (cases "ss_persist (Some T) (ss_newTx C s env k sig) st")
      show ?thesis
      proof (cases p)
        case (Inl e)
        have "st1 = st" using p Inl by (auto simp: ss_persist_def dest: create_fails split: sum.splits prod.splits)
        with assms(1) l st0 3 Inr w p Inl show ?thesis by (simp add: SetStatus_def Let_def)
      next
        case (Inr u)
        then have "ss_broadcast (Some T) env wire (ss_newTx C s env k sig) st1 = (r, st')"
          using assms(1) l st0 3 \<open>set_status_tx C s env account status vu = Inr w\<close> w p by (simp add: SetStatus_def Let_def)
        from ss_broadcast_sent [OF this] ss_persist_sent [OF p] assms(2) show ?thesis by simp
      qed
    qed (use assms(1) l st0 3 in \<open>simp add: SetStatus_def\<close>)
  qed (use assms(1) l st0 in \<open>simp_all add: SetStatus_def\<close>)
qed

text \<open>A key all of whose records are alive sends nothing more.\<close>

lemma live_key_quiet:
  assumes "SetStatus (Some T) C s env k account status vu st = (r, st')" "tx_ok (ssTxs st)" "k \<noteq> ''''"
    "under_key (ssTxs st) k \<noteq> {}" "\<not> fails (ssTxs st) k"
  shows "st' = st"
proof -
  obtain l st0 where l: "ss_lookup (Some T) k st = (l, st0)" by (cases "ss_lookup (Some T) k st")
  from l assms(2,3) have "l \<noteq> Inr None \<and> st0 = st"
    by (cases rule: lookup_cases) (use assms(4,5) in \<open>auto simp: fails_def\<close>)
  with assms(1) l show ?thesis
    by (cases l) (auto simp: SetStatus_def split: option.splits)
qed

lemma sent_key_live:
  assumes "SetStatus (Some T) C s env k account status vu st = (Inr tx, st')" "ssSent st' \<noteq> ssSent st"
    "\<not> fails (ssTxs st) k"
  shows "under_key (ssTxs st') k \<noteq> {} \<and> \<not> fails (ssTxs st') k"
  using sent_record [OF assms(1,2)] assms(3)
  by (fastforce simp: under_key_def fails_def ran_def split: if_splits)

lemma ss_wf:
  assumes "SetStatus (Some T) C s env k account status vu st = (r, st')" "tx_ok (ssTxs st)"
  shows "tx_ok (ssTxs st')"
  using assms(1)
proof (cases rule: SetStatus_cases)
  case quiet
  with quiet_same [OF assms(1)] assms(2) show ?thesis by simp
next
  case (sent st0 wire sig st1)
  have st0: "st0 = st" by (rule ss_lookup_same [OF by_key_same sent(1)])
  have "tx_ok (ssTxs st1)" using persist_wf [of st "ss_newTx C s env k sig"] assms(2) sent(3) st0 by simp
  then have "tx_ok (ssTxs (ss_update (Some T) tx st2))" if "ssTxs st2 = ssTxs st1" for tx st2
    using update_wf that by (simp add: ss_update_def)
  with sent(4) show ?thesis
    by (auto simp: ss_broadcast_def markFailed_def Let_def split: sum.splits if_splits)
qed

text \<open>A call that returned a transaction leaves its key with a record that has not failed.\<close>

lemma returned_live:
  assumes first: "SetStatus (Some T) C s env k account status vu st = (Inr tx, st1)"
    and "tx_ok (ssTxs st)" "k \<noteq> ''''" "\<not> fails (ssTxs st) k"
  shows "under_key (ssTxs st1) k \<noteq> {} \<and> \<not> fails (ssTxs st1) k"
proof (cases "ssSent st1 = ssSent st")
  case False
  from sent_key_live [OF first False assms(4)] show ?thesis .
next
  case True
  have st1: "st1 = st" by (rule quiet_same [OF first True])
  have "under_key (ssTxs st) k \<noteq> {}"
  proof
    assume none: "under_key (ssTxs st) k = {}"
    obtain l st0 where l: "ss_lookup (Some T) k st = (l, st0)" by (cases "ss_lookup (Some T) k st")
    from l assms(2,3) show False
    proof (cases rule: lookup_cases)
      case none
      show ?thesis
        using first
      proof (cases rule: SetStatus_cases)
        case quiet
        show ?thesis
        proof (cases "set_status_tx C s env account status vu")
          case (Inl e)
          with first l \<open>l = Inr None\<close> show ?thesis by (simp add: SetStatus_def)
        next
          case (Inr w)
          obtain wire sig where w: "w = (wire, sig)" by (cases w)
          obtain p st1' where p: "ss_persist (Some T) (ss_newTx C s env k sig) st = (p, st1')"
            by (cases "ss_persist (Some T) (ss_newTx C s env k sig) st")
          have "ss_broadcast (Some T) env wire (ss_newTx C s env k sig) st1' = (Inr tx, st1)" "st0 = st"
            using first l \<open>l = Inr None\<close> \<open>st0 = st\<close> Inr w p by (auto simp: SetStatus_def Let_def split: sum.splits)
          from ss_broadcast_sent [OF this(1)] ss_persist_sent [OF p] True show ?thesis by simp
        qed
      qed (use True in simp)
    qed (use none first l in \<open>auto simp: SetStatus_def\<close>)
  qed
  with st1 assms(4) show ?thesis by simp
qed

text \<open>Calls under other keys leave the records of a key alone, and calls under the key itself find
  a live record, so a key stays live over any sequence of calls.\<close>

definition live_key :: "'t \<Rightarrow> string \<Rightarrow> bool" where
  "live_key t k \<longleftrightarrow> tx_ok t \<and> under_key t k \<noteq> {} \<and> \<not> fails t k"

lemma under_fresh_key:
  "tx_at t i = None \<Longrightarrow> tx_at t' = (tx_at t)(i \<mapsto> tx) \<Longrightarrow> txIdempotencyKey tx \<noteq> k \<Longrightarrow> under_key t' k = under_key t k"
  by (auto simp: under_key_def)

lemma live_key_call:
  assumes "SetStatus (Some T) C s env k' account status vu st = (r, st')" "live_key (ssTxs st) k" "k \<noteq> ''''"
  shows "live_key (ssTxs st') k"
proof (cases "ssSent st' = ssSent st")
  case True
  from quiet_same [OF assms(1) this] assms(2) show ?thesis by simp
next
  case False
  have "k' \<noteq> k"
  proof
    assume "k' = k"
    with assms have "st' = st" by (intro live_key_quiet [of C s env k]) (auto simp: live_key_def)
    with False show False by simp
  qed
  with sent_record [OF assms(1) False] under_fresh_key
  have "under_key (ssTxs st') k = under_key (ssTxs st) k" by metis
  with ss_wf [OF assms(1)] assms(2) show ?thesis by (simp add: live_key_def fails_def)
qed

lemma live_key_runs: "ss_runs T st st' \<Longrightarrow> live_key (ssTxs st) k \<Longrightarrow> k \<noteq> '''' \<Longrightarrow> live_key (ssTxs st') k"
  by (induction rule: ss_runs.induct) (auto intro: live_key_call)

lemma once:
  assumes "SetStatus (Some T) C s env k account status vu st = (Inr tx, st1)" "ss_runs T st1 st2"
    and "SetStatus (Some T) C' s' env' k account' status' vu' st2 = (r, st3)"
    and "tx_ok (ssTxs st)" "k \<noteq> ''''" "\<not> fails (ssTxs st) k"
  shows "st3 = st2"
proof -
  have "live_key (ssTxs st1) k"
    using returned_live [OF assms(1,4,5,6)] ss_wf [OF assms(1,4)] by (simp add: live_key_def)
  from live_key_runs [OF assms(2) this assms(5)] live_key_quiet [OF assms(3)] assms(5)
  show ?thesis by (simp add: live_key_def)
qed

text \<open>With a store that refuses a second record under a key, a failed attempt cannot be retried.\<close>

lemma stuck:
  assumes "SetStatus (Some T) C s env k account status vu st = (r, st')"
    and "tx_ok (ssTxs st)" "k \<noteq> ''''" "\<forall>tx\<in>under_key (ssTxs st) k. txStatus tx = TxFailed" "under_key (ssTxs st) k \<noteq> {}"
    and unique: "\<And>tx t. under_key t (txIdempotencyKey tx) \<noteq> {} \<Longrightarrow> txIdempotencyKey tx \<noteq> '''' \<Longrightarrow>
      \<exists>e. fst (trCreate T tx t) = Inl e"
  shows "isl r \<and> st' = st"
proof -
  obtain l st0 where l: "ss_lookup (Some T) k st = (l, st0)" by (cases "ss_lookup (Some T) k st")
  have st0: "st0 = st" by (rule ss_lookup_same [OF by_key_same l])
  have p: "\<exists>e. ss_persist (Some T) (ss_newTx C s env k sig) st = (Inl (PersistFailed e), st)" for sig
  proof -
    let ?tx = "ss_newTx C s env k sig"
    obtain c t where c: "trCreate T ?tx (ssTxs st) = (c, t)" by (cases "trCreate T ?tx (ssTxs st)")
    with unique [of "ssTxs st" ?tx] assms(3,5) obtain e where "c = Inl e" by (auto simp: ss_newTx_def)
    with c create_fails [of ?tx "ssTxs st" e t] show ?thesis by (simp add: ss_persist_def)
  qed
  from l assms(2,3) show ?thesis
  proof (cases rule: lookup_cases)
    case (failed tx)
    show ?thesis
    proof (cases "set_status_tx C s env account status vu")
      case (Inr w)
      obtain wire sig where w: "w = (wire, sig)" by (cases w)
      obtain e where "ss_persist (Some T) (ss_newTx C s env k sig) st = (Inl (PersistFailed e), st)" using p by blast
      with assms(1) l failed st0 Inr w show ?thesis by (auto simp: SetStatus_def Let_def)
    qed (use assms(1) l failed st0 in \<open>auto simp: SetStatus_def\<close>)
  qed (use assms l st0 in \<open>auto simp: SetStatus_def\<close>)
qed

end

text \<open>A durable record. Whenever a call broadcasts, the repository holds a new record under the
  call's id with its idempotency key and the signature of what was sent, whether or not the
  broadcast succeeded and whether or not its outcome could be stored: no status change is on its
  way unrecorded.\<close>

theorem set_status_recorded:
  assumes "tx_store T ok at" and "SetStatus (Some T) C s env key account status vu st = (r, st')"
    and "ssSent st' \<noteq> ssSent st"
  shows "\<exists>tx wire sig. ssSent st' = ssSent st @ [wire] \<and> set_status_tx C s env account status vu = Inr (wire, sig) \<and>
    at (ssTxs st) (ceUUID env) = None \<and> at (ssTxs st') = (at (ssTxs st))(ceUUID env \<mapsto> tx) \<and>
    txIdempotencyKey tx = key \<and> txHash tx = sig \<and>
    (txStatus tx = TxPending \<or> txStatus tx = (if isl r then TxFailed else TxConfirmed))"
  by (rule tx_store.sent_record [OF assms])


text \<open>The retry that cannot happen. The code treats a failed record as retryable, but it creates
  the new attempt as a second record under the same key. With a store that refuses a second record
  under a key, as the unique index on the idempotency key makes the production store do, a key whose
  attempt failed is stuck: every later call under it fails, sends nothing and changes nothing.\<close>

theorem failed_key_stuck:
  assumes "tx_store T ok at" and "ok (ssTxs st)" and "key \<noteq> ''''"
    and "at (ssTxs st) i = Some tx0" and "txIdempotencyKey tx0 = key"
    and "\<forall>i tx. at (ssTxs st) i = Some tx \<and> txIdempotencyKey tx = key \<longrightarrow> txStatus tx = TxFailed"
    and "\<forall>tx t i tx'. at t i = Some tx' \<and> txIdempotencyKey tx' = txIdempotencyKey tx \<and> txIdempotencyKey tx \<noteq> ''''
      \<longrightarrow> (\<exists>e. fst (trCreate T tx t) = Inl e)"
    and "SetStatus (Some T) C s env key account status vu st = (r, st')"
  shows "isl r \<and> st' = st"
proof -
  note uk = tx_store.under_key_def [OF assms(1)]
  have "\<forall>tx\<in>tx_store.under_key at (ssTxs st) key. txStatus tx = TxFailed"
    unfolding uk using assms(6) by (auto simp: ran_def)
  moreover have "tx_store.under_key at (ssTxs st) key \<noteq> {}"
    unfolding uk using assms(4,5) by (auto simp: ran_def)
  moreover have "\<exists>e. fst (trCreate T tx t) = Inl e"
    if "tx_store.under_key at t (txIdempotencyKey tx) \<noteq> {}" "txIdempotencyKey tx \<noteq> []" for tx t
  proof -
    from that(1) obtain i tx' where "at t i = Some tx'" "txIdempotencyKey tx' = txIdempotencyKey tx"
      unfolding uk by (auto simp: ran_def)
    with assms(7) that(2) show ?thesis by blast
  qed
  ultimately show ?thesis by (rule tx_store.stuck [OF assms(1,8,2,3)])
qed

section \<open>Witnesses\<close>

definition demo_crypto :: crypto where
  "demo_crypto = \<lparr>b58dec = (\<lambda>s. Inr (demo_key (of_nat (length s)))), b58enc = (\<lambda>_. ''sig''),
     sha256 = (\<lambda>_. demo_key 2), on_curve = (\<lambda>_. False), public_key = (\<lambda>_. demo_key 5), ed_sign = (\<lambda>_ _. [7])\<rparr>"

definition demo_service :: StatusService where
  "demo_service = \<lparr>complianceProgramID = ''program'', registryPDA = ''reg'', ssSigner = replicate 64 0,
     signerBytes = demo_key 5\<rparr>"

definition demo_env :: "string \<Rightarrow> bool \<Rightarrow> chain_env" where
  "demo_env uuid ok = \<lparr>ceBlockhash = Inr ''h'', ceSend = (\<lambda>_. if ok then Inr ''sig'' else Inl ''timeout''),
     ceNow = 1, ceLater = 2, ceUUID = uuid\<rparr>"

definition demo_st :: "tx_map ss_state" where "demo_st = \<lparr>ssTxs = [], ssSent = []\<rparr>"

definition demo_call :: "tx_map tx_repo \<Rightarrow> chain_env \<Rightarrow> tx_map ss_state \<Rightarrow> (status_error + Transaction) \<times> tx_map ss_state" where
  "demo_call T env = SetStatus (Some T) demo_crypto demo_service env ''k'' ''wallet'' OnChainStatusBlocked 0"

text \<open>The memory repository with the unique index of the production store on the idempotency key.\<close>

definition indexedTxs :: "tx_map tx_repo" where
  "indexedTxs = memoryTxs\<lparr>trCreate := (\<lambda>tx m.
     if txIdempotencyKey tx \<noteq> [] \<and> (\<exists>v\<in>set (map snd m). txIdempotencyKey v = txIdempotencyKey tx)
     then (Inl ErrAlreadyExists, m) else memTxCreate tx m)\<rparr>"

interpretation mx: tx_store indexedTxs distinct_keys "map_of :: tx_map \<Rightarrow> _"
proof
  fix tx u err and t t' :: tx_map
  show "trCreate indexedTxs tx t = (Inr u, t') \<Longrightarrow> map_of t (txID tx) = None \<and> map_of t' = (map_of t)(txID tx \<mapsto> tx)"
    by (auto simp: indexedTxs_def memTxCreate_def update_conv split: if_splits option.splits)
  show "distinct_keys t \<Longrightarrow> distinct_keys (snd (trCreate indexedTxs tx t))"
    by (auto simp: indexedTxs_def memTxCreate_def split: option.splits)
  show "trCreate indexedTxs tx t = (Inl err, t') \<Longrightarrow> t' = t"
    by (auto simp: indexedTxs_def memTxCreate_def split: if_splits option.splits)
qed (use mt.get_same mt.get_ok mt.by_key_same mt.by_key_ok mt.by_key_none mt.update_ok mt.update_wf mt.update_fails
    in \<open>auto simp: indexedTxs_def\<close>)

lemma demo_tx: "ceBlockhash env = Inr ''h'' \<Longrightarrow>
  \<exists>wire. set_status_tx demo_crypto demo_service env ''wallet'' OnChainStatusBlocked 0 = Inr (wire, ''sig'')"
proof -
  assume bh: "ceBlockhash env = Inr ''h''"
  obtain instr where i: "set_status_instr demo_crypto demo_service ''wallet'' OnChainStatusBlocked 0 = Inr instr"
  proof -
    have "\<not> isl (set_status_instr demo_crypto demo_service ''wallet'' OnChainStatusBlocked 0)" by code_simp
    with that show ?thesis by (metis sum.collapse(2))
  qed
  note ok = set_status_instr_ok [OF i]
  have "card (accounts (demo_key 5) [instr]) \<le> 255"
  proof -
    have "accounts (demo_key 5) [instr] = set (demo_key 5 # inProgramID instr # map amPubkey (inAccounts instr))"
      by (auto simp: accounts_def requests_def instr_requests_def account_request_def image_iff)
    moreover have "length (inAccounts instr) = 6" using i by (auto simp: set_status_instr_Inr)
    ultimately show ?thesis using card_length [of "demo_key 5 # inProgramID instr # map amPubkey (inAccounts instr)"] by simp
  qed
  then obtain msg where m: "CompileLegacyMessage (b58dec demo_crypto) (signerBytes demo_service) ''h'' [instr] = Inr msg"
    using compile_succeeds [of "[instr]" "b58dec demo_crypto" "''h''" "demo_key 1" "demo_key 5"]
    by (auto simp: demo_crypto_def demo_service_def demo_key_def)
  have "SignTransaction (public_key demo_crypto) (ed_sign demo_crypto) msg (ssSigner demo_service) = Inr ([1] @ [7] @ msg, [7])"
    using sign_compiled [OF m, of "ssSigner demo_service" "public_key demo_crypto" "ed_sign demo_crypto"] ok
    by (auto simp: demo_service_def demo_crypto_def demo_key_def)
  then show ?thesis using i bh m by (simp add: set_status_tx_def demo_crypto_def)
qed

lemmas demo_simps = demo_call_def SetStatus_def ss_lookup_def ss_persist_def ss_broadcast_def ss_update_def
  markFailed_def ss_newTx_def demo_env_def demo_st_def memoryTxs_def memTxGetByIdempotencyKey_def memTxCreate_def
  memTxUpdate_def isStatusRetryable_def Let_def

lemma demo_sends: "\<not> isl (fst (demo_call memoryTxs (demo_env ''u'' True) demo_st)) \<and>
  length (ssSent (snd (demo_call memoryTxs (demo_env ''u'' True) demo_st))) = 1"
  using demo_tx [of "demo_env ''u'' True"] by (auto simp: demo_simps)

theorem set_status_sends_instruction_witness: "\<exists>st' msg M instr.
  snd (demo_call memoryTxs (demo_env ''u'' True) demo_st) = st' \<and> read_message msg = Some M \<and>
  ssSent st' = [[1] @ [7] @ msg] \<and> inData instr = setStatusDiscriminator @ [2] @ wordU64LE 0 \<and>
  message_instrs M = [instr\<lparr>inAccounts := map (widen (demo_key 5) [instr]) (inAccounts instr)\<rparr>]"
proof -
  obtain r st' where c: "demo_call memoryTxs (demo_env ''u'' True) demo_st = (r, st')" by fastforce
  then have "ssSent st' \<noteq> ssSent demo_st" using demo_sends by (auto simp: demo_st_def)
  from set_status_sends_instruction [OF c [unfolded demo_call_def] this] c show ?thesis
    by (auto simp: demo_service_def demo_crypto_def demo_key_def demo_st_def OnChainStatusBlocked_def)
qed

theorem set_status_recorded_witness: "\<exists>st' tx. snd (demo_call memoryTxs (demo_env ''u'' True) demo_st) = st' \<and>
  map_of (ssTxs st') ''u'' = Some tx \<and> txIdempotencyKey tx = ''k''"
proof -
  obtain r st' where c: "demo_call memoryTxs (demo_env ''u'' True) demo_st = (r, st')" by fastforce
  then have "ssSent st' \<noteq> ssSent demo_st" using demo_sends by (auto simp: demo_st_def)
  from set_status_recorded [OF mt.tx_store_axioms c [unfolded demo_call_def] this] c show ?thesis
    by (auto simp: demo_env_def)
qed




text \<open>The same failed attempt in both stores: the production store is stuck, the memory store sends
  again, and then once more although the second attempt succeeded, because the lookup by key may
  return the failed record.\<close>

definition after_failure :: "tx_map ss_state" where
  "after_failure = snd (demo_call memoryTxs (demo_env ''u'' False) demo_st)"

lemma memory_store_sends_again:
  "(let (r1, st1) = demo_call memoryTxs (demo_env ''v'' True) after_failure;
        (r2, st2) = demo_call memoryTxs (demo_env ''w'' True) st1
    in \<not> isl r1 \<and> \<not> isl r2 \<and> length (ssSent after_failure) = 1 \<and> length (ssSent st1) = 2 \<and> length (ssSent st2) = 3)"
  using demo_tx [of "demo_env ''u'' False"] demo_tx [of "demo_env ''v'' True"] demo_tx [of "demo_env ''w'' True"]
  by (auto simp: after_failure_def demo_simps)

definition failed_tx :: Transaction where
  "failed_tx = (ss_newTx demo_crypto demo_service (demo_env ''u'' False) ''k'' ''sig'')\<lparr>txStatus := TxFailed\<rparr>"

theorem failed_key_stuck_witness: "\<exists>r. demo_call indexedTxs (demo_env ''v'' True) \<lparr>ssTxs = [(''u'', failed_tx)], ssSent = []\<rparr>
    = (r, \<lparr>ssTxs = [(''u'', failed_tx)], ssSent = []\<rparr>) \<and> isl r"
proof -
  let ?st = "\<lparr>ssTxs = [(''u'', failed_tx)], ssSent = []\<rparr>"
  obtain r st' where c: "demo_call indexedTxs (demo_env ''v'' True) ?st = (r, st')" by fastforce
  have "isl r \<and> st' = ?st"
  proof (rule failed_key_stuck [OF mx.tx_store_axioms _ _ _ _ _ _ c [unfolded demo_call_def], of "''u''" failed_tx])
    show "\<forall>tx t i tx'. map_of t i = Some tx' \<and> txIdempotencyKey tx' = txIdempotencyKey tx \<and> txIdempotencyKey tx \<noteq> []
      \<longrightarrow> (\<exists>e. fst (trCreate indexedTxs tx t) = Inl e)"
      by (auto simp: indexedTxs_def dest!: map_of_SomeD)
  qed (auto simp: distinct_keys_def failed_tx_def ss_newTx_def split: if_splits)
  with c show ?thesis by blast
qed

end
