(* ===== verification/Webhook.thy ===== *)
theory Webhook
  imports StatusService
begin

text \<open>
  \<^verbatim>\<open>server/internal/compliance/webhook.go\<close>: accepting a KYC decision. HMAC-SHA256, SHA-256, base58
  and the JSON parser are parameters; the clock, a fresh id and the answer of the investor
  repository are arguments. A Go time is its number of nanoseconds since the first of January of
  year 1; \<^verbatim>\<open>time.Unix\<close> adds a constant to the seconds in 64-bit arithmetic, which wraps.
\<close>

datatype webhook_error =
    ErrInvalidSignature
  | ErrReplayed
  | ErrStale
  | ErrOwnershipNotVerified
  | InvalidPayload string
  | UnsupportedStatus string
  | MissingProvider
  | MissingEventID
  | BadAddress
  | MissingOccurredAt
  | NegativeValidUntil
  | ValidUntilTooFar
  | StoreError repo_error

abbreviation second :: int where "second \<equiv> 10 ^ 9"

definition MaxWebhookAge :: int where "MaxWebhookAge = 24 * 3600 * second"
definition MaxWebhookClockSkewAhead :: int where "MaxWebhookClockSkewAhead = 5 * 60 * second"
definition MaxValidUntilHorizon :: int where "MaxValidUntilHorizon = 100 * 365 * 24 * 3600 * second"

definition time_Unix :: "int \<Rightarrow> int" where
  "time_Unix sec = sint (word_of_int (sec + 62135596800) :: 64 word) * second"

record WebhookPayload =
  wpEventID :: string
  wpAddress :: string
  wpProvider :: string
  wpStatus :: string
  wpOccurredAt :: int
  wpValidUntil :: int

definition VerifyHMAC :: "(bytes \<Rightarrow> bytes \<Rightarrow> bytes) \<Rightarrow> bytes \<Rightarrow> string \<Rightarrow> string \<Rightarrow> bool" where
  "VerifyHMAC hmac payload signatureHex secret =
     (if secret = '''' then False
      else (let expected = hmac (bytes_of_string secret) payload
            in case hex_decode (trimPrefix signatureHex ''0x'') of
                 None \<Rightarrow> False
               | Some given \<Rightarrow> expected = given))"

text \<open>The checks of \<^verbatim>\<open>ProcessDecision\<close> that need neither store.\<close>

definition check_decision :: "(string \<Rightarrow> string + bytes) \<Rightarrow> int \<Rightarrow> WebhookPayload \<Rightarrow> webhook_error + unit" where
  "check_decision b58 now wp =
     bind_res (guard (\<not> (wpStatus wp \<noteq> ''Allowed'' \<and> wpStatus wp \<noteq> ''Blocked'' \<and> wpStatus wp \<noteq> ''Pending''))
       (UnsupportedStatus (wpStatus wp))) (\<lambda>_.
     bind_res (guard (wpProvider wp \<noteq> '''') MissingProvider) (\<lambda>_.
     bind_res (guard (wpEventID wp \<noteq> '''') MissingEventID) (\<lambda>_.
     bind_res (guard (\<not> isl (decode32 b58 (wpAddress wp))) BadAddress) (\<lambda>_.
     bind_res (guard (0 < wpOccurredAt wp) MissingOccurredAt) (\<lambda>_.
     (let occurredAt = time_Unix (wpOccurredAt wp) in
     bind_res (guard (\<not> now + MaxWebhookClockSkewAhead < occurredAt) ErrStale) (\<lambda>_.
     bind_res (guard (\<not> MaxWebhookAge < now - occurredAt) ErrStale) (\<lambda>_.
     bind_res (guard (\<not> wpValidUntil wp < 0) NegativeValidUntil) (\<lambda>_.
     guard (\<not> (0 < wpValidUntil wp \<and> now + MaxValidUntilHorizon < time_Unix (wpValidUntil wp))) ValidUntilTooFar)))))))))"

definition check_ownership :: "bool \<Rightarrow> repo_error + Investor \<Rightarrow> webhook_error + unit" where
  "check_ownership allowManualOverride found =
     (if allowManualOverride then Inr ()
      else case found of
        Inl ErrNotFound \<Rightarrow> Inl ErrOwnershipNotVerified
      | Inl err \<Rightarrow> Inl (StoreError err)
      | Inr v \<Rightarrow> if \<not> invOwnershipVerified v then Inl ErrOwnershipNotVerified else Inr ())"

text \<open>Resolving the claim of a durable event.\<close>

definition resolve_claim :: "'k kyc_repo \<Rightarrow> KYCEvent \<Rightarrow> bool \<Rightarrow> 'k \<Rightarrow> (repo_error + bool) \<times> 'k" where
  "resolve_claim R e holds s =
     (let e = e\<lparr>keApplyStatus := if holds then (if keOutcome e = ''Pending'' then KYCApplyRecorded else KYCApplyAccepted)
                                 else KYCApplySuperseded\<rparr>
      in case keUpdate R e s of (Inl err, s) \<Rightarrow> (Inl err, s) | (Inr _, s) \<Rightarrow> (Inr holds, s))"

definition finalizeClaim :: "'k kyc_repo \<Rightarrow> KYCEvent \<Rightarrow> 'k \<Rightarrow> (repo_error + bool) \<times> 'k" where
  "finalizeClaim R e s =
     (let eventKey = kycEventIDKey (keProvider e) (keEventID e)
      in case keClaimLatest R (keAddress e) (keOccurredAt e) eventKey s of
           (Inl err, s) \<Rightarrow> (Inl err, s)
         | (Inr won, s) \<Rightarrow>
             if won then resolve_claim R e True s
             else case keCurrentClaim R (keAddress e) s of
                    (Inl ErrNotFound, s) \<Rightarrow> resolve_claim R e False s
                  | (Inl err, s) \<Rightarrow> (Inl err, s)
                  | (Inr currentKey, s) \<Rightarrow> resolve_claim R e (currentKey = eventKey) s)"

definition webhook_event :: "string \<Rightarrow> int \<Rightarrow> string \<Rightarrow> WebhookPayload \<Rightarrow> KYCEvent" where
  "webhook_event uuid now payloadHash wp =
     \<lparr>keID = uuid, keAddress = wpAddress wp, keStatus = wpStatus wp, keProvider = wpProvider wp,
      keEventID = wpEventID wp, keOutcome = wpStatus wp, keApplyStatus = KYCApplyClaiming,
      keValidUntil = wpValidUntil wp, keTxID = '''', keOccurredAt = time_Unix (wpOccurredAt wp),
      keReceivedAt = now, kePayloadHash = payloadHash\<rparr>"

definition ProcessDecision :: "'k kyc_repo \<Rightarrow> (string \<Rightarrow> string + bytes) \<Rightarrow> (bytes \<Rightarrow> bytes) \<Rightarrow> (string \<Rightarrow> repo_error + Investor)
    \<Rightarrow> int \<Rightarrow> string \<Rightarrow> bytes \<Rightarrow> WebhookPayload \<Rightarrow> bool \<Rightarrow> 'k \<Rightarrow> (webhook_error + WebhookPayload) \<times> 'k" where
  "ProcessDecision R b58 sha investor now uuid rawForHash wp allowManualOverride s =
     (let payloadHash = hex (sha rawForHash)
      in case keExists R payloadHash s of
           (Inl err, s) \<Rightarrow> (Inl (StoreError err), s)
         | (Inr True, s) \<Rightarrow> (Inl ErrReplayed, s)
         | (Inr False, s) \<Rightarrow>
             (case bind_res (check_decision b58 now wp) (\<lambda>_. check_ownership allowManualOverride (investor (wpAddress wp))) of
                Inl err \<Rightarrow> (Inl err, s)
              | Inr _ \<Rightarrow>
                  (let event = webhook_event uuid now payloadHash wp
                   in case keCreate R event s of
                        (Inl ErrAlreadyExists, s) \<Rightarrow> (Inl ErrReplayed, s)
                      | (Inl err, s) \<Rightarrow> (Inl (StoreError err), s)
                      | (Inr _, s) \<Rightarrow>
                          (case finalizeClaim R event s of
                             (Inl err, s) \<Rightarrow> (Inl (StoreError err), s)
                           | (Inr True, s) \<Rightarrow> (Inr wp, s)
                           | (Inr False, s) \<Rightarrow>
                               (case keCurrentClaim R (wpAddress wp) s of
                                  (Inr currentKey, s) \<Rightarrow>
                                    (Inl (if currentKey = kycEventIDKey (wpProvider wp) (wpEventID wp) then ErrReplayed else ErrStale), s)
                                | (Inl _, s) \<Rightarrow> (Inl ErrStale, s))))))"

definition Process :: "'k kyc_repo \<Rightarrow> (string \<Rightarrow> string + bytes) \<Rightarrow> (bytes \<Rightarrow> bytes) \<Rightarrow> (bytes \<Rightarrow> bytes \<Rightarrow> bytes)
    \<Rightarrow> (bytes \<Rightarrow> string + WebhookPayload) \<Rightarrow> (string \<Rightarrow> repo_error + Investor) \<Rightarrow> string \<Rightarrow> int \<Rightarrow> string \<Rightarrow> bytes \<Rightarrow> string
    \<Rightarrow> bool \<Rightarrow> 'k \<Rightarrow> (webhook_error + WebhookPayload) \<times> 'k" where
  "Process R b58 sha hmac json investor secret now uuid payload signatureHex allowManualOverride s =
     (if \<not> VerifyHMAC hmac payload signatureHex secret then (Inl ErrInvalidSignature, s)
      else case json payload of
             Inl err \<Rightarrow> (Inl (InvalidPayload err), s)
           | Inr wp \<Rightarrow> ProcessDecision R b58 sha investor now uuid payload wp allowManualOverride s)"

section \<open>What passes the checks\<close>

lemma time_Unix_no_wrap:
  "- (2 ^ 63) \<le> sec + 62135596800 \<Longrightarrow> sec + 62135596800 < 2 ^ 63 \<Longrightarrow> time_Unix sec = (sec + 62135596800) * second"
  unfolding time_Unix_def by (simp only: sint_of_int_u64)

lemma time_Unix_wraps:
  assumes "2 ^ 63 - 62135596800 \<le> sec" "sec < 2 ^ 63"
  shows "time_Unix sec = (sec + 62135596800 - 2 ^ 64) * second"
proof -
  have "(word_of_int (sec + 62135596800) :: 64 word) = word_of_int (sec + 62135596800 - 2 ^ 64)"
    by (simp add: word_of_int_eq_iff take_bit_eq_mod)
  moreover have "sint (word_of_int (sec + 62135596800 - 2 ^ 64) :: 64 word) = sec + 62135596800 - 2 ^ 64"
    using assms by (intro sint_of_int_u64) simp_all
  ultimately show ?thesis unfolding time_Unix_def by (simp only:)
qed

lemma check_decision_wf:
  assumes "- (2 ^ 63) \<le> wpOccurredAt wp" "wpOccurredAt wp < 2 ^ 63 - 62135596800" "- (2 ^ 63) \<le> wpValidUntil wp"
    "wpValidUntil wp < 2 ^ 63" "0 \<le> now"
  shows "check_decision b58 now wp = Inr () \<longleftrightarrow>
    wpStatus wp \<in> {''Allowed'', ''Blocked'', ''Pending''} \<and> wpProvider wp \<noteq> '''' \<and> wpEventID wp \<noteq> '''' \<and>
    (\<exists>b. b58 (wpAddress wp) = Inr b \<and> length b = 32) \<and> 0 < wpOccurredAt wp \<and>
    now - MaxWebhookAge \<le> (wpOccurredAt wp + 62135596800) * second \<and>
    (wpOccurredAt wp + 62135596800) * second \<le> now + MaxWebhookClockSkewAhead \<and> 0 \<le> wpValidUntil wp \<and>
    (wpValidUntil wp = 0 \<or> (wpValidUntil wp + 62135596800) * second \<le> now + MaxValidUntilHorizon \<or>
     2 ^ 63 - 62135596800 \<le> wpValidUntil wp)"
proof -
  have occ: "0 < wpOccurredAt wp \<Longrightarrow> time_Unix (wpOccurredAt wp) = (wpOccurredAt wp + 62135596800) * second"
    using assms(1,2) by (intro time_Unix_no_wrap) auto
  have vu: "0 < wpValidUntil wp \<Longrightarrow> \<not> now + MaxValidUntilHorizon < time_Unix (wpValidUntil wp) \<longleftrightarrow>
      (wpValidUntil wp + 62135596800) * second \<le> now + MaxValidUntilHorizon \<or> 2 ^ 63 - 62135596800 \<le> wpValidUntil wp"
  proof (cases "2 ^ 63 - 62135596800 \<le> wpValidUntil wp")
    case True
    with assms(4) have "time_Unix (wpValidUntil wp) = (wpValidUntil wp + 62135596800 - 2 ^ 64) * second"
      by (intro time_Unix_wraps) auto
    moreover have "(wpValidUntil wp + 62135596800 - 2 ^ 64) * second \<le> 0" using assms(4) by (simp add: mult_le_0_iff)
    moreover have "0 \<le> now + MaxValidUntilHorizon" using assms(5) by (simp add: MaxValidUntilHorizon_def)
    ultimately show ?thesis using True by linarith
  next
    case False
    then show "0 < wpValidUntil wp \<Longrightarrow> ?thesis" by (subst time_Unix_no_wrap) auto
  qed
  have dec: "\<not> isl (decode32 b58 (wpAddress wp)) \<longleftrightarrow> (\<exists>b. b58 (wpAddress wp) = Inr b \<and> length b = 32)"
    by (auto simp: decode32_def split: sum.splits)
  have "check_decision b58 now wp = Inr () \<longleftrightarrow>
    wpStatus wp \<in> {''Allowed'', ''Blocked'', ''Pending''} \<and> wpProvider wp \<noteq> '''' \<and> wpEventID wp \<noteq> '''' \<and>
    \<not> isl (decode32 b58 (wpAddress wp)) \<and> 0 < wpOccurredAt wp \<and>
    \<not> now + MaxWebhookClockSkewAhead < time_Unix (wpOccurredAt wp) \<and> \<not> MaxWebhookAge < now - time_Unix (wpOccurredAt wp) \<and>
    \<not> wpValidUntil wp < 0 \<and> \<not> (0 < wpValidUntil wp \<and> now + MaxValidUntilHorizon < time_Unix (wpValidUntil wp))"
    unfolding check_decision_def Let_def by (simp only: bind_res_eq_Inr guard_eq_Inr) auto
  also have "\<dots> \<longleftrightarrow> wpStatus wp \<in> {''Allowed'', ''Blocked'', ''Pending''} \<and> wpProvider wp \<noteq> '''' \<and> wpEventID wp \<noteq> '''' \<and>
    (\<exists>b. b58 (wpAddress wp) = Inr b \<and> length b = 32) \<and> 0 < wpOccurredAt wp \<and>
    now - MaxWebhookAge \<le> (wpOccurredAt wp + 62135596800) * second \<and>
    (wpOccurredAt wp + 62135596800) * second \<le> now + MaxWebhookClockSkewAhead \<and> 0 \<le> wpValidUntil wp \<and>
    (wpValidUntil wp = 0 \<or> (wpValidUntil wp + 62135596800) * second \<le> now + MaxValidUntilHorizon \<or>
     2 ^ 63 - 62135596800 \<le> wpValidUntil wp)"
    unfolding dec using occ vu by (cases "0 < wpOccurredAt wp"; cases "0 < wpValidUntil wp") (auto simp: not_less)
  finally show ?thesis .
qed

text \<open>Which decisions pass. A decision passes the checks exactly when its status is one of the
  three, provider, event id and address are there, it occurred within the last day (or five minutes
  ahead) and its expiry is not negative and not beyond the horizon, or so far in the future that the
  conversion of its seconds to a time wraps: the last 62135596800 values of a 64-bit integer escape
  the horizon.\<close>

theorem check_decision_iff:
  assumes "- (2 ^ 63) \<le> wpOccurredAt wp" "wpOccurredAt wp < 2 ^ 63 - 62135596800" "- (2 ^ 63) \<le> wpValidUntil wp"
    "wpValidUntil wp < 2 ^ 63" "0 \<le> now"
  shows "check_decision b58 now wp = Inr () \<longleftrightarrow>
    wpStatus wp \<in> {''Allowed'', ''Blocked'', ''Pending''} \<and> wpProvider wp \<noteq> '''' \<and> wpEventID wp \<noteq> '''' \<and>
    (\<exists>b. b58 (wpAddress wp) = Inr b \<and> length b = 32) \<and> 0 < wpOccurredAt wp \<and>
    now - MaxWebhookAge \<le> (wpOccurredAt wp + 62135596800) * second \<and>
    (wpOccurredAt wp + 62135596800) * second \<le> now + MaxWebhookClockSkewAhead \<and> 0 \<le> wpValidUntil wp \<and>
    (wpValidUntil wp = 0 \<or> (wpValidUntil wp + 62135596800) * second \<le> now + MaxValidUntilHorizon \<or>
     2 ^ 63 - 62135596800 \<le> wpValidUntil wp)"
  by (rule check_decision_wf [OF assms])

definition demo_wp :: "string \<Rightarrow> string \<Rightarrow> int \<Rightarrow> int \<Rightarrow> WebhookPayload" where
  "demo_wp ident status at vu = \<lparr>wpEventID = ident, wpAddress = ''wallet'', wpProvider = ''p'', wpStatus = status,
     wpOccurredAt = at, wpValidUntil = vu\<rparr>"

definition demo_now :: int where "demo_now = (1700000000 + 62135596800) * second"

theorem check_decision_iff_witness:
  "check_decision (b58dec demo_crypto) demo_now (demo_wp ''e'' ''Allowed'' 1700000000 (2 ^ 63 - 1)) = Inr ()"
proof -
  let ?wp = "demo_wp ''e'' ''Allowed'' 1700000000 (2 ^ 63 - 1)"
  have "- (2 ^ 63) \<le> wpOccurredAt ?wp" "wpOccurredAt ?wp < 2 ^ 63 - 62135596800" "- (2 ^ 63) \<le> wpValidUntil ?wp"
    "wpValidUntil ?wp < 2 ^ 63" "0 \<le> demo_now" by (simp_all add: demo_wp_def demo_now_def)
  from check_decision_iff [OF this, of "b58dec demo_crypto"] show ?thesis
    by (simp add: demo_wp_def demo_now_def demo_crypto_def demo_key_def MaxWebhookAge_def MaxWebhookClockSkewAhead_def)
qed

end
