(* ===== verification/Reconciler.thy ===== *)
theory Reconciler
  imports Webhook
begin

text \<open>
  \<^verbatim>\<open>server/internal/compliance/reconciler.go\<close>: the outbox half of the webhook. \<open>writer\<close> is the
  interface to the chain (\<^verbatim>\<open>StatusWriter\<close> and the transaction repository) on its own state;
  \<^verbatim>\<open>None\<close> for it is a deployment without a signer, whose transaction repository is then the second
  field. The second part follows any interleaving of webhook deliveries with the visits of the
  reconciler's ticks, which work on copies of the events read at the start of the tick.
\<close>

datatype reconcile_error = RepoFailed repo_error | StatusFailed status_error

record 'w writer =
  wrSetStatus :: "(string \<Rightarrow> string \<Rightarrow> OnChainStatus \<Rightarrow> u64 \<Rightarrow> 'w \<Rightarrow> (status_error + Transaction) \<times> 'w) option"
  wrGet :: "string \<Rightarrow> 'w \<Rightarrow> (repo_error + Transaction) \<times> 'w"

type_synonym ('k, 'w) rec_result = "(reconcile_error + unit) \<times> 'k \<times> 'w"

definition rec_update :: "'k kyc_repo \<Rightarrow> KYCEvent \<Rightarrow> 'k \<Rightarrow> 'w \<Rightarrow> ('k, 'w) rec_result" where
  "rec_update R e k w = (case keUpdate R e k of (Inl err, k) \<Rightarrow> (Inl (RepoFailed err), k, w) | (Inr _, k) \<Rightarrow> (Inr (), k, w))"

definition submit_key :: "KYCEvent \<Rightarrow> string" where
  "submit_key e = ''kyc-status:'' @ kycEventIDKey (keProvider e) (keEventID e)"

definition submit :: "'k kyc_repo \<Rightarrow> 'w writer \<Rightarrow> KYCEvent \<Rightarrow> 'k \<Rightarrow> 'w \<Rightarrow> ('k, 'w) rec_result" where
  "submit R W e k w =
     (case wrSetStatus W of
        None \<Rightarrow> (Inr (), k, w)
      | Some setStatus \<Rightarrow>
          (case StatusFromString (keOutcome e) of
             None \<Rightarrow> rec_update R (e\<lparr>keApplyStatus := KYCApplyFailed\<rparr>) k w
           | Some statusVal \<Rightarrow>
               (case setStatus (submit_key e) (keAddress e) statusVal (word_of_int (keValidUntil e)) w of
                  (Inl err, w) \<Rightarrow> (Inl (StatusFailed err), k, w)
                | (Inr tx, w) \<Rightarrow> rec_update R (e\<lparr>keTxID := txID tx, keApplyStatus := KYCApplyApplying\<rparr>) k w)))"

definition checkSubmitted :: "'k kyc_repo \<Rightarrow> 'w writer \<Rightarrow> KYCEvent \<Rightarrow> 'k \<Rightarrow> 'w \<Rightarrow> ('k, 'w) rec_result" where
  "checkSubmitted R W e k w =
     (if keTxID e = '''' then rec_update R (e\<lparr>keApplyStatus := KYCApplyAccepted\<rparr>) k w
      else case wrGet W (keTxID e) w of
        (Inl ErrNotFound, w) \<Rightarrow> rec_update R (e\<lparr>keApplyStatus := KYCApplyAccepted, keTxID := ''''\<rparr>) k w
      | (Inl err, w) \<Rightarrow> (Inl (RepoFailed err), k, w)
      | (Inr tx, w) \<Rightarrow>
          (case txStatus tx of
             TxConfirmed \<Rightarrow> rec_update R (e\<lparr>keApplyStatus := KYCApplyApplied\<rparr>) k w
           | TxFailed \<Rightarrow> rec_update R (e\<lparr>keApplyStatus := KYCApplyAccepted, keTxID := ''''\<rparr>) k w
           | TxPending \<Rightarrow> (Inr (), k, w)))"

definition advance :: "'k kyc_repo \<Rightarrow> 'w writer \<Rightarrow> KYCEvent \<Rightarrow> 'k \<Rightarrow> 'w \<Rightarrow> ('k, 'w) rec_result" where
  "advance R W e k w =
     (case keApplyStatus e of
        KYCApplyAccepted \<Rightarrow> submit R W e k w
      | KYCApplyApplying \<Rightarrow> checkSubmitted R W e k w
      | _ \<Rightarrow> (Inr (), k, w))"

definition reconcileOne :: "'k kyc_repo \<Rightarrow> 'w writer \<Rightarrow> KYCEvent \<Rightarrow> 'k \<Rightarrow> 'w \<Rightarrow> ('k, 'w) rec_result" where
  "reconcileOne R W e k w =
     (if keApplyStatus e = KYCApplyClaiming then
        (case finalizeClaim R e k of (Inl err, k) \<Rightarrow> (Inl (RepoFailed err), k, w) | (Inr _, k) \<Rightarrow> (Inr (), k, w))
      else case keCurrentClaim R (keAddress e) k of
        (Inr currentKey, k) \<Rightarrow>
          (if currentKey \<noteq> kycEventIDKey (keProvider e) (keEventID e)
           then rec_update R (e\<lparr>keApplyStatus := KYCApplySuperseded\<rparr>) k w
           else advance R W e k w)
      | (Inl ErrNotFound, k) \<Rightarrow> advance R W e k w
      | (Inl err, k) \<Rightarrow> (Inl (RepoFailed err), k, w))"

fun reconcile_all :: "'k kyc_repo \<Rightarrow> 'w writer \<Rightarrow> KYCEvent list \<Rightarrow> 'k \<Rightarrow> 'w \<Rightarrow> reconcile_error list \<times> 'k \<times> 'w" where
  "reconcile_all R W [] k w = ([], k, w)"
| "reconcile_all R W (e # es) k w =
     (let (r, k, w) = reconcileOne R W e k w; (errs, k, w) = reconcile_all R W es k w
      in (case r of Inl err \<Rightarrow> err # errs | Inr _ \<Rightarrow> errs, k, w))"

definition WebhookReconcile :: "'k kyc_repo \<Rightarrow> 'w writer \<Rightarrow> 'k \<Rightarrow> 'w \<Rightarrow> reconcile_error list \<times> 'k \<times> 'w" where
  "WebhookReconcile R W k w =
     (case keListPending R k of
        (Inl err, k) \<Rightarrow> ([RepoFailed err], k, w)
      | (Inr pending, k) \<Rightarrow> reconcile_all R W pending k w)"

section \<open>Runs\<close>

text \<open>
  To follow the submissions, the writer is wrapped so that it notes each call of
  \<^verbatim>\<open>SetStatus\<close>. A run keeps the events of the current tick that are still to be visited and the list of
  events whose status was submitted, in order.
\<close>

type_synonym call = "string \<times> string \<times> OnChainStatus \<times> u64"

definition noting :: "'w writer \<Rightarrow> ('w \<times> call list) writer" where
  "noting W = \<lparr>wrSetStatus = map_option (\<lambda>f key account status vu (w, calls).
       (case f key account status vu w of (r, w) \<Rightarrow> (r, w, calls @ [(key, account, status, vu)]))) (wrSetStatus W),
     wrGet = (\<lambda>i (w, calls). case wrGet W i w of (r, w) \<Rightarrow> (r, w, calls))\<rparr>"

record ('k, 'w) wh_run =
  whStore :: 'k
  whWriter :: 'w
  whBatch :: "KYCEvent list"
  whSubmitted :: "KYCEvent list"

inductive wh_step :: "'k kyc_repo \<Rightarrow> 'w writer \<Rightarrow> (string \<Rightarrow> string + bytes) \<Rightarrow> (bytes \<Rightarrow> bytes) \<Rightarrow>
    ('k, 'w) wh_run \<Rightarrow> ('k, 'w) wh_run \<Rightarrow> bool"
  for R :: "'k kyc_repo" and W :: "'w writer" and b58 :: "string \<Rightarrow> string + bytes" and sha :: "bytes \<Rightarrow> bytes" where
  delivered: "ProcessDecision R b58 sha investor now uuid raw wp override (whStore r) = (res, k) \<Longrightarrow>
    wh_step R W b58 sha r (r\<lparr>whStore := k\<rparr>)"
| tick: "keListPending R (whStore r) = (Inr pending, k) \<Longrightarrow>
    wh_step R W b58 sha r (r\<lparr>whStore := k, whBatch := pending\<rparr>)"
| visited: "whBatch r = e # es \<Longrightarrow>
    reconcileOne R (noting W) e (whStore r) (whWriter r, []) = (res, k, w, calls) \<Longrightarrow>
    wh_step R W b58 sha r (r\<lparr>whStore := k, whWriter := w, whBatch := es,
      whSubmitted := whSubmitted r @ map (\<lambda>_. e) calls\<rparr>)"
| other_writer: "wh_step R W b58 sha r (r\<lparr>whWriter := w\<rparr>)"

definition wh_init :: "'k \<Rightarrow> 'w \<Rightarrow> ('k, 'w) wh_run" where
  "wh_init k w = \<lparr>whStore = k, whWriter = w, whBatch = [], whSubmitted = []\<rparr>"

text \<open>The order of decisions: time of occurrence, then key.\<close>

definition not_after :: "KYCEvent \<Rightarrow> KYCEvent \<Rightarrow> bool" where
  "not_after e e' \<longleftrightarrow> keAddress e = keAddress e' \<longrightarrow>
     keOccurredAt e < keOccurredAt e' \<or> keOccurredAt e = keOccurredAt e' \<and> event_id_key e \<le> event_id_key e'"

text \<open>Two events with one key are the same decision.\<close>

definition same_decision :: "KYCEvent \<Rightarrow> KYCEvent \<Rightarrow> bool" where
  "same_decision e e' \<longleftrightarrow> keAddress e = keAddress e' \<and> keOccurredAt e = keOccurredAt e' \<and> keOutcome e = keOutcome e'
     \<and> keValidUntil e = keValidUntil e'"

definition up_to :: "KYCEvent \<Rightarrow> claimState \<Rightarrow> bool" where
  "up_to e c \<longleftrightarrow> keOccurredAt e < csOccurredAt c \<or> keOccurredAt e = csOccurredAt c \<and> event_id_key e \<le> csEventKey c"

definition live :: "KYCEvent \<Rightarrow> bool" where
  "live e \<longleftrightarrow> keApplyStatus e = KYCApplyAccepted \<or> keApplyStatus e = KYCApplyApplying"

text \<open>The only call a visit of an event can make.\<close>

definition the_call :: "KYCEvent \<Rightarrow> call" where
  "the_call e = (submit_key e, keAddress e, (if keOutcome e = ''Unknown'' then OnChainStatusUnknown
     else if keOutcome e = ''Allowed'' then OnChainStatusAllowed else OnChainStatusBlocked), word_of_int (keValidUntil e))"

context claim_store
begin

text \<open>What holds of a store together with a set of copies of events.\<close>

definition ev_inv :: "'k \<Rightarrow> KYCEvent set \<Rightarrow> bool" where
  "ev_inv s B \<longleftrightarrow>
     (\<forall>e\<in>stored s \<union> B. event_id_key e \<in> used s) \<and>
     (\<forall>e\<in>stored s \<union> B. \<forall>e'\<in>stored s \<union> B. event_id_key e = event_id_key e' \<longrightarrow> same_decision e e') \<and>
     (\<forall>a c. claim s a = Some c \<longrightarrow> csEventKey c \<in> used s \<and>
        (\<forall>e\<in>stored s \<union> B. event_id_key e = csEventKey c \<longrightarrow> keAddress e = a \<and> keOccurredAt e = csOccurredAt c)) \<and>
     (\<forall>e\<in>stored s \<union> B. live e \<longrightarrow> claim s (keAddress e) \<noteq> None)"

text \<open>Claims only move forward.\<close>

definition forward :: "'k \<Rightarrow> 'k \<Rightarrow> bool" where
  "forward s s' \<longleftrightarrow> (\<forall>a c. claim s a = Some c \<longrightarrow> (\<exists>c'. claim s' a = Some c' \<and>
     (c' = c \<or> outranks (csOccurredAt c') (csEventKey c') c)))"

lemma forward_same: "claim s' = claim s \<Longrightarrow> forward s s'"
  by (simp add: forward_def)

lemma forward_trans: "forward s t \<Longrightarrow> forward t u \<Longrightarrow> forward s u"
  unfolding forward_def by (smt (verit) order.strict_trans)

lemma ev_inv_D:
  assumes "ev_inv s B" "e \<in> stored s \<union> B"
  shows "event_id_key e \<in> used s" and "e' \<in> stored s \<union> B \<Longrightarrow> event_id_key e = event_id_key e' \<Longrightarrow> same_decision e e'"
    and "claim s a = Some c \<Longrightarrow> event_id_key e = csEventKey c \<Longrightarrow> keAddress e = a \<and> keOccurredAt e = csOccurredAt c"
    and "live e \<Longrightarrow> claim s (keAddress e) \<noteq> None"
  using assms unfolding ev_inv_def by blast+

lemma ev_invI:
  assumes "\<And>e. e \<in> stored s \<union> B \<Longrightarrow> event_id_key e \<in> used s"
    "\<And>e e'. e \<in> stored s \<union> B \<Longrightarrow> e' \<in> stored s \<union> B \<Longrightarrow> event_id_key e = event_id_key e' \<Longrightarrow> same_decision e e'"
    "\<And>a c. claim s a = Some c \<Longrightarrow> csEventKey c \<in> used s \<and>
        (\<forall>e\<in>stored s \<union> B. event_id_key e = csEventKey c \<longrightarrow> keAddress e = a \<and> keOccurredAt e = csOccurredAt c)"
    "\<And>e. e \<in> stored s \<union> B \<Longrightarrow> live e \<Longrightarrow> claim s (keAddress e) \<noteq> None"
  shows "ev_inv s B"
  using assms unfolding ev_inv_def by simp

lemma ev_inv_claim_used: "ev_inv s B \<Longrightarrow> claim s a = Some c \<Longrightarrow> csEventKey c \<in> used s"
  unfolding ev_inv_def by blast

lemma ev_inv_subset: "ev_inv s B \<Longrightarrow> claim s' = claim s \<Longrightarrow> used s' = used s \<Longrightarrow> stored s' \<union> B' \<subseteq> stored s \<union> B \<Longrightarrow> ev_inv s' B'"
  unfolding ev_inv_def by (auto 0 4)

lemma ev_inv_copy:
  assumes "ev_inv s B" "e \<in> stored s \<union> B" "event_id_key e' = event_id_key e" "same_decision e e'"
    "live e' \<Longrightarrow> claim s (keAddress e') \<noteq> None"
  shows "ev_inv s (insert e' B)"
proof -
  have sd: "same_decision x y \<Longrightarrow> same_decision x z \<Longrightarrow> same_decision y z \<and> same_decision z y" for x y z
    by (simp add: same_decision_def)
  have sym: "same_decision x y \<Longrightarrow> same_decision y x" for x y by (simp add: same_decision_def)
  note d = ev_inv_D [OF assms(1,2)]
  have k: "event_id_key x \<in> used s" if "x \<in> stored s \<union> insert e' B" for x
    using that ev_inv_D(1) [OF assms(1), of x] d(1) assms(3) by auto
  have same_e: "same_decision e x" if "x \<in> stored s \<union> insert e' B" "event_id_key x = event_id_key e" for x
    using that d(2) [of x] assms(3,4) by auto
  have 2: "same_decision x y" if "x \<in> stored s \<union> insert e' B" "y \<in> stored s \<union> insert e' B" "event_id_key x = event_id_key y" for x y
  proof (cases "event_id_key x = event_id_key e")
    case True
    with same_e that sd show ?thesis by metis
  next
    case False
    with that assms(3) have "x \<in> stored s \<union> B" "y \<in> stored s \<union> B" by auto
    with ev_inv_D(2) [OF assms(1)] that(3) show ?thesis by blast
  qed
  have 3: "csEventKey c \<in> used s \<and> (\<forall>x\<in>stored s \<union> insert e' B. event_id_key x = csEventKey c \<longrightarrow>
      keAddress x = a \<and> keOccurredAt x = csOccurredAt c)" if c: "claim s a = Some c" for a c
  proof -
    have "keAddress x = a \<and> keOccurredAt x = csOccurredAt c"
      if "x \<in> stored s \<union> insert e' B" "event_id_key x = csEventKey c" for x
    proof (cases "x = e'")
      case True
      with d(3) [OF c] that assms(3,4) show ?thesis by (simp add: same_decision_def)
    next
      case False
      with that ev_inv_D(3) [OF assms(1) _ c, of x] show ?thesis by auto
    qed
    with ev_inv_claim_used [OF assms(1) c] show ?thesis by blast
  qed
  have 4: "claim s (keAddress x) \<noteq> None" if "x \<in> stored s \<union> insert e' B" "live x" for x
    using that assms(5) ev_inv_D(4) [OF assms(1), of x] by auto
  show ?thesis by (rule ev_invI) (fact k 2 3 4)+
qed

lemma ev_inv_update:
  assumes "ev_inv s B" "e \<in> B" "keUpdate R e s = (res, s')"
  shows "ev_inv s' B \<and> claim s' = claim s"
proof (cases res)
  case (Inl err)
  with update_fails assms show ?thesis by metis
next
  case (Inr u)
  note u = update_ok [OF assms(3) [unfolded Inr]]
  then have "stored s' \<union> B \<subseteq> stored s \<union> B" using assms(2) by blast
  with u assms(1) show ?thesis using ev_inv_subset by blast
qed

text \<open>Writing a changed copy of a known event.\<close>

lemma ev_inv_write:
  assumes "ev_inv s B" "e \<in> stored s \<union> B" "event_id_key e' = event_id_key e" "same_decision e e'"
    "live e' \<Longrightarrow> claim s (keAddress e') \<noteq> None" "keUpdate R e' s = (res, s')"
  shows "ev_inv s' B \<and> claim s' = claim s"
proof -
  have "ev_inv s (insert e' B)" by (rule ev_inv_copy [OF assms(1-5)])
  from ev_inv_update [OF this _ assms(6)] have "ev_inv s' (insert e' B)" "claim s' = claim s" by auto
  then show ?thesis using ev_inv_subset [of s' "insert e' B" s' B] by blast
qed

lemma ev_inv_claim:
  assumes "ev_inv s B" "e \<in> B" "keClaimLatest R (keAddress e) (keOccurredAt e) (event_id_key e) s = (Inr True, s')"
  shows "ev_inv s' B \<and> forward s s' \<and> claim s' (keAddress e) \<noteq> None"
proof -
  note w = claim_won [OF assms(3)]
  have f: "forward s s'" using w unfolding forward_def by (auto split: option.splits)
  have same: "keAddress x = keAddress e \<and> keOccurredAt x = keOccurredAt e" if "x \<in> stored s \<union> B" "event_id_key x = event_id_key e" for x
    using ev_inv_D(2) [OF assms(1), of e x] assms(2) that by (auto simp: same_decision_def)
  have w': "stored s' = stored s" "used s' = used s"
    "claim s' = (claim s)(keAddress e \<mapsto> \<lparr>csOccurredAt = keOccurredAt e, csEventKey = event_id_key e\<rparr>)"
    using w by blast+
  have e: "e \<in> stored s \<union> B" using assms(2) by blast
  have "ev_inv s' B"
  proof (rule ev_invI, unfold w'(1,2))
    fix a c assume c: "claim s' a = Some c"
    show "csEventKey c \<in> used s \<and> (\<forall>x\<in>stored s \<union> B. event_id_key x = csEventKey c \<longrightarrow>
        keAddress x = a \<and> keOccurredAt x = csOccurredAt c)"
    proof (cases "a = keAddress e")
      case True
      with c w'(3) have "c = \<lparr>csOccurredAt = keOccurredAt e, csEventKey = event_id_key e\<rparr>" by simp
      with same ev_inv_D(1) [OF assms(1) e] True show ?thesis by simp
    next
      case False
      with c w'(3) have "claim s a = Some c" by simp
      with ev_inv_claim_used [OF assms(1)] ev_inv_D(3) [OF assms(1)] show ?thesis by blast
    qed
  next
    fix x assume "x \<in> stored s \<union> B" "live x"
    with ev_inv_D(4) [OF assms(1)] w'(3) show "claim s' (keAddress x) \<noteq> None" by auto
  qed (use ev_inv_D(1,2) [OF assms(1)] in blast)+
  with f w'(3) show ?thesis by simp
qed

lemma ev_inv_create:
  assumes "ev_inv s B" "keCreate R e s = (Inr u, s')" "\<not> live e"
  shows "ev_inv s' (insert e B) \<and> claim s' = claim s"
proof -
  note c = create_ok [OF assms(2)]
  have sub: "x \<in> stored s' \<union> insert e B \<Longrightarrow> x = e \<or> x \<in> stored s \<union> B" for x using c by blast
  have fresh: "x \<in> stored s \<union> B \<Longrightarrow> event_id_key x \<noteq> event_id_key e" for x
    using ev_inv_D(1) [OF assms(1), of x] c by auto
  have cl: "claim s a = Some d \<Longrightarrow> csEventKey d \<noteq> event_id_key e \<and> csEventKey d \<in> used s" for a d
    using assms(1) c unfolding ev_inv_def by metis
  have refl: "same_decision e e" by (simp add: same_decision_def)
  have 1: "event_id_key x \<in> used s'" if "x \<in> stored s' \<union> insert e B" for x
    using sub [OF that] ev_inv_D(1) [OF assms(1), of x] c by auto
  have 2: "same_decision x y" if "x \<in> stored s' \<union> insert e B" "y \<in> stored s' \<union> insert e B" "event_id_key x = event_id_key y" for x y
    using sub [OF that(1)] sub [OF that(2)] that(3) fresh refl ev_inv_D(2) [OF assms(1)] by metis
  have 3: "csEventKey d \<in> used s' \<and> (\<forall>x\<in>stored s' \<union> insert e B. event_id_key x = csEventKey d \<longrightarrow>
      keAddress x = a \<and> keOccurredAt x = csOccurredAt d)" if "claim s' a = Some d" for a d
  proof -
    from that c have d: "claim s a = Some d" by simp
    have "keAddress x = a \<and> keOccurredAt x = csOccurredAt d" if "x \<in> stored s' \<union> insert e B" "event_id_key x = csEventKey d" for x
      using sub [OF that(1)] that(2) cl [OF d] ev_inv_D(3) [OF assms(1) _ d, of x] by auto
    with cl [OF d] c show ?thesis by simp
  qed
  have 4: "claim s' (keAddress x) \<noteq> None" if "x \<in> stored s' \<union> insert e B" "live x" for x
    using sub [OF that(1)] that(2) assms(3) ev_inv_D(4) [OF assms(1), of x] c by auto
  have "ev_inv s' (insert e B)" by (rule ev_invI) (fact 1 2 3 4)+
  with c show ?thesis by blast
qed

lemma same_decision_status [simp]:
  "same_decision e (e\<lparr>keApplyStatus := x\<rparr>)" "same_decision e (e\<lparr>keTxID := t, keApplyStatus := x\<rparr>)"
  "same_decision e (e\<lparr>keApplyStatus := x, keTxID := t\<rparr>)"
  by (simp_all add: same_decision_def)

lemma resolve_inv:
  assumes "resolve_claim R e holds s = (res, s')" "ev_inv s B" "e \<in> B" "holds \<Longrightarrow> claim s (keAddress e) \<noteq> None"
  shows "ev_inv s' B \<and> claim s' = claim s"
proof -
  let ?e = "e\<lparr>keApplyStatus := if holds then (if keOutcome e = ''Pending'' then KYCApplyRecorded else KYCApplyAccepted)
    else KYCApplySuperseded\<rparr>"
  obtain r t where u: "keUpdate R ?e s = (r, t)" by (cases "keUpdate R ?e s")
  have "s' = t" using assms(1) u by (auto simp: resolve_claim_def Let_def split: sum.splits)
  moreover have "ev_inv t B \<and> claim t = claim s"
  proof (rule ev_inv_write [OF assms(2) _ _ _ _ u])
    show "e \<in> stored s \<union> B" using assms(3) by blast
    show "live ?e \<Longrightarrow> claim s (keAddress ?e) \<noteq> None"
      using assms(4) by (cases holds) (simp_all add: live_def)
  qed simp_all
  ultimately show ?thesis by simp
qed

lemma current_same': "keCurrentClaim R a s = (x, s') \<Longrightarrow> s' = s"
  using current_same [of a s] by simp

lemma finalize_inv:
  assumes "finalizeClaim R e s = (res, s')" "ev_inv s B" "e \<in> B"
  shows "ev_inv s' B \<and> forward s s'"
proof -
  obtain c s1 where c: "keClaimLatest R (keAddress e) (keOccurredAt e) (event_id_key e) s = (c, s1)"
    by (cases "keClaimLatest R (keAddress e) (keOccurredAt e) (event_id_key e) s")
  consider err where "c = Inl err" | "c = Inr True" | "c = Inr False" by (metis (full_types) sum.exhaust)
  then show ?thesis
  proof cases
    case 1
    with c claim_fails have "s1 = s" by metis
    with assms c 1 forward_same show ?thesis by (auto simp: finalizeClaim_def Let_def)
  next
    case 2
    with ev_inv_claim [OF assms(2,3)] c have i: "ev_inv s1 B" "forward s s1" "claim s1 (keAddress e) \<noteq> None" by auto
    from assms(1) c 2 have "resolve_claim R e True s1 = (res, s')" by (simp add: finalizeClaim_def Let_def)
    from resolve_inv [OF this i(1) assms(3)] i forward_trans [OF i(2) forward_same] show ?thesis by blast
  next
    case 3
    with c claim_lost have s1: "s1 = s" by metis
    obtain k s2 where k: "keCurrentClaim R (keAddress e) s = (k, s2)" by (cases "keCurrentClaim R (keAddress e) s")
    have s2: "s2 = s" by (rule current_same' [OF k])
    show ?thesis
    proof (cases k)
      case (Inl err)
      show ?thesis
      proof (cases "err = ErrNotFound")
        case True
        from assms(1) c 3 s1 k s2 Inl True have "resolve_claim R e False s = (res, s')" by (simp add: finalizeClaim_def Let_def)
        from resolve_inv [OF this assms(2,3)] forward_same show ?thesis by simp
      next
        case False
        then have "s' = s" using assms(1) c 3 s1 k s2 Inl by (cases err) (auto simp: finalizeClaim_def Let_def)
        with assms(2) forward_same show ?thesis by simp
      qed
    next
      case (Inr cur)
      from assms(1) c 3 s1 k s2 Inr have "resolve_claim R e (cur = event_id_key e) s = (res, s')"
        by (simp add: finalizeClaim_def Let_def)
      moreover have "claim s (keAddress e) \<noteq> None" using current_found k Inr by blast
      ultimately show ?thesis using resolve_inv [OF _ assms(2,3)] forward_same by blast
    qed
  qed
qed

lemma process_inv:
  assumes "ProcessDecision R b58 sha investor now uuid raw wp override s = (res, s')" "ev_inv s B"
  shows "ev_inv s' B \<and> forward s s'"
proof -
  define h where "h = hex (sha raw)"
  define e where "e = webhook_event uuid now h wp"
  define ok where "ok = bind_res (check_decision b58 now wp) (\<lambda>_. check_ownership override (investor (wpAddress wp)))"
  have same: "ev_inv s B \<and> forward s s" using assms(2) forward_same by simp
  obtain x s1 where x: "keExists R h s = (x, s1)" by (cases "keExists R h s")
  have s1: "s1 = s" using exists_same [of h s] x by simp
  obtain c s2 where c: "keCreate R e s = (c, s2)" by (cases "keCreate R e s")
  obtain f s3 where f: "finalizeClaim R e s2 = (f, s3)" by (cases "finalizeClaim R e s2")
  obtain k s4 where k: "keCurrentClaim R (wpAddress wp) s3 = (k, s4)" by (cases "keCurrentClaim R (wpAddress wp) s3")
  have s4: "s4 = s3" by (rule current_same' [OF k])
  have cases: "s' = s \<or> (\<exists>u. c = Inr u) \<and> s' = s3"
  proof -
    have P: "ProcessDecision R b58 sha investor now uuid raw wp override s =
      (case x of Inl err \<Rightarrow> (Inl (StoreError err), s) | Inr True \<Rightarrow> (Inl ErrReplayed, s) | Inr False \<Rightarrow>
        (case ok of Inl err \<Rightarrow> (Inl err, s) | Inr _ \<Rightarrow>
          (case c of Inl err \<Rightarrow> (Inl (if err = ErrAlreadyExists then ErrReplayed else StoreError err), s2)
           | Inr _ \<Rightarrow> (case f of Inl err \<Rightarrow> (Inl (StoreError err), s3) | Inr True \<Rightarrow> (Inr wp, s3)
              | Inr False \<Rightarrow> (case k of Inr cur \<Rightarrow> (Inl (if cur = kycEventIDKey (wpProvider wp) (wpEventID wp) then ErrReplayed
                  else ErrStale), s3) | Inl _ \<Rightarrow> (Inl ErrStale, s3))))))"
      unfolding ProcessDecision_def Let_def h_def [symmetric] e_def [symmetric] ok_def [symmetric]
      using x s1 c f k s4 by (simp split: sum.split bool.split repo_error.split)
    show ?thesis
    proof (cases c)
      case (Inl err)
      with c create_fails have "s2 = s" by metis
      with assms(1) Inl show ?thesis unfolding P by (auto split: sum.splits bool.splits if_splits)
    next
      case (Inr u)
      with assms(1) show ?thesis unfolding P by (auto split: sum.splits bool.splits if_splits)
    qed
  qed
  show ?thesis
  proof (cases "s' = s")
    case True
    with same show ?thesis by simp
  next
    case False
    with cases obtain u where u: "c = Inr u" and s': "s' = s3" by blast
    have "\<not> live e" by (simp add: e_def webhook_event_def live_def)
    with ev_inv_create [OF assms(2) c [unfolded u]] have i: "ev_inv s2 (insert e B)" "claim s2 = claim s" by auto
    from finalize_inv [OF f i(1)] have "ev_inv s3 (insert e B)" "forward s2 s3" by auto
    with i(2) show ?thesis unfolding s' using ev_inv_subset [of s3 "insert e B" s3 B] by (auto simp: forward_def)
  qed
qed

lemma rec_update_inv:
  assumes "rec_update R e' k w = (res, k', w')" "ev_inv k B" "e \<in> B" "event_id_key e' = event_id_key e" "same_decision e e'"
    "live e' \<Longrightarrow> live e"
  shows "ev_inv k' B \<and> forward k k' \<and> w' = w"
proof -
  obtain r t where u: "keUpdate R e' k = (r, t)" by (cases "keUpdate R e' k")
  have "k' = t" "w' = w" using assms(1) u by (auto simp: rec_update_def split: sum.splits)
  moreover have "ev_inv t B \<and> claim t = claim k"
  proof (rule ev_inv_write [OF assms(2) _ assms(4,5) _ u])
    show "e \<in> stored k \<union> B" using assms(3) by blast
    show "live e' \<Longrightarrow> claim k (keAddress e') \<noteq> None"
      using assms(3,5,6) ev_inv_D(4) [OF assms(2), of e] by (auto simp: same_decision_def)
  qed
  ultimately show ?thesis using forward_same by blast
qed

text \<open>A visit keeps the invariant; it submits at most once, and only an event that holds the claim
  of its wallet.\<close>

lemma submit_inv:
  assumes "submit R (noting W) e k (w, []) = (res, k', w', calls)" "ev_inv k B" "e \<in> B" "live e"
  shows "ev_inv k' B \<and> forward k k' \<and> calls \<in> {[], [the_call e]}"
proof (cases "wrSetStatus W")
  case None
  with assms forward_same show ?thesis by (auto simp: submit_def noting_def)
next
  case (Some f)
  show ?thesis
  proof (cases "StatusFromString (keOutcome e)")
    case None
    with assms(1) Some have "rec_update R (e\<lparr>keApplyStatus := KYCApplyFailed\<rparr>) k (w, []) = (res, k', w', calls)"
      by (simp add: submit_def noting_def)
    from rec_update_inv [OF this assms(2,3)] show ?thesis by (simp add: live_def)
  next
    case st: (Some v)
    obtain r w1 where c: "f (submit_key e) (keAddress e) v (word_of_int (keValidUntil e)) w = (r, w1)"
      by (cases "f (submit_key e) (keAddress e) v (word_of_int (keValidUntil e)) w")
    have v: "[(submit_key e, keAddress e, v, word_of_int (keValidUntil e))] = [the_call e]"
      using st by (auto simp: the_call_def StatusFromString_def split: if_splits)
    show ?thesis
    proof (cases r)
      case (Inl err)
      with assms c Some st v forward_same show ?thesis by (auto simp: submit_def noting_def)
    next
      case (Inr tx)
      with assms(1) c Some st have "rec_update R (e\<lparr>keTxID := txID tx, keApplyStatus := KYCApplyApplying\<rparr>) k
          (w1, [(submit_key e, keAddress e, v, word_of_int (keValidUntil e))]) = (res, k', w', calls)"
        by (simp add: submit_def noting_def)
      from rec_update_inv [OF this assms(2,3)] assms(4) v show ?thesis by simp
    qed
  qed
qed

lemma check_inv:
  assumes "checkSubmitted R (noting W) e k (w, []) = (res, k', w', calls)" "ev_inv k B" "e \<in> B" "live e"
  shows "ev_inv k' B \<and> forward k k' \<and> calls = []"
proof -
  have up: "ev_inv k' B \<and> forward k k' \<and> calls = []"
    if "rec_update R e' k (w1, []) = (res, k', w', calls)" "event_id_key e' = event_id_key e" "same_decision e e'" for e' w1
    using rec_update_inv [OF that(1) assms(2,3) that(2,3)] assms(4) by simp
  obtain r w1 where g: "wrGet W (keTxID e) w = (r, w1)" by (cases "wrGet W (keTxID e) w")
  show ?thesis
  proof (cases "keTxID e = ''''")
    case True
    with assms(1) up show ?thesis by (simp add: checkSubmitted_def)
  next
    case txid: False
    show ?thesis
    proof (cases r)
      case (Inl err)
      show ?thesis
      proof (cases "err = ErrNotFound")
        case True
        with assms(1) txid g Inl have "rec_update R (e\<lparr>keApplyStatus := KYCApplyAccepted, keTxID := ''''\<rparr>) k (w1, []) = (res, k', w', calls)"
          by (simp add: checkSubmitted_def noting_def)
        from up [OF this] show ?thesis by simp
      next
        case False
        with assms txid g Inl forward_same show ?thesis by (cases err) (auto simp: checkSubmitted_def noting_def)
      qed
    next
      case (Inr tx)
      note c = assms(1) txid g Inr
      show ?thesis
      proof (cases "txStatus tx")
        case TxConfirmed
        with c have "rec_update R (e\<lparr>keApplyStatus := KYCApplyApplied\<rparr>) k (w1, []) = (res, k', w', calls)"
          by (simp add: checkSubmitted_def noting_def)
        from up [OF this] show ?thesis by simp
      next
        case TxFailed
        with c have "rec_update R (e\<lparr>keApplyStatus := KYCApplyAccepted, keTxID := ''''\<rparr>) k (w1, []) = (res, k', w', calls)"
          by (simp add: checkSubmitted_def noting_def)
        from up [OF this] show ?thesis by simp
      next
        case TxPending
        with c assms(2) forward_same show ?thesis by (auto simp: checkSubmitted_def noting_def)
      qed
    qed
  qed
qed

lemma advance_inv:
  assumes "advance R (noting W) e k (w, []) = (res, k', w', calls)" "ev_inv k B" "e \<in> B"
  shows "ev_inv k' B \<and> forward k k' \<and> calls \<in> {[], [the_call e]} \<and> (calls \<noteq> [] \<longrightarrow> live e)"
proof (cases "keApplyStatus e")
  case KYCApplyAccepted
  with submit_inv [OF _ assms(2,3)] assms(1) show ?thesis by (simp add: advance_def live_def)
next
  case KYCApplyApplying
  then have "live e" "checkSubmitted R (noting W) e k (w, []) = (res, k', w', calls)"
    using assms(1) by (simp_all add: advance_def live_def)
  from check_inv [OF this(2) assms(2,3) this(1)] this show ?thesis by simp
qed (use assms forward_same in \<open>auto simp: advance_def\<close>)

lemma visit_inv:
  assumes "reconcileOne R (noting W) e k (w, []) = (res, k', w', calls)" "ev_inv k B" "e \<in> B"
  shows "ev_inv k' B \<and> forward k k' \<and> calls \<in> {[], [the_call e]} \<and>
    (calls \<noteq> [] \<longrightarrow> claim k (keAddress e) = Some \<lparr>csOccurredAt = keOccurredAt e, csEventKey = event_id_key e\<rparr>)"
proof (cases "keApplyStatus e = KYCApplyClaiming")
  case True
  obtain f k1 where f: "finalizeClaim R e k = (f, k1)" by (cases "finalizeClaim R e k")
  from assms(1) True f have "k' = k1 \<and> calls = []" by (auto simp: reconcileOne_def split: sum.splits)
  with finalize_inv [OF f assms(2,3)] show ?thesis by simp
next
  case False
  obtain c k1 where c: "keCurrentClaim R (keAddress e) k = (c, k1)" by (cases "keCurrentClaim R (keAddress e) k")
  have k1: "k1 = k" by (rule current_same' [OF c])
  show ?thesis
  proof (cases c)
    case (Inl err)
    show ?thesis
    proof (cases "err = ErrNotFound")
      case True
      with assms(1) False c k1 Inl have "advance R (noting W) e k (w, []) = (res, k', w', calls)" by (simp add: reconcileOne_def)
      note a = advance_inv [OF this assms(2,3)]
      moreover have "\<not> live e"
        using current_none [of "keAddress e" k k1] c Inl True ev_inv_D(4) [OF assms(2), of e] assms(3) by auto
      ultimately show ?thesis by blast
    next
      case err: False
      with assms(1) False c k1 Inl have "k' = k \<and> calls = []" by (cases err) (auto simp: reconcileOne_def)
      with assms(2) forward_same show ?thesis by simp
    qed
  next
    case (Inr cur)
    obtain d where d: "claim k (keAddress e) = Some d" "csEventKey d = cur" using current_found c Inr by blast
    show ?thesis
    proof (cases "cur = event_id_key e")
      case True
      with assms(1) False c k1 Inr have "advance R (noting W) e k (w, []) = (res, k', w', calls)" by (simp add: reconcileOne_def)
      note a = advance_inv [OF this assms(2,3)]
      have "d = \<lparr>csOccurredAt = keOccurredAt e, csEventKey = event_id_key e\<rparr>"
        using ev_inv_D(3) [OF assms(2) _ d(1), of e] assms(3) d(2) True by (cases d) auto
      with a d(1) show ?thesis by simp
    next
      case cur: False
      with assms(1) False c k1 Inr have "rec_update R (e\<lparr>keApplyStatus := KYCApplySuperseded\<rparr>) k (w, []) = (res, k', w', calls)"
        by (simp add: reconcileOne_def)
      from rec_update_inv [OF this assms(2,3)] show ?thesis by (simp add: live_def)
    qed
  qed
qed

definition run_inv :: "('k, 'w) wh_run \<Rightarrow> bool" where
  "run_inv r \<longleftrightarrow> ev_inv (whStore r) (set (whBatch r)) \<and> sorted_wrt not_after (whSubmitted r) \<and>
     (\<forall>e\<in>set (whSubmitted r). \<exists>c. claim (whStore r) (keAddress e) = Some c \<and> up_to e c)"

lemma up_to_forward: "up_to e c \<Longrightarrow> claim s (keAddress e) = Some c \<Longrightarrow> forward s s' \<Longrightarrow>
  \<exists>c'. claim s' (keAddress e) = Some c' \<and> up_to e c'"
  unfolding forward_def up_to_def by (smt (verit) order.strict_trans order.strict_trans1 less_imp_le)

lemma run_inv_forward: "run_inv r \<Longrightarrow> forward (whStore r) k \<Longrightarrow> ev_inv k (set es) \<Longrightarrow>
  run_inv (r\<lparr>whStore := k, whWriter := w, whBatch := es\<rparr>)"
  unfolding run_inv_def using up_to_forward by fastforce

lemma step_run_inv: "wh_step R W b58 sha r r' \<Longrightarrow> run_inv r \<Longrightarrow> run_inv r'"
proof (induction rule: wh_step.induct)
  case (delivered investor now uuid raw wp override r res k)
  have "ev_inv (whStore r) (set (whBatch r))" using delivered.prems by (simp add: run_inv_def)
  from process_inv [OF delivered.hyps this] run_inv_forward [OF delivered.prems, of k "whBatch r" "whWriter r"] show ?case by simp
next
  case (tick r pending k)
  have k: "k = whStore r" using pending_same [of "whStore r"] tick.hyps by simp
  have "ev_inv (whStore r) (set (whBatch r))" using tick.prems by (simp add: run_inv_def)
  then have "ev_inv (whStore r) (set pending)"
    using pending_sound [OF tick.hyps] ev_inv_subset [of "whStore r" "set (whBatch r)" "whStore r" "set pending"] by blast
  from run_inv_forward [OF tick.prems forward_same this, of "whWriter r"] k show ?case by simp
next
  case (visited r e es res k w calls)
  have i: "ev_inv (whStore r) (set (whBatch r))" using visited.prems by (simp add: run_inv_def)
  have e: "e \<in> set (whBatch r)" using visited.hyps(1) by simp
  note v = visit_inv [OF visited.hyps(2) i e]
  then have f: "forward (whStore r) k" and k: "ev_inv k (set (whBatch r))" by blast+
  have "ev_inv k (set es)" using k ev_inv_subset [of k "set (whBatch r)" k "set es"] visited.hyps(1) by auto
  from run_inv_forward [OF visited.prems f this, of w]
  have base: "run_inv (r\<lparr>whStore := k, whWriter := w, whBatch := es\<rparr>)" .
  show ?case
  proof (cases "calls = []")
    case True
    with base show ?thesis by simp
  next
    case False
    with v have c: "calls = [the_call e]"
      and cl: "claim (whStore r) (keAddress e) = Some \<lparr>csOccurredAt = keOccurredAt e, csEventKey = event_id_key e\<rparr>" by auto
    have "not_after x e" if "x \<in> set (whSubmitted r)" for x
    proof -
      from visited.prems that obtain d where "claim (whStore r) (keAddress x) = Some d" "up_to x d" by (auto simp: run_inv_def)
      with cl show ?thesis by (auto simp: not_after_def up_to_def)
    qed
    moreover have "\<exists>c. claim k (keAddress e) = Some c \<and> up_to e c"
      by (rule up_to_forward [OF _ cl f]) (simp add: up_to_def)
    ultimately show ?thesis using base c by (auto simp: run_inv_def sorted_wrt_append)
  qed
next
  case (other_writer r w)
  then show ?case by (simp add: run_inv_def)
qed

lemma submissions_in_order:
  assumes "stored k0 = {}" "claim k0 = (\<lambda>_. None)" "(wh_step R W b58 sha)\<^sup>*\<^sup>* (wh_init k0 w0) r"
  shows "sorted_wrt not_after (whSubmitted r)"
proof -
  have "run_inv (wh_init k0 w0)" using assms(1,2) by (simp add: run_inv_def wh_init_def ev_inv_def)
  with assms(3) have "run_inv r" by (induction rule: rtranclp_induct) (auto dest: step_run_inv)
  then show ?thesis by (simp add: run_inv_def)
qed

end

text \<open>C16: no stale decision after a newer one. However webhook deliveries, store failures, other
  writers and the visits of the reconciler interleave, the decisions whose status is submitted for a
  wallet are submitted in the order in which they were made, by time of occurrence and then event
  key: once a newer decision has been submitted no older one ever is.\<close>

theorem decisions_submitted_in_order:
  assumes "claim_store R stored used claim" and "stored k0 = {}" and "claim k0 = (\<lambda>_. None)"
    and "(wh_step R W b58 sha)\<^sup>*\<^sup>* (wh_init k0 w0) r"
  shows "sorted_wrt not_after (whSubmitted r)"
  by (rule claim_store.submissions_in_order [OF assms])

section \<open>A decision reaches the chain\<close>

lemma memUpdate_hit:
  "map_of (byID k) (keID e) \<noteq> None \<Longrightarrow> keUpdate memoryKyc e k = (Inr (), k\<lparr>byID := AList.update (keID e) e (byID k)\<rparr>)"
  by (auto simp: memoryKyc_def memKycUpdate_def)

definition claimable :: "KYCEvent \<Rightarrow> KYCEventRepository \<Rightarrow> bool" where
  "claimable e k \<longleftrightarrow> (case map_of (claims k) (keAddress e) of None \<Rightarrow> True
     | Some c \<Rightarrow> outranks (keOccurredAt e) (event_id_key e) c \<or> csEventKey c = event_id_key e)"

definition holds_claim :: "KYCEvent \<Rightarrow> KYCEventRepository \<Rightarrow> bool" where
  "holds_claim e k \<longleftrightarrow> (\<exists>c. map_of (claims k) (keAddress e) = Some c \<and> csEventKey c = event_id_key e)"

lemma visit_claiming:
  assumes "keApplyStatus e = KYCApplyClaiming" "map_of (byID k) (keID e) = Some e" "claimable e k" "keOutcome e \<noteq> ''Pending''"
  shows "\<exists>k1. reconcileOne memoryKyc W e k w = (Inr (), k1, w) \<and>
    map_of (byID k1) (keID e) = Some (e\<lparr>keApplyStatus := KYCApplyAccepted\<rparr>) \<and> holds_claim e k1"
proof -
  let ?e = "e\<lparr>keApplyStatus := KYCApplyAccepted\<rparr>"
  obtain won k0 where c: "keClaimLatest memoryKyc (keAddress e) (keOccurredAt e) (event_id_key e) k = (Inr won, k0)"
    and b: "byID k0 = byID k" and h: "won \<Longrightarrow> holds_claim e k0" and l: "\<not> won \<Longrightarrow> k0 = k \<and> holds_claim e k"
  proof -
    let ?c = "\<lparr>csOccurredAt = keOccurredAt e, csEventKey = event_id_key e\<rparr>"
    let ?k = "k\<lparr>claims := AList.update (keAddress e) ?c (claims k)\<rparr>"
    let ?call = "keClaimLatest memoryKyc (keAddress e) (keOccurredAt e) (event_id_key e) k"
    note finish = that
    have won: thesis if "?call = (Inr True, ?k)"
      by (rule finish [OF that]) (simp_all add: holds_claim_def update_conv)
    show thesis
    proof (cases "map_of (claims k) (keAddress e)")
      case None
      then show ?thesis by (intro won) (simp add: memoryKyc_def memClaimLatest_def Let_def)
    next
      case (Some d)
      show ?thesis
      proof (cases "outranks (keOccurredAt e) (event_id_key e) d")
        case True
        with Some show ?thesis by (intro won) (auto simp: memoryKyc_def memClaimLatest_def claimIsNewer_iff Let_def)
      next
        case False
        with Some assms(3) have h: "holds_claim e k" by (auto simp: claimable_def holds_claim_def)
        have "?call = (Inr False, k)"
          using False Some by (auto simp: memoryKyc_def memClaimLatest_def claimIsNewer_iff Let_def)
        then show ?thesis by (rule finish) (use h in simp_all)
      qed
    qed
  qed
  have r: "resolve_claim memoryKyc e True k0 = (Inr True, k0\<lparr>byID := AList.update (keID e) ?e (byID k0)\<rparr>)"
    using assms(2,4) b memUpdate_hit [of k0 ?e] by (simp add: resolve_claim_def)
  have f: "finalizeClaim memoryKyc e k = (Inr True, k0\<lparr>byID := AList.update (keID e) ?e (byID k0)\<rparr>)"
  proof (cases won)
    case True
    with c r show ?thesis by (simp add: finalizeClaim_def)
  next
    case False
    with l have "k0 = k" "holds_claim e k" by auto
    then have "keCurrentClaim memoryKyc (keAddress e) k = (Inr (event_id_key e), k)"
      by (auto simp: holds_claim_def memoryKyc_def memCurrentClaim_def)
    with False c r \<open>k0 = k\<close> show ?thesis by (simp add: finalizeClaim_def)
  qed
  have "holds_claim e (k0\<lparr>byID := AList.update (keID e) ?e (byID k0)\<rparr>)"
    using h l by (cases won) (auto simp: holds_claim_def)
  with f assms(1) show ?thesis by (simp add: reconcileOne_def update_conv)
qed

lemma visit_holder:
  assumes "keApplyStatus e \<noteq> KYCApplyClaiming" "holds_claim e k"
  shows "reconcileOne memoryKyc W e k w = advance memoryKyc W e k w"
  using assms by (auto simp: reconcileOne_def holds_claim_def memoryKyc_def memCurrentClaim_def)

text \<open>C17: a decision gets applied. Three visits bring a durably recorded Allowed or Blocked decision
  that no newer one has overtaken from Claiming to Applied when the write goes through and its
  transaction is confirmed: also when the process that recorded it died before resolving its claim.\<close>

theorem decision_applied:
  assumes "keApplyStatus e = KYCApplyClaiming" "map_of (byID k) (keID e) = Some e" "claimable e k"
    and "StatusFromString (keOutcome e) = Some status" "wrSetStatus W = Some f"
    and "f (submit_key e) (keAddress e) status (word_of_int (keValidUntil e)) w = (Inr tx, w1)" "txID tx \<noteq> ''''"
    and "wrGet W (txID tx) w1 = (Inr tx', w2)" "txStatus tx' = TxConfirmed"
  shows "\<exists>k1 e1 k2 e2 k3. reconcileOne memoryKyc W e k w = (Inr (), k1, w) \<and> map_of (byID k1) (keID e) = Some e1 \<and>
    reconcileOne memoryKyc W e1 k1 w = (Inr (), k2, w1) \<and> map_of (byID k2) (keID e) = Some e2 \<and>
    reconcileOne memoryKyc W e2 k2 w1 = (Inr (), k3, w2) \<and>
    map_of (byID k3) (keID e) = Some (e\<lparr>keTxID := txID tx, keApplyStatus := KYCApplyApplied\<rparr>)"
proof -
  have "keOutcome e \<noteq> ''Pending''" using assms(4) by (auto simp: StatusFromString_def)
  from visit_claiming [OF assms(1-3) this, of W w] obtain k1 where v1: "reconcileOne memoryKyc W e k w = (Inr (), k1, w)"
    and e1: "map_of (byID k1) (keID e) = Some (e\<lparr>keApplyStatus := KYCApplyAccepted\<rparr>)" and h1: "holds_claim e k1" by blast
  let ?e1 = "e\<lparr>keApplyStatus := KYCApplyAccepted\<rparr>"
  let ?e2 = "e\<lparr>keTxID := txID tx, keApplyStatus := KYCApplyApplying\<rparr>"
  let ?e3 = "e\<lparr>keTxID := txID tx, keApplyStatus := KYCApplyApplied\<rparr>"
  let ?k2 = "k1\<lparr>byID := AList.update (keID e) ?e2 (byID k1)\<rparr>"
  let ?k3 = "?k2\<lparr>byID := AList.update (keID e) ?e3 (byID ?k2)\<rparr>"
  have h: "holds_claim ?e1 k1" "holds_claim ?e2 ?k2" using h1 by (simp_all add: holds_claim_def)
  have key: "submit_key ?e1 = submit_key e" by (simp add: submit_key_def)
  have u2: "keUpdate memoryKyc ?e2 k1 = (Inr (), ?k2)" using memUpdate_hit [of k1 ?e2] e1 by simp
  have v2: "reconcileOne memoryKyc W ?e1 k1 w = (Inr (), ?k2, w1)"
    using assms(4-6) u2 key by (simp add: visit_holder [OF _ h(1)] advance_def submit_def rec_update_def)
  have e2: "map_of (byID ?k2) (keID e) = Some ?e2" by (simp add: update_conv)
  have u3: "keUpdate memoryKyc ?e3 ?k2 = (Inr (), ?k3)" using memUpdate_hit [of ?k2 ?e3] e2 by simp
  have v3: "reconcileOne memoryKyc W ?e2 ?k2 w1 = (Inr (), ?k3, w2)"
    using assms(7-9) u3 by (simp add: visit_holder [OF _ h(2)] advance_def checkSubmitted_def rec_update_def)
  have "map_of (byID ?k3) (keID e) = Some ?e3" by (simp add: update_conv)
  with v1 e1 v2 e2 v3 show ?thesis by blast
qed

section \<open>Concrete runs\<close>

definition demo_sha :: "bytes \<Rightarrow> bytes" where "demo_sha b = take 1 b"

definition demo_writer :: "unit writer" where
  "demo_writer = \<lparr>wrSetStatus = Some (\<lambda>key account status vu w. (Inr failed_tx, w)),
     wrGet = (\<lambda>i w. (Inr (failed_tx\<lparr>txStatus := TxConfirmed\<rparr>), w))\<rparr>"

definition deliver :: "string \<Rightarrow> byte \<Rightarrow> WebhookPayload \<Rightarrow> (KYCEventRepository, unit) wh_run \<Rightarrow> (KYCEventRepository, unit) wh_run" where
  "deliver uuid raw wp r = r\<lparr>whStore := snd (ProcessDecision memoryKyc (b58dec demo_crypto) demo_sha
     (\<lambda>_. Inl ErrNotFound) demo_now uuid [raw] wp True (whStore r))\<rparr>"

definition start_tick :: "(KYCEventRepository, unit) wh_run \<Rightarrow> (KYCEventRepository, unit) wh_run" where
  "start_tick r = (case memKycListPending (whStore r) of (Inr es, k) \<Rightarrow> r\<lparr>whStore := k, whBatch := es\<rparr> | _ \<Rightarrow> r)"

definition visit :: "(KYCEventRepository, unit) wh_run \<Rightarrow> (KYCEventRepository, unit) wh_run" where
  "visit r = (case whBatch r of [] \<Rightarrow> r | e # es \<Rightarrow>
     (case reconcileOne memoryKyc (noting demo_writer) e (whStore r) (whWriter r, []) of
        (res, k, w, calls) \<Rightarrow> r\<lparr>whStore := k, whWriter := w, whBatch := es,
          whSubmitted := whSubmitted r @ map (\<lambda>_. e) calls\<rparr>))"

abbreviation "demo_steps \<equiv> (wh_step memoryKyc demo_writer (b58dec demo_crypto) demo_sha)\<^sup>*\<^sup>*"

lemma deliver_steps: "demo_steps r0 r \<Longrightarrow> demo_steps r0 (deliver uuid raw wp r)"
  unfolding deliver_def by (rule rtranclp.rtrancl_into_rtrancl, assumption, rule delivered) (rule surjective_pairing)

lemma tick_steps: "demo_steps r0 r \<Longrightarrow> demo_steps r0 (start_tick r)"
proof -
  assume r: "demo_steps r0 r"
  obtain es where es: "memKycListPending (whStore r) = (Inr es, whStore r)" by (simp add: memKycListPending_def)
  then have "keListPending memoryKyc (whStore r) = (Inr es, whStore r)" by (simp add: memoryKyc_def)
  from rtranclp.rtrancl_into_rtrancl [OF r wh_step.tick [where R = memoryKyc and r = r, OF this]] es
  show ?thesis by (simp add: start_tick_def)
qed

lemma visit_steps: "demo_steps r0 r \<Longrightarrow> demo_steps r0 (visit r)"
proof -
  assume r: "demo_steps r0 r"
  show ?thesis
  proof (cases "whBatch r")
    case Nil
    with r show ?thesis by (simp add: visit_def)
  next
    case (Cons e es)
    obtain res k w calls where v: "reconcileOne memoryKyc (noting demo_writer) e (whStore r) (whWriter r, []) = (res, k, w, calls)"
      by (metis prod_cases4)
    from rtranclp.rtrancl_into_rtrancl [OF r visited [OF Cons v]] Cons v show ?thesis by (simp add: visit_def)
  qed
qed

text \<open>An Allowed decision is submitted, then a later Blocked one.\<close>

definition run_two :: "(KYCEventRepository, unit) wh_run" where
  "run_two = visit (visit (start_tick (deliver ''u2'' 2 (demo_wp ''b'' ''Blocked'' 1700000000 0)
     (visit (start_tick (deliver ''u1'' 1 (demo_wp ''a'' ''Allowed'' 1699999999 0) (wh_init newKYCEventRepository ())))))))"

text \<open>A decision that says nothing hides one that matters. A Blocked decision is recorded; before
  the reconciler's next visit a newer Pending decision for the wallet arrives. The Pending one takes
  the claim and has no effect on the chain, the Blocked one is superseded: nothing is ever submitted
  and nothing is left to do.\<close>

theorem pending_hides_blocked:
  "let r1 = deliver ''u1'' 1 (demo_wp ''a'' ''Blocked'' 1699999999 0) (wh_init newKYCEventRepository ());
       r2 = deliver ''u2'' 2 (demo_wp ''b'' ''Pending'' 1700000000 0) r1; r3 = visit (start_tick r2)
   in map keApplyStatus (map snd (byID (whStore r1))) = [KYCApplyAccepted] \<and> whBatch (start_tick r2) \<noteq> [] \<and>
      whSubmitted r3 = [] \<and> map keApplyStatus (map snd (byID (whStore r3))) = [KYCApplySuperseded, KYCApplyRecorded] \<and>
      fst (memKycListPending (whStore r3)) = Inr []"
  by code_simp

theorem decisions_submitted_in_order_witness:
  "sorted_wrt not_after (whSubmitted run_two) \<and> map keOutcome (whSubmitted run_two) = [''Allowed'', ''Blocked'']"
proof
  have "demo_steps (wh_init newKYCEventRepository ()) run_two"
    unfolding run_two_def by (intro visit_steps tick_steps deliver_steps rtranclp.rtrancl_refl)
  from decisions_submitted_in_order [OF mk.claim_store_axioms _ _ this]
  show "sorted_wrt not_after (whSubmitted run_two)" by (simp add: newKYCEventRepository_def memStored_def)
  show "map keOutcome (whSubmitted run_two) = [''Allowed'', ''Blocked'']" by code_simp
qed

theorem decision_applied_witness: "\<exists>k1 e1 k2 e2 k3 e.
  reconcileOne memoryKyc demo_writer e (newKYCEventRepository\<lparr>byID := [(''i'', e)]\<rparr>) () = (Inr (), k1, ()) \<and>
  reconcileOne memoryKyc demo_writer e1 k1 () = (Inr (), k2, ()) \<and> reconcileOne memoryKyc demo_writer e2 k2 () = (Inr (), k3, ()) \<and>
  map_of (byID k3) ''i'' = Some (e\<lparr>keTxID := ''u'', keApplyStatus := KYCApplyApplied\<rparr>)"
proof -
  define e where "e = webhook_event ''i'' 0 ''h'' (demo_wp ''a'' ''Blocked'' 1700000000 0)"
  define k where "k = newKYCEventRepository\<lparr>byID := [(''i'', e)]\<rparr>"
  have e: "keID e = ''i''" "keApplyStatus e = KYCApplyClaiming" "StatusFromString (keOutcome e) = Some OnChainStatusBlocked"
    by (simp_all add: e_def webhook_event_def demo_wp_def StatusFromString_def)
  have k: "map_of (byID k) (keID e) = Some e" "claimable e k"
    by (simp_all add: k_def e claimable_def newKYCEventRepository_def)
  have w: "wrSetStatus demo_writer = Some (\<lambda>key account status vu w. (Inr failed_tx, w))"
    "wrGet demo_writer (txID failed_tx) () = (Inr (failed_tx\<lparr>txStatus := TxConfirmed\<rparr>), ())" by (simp_all add: demo_writer_def)
  have u: "txID failed_tx = ''u''" by (simp add: failed_tx_def ss_newTx_def demo_env_def)
  have "\<exists>k1 e1 k2 e2 k3. reconcileOne memoryKyc demo_writer e k () = (Inr (), k1, ()) \<and> map_of (byID k1) (keID e) = Some e1 \<and>
    reconcileOne memoryKyc demo_writer e1 k1 () = (Inr (), k2, ()) \<and> map_of (byID k2) (keID e) = Some e2 \<and>
    reconcileOne memoryKyc demo_writer e2 k2 () = (Inr (), k3, ()) \<and>
    map_of (byID k3) (keID e) = Some (e\<lparr>keTxID := txID failed_tx, keApplyStatus := KYCApplyApplied\<rparr>)"
    by (rule decision_applied [OF e(2) k e(3) w(1) _ _ w(2)]) (simp_all add: u)
  then show ?thesis unfolding k_def e(1) u by blast
qed

end
