(* ===== verification/Projection.thy ===== *)
theory Projection
  imports ChainStore "HOL-Library.Multiset"
begin

text \<open>
  What the read-model projectors of the server share (\<^verbatim>\<open>redemption\<close>, \<^verbatim>\<open>sales\<close>, \<^verbatim>\<open>compliance\<close>,
  \<^verbatim>\<open>txindex\<close>): reading \<^verbatim>\<open>map[string]any\<close> data, the replay order of events, collecting the events
  of several names, and the generation-swap rebuild: upsert every derived record under a fresh
  generation, then delete what carries another one. The locale \<open>generation_store\<close> states what
  a rebuild relies on; its lemmas give the contents after a rebuild and the absence of a gap
  at every moment of one.
\<close>

section \<open>Event data\<close>

text \<open>A missing key of a Go map of \<^verbatim>\<open>any\<close> reads as nil, here \<open>None\<close>.\<close>

definition toString :: "dval option \<Rightarrow> string" where
  "toString v = (case v of Some (DStr s) \<Rightarrow> s | _ \<Rightarrow> '''')"

lemma toString_simps [simp]: "toString None = ''''" "toString (Some (DStr s)) = s"
  by (simp_all add: toString_def)

section \<open>Replay order\<close>

definition event_order :: "ChainEvent \<Rightarrow> u64 \<times> nat \<times> string" where
  "event_order e = (evBlockNumber e, evLogIndex e, evTxHash e)"

definition sort_events :: "ChainEvent list \<Rightarrow> ChainEvent list" where
  "sort_events events = sort_key event_order events"

lemma set_sort_events [simp]: "set (sort_events es) = set es"
  by (simp add: sort_events_def)

lemma mset_sort_events [simp]: "mset (sort_events es) = mset es"
  by (simp add: sort_events_def)

lemma filter_sort_events: "filter P (sort_events es) = sort_events (filter P es)"
  by (simp add: sort_events_def filter_sort)

text \<open>Events that differ in their position have one replay order, whatever order they are listed in.\<close>

lemma sort_events_unique:
  assumes "mset xs = mset ys" "inj_on event_order (set ys)" "distinct ys"
  shows "sort_events xs = sort_events ys"
  unfolding sort_events_def
proof (rule properties_for_sort_key)
  show "mset (sort_key event_order ys) = mset xs" using assms(1) by simp
  show "sorted (map event_order (sort_key event_order ys))" by simp
  have d: "distinct xs" using assms(1,3) by (metis mset_eq_imp_distinct_iff)
  have set: "set xs = set ys" using assms(1) by (metis set_mset_mset)
  have single: "filter (\<lambda>x. event_order k = event_order x) zs = [k]"
    if "k \<in> set zs" "inj_on event_order (set zs)" "distinct zs" for k zs
    using that
  proof (induction zs)
    case (Cons z zs)
    show ?case
    proof (cases "z = k")
      case True
      then have "filter (\<lambda>x. event_order k = event_order x) zs = []"
        using Cons.prems by (auto simp: filter_empty_conv inj_on_def)
      with True show ?thesis by simp
    next
      case False
      with Cons.prems have "event_order k \<noteq> event_order z" by (auto simp: inj_on_def)
      with Cons False show ?thesis by simp
    qed
  qed simp
  fix k assume "k \<in> set (sort_key event_order ys)"
  then have k: "k \<in> set ys" by simp
  show "filter (\<lambda>x. event_order k = event_order x) (sort_key event_order ys) =
      filter (\<lambda>x. event_order k = event_order x) xs"
    using single [of k xs] single [of k "sort_key event_order ys"] k set assms(2,3) d by simp
qed

section \<open>Collecting events\<close>

text \<open>\<^verbatim>\<open>ListByName\<close> for a fixed chain and program, called for each name in turn.\<close>

fun list_names :: "(string \<Rightarrow> repo_error + ChainEvent list) \<Rightarrow> string list \<Rightarrow> (string \<times> repo_error) + ChainEvent list" where
  "list_names L [] = Inr []"
| "list_names L (name # names) =
     (case L name of
        Inl err \<Rightarrow> Inl (name, err)
      | Inr evs \<Rightarrow> bind_res (list_names L names) (\<lambda>rest. Inr (evs @ rest)))"

definition lists :: "ChainEvent list \<Rightarrow> (string \<Rightarrow> repo_error + ChainEvent list) \<Rightarrow> bool" where
  "lists evs L \<longleftrightarrow> (\<forall>name es. L name = Inr es \<longrightarrow> mset es = mset (filter (\<lambda>e. evName e = name) evs))"

lemma list_names_mset:
  assumes "lists evs L" "distinct names" "list_names L names = Inr all"
  shows "mset all = mset (filter (\<lambda>e. evName e \<in> set names) evs)"
  using assms(2,3)
proof (induction names arbitrary: all)
  case (Cons name names)
  from Cons.prems(2) obtain es rest where c: "L name = Inr es" "list_names L names = Inr rest" "all = es @ rest"
    by (auto simp: res_iff split: sum.splits)
  have "mset (filter (\<lambda>e. evName e \<in> set (name # names)) evs) =
      mset (filter (\<lambda>e. evName e = name) evs) + mset (filter (\<lambda>e. evName e \<in> set names) evs)"
    using Cons.prems(1) by (induction evs) auto
  moreover have "mset es = mset (filter (\<lambda>e. evName e = name) evs)" using assms(1) c(1) by (simp add: lists_def)
  ultimately show ?case using Cons.IH [OF _ c(2)] Cons.prems(1) c(3) by simp
qed simp

lemma lists_memory:
  "lists (map snd (filter (\<lambda>(k, v). evChainID v = chainID \<and> evAddress v = address) m))
     (\<lambda>name. Inr (memListByName chainID address name m))"
  unfolding lists_def memListByName_def
  by (auto simp: filter_map filter_filter o_def case_prod_beta conj_ac intro!: arg_cong [where f = "image_mset snd"]
      arg_cong [where f = mset] filter_cong)

text \<open>Go ranges over a map in an order of its own choice: any permutation of the entries.\<close>

definition range_order :: "('x list \<Rightarrow> 'x list) \<Rightarrow> bool" where
  "range_order ord \<longleftrightarrow> (\<forall>xs. mset (ord xs) = mset xs)"

lemma range_order_set: "range_order ord \<Longrightarrow> set (ord xs) = set xs"
  unfolding range_order_def by (metis set_mset_mset)

lemma range_order_distinct: "range_order ord \<Longrightarrow> distinct (map f (ord xs)) \<longleftrightarrow> distinct (map f xs)"
  unfolding range_order_def by (metis distinct_map mset_eq_imp_distinct_iff set_mset_mset)

lemma range_order_map:
  assumes "range_order ord" "distinct (map fst m)"
  shows "map_of (ord m) = map_of m"
proof
  fix j
  from assms have "distinct (map fst (ord m))" by (simp add: range_order_distinct)
  then show "map_of (ord m) j = map_of m j"
    using assms(2) range_order_set [OF assms(1)] by (metis map_of_eq_Some_iff option.exhaust)
qed

section \<open>Rebuilding by generation\<close>

record ('x, 's) swap_repo =
  swUpsert :: "'x \<Rightarrow> 's \<Rightarrow> (repo_error + unit) \<times> 's"
  swPrune :: "int \<Rightarrow> 's \<Rightarrow> (repo_error + unit) \<times> 's"

fun upsert_all :: "('x, 's) swap_repo \<Rightarrow> 'x list \<Rightarrow> 's \<Rightarrow> (('x \<times> repo_error) + unit) \<times> 's" where
  "upsert_all R [] s = (Inr (), s)"
| "upsert_all R (x # xs) s =
     (case swUpsert R x s of
        (Inl err, s') \<Rightarrow> (Inl (x, err), s')
      | (Inr _, s') \<Rightarrow> upsert_all R xs s')"

text \<open>A store under observation: every operation also appends the state it leaves, so the log holds
  what a reader who comes between two operations can see.\<close>

definition watched :: "('x, 's) swap_repo \<Rightarrow> ('x, 's \<times> 's list) swap_repo" where
  "watched R =
     \<lparr>swUpsert = (\<lambda>x (s, seen). let (r, s') = swUpsert R x s in (r, s', seen @ [s'])),
      swPrune = (\<lambda>g (s, seen). let (r, s') = swPrune R g s in (r, s', seen @ [s']))\<rparr>"

lemma find_append: "find P (xs @ ys) = (case find P xs of Some x \<Rightarrow> Some x | None \<Rightarrow> find P ys)"
  by (induction xs) auto

lemma find_SomeD: "find P xs = Some x \<Longrightarrow> x \<in> set xs \<and> P x"
  by (induction xs) (auto split: if_splits)

lemma find_unique: "distinct (map f xs) \<Longrightarrow> x \<in> set xs \<Longrightarrow> f x = i \<Longrightarrow> find (\<lambda>y. f y = i) xs = Some x"
  by (induction xs) (auto simp: image_iff)

locale generation_store =
  fixes R :: "('x, 's) swap_repo"
    and ok :: "'s \<Rightarrow> bool"
    and look :: "'s \<Rightarrow> string \<Rightarrow> 'x option"
    and ident :: "'x \<Rightarrow> string"
    and gen :: "'x \<Rightarrow> int"
  assumes upsert_wf: "ok s \<Longrightarrow> ok (snd (swUpsert R x s))"
    and upsert_ok: "ok s \<Longrightarrow> swUpsert R x s = (Inr u, s') \<Longrightarrow> look s' = (look s)(ident x \<mapsto> x)"
    and upsert_fails: "ok s \<Longrightarrow> swUpsert R x s = (Inl err, s') \<Longrightarrow> look s' = look s"
    and prune_ok: "ok s \<Longrightarrow> swPrune R g s = (Inr u, s') \<Longrightarrow>
      look s' = (\<lambda>i. case look s i of None \<Rightarrow> None | Some x \<Rightarrow> if gen x = g then Some x else None)"
    and look_ident: "ok s \<Longrightarrow> look s i = Some x \<Longrightarrow> ident x = i"
begin

lemma upsert_all_wf: "ok s \<Longrightarrow> ok (snd (upsert_all R xs s))"
proof (induction xs arbitrary: s)
  case (Cons x xs)
  then show ?case using upsert_wf [OF Cons.prems, of x] by (auto split: prod.splits sum.splits)
qed simp

text \<open>After the writes of a prefix, successful or not, every record is an old or a new one, and
  nothing that was there is missing.\<close>

lemma upsert_all_keeps:
  assumes "ok s"
  shows "dom (look s) \<subseteq> dom (look (snd (upsert_all R xs s))) \<and>
    (\<forall>i y. look (snd (upsert_all R xs s)) i = Some y \<longrightarrow> look s i = Some y \<or> y \<in> set xs)"
  using assms
proof (induction xs arbitrary: s)
  case (Cons x xs)
  obtain r s1 where u: "swUpsert R x s = (r, s1)" by fastforce
  have ok1: "ok s1" using upsert_wf [OF Cons.prems, of x] u by simp
  have l1: "look s1 = (look s)(ident x \<mapsto> x) \<or> look s1 = look s"
    using upsert_ok [OF Cons.prems] upsert_fails [OF Cons.prems] u by (cases r) auto
  then have "dom (look s) \<subseteq> dom (look s1)" "\<forall>i y. look s1 i = Some y \<longrightarrow> look s i = Some y \<or> y = x"
    by (auto split: if_splits)
  with Cons.IH [OF ok1] u show ?case by (cases r) (simp_all, blast+)
qed simp

lemma upsert_all_look:
  assumes "ok s" "upsert_all R xs s = (Inr u, s')"
  shows "look s' i = (case find (\<lambda>x. ident x = i) (rev xs) of Some x \<Rightarrow> Some x | None \<Rightarrow> look s i)"
  using assms
proof (induction xs arbitrary: s)
  case (Cons x xs)
  from Cons.prems(2) obtain v s1 where u: "swUpsert R x s = (Inr v, s1)" "upsert_all R xs s1 = (Inr u, s')"
    by (auto split: prod.splits sum.splits)
  have "ok s1" using upsert_wf [OF Cons.prems(1), of x] u by simp
  from Cons.IH [OF this u(2)] upsert_ok [OF Cons.prems(1) u(1)]
  show ?case by (auto simp: find_append split: option.splits)
qed simp

text \<open>A complete rebuild leaves exactly the derived records, when no stored record carries the
  new generation beforehand.\<close>

lemma swap_exact:
  assumes "ok s" "\<And>i y. look s i = Some y \<Longrightarrow> gen y \<noteq> g"
    and "\<And>x. x \<in> set xs \<Longrightarrow> gen x = g" "distinct (map ident xs)"
    and "upsert_all R xs s = (Inr u, s1)" "swPrune R g s1 = (Inr v, s2)"
  shows "look s2 i = find (\<lambda>x. ident x = i) xs"
proof -
  have "ok s1" using upsert_all_wf [OF assms(1), of xs] assms(5) by simp
  from prune_ok [OF this assms(6)] upsert_all_look [OF assms(1,5)]
  have l: "look s2 i = (case find (\<lambda>x. ident x = i) (rev xs) of
      Some x \<Rightarrow> if gen x = g then Some x else None
    | None \<Rightarrow> (case look s i of Some x \<Rightarrow> if gen x = g then Some x else None | None \<Rightarrow> None))"
    by (simp split: option.splits)
  have "find (\<lambda>x. ident x = i) (rev xs) = find (\<lambda>x. ident x = i) xs"
    using assms(4)
  proof (induction xs)
    case (Cons x xs)
    then have "find (\<lambda>x. ident x = i) xs = None" if "ident x = i"
      using that by (auto simp: find_None_iff image_iff)
    with Cons show ?case by (auto simp: find_append split: option.splits)
  qed simp
  with l have l: "look s2 i = (case find (\<lambda>x. ident x = i) xs of
      Some x \<Rightarrow> if gen x = g then Some x else None
    | None \<Rightarrow> (case look s i of Some x \<Rightarrow> if gen x = g then Some x else None | None \<Rightarrow> None))"
    by simp
  show ?thesis
  proof (cases "find (\<lambda>x. ident x = i) xs")
    case None
    with l assms(2) show ?thesis by (simp split: option.splits)
  next
    case (Some x)
    then have "x \<in> set xs" by (auto simp: find_Some_iff)
    with l Some assms(3) show ?thesis by simp
  qed
qed

end

text \<open>A store whose failing prune has removed at most records it was asked to remove.\<close>

locale pruning_store = generation_store +
  assumes prune_fails: "ok s \<Longrightarrow> swPrune R g s = (Inl err, s') \<Longrightarrow>
      look s' i = look s i \<or> look s' i = None \<and> (\<exists>x. look s i = Some x \<and> gen x \<noteq> g)"
begin

text \<open>What a reader may see while the new records \<open>xs\<close> replace those of \<open>s\<close>: every record is an old
  or a new one, and either no old one is missing or all new ones are there.\<close>

definition no_gap :: "'b \<Rightarrow> 'a list \<Rightarrow> 'b \<Rightarrow> bool" where
  "no_gap s xs u \<longleftrightarrow> (\<forall>i x. look u i = Some x \<longrightarrow> look s i = Some x \<or> x \<in> set xs) \<and>
     (dom (look s) \<subseteq> dom (look u) \<or> (\<forall>x\<in>set xs. look u (ident x) = Some x))"

definition kept :: "'b \<Rightarrow> 'a list \<Rightarrow> 'b \<Rightarrow> bool" where
  "kept s xs u \<longleftrightarrow> ok u \<and> dom (look s) \<subseteq> dom (look u) \<and>
     (\<forall>i y. look u i = Some y \<longrightarrow> look s i = Some y \<or> y \<in> set xs)"

lemma kept_no_gap: "kept s xs u \<Longrightarrow> no_gap s xs u"
  by (simp add: kept_def no_gap_def)

lemma kept_upsert:
  assumes "ok s" "swUpsert R x s = (v, s1)"
  shows "kept s (x # xs) s1"
proof -
  have "ok s1" using upsert_wf [OF assms(1), of x] assms(2) by simp
  moreover have "look s1 = (look s)(ident x \<mapsto> x) \<or> look s1 = look s"
    using upsert_ok [OF assms(1)] upsert_fails [OF assms(1)] assms(2) by (cases v) auto
  ultimately show ?thesis by (auto simp: kept_def split: if_splits)
qed

lemma kept_trans: "kept s (x # xs) s1 \<Longrightarrow> kept s1 xs u \<Longrightarrow> kept s (x # xs) u"
  unfolding kept_def by (metis list.set_intros(2) subset_trans)

lemma watched_upserts:
  assumes "upsert_all (watched R) xs (s, seen) = (r, s', seen')" "ok s"
  shows "upsert_all R xs s = (r, s') \<and> (\<exists>visible. seen' = seen @ visible \<and> (\<forall>u\<in>set visible. kept s xs u))"
  using assms
proof (induction xs arbitrary: s seen)
  case (Cons x xs)
  obtain v s1 where u: "swUpsert R x s = (v, s1)" by fastforce
  have k: "kept s (x # xs) s1" by (rule kept_upsert [OF Cons.prems(2) u])
  show ?case
  proof (cases v)
    case (Inl e)
    with Cons.prems(1) u k show ?thesis by (auto simp: watched_def)
  next
    case (Inr w)
    with Cons.prems(1) u have "upsert_all (watched R) xs (s1, seen @ [s1]) = (r, s', seen')"
      by (simp add: watched_def)
    from Cons.IH [OF this] k obtain visible where "upsert_all R xs s1 = (r, s')" "seen' = (seen @ [s1]) @ visible"
      and "\<forall>u\<in>set visible. kept s1 xs u" by (auto simp: kept_def)
    then show ?thesis using u Inr k kept_trans [OF k]
      by (intro conjI exI [of _ "s1 # visible"]) auto
  qed
qed simp

text \<open>The prune after a complete round of upserts.\<close>

lemma pruned_no_gap:
  assumes "ok s" "\<And>x. x \<in> set xs \<Longrightarrow> gen x = g" "distinct (map ident xs)"
    and "upsert_all R xs s = (Inr u, s1)" "swPrune R g s1 = (v, s2)"
  shows "no_gap s xs s2"
proof -
  have ok1: "ok s1" using upsert_all_wf [OF assms(1), of xs] assms(4) by simp
  have sub: "look s2 i = look s1 i \<or> look s2 i = None \<and> (\<exists>x. look s1 i = Some x \<and> gen x \<noteq> g)" for i
    using prune_ok [OF ok1] prune_fails [OF ok1] assms(5) by (cases v) (auto split: option.splits)
  have "look s2 (ident x) = Some x" if x: "x \<in> set xs" for x
  proof -
    have "distinct (map ident (rev xs))" using assms(3) by (simp flip: rev_map)
    from find_unique [OF this _ refl] x have "find (\<lambda>y. ident y = ident x) (rev xs) = Some x" by simp
    with upsert_all_look [OF assms(1,4)] have "look s1 (ident x) = Some x" by simp
    with sub [of "ident x"] assms(2) [OF x] show ?thesis by auto
  qed
  moreover have "look s i = Some y \<or> y \<in> set xs" if "look s2 i = Some y" for i y
  proof -
    have "look s1 i = Some y" using sub [of i] that by simp
    with upsert_all_keeps [OF assms(1), of xs] assms(4) show ?thesis by simp
  qed
  ultimately show ?thesis by (simp add: no_gap_def)
qed

end

end
