(* ===== verification/ComplianceProjector.thy ===== *)
theory ComplianceProjector
  imports Projection ComplianceStore
begin

text \<open>
  \<^verbatim>\<open>server/internal/compliance/projector.go\<close> and \<^verbatim>\<open>reconcile.go\<close>: the compliance status of every
  account by replay of the registry's \<open>StatusChanged\<close> events, written to the investor records.
  The investor repository is an interface (\<open>inv_repo\<close>) with the contract \<open>investor_store\<close>,
  interpreted on the in-memory repository. Statuses and accounts of the Go maps are association
  lists.
\<close>

section \<open>The investor repository\<close>

record 'i inv_repo =
  ivGet :: "string \<Rightarrow> 'i \<Rightarrow> repo_error + Investor"
  ivList :: "'i \<Rightarrow> repo_error + Investor list"
  ivUpsert :: "Investor \<Rightarrow> 'i \<Rightarrow> (repo_error + unit) \<times> 'i"

definition memoryInvestors :: "investor_map inv_repo" where
  "memoryInvestors = \<lparr>ivGet = memInvGet, ivList = (\<lambda>m. Inr (memInvList m)), ivUpsert = (\<lambda>v m. (Inr (), memInvUpsert v m))\<rparr>"

locale investor_store =
  fixes V :: "'i inv_repo"
    and ok :: "'i \<Rightarrow> bool"
    and look :: "'i \<Rightarrow> string \<Rightarrow> Investor option"
  assumes get_ok: "ivGet V a s = Inr v \<Longrightarrow> look s a = Some v"
    and get_none: "ivGet V a s = Inl ErrNotFound \<Longrightarrow> look s a = None"
    and list_ok: "ok s \<Longrightarrow> ivList V s = Inr vs \<Longrightarrow> set vs = ran (look s) \<and> distinct (map invAddress vs)"
    and upsert_ok: "ok s \<Longrightarrow> ivUpsert V v s = (Inr u, s') \<Longrightarrow> ok s' \<and> look s' = (look s)(invAddress v \<mapsto> v)"
    and look_address: "ok s \<Longrightarrow> look s a = Some v \<Longrightarrow> invAddress v = a"

definition investors_wf :: "investor_map \<Rightarrow> bool" where
  "investors_wf m \<longleftrightarrow> distinct (map fst m) \<and> (\<forall>(a, v) \<in> set m. invAddress v = a)"

lemma investors_wf_upsert: "investors_wf m \<Longrightarrow> investors_wf (memInvUpsert v m)"
proof -
  assume w: "investors_wf m"
  let ?m = "memInvUpsert v m"
  have d: "distinct (map fst ?m)" using w by (simp add: investors_wf_def memInvUpsert_def distinct_update)
  have "invAddress x = a" if "(a, x) \<in> set ?m" for a x
  proof -
    from d that have "map_of ?m a = Some x" by simp
    then show ?thesis using w
      by (auto simp: memInvUpsert_def update_conv' investors_wf_def split: if_splits dest: map_of_SomeD)
  qed
  with d show ?thesis by (auto simp: investors_wf_def)
qed

lemma ran_map_of_distinct: "distinct (map fst m) \<Longrightarrow> ran (map_of m) = snd ` set m"
  by (force simp: ran_def)

interpretation mv: investor_store memoryInvestors investors_wf "map_of :: investor_map \<Rightarrow> _"
proof
  fix s vs assume w: "investors_wf s" and l: "ivList memoryInvestors s = Inr vs"
  from w have "map invAddress (map snd s) = map fst s" unfolding investors_wf_def map_map
    by (intro map_cong refl) auto
  then have "distinct (map invAddress (map snd s))" using w by (simp only: investors_wf_def)
  moreover have "mset (map invAddress vs) = mset (map invAddress (map snd s))"
    using l by (auto simp: memoryInvestors_def memInvList_def multiset.map_comp)
  ultimately have d: "distinct (map invAddress vs)" by (metis mset_eq_imp_distinct_iff)
  have "set vs = ran (map_of s)"
    using l w ran_map_of_distinct [of s] by (simp add: memoryInvestors_def memInvList_def investors_wf_def) (metis image_set set_sort)
  with d show "set vs = ran (map_of s) \<and> distinct (map invAddress vs)" by blast
next
  fix s v u s' assume w: "investors_wf s" and c: "ivUpsert memoryInvestors v s = (Inr u, s')"
  then show "investors_wf s' \<and> map_of s' = (map_of s)(invAddress v \<mapsto> v)"
    using investors_wf_upsert [OF w] by (auto simp: memoryInvestors_def memInvUpsert_def update_conv)
qed (auto simp: memoryInvestors_def memInvGet_def investors_wf_def split: option.splits dest: map_of_SomeD)

section \<open>Values\<close>

definition statusNames :: "byte \<Rightarrow> ComplianceStatus option" where
  "statusNames n = (if n = 0 then Some ComplianceUnknown else if n = 1 then Some ComplianceAllowed
     else if n = 2 then Some ComplianceBlocked else None)"

text \<open>\<^verbatim>\<open>toUint8\<close> and \<^verbatim>\<open>toInt64\<close> also have a float64 case. No decoder of the indexer makes a float64
  and MongoDB returns integers as int32 or int64, so \<open>dval\<close> has no such shape and the case none here.\<close>

definition toUint8 :: "dval option \<Rightarrow> byte" where
  "toUint8 v = (case v of
      Some (DUint8 t) \<Rightarrow> t
    | Some (DInt32 t) \<Rightarrow> ucast t
    | Some (DInt t) \<Rightarrow> ucast t
    | Some (DInt64 t) \<Rightarrow> ucast t
    | Some (DUint64 t) \<Rightarrow> ucast t
    | _ \<Rightarrow> 0)"

definition cp_toInt64 :: "dval option \<Rightarrow> u64" where
  "cp_toInt64 v = (case v of
      Some (DUint64 t) \<Rightarrow> t
    | Some (DInt64 t) \<Rightarrow> t
    | Some (DInt32 t) \<Rightarrow> word_of_int (sint t)
    | Some (DInt t) \<Rightarrow> t
    | _ \<Rightarrow> 0)"

definition adapt_data :: "event_data \<Rightarrow> event_data" where
  "adapt_data data =
     (let data1 = (case map_of data ''newStatus'' of
            Some (DUint v) \<Rightarrow> AList.update ''newStatus'' (DInt32 (of_nat v)) data
          | _ \<Rightarrow> data)
      in case map_of data1 ''newValidUntil'' of
           Some (DStr v) \<Rightarrow>
             (case atoi v of
                Some n \<Rightarrow> AList.update ''newValidUntil'' (DInt64 (word_of_int n)) data1
              | None \<Rightarrow> data1)
         | _ \<Rightarrow> data1)"

definition adaptStatusEvents :: "ChainEvent list \<Rightarrow> ChainEvent list" where
  "adaptStatusEvents events = map (\<lambda>e. e\<lparr>evData := adapt_data (evData e)\<rparr>) events"

section \<open>Replay\<close>

type_synonym status_map = "(string \<times> ComplianceStatus \<times> int) list"

definition status_event :: "ChainEvent \<Rightarrow> ComplianceStatus \<times> int" where
  "status_event e =
     ((case statusNames (toUint8 (map_of (evData e) ''newStatus'')) of None \<Rightarrow> ComplianceUnknown | Some st \<Rightarrow> st),
      sint (cp_toInt64 (map_of (evData e) ''newValidUntil'')))"

definition build_status :: "ChainEvent \<Rightarrow> status_map \<Rightarrow> status_map" where
  "build_status e states =
     (if evName e \<noteq> ''StatusChanged'' then states
      else let account = toString (map_of (evData e) ''account'') in
        if account = '''' then states else AList.update account (status_event e) states)"

definition BuildStatuses :: "ChainEvent list \<Rightarrow> status_map" where
  "BuildStatuses events = fold build_status (sort_events events) []"

section \<open>Writing the records\<close>

datatype cp_error =
    ListStatusEvents repo_error
  | LoadInvestor string repo_error
  | UpsertInvestor string repo_error
  | ListInvestors repo_error
  | ResetInvestor string repo_error

definition status_record :: "int \<Rightarrow> string \<Rightarrow> ComplianceStatus \<times> int \<Rightarrow> Investor option \<Rightarrow> Investor" where
  "status_record now account s existing =
     \<lparr>invAddress = account, invStatus = fst s, invValidUntil = snd s,
      invOwnershipVerified = (case existing of None \<Rightarrow> False | Some v \<Rightarrow> invOwnershipVerified v),
      invCreatedAt = (case existing of None \<Rightarrow> now | Some v \<Rightarrow> invCreatedAt v), invUpdatedAt = now\<rparr>"

fun upsert_statuses :: "'i inv_repo \<Rightarrow> int \<Rightarrow> status_map \<Rightarrow> 'i \<Rightarrow> (cp_error + unit) \<times> 'i" where
  "upsert_statuses V now [] st = (Inr (), st)"
| "upsert_statuses V now ((account, s) # states) st =
     (let store = (\<lambda>existing.
        (case ivUpsert V (status_record now account s existing) st of
           (Inl err, st') \<Rightarrow> (Inl (UpsertInvestor account err), st')
         | (Inr _, st') \<Rightarrow> upsert_statuses V now states st'))
      in case ivGet V account st of
           Inr existing \<Rightarrow> store (Some existing)
         | Inl ErrNotFound \<Rightarrow> store None
         | Inl err \<Rightarrow> (Inl (LoadInvestor account err), st))"

fun reset_stale :: "'i inv_repo \<Rightarrow> int \<Rightarrow> status_map \<Rightarrow> Investor list \<Rightarrow> 'i \<Rightarrow> (cp_error + unit) \<times> 'i" where
  "reset_stale V now states [] st = (Inr (), st)"
| "reset_stale V now states (v # vs) st =
     (if map_of states (invAddress v) \<noteq> None then reset_stale V now states vs st
      else if invStatus v = ComplianceUnknown \<and> invValidUntil v = 0 then reset_stale V now states vs st
      else case ivUpsert V (v\<lparr>invStatus := ComplianceUnknown, invValidUntil := 0, invUpdatedAt := now\<rparr>) st of
             (Inl err, st') \<Rightarrow> (Inl (ResetInvestor (invAddress v) err), st')
           | (Inr _, st') \<Rightarrow> reset_stale V now states vs st')"

text \<open>\<open>order\<close> is the order in which Go ranges over the map of states.\<close>

definition ComplianceReconcile :: "(string \<Rightarrow> repo_error + ChainEvent list) \<Rightarrow> 'i inv_repo
    \<Rightarrow> (status_map \<Rightarrow> status_map) \<Rightarrow> int \<Rightarrow> 'i \<Rightarrow> (cp_error + unit) \<times> 'i" where
  "ComplianceReconcile L V order now st =
     (case L ''StatusChanged'' of
        Inl err \<Rightarrow> (Inl (ListStatusEvents err), st)
      | Inr raw \<Rightarrow>
          (let states = BuildStatuses (adaptStatusEvents raw) in
           case upsert_statuses V now (order states) st of
             (Inl err, st') \<Rightarrow> (Inl err, st')
           | (Inr _, st') \<Rightarrow>
               (case ivList V st' of
                  Inl err \<Rightarrow> (Inl (ListInvestors err), st')
                | Inr all \<Rightarrow> reset_stale V now states all st')))"

section \<open>The status of an account\<close>

text \<open>What the registry says of an account: its last \<open>StatusChanged\<close> event in replay order.\<close>

definition event_account :: "ChainEvent \<Rightarrow> string" where
  "event_account e = toString (map_of (evData e) ''account'')"

definition last_status :: "string \<Rightarrow> ChainEvent list \<Rightarrow> ChainEvent option" where
  "last_status a es = find (\<lambda>e. evName e = ''StatusChanged'' \<and> event_account e = a) (rev (sort_events es))"

definition chain_status :: "nat \<Rightarrow> ComplianceStatus" where
  "chain_status n = (if n = 1 then ComplianceAllowed else if n = 2 then ComplianceBlocked else ComplianceUnknown)"

text \<open>The shape the decoder gives the event (\<open>u8\<close> status, \<open>u64\<close> expiry).\<close>

definition decoded_status :: "ChainEvent \<Rightarrow> nat \<Rightarrow> nat \<Rightarrow> bool" where
  "decoded_status e n v \<longleftrightarrow> n < 256 \<and> v < 2 ^ 64 \<and>
     map_of (evData e) ''newStatus'' = Some (DUint n) \<and> map_of (evData e) ''newValidUntil'' = Some (DStr (dec_nat v))"

lemma atoi_dec_nat_bound: "atoi (dec_nat v) = (if v < 2 ^ 63 then Some (int v) else None)"
proof -
  have ne: "dec_nat v \<noteq> []" using parse_dec_nat [of v] by (auto simp: parse_dec_def)
  then obtain c cs where c: "dec_nat v = c # cs" by (cases "dec_nat v") auto
  have "isDigit c" using dec_nat_not_minus [of c v] c by simp
  then have "c \<noteq> CHR ''-''" "c \<noteq> CHR ''+''" by (auto simp: isDigit_def)
  with c have "atoi (dec_nat v) = (case parse_dec (dec_nat v) of None \<Rightarrow> None | Some n \<Rightarrow>
      (let i = int n in if - (2 ^ 63) \<le> i \<and> i < 2 ^ 63 then Some i else None))"
    by (simp add: atoi_def split: option.split)
  then show ?thesis by (simp add: Let_def)
qed

lemma adapt_account: "map_of (adapt_data d) ''account'' = map_of d ''account''"
  by (auto simp: adapt_data_def Let_def update_conv' split: option.splits dval.splits)

lemma status_event_decoded:
  assumes "decoded_status e n v"
  shows "status_event (e\<lparr>evData := adapt_data (evData e)\<rparr>) = (chain_status n, if v < 2 ^ 63 then int v else 0)"
proof -
  let ?d = "adapt_data (evData e)"
  have s: "map_of ?d ''newStatus'' = Some (DInt32 (of_nat n))"
    using assms by (auto simp: decoded_status_def adapt_data_def Let_def update_conv' split: option.splits)
  have v: "map_of ?d ''newValidUntil'' = Some (if v < 2 ^ 63 then DInt64 (word_of_int (int v)) else DStr (dec_nat v))"
    using assms by (auto simp: decoded_status_def adapt_data_def Let_def update_conv' atoi_dec_nat_bound)
  have n: "n < 256" using assms by (simp add: decoded_status_def)
  have u: "(ucast (of_nat n :: 32 word) :: byte) = of_nat n"
    using n by (simp add: unsigned_of_nat take_bit_nat_eq_self)
  have w: "unat (of_nat n :: byte) = n" using n by (simp add: unat_of_nat)
  have "(of_nat n :: byte) = 0 \<longleftrightarrow> n = 0" "(of_nat n :: byte) = 1 \<longleftrightarrow> n = 1" "(of_nat n :: byte) = 2 \<longleftrightarrow> n = 2"
    unfolding word_unat_eq_iff w by simp_all
  then have "(case statusNames (toUint8 (map_of ?d ''newStatus'')) of None \<Rightarrow> ComplianceUnknown | Some st \<Rightarrow> st) = chain_status n"
    by (simp add: s toUint8_def statusNames_def chain_status_def u)
  moreover have "sint (word_of_int (int v) :: u64) = int v" if "v < 2 ^ 63"
    by (rule sint_of_int_u64) (use that in simp_all)
  then have "sint (cp_toInt64 (map_of ?d ''newValidUntil'')) = (if v < 2 ^ 63 then int v else 0)"
    unfolding v by (simp add: cp_toInt64_def)
  ultimately show ?thesis by (simp add: status_event_def)
qed


section \<open>What a rebuild leaves\<close>

lemma insort_key_map: "insort_key f (g x) (map g xs) = map g (insort_key (\<lambda>x. f (g x)) x xs)"
  by (induction xs) auto

lemma sort_key_map: "sort_key f (map g xs) = map g (sort_key (\<lambda>x. f (g x)) xs)"
  by (induction xs) (simp_all add: insort_key_map)

lemma sort_adapted: "sort_events (adaptStatusEvents es) = adaptStatusEvents (sort_events es)"
  by (simp add: sort_events_def adaptStatusEvents_def sort_key_map event_order_def [abs_def])

definition says :: "string \<Rightarrow> ChainEvent \<Rightarrow> bool" where
  "says a e \<longleftrightarrow> evName e = ''StatusChanged'' \<and> event_account e = a"

lemma build_status_other: "\<not> says a e \<Longrightarrow> map_of (build_status e m) a = map_of m a"
  by (auto simp: build_status_def says_def event_account_def Let_def update_conv')

lemma build_status_own: "says a e \<Longrightarrow> a \<noteq> '''' \<Longrightarrow> map_of (build_status e m) a = Some (status_event e)"
  by (auto simp: build_status_def says_def event_account_def Let_def update_conv')

lemma fold_build_status:
  assumes "a \<noteq> ''''"
  shows "map_of (fold build_status es m) a =
    (case find (says a) (rev es) of None \<Rightarrow> map_of m a | Some e \<Rightarrow> Some (status_event e))"
proof (induction es arbitrary: m)
  case (Cons e es)
  show ?case
    using Cons.IH [of "build_status e m"] build_status_own [OF _ assms, of e m] build_status_other [of a e m]
    by (cases "says a e") (auto simp: find_append split: option.splits)
qed simp

lemma fold_build_status_empty: "map_of m '''' = None \<Longrightarrow> map_of (fold build_status es m) '''' = None"
proof (induction es arbitrary: m)
  case (Cons e es)
  then have "map_of (build_status e m) '''' = None" by (auto simp: build_status_def Let_def update_conv')
  with Cons.IH show ?case by simp
qed simp

lemma fold_build_status_distinct: "distinct (map fst m) \<Longrightarrow> distinct (map fst (fold build_status es m))"
proof (induction es arbitrary: m)
  case (Cons e es)
  then have "distinct (map fst (build_status e m))" by (auto simp: build_status_def Let_def distinct_update)
  with Cons.IH show ?case by simp
qed simp

lemma find_map: "find P (map f xs) = map_option f (find (\<lambda>x. P (f x)) xs)"
  by (induction xs) auto

lemma says_adapted: "says a (e\<lparr>evData := adapt_data (evData e)\<rparr>) = says a e"
  by (simp add: says_def event_account_def adapt_account)

lemma find_filter_says: "find (says a) (filter (\<lambda>e. evName e = ''StatusChanged'') xs) = find (says a) xs"
  by (induction xs) (auto simp: says_def)

lemma last_status_says: "last_status a es = find (says a) (rev (sort_events es))"
  by (simp add: last_status_def says_def [abs_def])

text \<open>The states the rebuild derives from what the store lists.\<close>

lemma derived_statuses:
  assumes "lists evs L" "distinct evs" "inj_on event_order (set evs)" "L ''StatusChanged'' = Inr raw" "a \<noteq> ''''"
  shows "map_of (BuildStatuses (adaptStatusEvents raw)) a =
    map_option (\<lambda>e. status_event (e\<lparr>evData := adapt_data (evData e)\<rparr>)) (last_status a evs)"
proof -
  have "mset raw = mset (filter (\<lambda>e. evName e = ''StatusChanged'') evs)" using assms(1,4) by (auto simp: lists_def)
  then have "sort_events raw = sort_events (filter (\<lambda>e. evName e = ''StatusChanged'') evs)"
    by (rule sort_events_unique) (use assms(2,3) in \<open>auto intro: inj_on_subset\<close>)
  then have "find (says a) (rev (sort_events raw)) = last_status a evs"
    unfolding last_status_says by (simp only: filter_sort_events [symmetric] rev_filter find_filter_says)
  then have "find (says a) (rev (sort_events (adaptStatusEvents raw))) =
      map_option (\<lambda>e. e\<lparr>evData := adapt_data (evData e)\<rparr>) (last_status a evs)"
    unfolding sort_adapted by (simp add: adaptStatusEvents_def rev_map find_map says_adapted)
  then show ?thesis
    unfolding BuildStatuses_def by (subst fold_build_status [OF assms(5)]) (simp split: option.splits)
qed

text \<open>An account without a surviving event.\<close>

definition reset_status :: "int \<Rightarrow> Investor \<Rightarrow> Investor" where
  "reset_status now v = (if invStatus v = ComplianceUnknown \<and> invValidUntil v = 0 then v
     else v\<lparr>invStatus := ComplianceUnknown, invValidUntil := 0, invUpdatedAt := now\<rparr>)"

context investor_store
begin

lemma upsert_statuses_look:
  assumes "ok s" "distinct (map fst states)" "upsert_statuses V now states s = (Inr u, s')"
  shows "ok s' \<and> look s' a = (case map_of states a of None \<Rightarrow> look s a | Some x \<Rightarrow> Some (status_record now a x (look s a)))"
  using assms
proof (induction states arbitrary: s)
  case (Cons p states)
  obtain account x where p: "p = (account, x)" by (cases p) auto
  from Cons.prems(3) obtain v s1 where c: "ivUpsert V (status_record now account x (look s account)) s = (Inr v, s1)"
      "upsert_statuses V now states s1 = (Inr u, s')"
    unfolding p by (cases "ivGet V account s")
      (auto simp: Let_def dest: get_ok get_none split: sum.splits prod.splits repo_error.splits)
  from upsert_ok [OF Cons.prems(1) c(1)]
  have s1: "ok s1" "look s1 = (look s)(account \<mapsto> status_record now account x (look s account))"
    by (simp_all add: status_record_def)
  have "map_of states account = None" using Cons.prems(2) p by (simp add: map_of_eq_None_iff)
  with Cons.IH [OF s1(1) _ c(2)] Cons.prems(2) s1(2) p show ?case by (auto split: option.splits)
qed simp

lemma reset_stale_look:
  assumes "ok s" "distinct (map invAddress vs)" "\<forall>v \<in> set vs. look s (invAddress v) = Some v"
    and "reset_stale V now states vs s = (Inr u, s')"
  shows "look s' a = (if a \<in> invAddress ` set vs \<and> map_of states a = None then map_option (reset_status now) (look s a) else look s a)"
  using assms
proof (induction vs arbitrary: s)
  case (Cons v vs)
  show ?case
  proof (cases "map_of states (invAddress v) \<noteq> None \<or> invStatus v = ComplianceUnknown \<and> invValidUntil v = 0")
    case True
    with Cons.prems(4) have "reset_stale V now states vs s = (Inr u, s')" by (auto split: if_splits)
    from Cons.IH [OF Cons.prems(1) _ _ this] Cons.prems(2,3) True show ?thesis by (auto simp: reset_status_def)
  next
    case False
    let ?v = "v\<lparr>invStatus := ComplianceUnknown, invValidUntil := 0, invUpdatedAt := now\<rparr>"
    from False Cons.prems(4) obtain w s1 where c: "ivUpsert V ?v s = (Inr w, s1)" "reset_stale V now states vs s1 = (Inr u, s')"
      by (auto split: if_splits sum.splits prod.splits)
    from upsert_ok [OF Cons.prems(1) c(1)] have s1: "ok s1" "look s1 = (look s)(invAddress v \<mapsto> ?v)" by simp_all
    have "invAddress v \<notin> invAddress ` set vs" using Cons.prems(2) by simp
    then have "\<forall>x \<in> set vs. look s1 (invAddress x) = Some x" using s1(2) Cons.prems(3) by (auto simp: image_iff)
    from Cons.IH [OF s1(1) _ this c(2)] Cons.prems(2,3) False s1(2) \<open>invAddress v \<notin> _\<close>
    show ?thesis by (auto simp: reset_status_def)
  qed
qed simp

lemma rebuilt:
  assumes "ok s" "L ''StatusChanged'' = Inr raw" "range_order order" "ComplianceReconcile L V order now s = (Inr (), s')"
  shows "look s' a = (case map_of (BuildStatuses (adaptStatusEvents raw)) a of
      None \<Rightarrow> map_option (reset_status now) (look s a)
    | Some x \<Rightarrow> Some (status_record now a x (look s a)))"
proof -
  let ?st = "BuildStatuses (adaptStatusEvents raw)"
  from assms(2,4) obtain u s1 vs where c: "upsert_statuses V now (order ?st) s = (Inr u, s1)" "ivList V s1 = Inr vs"
      "reset_stale V now ?st vs s1 = (Inr (), s')"
    by (auto simp: ComplianceReconcile_def Let_def split: sum.splits prod.splits)
  have d: "distinct (map fst ?st)" by (simp add: BuildStatuses_def fold_build_status_distinct)
  have "distinct (map fst (order ?st))" by (simp add: range_order_distinct [OF assms(3)] d)
  note s1 = upsert_statuses_look [OF assms(1) this c(1), unfolded range_order_map [OF assms(3) d]]
  then have ok1: "ok s1" by blast
  note l = list_ok [OF ok1 c(2)]
  have at: "\<forall>v \<in> set vs. look s1 (invAddress v) = Some v"
    using l look_address [OF ok1] by (auto simp: ran_def)
  have dom: "a \<in> invAddress ` set vs \<longleftrightarrow> look s1 a \<noteq> None"
    using l at look_address [OF ok1] by (auto simp: ran_def image_iff) 
  from reset_stale_look [OF ok1 _ at c(3), of a] l dom s1 [THEN conjunct2, of a]
  show ?thesis by (auto split: option.splits)
qed

end

section \<open>Properties\<close>

text \<open>C22: the rebuilt compliance status. After a successful \<open>Reconcile\<close>, whatever the records held
  before, in whatever order the events were listed and the accounts written: an account with a StatusChanged event
  carries the status and the expiry of its last one in replay order (an expiry beyond int64
  becomes 0), an account without one is reset to Unknown, and the ownership flag and the
  creation time, which the chain does not know, are kept.\<close>

theorem compliance_rebuilt:
  assumes "investor_store V ok look" "ok s" "lists evs L" "distinct evs" "inj_on event_order (set evs)"
    and "range_order order" "ComplianceReconcile L V order now s = (Inr (), s')" "a \<noteq> ''''"
    and "\<forall>e. last_status a evs = Some e \<longrightarrow> decoded_status e n v"
  shows "look s' a =
    (case last_status a evs of
       None \<Rightarrow> map_option (reset_status now) (look s a)
     | Some _ \<Rightarrow> Some \<lparr>invAddress = a, invStatus = chain_status n, invValidUntil = (if v < 2 ^ 63 then int v else 0),
         invOwnershipVerified = (case look s a of None \<Rightarrow> False | Some i \<Rightarrow> invOwnershipVerified i),
         invCreatedAt = (case look s a of None \<Rightarrow> now | Some i \<Rightarrow> invCreatedAt i), invUpdatedAt = now\<rparr>)"
proof -
  from assms(7) obtain raw where r: "L ''StatusChanged'' = Inr raw"
    by (cases "L ''StatusChanged''") (auto simp: ComplianceReconcile_def)
  note l = investor_store.rebuilt [OF assms(1,2) r assms(6,7), of a]
  note d = derived_statuses [OF assms(3,4,5) r assms(8)]
  show ?thesis
  proof (cases "last_status a evs")
    case (Some e)
    with assms(9) have "decoded_status e n v" by blast
    from status_event_decoded [OF this] l d Some show ?thesis by (simp add: status_record_def)
  qed (use l d in simp)
qed

section \<open>Example\<close>

definition status_changed :: "string \<Rightarrow> nat \<Rightarrow> nat \<Rightarrow> u64 \<Rightarrow> ChainEvent" where
  "status_changed a n v slot =
     \<lparr>evChainID = 1, evAddress = ''C'', evTxHash = ''s'', evLogIndex = 0, evBlockNumber = slot, evBlockHash = '''',
      evName = ''StatusChanged'',
      evData = [(''account'', DStr a), (''newStatus'', DUint n), (''newValidUntil'', DStr (dec_nat v))],
      evRemoved = False, evIndexedAt = 0\<rparr>"

definition demo_statuses :: "ChainEvent list" where
  "demo_statuses = [status_changed ''A'' 2 7 9, status_changed ''A'' 1 0 5, status_changed ''B'' 1 0 6]"

definition demo_status_list :: "string \<Rightarrow> repo_error + ChainEvent list" where
  "demo_status_list name = Inr (filter (\<lambda>e. evName e = name) demo_statuses)"

definition demo_investors :: investor_map where
  "demo_investors =
     [(''A'', \<lparr>invAddress = ''A'', invStatus = ComplianceAllowed, invValidUntil = 0, invOwnershipVerified = True,
        invCreatedAt = 3, invUpdatedAt = 4\<rparr>),
      (''D'', \<lparr>invAddress = ''D'', invStatus = ComplianceAllowed, invValidUntil = 5, invOwnershipVerified = True,
        invCreatedAt = 3, invUpdatedAt = 4\<rparr>)]"

lemma memory_investors_never_fail:
  assumes "L ''StatusChanged'' = Inr raw"
  shows "\<exists>s'. ComplianceReconcile L memoryInvestors order now s = (Inr (), s')"
proof -
  have u: "\<exists>s'. upsert_statuses memoryInvestors now states s = (Inr (), s')" for states s
    by (induction states arbitrary: s) (auto simp: memoryInvestors_def memInvGet_def Let_def split: option.split)
  have r: "\<exists>s'. reset_stale memoryInvestors now states vs s = (Inr (), s')" for states vs s
    by (induction vs arbitrary: s) (auto simp: memoryInvestors_def)
  obtain s1 where s1: "upsert_statuses memoryInvestors now (order (BuildStatuses (adaptStatusEvents raw))) s = (Inr (), s1)"
    using u by blast
  obtain s2 where "reset_stale memoryInvestors now (BuildStatuses (adaptStatusEvents raw)) (memInvList s1) s1 = (Inr (), s2)"
    using r by blast
  with s1 show ?thesis by (simp add: ComplianceReconcile_def assms Let_def) (simp add: memoryInvestors_def)
qed

theorem compliance_rebuilt_witness:
  "\<exists>s'. ComplianceReconcile demo_status_list memoryInvestors rev 50 demo_investors = (Inr (), s') \<and>
     map_of s' ''A'' = Some \<lparr>invAddress = ''A'', invStatus = ComplianceBlocked, invValidUntil = 7,
       invOwnershipVerified = True, invCreatedAt = 3, invUpdatedAt = 50\<rparr> \<and>
     map_option invStatus (map_of s' ''D'') = Some ComplianceUnknown"
proof -
  have "demo_status_list ''StatusChanged'' = Inr demo_statuses"
    by (simp add: demo_status_list_def demo_statuses_def status_changed_def)
  from memory_investors_never_fail [where L = demo_status_list, OF this] obtain s' where
    c: "ComplianceReconcile demo_status_list memoryInvestors rev 50 demo_investors = (Inr (), s')" by blast
  have ok: "investors_wf demo_investors" "lists demo_statuses demo_status_list" "distinct demo_statuses"
      "inj_on event_order (set demo_statuses)"
    by (auto simp: investors_wf_def demo_investors_def lists_def demo_status_list_def demo_statuses_def
        status_changed_def event_order_def inj_on_def)
  have rev: "range_order (rev :: status_map \<Rightarrow> _)" by (simp add: range_order_def)
  have last: "last_status ''A'' demo_statuses = Some (status_changed ''A'' 2 7 9)" "last_status ''D'' demo_statuses = None"
    by (simp_all add: last_status_def event_account_def sort_events_def event_order_def demo_statuses_def status_changed_def)
  have d: "decoded_status (status_changed ''A'' 2 7 9) 2 7" by (simp add: decoded_status_def status_changed_def)
  from compliance_rebuilt [OF mv.investor_store_axioms ok rev c, of "''A''" 2 7] d
  have "map_of s' ''A'' = Some \<lparr>invAddress = ''A'', invStatus = ComplianceBlocked, invValidUntil = 7,
       invOwnershipVerified = True, invCreatedAt = 3, invUpdatedAt = 50\<rparr>"
    by (simp add: last demo_investors_def chain_status_def)
  moreover from compliance_rebuilt [OF mv.investor_store_axioms ok rev c, of "''D''"]
  have "map_option invStatus (map_of s' ''D'') = Some ComplianceUnknown"
    by (simp add: last demo_investors_def reset_status_def)
  ultimately show ?thesis using c by blast
qed

end
