(* ===== verification/WalletChallenge.thy ===== *)
theory WalletChallenge
  imports ComplianceProjector
begin

text \<open>
  Proof of wallet ownership: \<^verbatim>\<open>server/internal/auth/verifier.go\<close> (ed25519 signatures by a base58
  address), \<^verbatim>\<open>compliance/challenge.go\<close> and the challenge store \<^verbatim>\<open>dal/memory/wallet_challenge.go\<close>.
  Base58 decoding, ed25519 verification and the formatting of times are parameters; the random
  nonce is an argument. \<open>Verify\<close> is split at its two repository calls (\<open>check_challenge\<close>,
  \<open>mark_challenge\<close>), so that runs can interleave the halves of concurrent requests.
\<close>

section \<open>The verifier\<close>

record sig_lib =
  sl_decode :: "string \<Rightarrow> string + bytes"
  sl_verify :: "bytes \<Rightarrow> bytes \<Rightarrow> bytes \<Rightarrow> bool"
  sl_time :: "int \<Rightarrow> string"

datatype sig_error = AddressDecode string | AddressLength nat | SignatureLength nat | SignatureInvalid

definition ValidateAddress :: "sig_lib \<Rightarrow> string \<Rightarrow> bool" where
  "ValidateAddress S address = (case sl_decode S address of Inl _ \<Rightarrow> False | Inr pub \<Rightarrow> length pub = 32)"

definition NormalizeAddress :: "string \<Rightarrow> string" where
  "NormalizeAddress address = address"

definition VerifySignature :: "sig_lib \<Rightarrow> string \<Rightarrow> string \<Rightarrow> bytes \<Rightarrow> sig_error + string" where
  "VerifySignature S message address sig =
     (case sl_decode S address of
        Inl err \<Rightarrow> Inl (AddressDecode err)
      | Inr pub \<Rightarrow>
          if length pub \<noteq> 32 then Inl (AddressLength (length pub))
          else if length sig \<noteq> 64 then Inl (SignatureLength (length sig))
          else if \<not> sl_verify S pub (bytes_of_string message) sig then Inl SignatureInvalid
          else Inr address)"

definition signed_by :: "sig_lib \<Rightarrow> string \<Rightarrow> string \<Rightarrow> bytes \<Rightarrow> bool" where
  "signed_by S address message sig \<longleftrightarrow>
     (\<exists>pub. sl_decode S address = Inr pub \<and> length pub = 32 \<and> length sig = 64 \<and>
        sl_verify S pub (bytes_of_string message) sig)"

lemma VerifySignature_Inr: "VerifySignature S message address sig = Inr a \<longleftrightarrow> a = address \<and> signed_by S address message sig"
  by (auto simp: VerifySignature_def signed_by_def split: sum.splits)

section \<open>The challenge store\<close>

record WalletChallenge =
  wcID :: string
  wcAddress :: string
  wcNonce :: string
  wcMessage :: string
  wcExpiresAt :: int
  wcUsed :: bool
  wcCreatedAt :: int

record 'c challenge_repo =
  chCreate :: "WalletChallenge \<Rightarrow> 'c \<Rightarrow> (repo_error + unit) \<times> 'c"
  chGet :: "string \<Rightarrow> 'c \<Rightarrow> repo_error + WalletChallenge"
  chMarkUsed :: "string \<Rightarrow> 'c \<Rightarrow> (repo_error + unit) \<times> 'c"
  chCountActive :: "string \<Rightarrow> int \<Rightarrow> 'c \<Rightarrow> repo_error + nat"

type_synonym challenge_map = "(string \<times> WalletChallenge) list"

definition memChCreate :: "WalletChallenge \<Rightarrow> challenge_map \<Rightarrow> (repo_error + unit) \<times> challenge_map" where
  "memChCreate c m =
     (case map_of m (wcID c) of
        Some _ \<Rightarrow> (Inl ErrAlreadyExists, m)
      | None \<Rightarrow> (Inr (), AList.update (wcID c) c m))"

definition memChGet :: "string \<Rightarrow> challenge_map \<Rightarrow> repo_error + WalletChallenge" where
  "memChGet ident m = (case map_of m ident of None \<Rightarrow> Inl ErrNotFound | Some v \<Rightarrow> Inr v)"

definition memChMarkUsed :: "string \<Rightarrow> challenge_map \<Rightarrow> (repo_error + unit) \<times> challenge_map" where
  "memChMarkUsed ident m =
     (case map_of m ident of
        None \<Rightarrow> (Inl ErrNotFound, m)
      | Some v \<Rightarrow>
          if wcUsed v then (Inl ErrAlreadyExists, m)
          else (Inr (), AList.update ident (v\<lparr>wcUsed := True\<rparr>) m))"

definition is_active :: "string \<Rightarrow> int \<Rightarrow> WalletChallenge \<Rightarrow> bool" where
  "is_active address now v \<longleftrightarrow> wcAddress v = address \<and> \<not> wcUsed v \<and> now < wcExpiresAt v"

definition memChCountActive :: "string \<Rightarrow> int \<Rightarrow> challenge_map \<Rightarrow> repo_error + nat" where
  "memChCountActive address now m = Inr (length (filter (is_active address now) (map snd m)))"

definition memoryChallenges :: "challenge_map challenge_repo" where
  "memoryChallenges = \<lparr>chCreate = memChCreate, chGet = memChGet, chMarkUsed = memChMarkUsed,
     chCountActive = memChCountActive\<rparr>"

locale challenge_store =
  fixes R :: "'c challenge_repo"
    and at :: "'c \<Rightarrow> string \<Rightarrow> WalletChallenge option"
  assumes create_ok: "chCreate R c s = (Inr u, s') \<Longrightarrow> at s (wcID c) = None \<and> at s' = (at s)(wcID c \<mapsto> c)"
    and create_fails: "chCreate R c s = (Inl err, s') \<Longrightarrow> at s' = at s"
    and get_ok: "chGet R i s = Inr c \<Longrightarrow> at s i = Some c"
    and mark_ok: "chMarkUsed R i s = (Inr u, s') \<Longrightarrow>
      \<exists>c. at s i = Some c \<and> \<not> wcUsed c \<and> at s' = (at s)(i \<mapsto> c\<lparr>wcUsed := True\<rparr>)"
    and mark_fails: "chMarkUsed R i s = (Inl err, s') \<Longrightarrow> at s' = at s"

interpretation mw: challenge_store memoryChallenges "map_of :: challenge_map \<Rightarrow> _"
  by unfold_locales
    (auto simp: memoryChallenges_def memChCreate_def memChGet_def memChMarkUsed_def update_conv split: option.splits if_splits)

section \<open>The service\<close>

record challenge_config =
  ccTTL :: int
  ccDomain :: string
  ccMaxActive :: int

definition DefaultMaxActiveChallengesPerAddress :: int where "DefaultMaxActiveChallengesPerAddress = 20"

datatype challenge_error =
    InvalidAddress string
  | CountFailed repo_error
  | ErrTooManyActiveChallenges
  | NonceFailed
  | ChallengeRepo repo_error
  | ErrChallengeUsed
  | ErrChallengeExpired
  | SignatureFailed sig_error
  | ErrAddressMismatch

definition challenge_message :: "sig_lib \<Rightarrow> challenge_config \<Rightarrow> string \<Rightarrow> string \<Rightarrow> int \<Rightarrow> int \<Rightarrow> string" where
  "challenge_message S cfg address nonce issued expires =
     ccDomain cfg @ '' wants you to prove ownership of this wallet.'' @ [CHR 0x0A] @
     ''Address: '' @ address @ [CHR 0x0A] @ ''Nonce: '' @ nonce @ [CHR 0x0A] @
     ''Issued At: '' @ sl_time S issued @ [CHR 0x0A] @ ''Expires At: '' @ sl_time S expires"

definition new_challenge :: "sig_lib \<Rightarrow> challenge_config \<Rightarrow> string \<Rightarrow> bytes \<Rightarrow> int \<Rightarrow> WalletChallenge" where
  "new_challenge S cfg address nonceBytes now =
     (let nonce = hex nonceBytes; expiresAt = now + ccTTL cfg
      in \<lparr>wcID = nonce, wcAddress = address, wcNonce = nonce,
          wcMessage = challenge_message S cfg address nonce now expiresAt,
          wcExpiresAt = expiresAt, wcUsed = False, wcCreatedAt = now\<rparr>)"

definition check_cap :: "'c challenge_repo \<Rightarrow> challenge_config \<Rightarrow> string \<Rightarrow> int \<Rightarrow> 'c \<Rightarrow> challenge_error + unit" where
  "check_cap R cfg address now s =
     (if 0 < ccMaxActive cfg then
        (case chCountActive R address now s of
           Inl err \<Rightarrow> Inl (CountFailed err)
         | Inr active \<Rightarrow> guard (int active < ccMaxActive cfg) ErrTooManyActiveChallenges)
      else Inr ())"

text \<open>\<open>now\<close> and \<open>later\<close> are the two readings of the clock, \<open>rand\<close> the 16 random bytes.\<close>

definition CreateChallenge :: "'c challenge_repo \<Rightarrow> sig_lib \<Rightarrow> challenge_config \<Rightarrow> int \<Rightarrow> bytes option \<Rightarrow> int \<Rightarrow> string
    \<Rightarrow> 'c \<Rightarrow> (challenge_error + WalletChallenge) \<times> 'c" where
  "CreateChallenge R S cfg now rand later address s =
     (if \<not> ValidateAddress S address then (Inl (InvalidAddress address), s)
      else case check_cap R cfg (NormalizeAddress address) now s of
        Inl err \<Rightarrow> (Inl err, s)
      | Inr _ \<Rightarrow>
          (case rand of
             None \<Rightarrow> (Inl NonceFailed, s)
           | Some nonceBytes \<Rightarrow>
               (let c = new_challenge S cfg (NormalizeAddress address) nonceBytes later in
                case chCreate R c s of
                  (Inl err, s') \<Rightarrow> (Inl (ChallengeRepo err), s')
                | (Inr _, s') \<Rightarrow> (Inr c, s'))))"

definition check_challenge :: "'c challenge_repo \<Rightarrow> sig_lib \<Rightarrow> int \<Rightarrow> string \<Rightarrow> bytes \<Rightarrow> 'c \<Rightarrow> challenge_error + WalletChallenge" where
  "check_challenge R S now nonce sig s =
     (case chGet R nonce s of
        Inl err \<Rightarrow> Inl (ChallengeRepo err)
      | Inr c \<Rightarrow>
          if wcUsed c then Inl ErrChallengeUsed
          else if wcExpiresAt c < now then Inl ErrChallengeExpired
          else case VerifySignature S (wcMessage c) (wcAddress c) sig of
                 Inl err \<Rightarrow> Inl (SignatureFailed err)
               | Inr recovered \<Rightarrow> if recovered \<noteq> wcAddress c then Inl ErrAddressMismatch else Inr c)"

definition mark_challenge :: "'c challenge_repo \<Rightarrow> WalletChallenge \<Rightarrow> 'c \<Rightarrow> (challenge_error + string) \<times> 'c" where
  "mark_challenge R c s =
     (case chMarkUsed R (wcID c) s of
        (Inl ErrAlreadyExists, s') \<Rightarrow> (Inl ErrChallengeUsed, s')
      | (Inl err, s') \<Rightarrow> (Inl (ChallengeRepo err), s')
      | (Inr _, s') \<Rightarrow> (Inr (wcAddress c), s'))"

definition VerifyChallenge :: "'c challenge_repo \<Rightarrow> sig_lib \<Rightarrow> int \<Rightarrow> string \<Rightarrow> bytes \<Rightarrow> 'c \<Rightarrow> (challenge_error + string) \<times> 'c" where
  "VerifyChallenge R S now nonce sig s =
     (case check_challenge R S now nonce sig s of
        Inl err \<Rightarrow> (Inl err, s)
      | Inr c \<Rightarrow> mark_challenge R c s)"

definition owned_record :: "int \<Rightarrow> string \<Rightarrow> Investor option \<Rightarrow> Investor" where
  "owned_record now address existing =
     (case existing of
        None \<Rightarrow> \<lparr>invAddress = address, invStatus = ComplianceUnknown, invValidUntil = 0,
                  invOwnershipVerified = True, invCreatedAt = now, invUpdatedAt = now\<rparr>
      | Some v \<Rightarrow> v\<lparr>invOwnershipVerified := True, invUpdatedAt := now\<rparr>)"

definition VerifyOwnership :: "'c challenge_repo \<Rightarrow> 'i inv_repo \<Rightarrow> sig_lib \<Rightarrow> int \<Rightarrow> int \<Rightarrow> string \<Rightarrow> string \<Rightarrow> bytes
    \<Rightarrow> 'c \<Rightarrow> 'i \<Rightarrow> (challenge_error + Investor) \<times> 'c \<times> 'i" where
  "VerifyOwnership R V S now later address nonce sig s i =
     (case VerifyChallenge R S now nonce sig s of
        (Inl err, s') \<Rightarrow> (Inl err, s', i)
      | (Inr recovered, s') \<Rightarrow>
          if NormalizeAddress address \<noteq> recovered then (Inl ErrAddressMismatch, s', i)
          else
            (let store = (\<lambda>existing.
               let v = owned_record later recovered existing in
               case ivUpsert V v i of
                 (Inl err, i') \<Rightarrow> (Inl (ChallengeRepo err), s', i')
               | (Inr _, i') \<Rightarrow> (Inr v, s', i'))
             in case ivGet V recovered i of
                  Inr existing \<Rightarrow> store (Some existing)
                | Inl ErrNotFound \<Rightarrow> store None
                | Inl err \<Rightarrow> (Inl (ChallengeRepo err), s', i)))"


section \<open>Concurrent requests\<close>

text \<open>
  A run interleaves the repository calls of any number of requests. \<open>inflight\<close> holds the
  verifications that have passed every check but have not marked the challenge yet,
  \<open>proven\<close> the verifications that returned an address, with the message that was signed.
\<close>

record proof_of_ownership =
  poNonce :: string
  poAddress :: string
  poMessage :: string
  poSignature :: bytes
  poAt :: int

record 'c ch_run =
  chStore :: 'c
  inflight :: "(WalletChallenge \<times> bytes \<times> int) list"
  proven :: "proof_of_ownership list"

inductive ch_step :: "'c challenge_repo \<Rightarrow> sig_lib \<Rightarrow> challenge_config \<Rightarrow> 'c ch_run \<Rightarrow> 'c ch_run \<Rightarrow> bool"
  for R :: "'c challenge_repo" and S :: sig_lib and cfg :: challenge_config where
  created: "CreateChallenge R S cfg now rand later address (chStore r) = (res, s) \<Longrightarrow>
    ch_step R S cfg r (r\<lparr>chStore := s\<rparr>)"
| checked: "check_challenge R S now nonce sig (chStore r) = Inr c \<Longrightarrow>
    ch_step R S cfg r (r\<lparr>inflight := (c, sig, now) # inflight r\<rparr>)"
| marked: "(c, sig, now) \<in> set (inflight r) \<Longrightarrow> mark_challenge R c (chStore r) = (Inr a, s) \<Longrightarrow>
    ch_step R S cfg r (r\<lparr>chStore := s, inflight := remove1 (c, sig, now) (inflight r),
      proven := \<lparr>poNonce = wcID c, poAddress = a, poMessage = wcMessage c, poSignature = sig, poAt = now\<rparr> # proven r\<rparr>)"
| refused: "(c, sig, now) \<in> set (inflight r) \<Longrightarrow> mark_challenge R c (chStore r) = (Inl err, s) \<Longrightarrow>
    ch_step R S cfg r (r\<lparr>chStore := s, inflight := remove1 (c, sig, now) (inflight r)\<rparr>)"

definition ch_init :: "'c \<Rightarrow> 'c ch_run" where
  "ch_init s = \<lparr>chStore = s, inflight = [], proven = []\<rparr>"

text \<open>A challenge as the service issues it.\<close>

definition issued :: "sig_lib \<Rightarrow> challenge_config \<Rightarrow> WalletChallenge \<Rightarrow> bool" where
  "issued S cfg c \<longleftrightarrow> wcNonce c = wcID c \<and>
     (\<exists>t. wcMessage c = challenge_message S cfg (wcAddress c) (wcID c) t (t + ccTTL cfg) \<and> wcExpiresAt c = t + ccTTL cfg)"

definition genuine :: "sig_lib \<Rightarrow> challenge_config \<Rightarrow> proof_of_ownership \<Rightarrow> bool" where
  "genuine S cfg p \<longleftrightarrow> signed_by S (poAddress p) (poMessage p) (poSignature p) \<and>
     (\<exists>t. poMessage p = challenge_message S cfg (poAddress p) (poNonce p) t (t + ccTTL cfg) \<and> poAt p \<le> t + ccTTL cfg)"

lemma issued_used [simp]: "issued S cfg (c\<lparr>wcUsed := u\<rparr>) = issued S cfg c"
  by (simp add: issued_def)

context challenge_store
begin

definition ch_inv :: "sig_lib \<Rightarrow> challenge_config \<Rightarrow> 'c ch_run \<Rightarrow> bool" where
  "ch_inv S cfg r \<longleftrightarrow>
     (\<forall>i c. at (chStore r) i = Some c \<longrightarrow> wcID c = i \<and> issued S cfg c) \<and>
     (\<forall>(c, sig, now) \<in> set (inflight r). issued S cfg c \<and> signed_by S (wcAddress c) (wcMessage c) sig \<and> now \<le> wcExpiresAt c) \<and>
     (\<forall>p \<in> set (proven r). genuine S cfg p \<and> (\<exists>c. at (chStore r) (poNonce p) = Some c \<and> wcUsed c)) \<and>
     distinct (map poNonce (proven r))"

lemma ch_invI:
  assumes "\<forall>i c. at (chStore r) i = Some c \<longrightarrow> wcID c = i \<and> issued S cfg c"
    and "\<forall>(c, sig, now) \<in> set (inflight r). issued S cfg c \<and> signed_by S (wcAddress c) (wcMessage c) sig \<and> now \<le> wcExpiresAt c"
    and "\<forall>p \<in> set (proven r). genuine S cfg p \<and> (\<exists>c. at (chStore r) (poNonce p) = Some c \<and> wcUsed c)"
    and "distinct (map poNonce (proven r))"
  shows "ch_inv S cfg r"
  using assms by (simp add: ch_inv_def)

lemma mark_cases:
  assumes "mark_challenge R c s = (res, s')"
  shows "(\<exists>e. res = Inl e \<and> at s' = at s) \<or>
    (res = Inr (wcAddress c) \<and> (\<exists>d. at s (wcID c) = Some d \<and> \<not> wcUsed d \<and> at s' = (at s)(wcID c \<mapsto> d\<lparr>wcUsed := True\<rparr>)))"
proof (cases "chMarkUsed R (wcID c) s")
  case (Pair x s1)
  show ?thesis
  proof (cases x)
    case (Inl err)
    with Pair mark_fails assms show ?thesis
      by (cases err) (auto simp: mark_challenge_def)
  next
    case (Inr u)
    with Pair assms have "res = Inr (wcAddress c)" "s' = s1" by (auto simp: mark_challenge_def)
    with mark_ok Pair Inr show ?thesis by blast
  qed
qed

lemma create_cases:
  assumes "CreateChallenge R S cfg now rand later address s = (res, s')"
  shows "at s' = at s \<or> (\<exists>c. issued S cfg c \<and> \<not> wcUsed c \<and> at s (wcID c) = None \<and> at s' = (at s)(wcID c \<mapsto> c))"
proof (cases "\<exists>nonceBytes. rand = Some nonceBytes \<and> ValidateAddress S address \<and> check_cap R cfg (NormalizeAddress address) now s = Inr ()")
  case True
  then obtain b where b: "rand = Some b" "ValidateAddress S address" "check_cap R cfg (NormalizeAddress address) now s = Inr ()"
    by blast
  let ?c = "new_challenge S cfg (NormalizeAddress address) b later"
  have i: "issued S cfg ?c" "\<not> wcUsed ?c" by (auto simp: issued_def new_challenge_def Let_def)
  obtain x s1 where c: "chCreate R ?c s = (x, s1)" by fastforce
  with b assms have "s' = s1" by (cases x) (auto simp: CreateChallenge_def Let_def)
  with c i create_ok create_fails show ?thesis by (cases x) blast+
next
  case False
  with assms show ?thesis by (auto simp: CreateChallenge_def split: if_splits sum.splits option.splits)
qed

lemma check_ok:
  "check_challenge R S now nonce sig s = Inr c \<Longrightarrow>
     at s nonce = Some c \<and> \<not> wcUsed c \<and> now \<le> wcExpiresAt c \<and> signed_by S (wcAddress c) (wcMessage c) sig"
  by (auto simp: check_challenge_def VerifySignature_Inr dest: get_ok split: sum.splits if_splits)

lemma ch_inv_step:
  assumes "ch_inv S cfg r" "ch_step R S cfg r r'"
  shows "ch_inv S cfg r'"
  using assms(2,1)
proof (cases rule: ch_step.cases)
  case (created now rand later address res s)
  from assms(1) have h: "\<forall>i c. at (chStore r) i = Some c \<longrightarrow> wcID c = i \<and> issued S cfg c"
      "\<forall>p \<in> set (proven r). genuine S cfg p \<and> (\<exists>c. at (chStore r) (poNonce p) = Some c \<and> wcUsed c)"
    by (simp_all add: ch_inv_def)
  have s: "\<forall>i c. at s i = Some c \<longrightarrow> wcID c = i \<and> issued S cfg c"
    using create_cases [OF created(2)] h(1) by (auto split: if_splits)
  have p: "\<exists>c. at s (poNonce p) = Some c \<and> wcUsed c" if "p \<in> set (proven r)" for p
    using create_cases [OF created(2)] h(2) that by (metis fun_upd_apply option.discI)
  show ?thesis
    by (rule ch_invI) (use assms(1) s p in \<open>auto simp: created(1) ch_inv_def\<close>)
next
  case (checked now nonce sig c)
  from check_ok [OF checked(2)] assms(1) have "issued S cfg c" by (auto simp: ch_inv_def)
  with check_ok [OF checked(2)] assms(1) show ?thesis
    by (intro ch_invI) (auto simp: checked(1) ch_inv_def)
next
  case (marked c sig now a s)
  from mark_cases [OF marked(3)] obtain d where
    d: "a = wcAddress c" "at (chStore r) (wcID c) = Some d" "\<not> wcUsed d" "at s = (at (chStore r))(wcID c \<mapsto> d\<lparr>wcUsed := True\<rparr>)"
    by auto
  have h: "issued S cfg c" "signed_by S (wcAddress c) (wcMessage c) sig" "now \<le> wcExpiresAt c"
    using marked(2) assms(1) by (auto simp: ch_inv_def)
  have own: "wcID d = wcID c" "issued S cfg d" using assms(1) d(2) by (auto simp: ch_inv_def)
  have new: "poNonce p \<noteq> wcID c" if "p \<in> set (proven r)" for p
    using assms(1) d(2,3) that by (auto simp: ch_inv_def)
  have g: "genuine S cfg \<lparr>poNonce = wcID c, poAddress = a, poMessage = wcMessage c, poSignature = sig, poAt = now\<rparr>"
    using h by (auto simp: genuine_def issued_def d(1))
  show ?thesis
  proof (rule ch_invI)
    show "\<forall>i c. at (chStore r') i = Some c \<longrightarrow> wcID c = i \<and> issued S cfg c"
      using assms(1) d(4) own by (auto simp: marked(1) ch_inv_def)
    show "\<forall>(c, sig, now) \<in> set (inflight r'). issued S cfg c \<and> signed_by S (wcAddress c) (wcMessage c) sig \<and> now \<le> wcExpiresAt c"
      using assms(1) by (auto simp: marked(1) ch_inv_def dest: notin_set_remove1 [rotated] set_mp [OF set_remove1_subset])
    show "\<forall>p \<in> set (proven r'). genuine S cfg p \<and> (\<exists>c. at (chStore r') (poNonce p) = Some c \<and> wcUsed c)"
      using assms(1) d(4) g new by (auto simp: marked(1) ch_inv_def)
    have "wcID c \<notin> poNonce ` set (proven r)" using new by force
    then show "distinct (map poNonce (proven r'))"
      using assms(1) by (simp add: marked(1) ch_inv_def)
  qed
next
  case (refused c sig now err s)
  from mark_cases [OF refused(3)] have "at s = at (chStore r)" by auto
  then show ?thesis using assms(1)
    by (intro ch_invI) (auto simp: refused(1) ch_inv_def dest: set_mp [OF set_remove1_subset])
qed

lemma ch_inv_run:
  assumes "(ch_step R S cfg)\<^sup>*\<^sup>* r r'" "ch_inv S cfg r"
  shows "ch_inv S cfg r'"
  using assms by (induction rule: rtranclp_induct) (auto intro: ch_inv_step)

lemma single_use:
  assumes "at s = Map.empty" "(ch_step R S cfg)\<^sup>*\<^sup>* (ch_init s) r"
  shows "distinct (map poNonce (proven r)) \<and> (\<forall>p \<in> set (proven r). genuine S cfg p)"
proof -
  have "ch_inv S cfg (ch_init s)" using assms(1) by (simp add: ch_inv_def ch_init_def)
  from ch_inv_run [OF assms(2) this] show ?thesis by (simp add: ch_inv_def)
qed

end

section \<open>Ownership against the rebuild of the statuses\<close>

text \<open>
  \<open>ComplianceReconcile\<close> reads a record, and writes it back with the ownership flag it read. When
  \<open>VerifyOwnership\<close> succeeds between the two, the flag it set is overwritten, and its challenge is
  spent.
\<close>

lemma ownership_flag_lost:
  assumes "investor_store V ok look" "ok i'" "look i a = None"
    and "VerifyOwnership R V S now later a nonce sig s i = (Inr v, s', i')"
    and "ivUpsert V (status_record t a st (look i a)) i' = (Inr u, i'')"
  shows "map_option invOwnershipVerified (look i'' a) = Some False"
  using investor_store.upsert_ok [OF assms(1,2,5)] by (simp add: status_record_def assms(3))

section \<open>Properties\<close>

text \<open>C23: a wallet challenge proves ownership once. In any interleaving of challenge creations and of
  the halves of concurrent verifications, starting from an empty store, no nonce is ever accepted
  twice, and whenever an address is returned, that address signed, with its ed25519 key, the
  message this service issued for that very address and nonce, before it expired.\<close>

theorem challenge_single_use:
  assumes "challenge_store R at" "at s = Map.empty" "(ch_step R S cfg)\<^sup>*\<^sup>* (ch_init s) r"
  shows "distinct (map poNonce (proven r)) \<and> (\<forall>p \<in> set (proven r). genuine S cfg p)"
  by (rule challenge_store.single_use [OF assms])

section \<open>Example\<close>

definition demo_sig :: sig_lib where
  "demo_sig = \<lparr>sl_decode = (\<lambda>s. Inr (replicate 32 (of_nat (length s)))), sl_verify = (\<lambda>pk m sg. sg = replicate 64 (hd pk)),
     sl_time = dec_int\<rparr>"

definition demo_cc :: challenge_config where
  "demo_cc = \<lparr>ccTTL = 100, ccDomain = ''rwa'', ccMaxActive = 20\<rparr>"

definition demo_wc :: WalletChallenge where
  "demo_wc = new_challenge demo_sig demo_cc ''A'' [1] 10"

lemma demo_create: "CreateChallenge memoryChallenges demo_sig demo_cc 10 (Some [1]) 10 ''A'' [] = (Inr demo_wc, [(wcID demo_wc, demo_wc)])"
  by (simp add: CreateChallenge_def ValidateAddress_def demo_sig_def check_cap_def demo_cc_def memoryChallenges_def
      memChCountActive_def memChCreate_def NormalizeAddress_def demo_wc_def Let_def)

lemma demo_check: "check_challenge memoryChallenges demo_sig 20 (wcID demo_wc) (replicate 64 1) [(wcID demo_wc, demo_wc)] = Inr demo_wc"
  by (simp add: check_challenge_def memoryChallenges_def memChGet_def VerifySignature_def demo_sig_def demo_wc_def
      new_challenge_def demo_cc_def Let_def)

lemma demo_mark: "mark_challenge memoryChallenges demo_wc [(wcID demo_wc, demo_wc)] = (Inr ''A'', [(wcID demo_wc, demo_wc\<lparr>wcUsed := True\<rparr>)])"
  by (simp add: mark_challenge_def memoryChallenges_def memChMarkUsed_def demo_wc_def new_challenge_def NormalizeAddress_def Let_def)

text \<open>Two verifications of the same signature pass the checks; only one proves ownership.\<close>

definition demo_ch_run :: "challenge_map ch_run" where
  "demo_ch_run = \<lparr>chStore = [(wcID demo_wc, demo_wc\<lparr>wcUsed := True\<rparr>)], inflight = [(demo_wc, replicate 64 1, 20)],
     proven = [\<lparr>poNonce = wcID demo_wc, poAddress = ''A'', poMessage = wcMessage demo_wc, poSignature = replicate 64 1, poAt = 20\<rparr>]\<rparr>"

lemma demo_ch_steps: "(ch_step memoryChallenges demo_sig demo_cc)\<^sup>*\<^sup>* (ch_init []) demo_ch_run"
proof -
  let ?st = "ch_step memoryChallenges demo_sig demo_cc"
  have 1: "?st (ch_init []) (ch_init [(wcID demo_wc, demo_wc)])"
    using ch_step.created [where r = "ch_init []", of memoryChallenges demo_sig demo_cc] demo_create by (fastforce simp: ch_init_def)
  have 2: "?st r (r\<lparr>inflight := (demo_wc, replicate 64 1, 20) # inflight r\<rparr>)" if "chStore r = [(wcID demo_wc, demo_wc)]" for r
    using ch_step.checked [where r = r] demo_check that by metis
  have 3: "?st r (r\<lparr>chStore := [(wcID demo_wc, demo_wc\<lparr>wcUsed := True\<rparr>)],
      inflight := remove1 (demo_wc, replicate 64 1, 20) (inflight r),
      proven := \<lparr>poNonce = wcID demo_wc, poAddress = ''A'', poMessage = wcMessage demo_wc, poSignature = replicate 64 1, poAt = 20\<rparr> # proven r\<rparr>)"
    if "chStore r = [(wcID demo_wc, demo_wc)]" "(demo_wc, replicate 64 1, 20) \<in> set (inflight r)" for r
    using ch_step.marked [where r = r] demo_mark that by metis
  let ?r1 = "ch_init [(wcID demo_wc, demo_wc)]"
  let ?r2 = "?r1\<lparr>inflight := (demo_wc, replicate 64 1, 20) # inflight ?r1\<rparr>"
  let ?r3 = "?r2\<lparr>inflight := (demo_wc, replicate 64 1, 20) # inflight ?r2\<rparr>"
  have "?st ?r1 ?r2" by (rule 2) (simp add: ch_init_def)
  moreover have "?st ?r2 ?r3" by (rule 2) (simp add: ch_init_def)
  moreover have "?st ?r3 demo_ch_run" using 3 [of ?r3] by (simp add: ch_init_def demo_ch_run_def)
  ultimately show ?thesis using 1 by (meson rtranclp.rtrancl_refl rtranclp.rtrancl_into_rtrancl)
qed

theorem challenge_single_use_witness:
  "(ch_step memoryChallenges demo_sig demo_cc)\<^sup>*\<^sup>* (ch_init []) demo_ch_run \<and>
   length (proven demo_ch_run) = 1 \<and> genuine demo_sig demo_cc (hd (proven demo_ch_run))"
  using challenge_single_use [OF mw.challenge_store_axioms _ demo_ch_steps] demo_ch_steps by (simp add: demo_ch_run_def)

end
