(* ===== verification/AdminAuth.thy ===== *)
theory AdminAuth
  imports WalletChallenge
begin

text \<open>
  Admin login and wallet sessions: \<^verbatim>\<open>server/internal/auth/admin_challenge.go\<close>, \<^verbatim>\<open>session.go\<close>,
  \<^verbatim>\<open>jwt.go\<close>, \<^verbatim>\<open>bearer.go\<close>, \<^verbatim>\<open>rbac.go\<close>, the in-memory stores \<^verbatim>\<open>dal/memory/admin_challenge.go\<close> and
  \<^verbatim>\<open>wallet_session.go\<close>, and the decision of the \<open>createSession\<close> handler of \<^verbatim>\<open>api/auth.go\<close>. The JWT
  library is the record \<open>jwt_lib\<close>: what it signs and what it accepts at a time. There is one
  active admin challenge per address, and it is marked used by address, not by nonce.
\<close>

section \<open>Admin challenges\<close>

record AdminChallenge =
  acAddress :: string
  acMessage :: string
  acNonce :: string
  acExpiresAt :: int
  acUsed :: bool
  acCreatedAt :: int

type_synonym admin_map = "(string \<times> AdminChallenge) list"

definition memAdUpsert :: "AdminChallenge \<Rightarrow> admin_map \<Rightarrow> admin_map" where
  "memAdUpsert c m = AList.update (acAddress c) c m"

definition memAdGet :: "int \<Rightarrow> string \<Rightarrow> admin_map \<Rightarrow> (repo_error + AdminChallenge) \<times> admin_map" where
  "memAdGet now address m =
     (case map_of m address of
        None \<Rightarrow> (Inl ErrNotFound, m)
      | Some c \<Rightarrow> if acExpiresAt c < now then (Inl ErrNotFound, AList.delete address m) else (Inr c, m))"

definition memAdMarkUsed :: "string \<Rightarrow> admin_map \<Rightarrow> (repo_error + unit) \<times> admin_map" where
  "memAdMarkUsed address m =
     (case map_of m address of
        None \<Rightarrow> (Inl ErrNotFound, m)
      | Some c \<Rightarrow>
          if acUsed c then (Inl ErrAlreadyExists, m)
          else (Inr (), AList.update address (c\<lparr>acUsed := True\<rparr>) m))"

datatype admin_error =
    AdminInvalidAddress string
  | AdminNonceFailed
  | AdminRepo repo_error
  | ErrAdminChallengeExpired
  | ErrAdminChallengeUsed
  | AdminSignature sig_error
  | ErrAdminAddressMismatch

definition admin_message :: "sig_lib \<Rightarrow> string \<Rightarrow> string \<Rightarrow> string \<Rightarrow> int \<Rightarrow> int \<Rightarrow> string" where
  "admin_message S domain addr nonce iat expires =
     domain @ '' admin login.'' @ [CHR 0x0A] @ ''Sign this message to authenticate as the platform admin.'' @ [CHR 0x0A] @
     ''Address: '' @ addr @ [CHR 0x0A] @ ''Nonce: '' @ nonce @ [CHR 0x0A] @
     ''Issued At: '' @ sl_time S iat @ [CHR 0x0A] @ ''Expires At: '' @ sl_time S expires"

definition new_admin_challenge :: "sig_lib \<Rightarrow> string \<Rightarrow> int \<Rightarrow> int \<Rightarrow> string \<Rightarrow> bytes \<Rightarrow> AdminChallenge" where
  "new_admin_challenge S domain ttl now addr nonceBytes =
     (let nonce = hex nonceBytes; expiresAt = now + ttl
      in \<lparr>acAddress = addr, acMessage = admin_message S domain addr nonce now expiresAt, acNonce = nonce,
          acExpiresAt = expiresAt, acUsed = False, acCreatedAt = now\<rparr>)"

definition AdminCreate :: "sig_lib \<Rightarrow> string \<Rightarrow> int \<Rightarrow> int \<Rightarrow> bytes option \<Rightarrow> string \<Rightarrow> admin_map
    \<Rightarrow> (admin_error + string \<times> int) \<times> admin_map" where
  "AdminCreate S domain ttl now rand address m =
     (if \<not> ValidateAddress S address then (Inl (AdminInvalidAddress address), m)
      else case rand of
        None \<Rightarrow> (Inl AdminNonceFailed, m)
      | Some nonceBytes \<Rightarrow>
          (let c = new_admin_challenge S domain ttl now (NormalizeAddress address) nonceBytes
           in (Inr (acMessage c, acExpiresAt c), memAdUpsert c m)))"

definition admin_check :: "sig_lib \<Rightarrow> int \<Rightarrow> string \<Rightarrow> bytes \<Rightarrow> admin_map \<Rightarrow> (admin_error + AdminChallenge) \<times> admin_map" where
  "admin_check S now address sig m =
     (if \<not> ValidateAddress S address then (Inl (AdminInvalidAddress address), m)
      else case memAdGet now (NormalizeAddress address) m of
        (Inl ErrNotFound, m') \<Rightarrow> (Inl ErrAdminChallengeExpired, m')
      | (Inl err, m') \<Rightarrow> (Inl (AdminRepo err), m')
      | (Inr c, m') \<Rightarrow>
          (if acUsed c then (Inl ErrAdminChallengeUsed, m')
           else case VerifySignature S (acMessage c) (acAddress c) sig of
             Inl err \<Rightarrow> (Inl (AdminSignature err), m')
           | Inr recovered \<Rightarrow>
               if recovered \<noteq> acAddress c then (Inl ErrAdminAddressMismatch, m') else (Inr c, m')))"

definition admin_mark :: "string \<Rightarrow> AdminChallenge \<Rightarrow> admin_map \<Rightarrow> (admin_error + string) \<times> admin_map" where
  "admin_mark normalized c m =
     (case memAdMarkUsed normalized m of
        (Inl ErrAlreadyExists, m') \<Rightarrow> (Inl ErrAdminChallengeUsed, m')
      | (Inl err, m') \<Rightarrow> (Inl (AdminRepo err), m')
      | (Inr _, m') \<Rightarrow> (Inr (acAddress c), m'))"

definition AdminVerify :: "sig_lib \<Rightarrow> int \<Rightarrow> string \<Rightarrow> bytes \<Rightarrow> admin_map \<Rightarrow> (admin_error + string) \<times> admin_map" where
  "AdminVerify S now address sig m =
     (case admin_check S now address sig m of
        (Inl err, m') \<Rightarrow> (Inl err, m')
      | (Inr c, m') \<Rightarrow> admin_mark (NormalizeAddress address) c m')"

section \<open>Admin tokens\<close>

record adminClaims =
  clRole :: string
  clSubject :: string
  clIssuedAt :: int
  clExpiresAt :: int

record jwt_lib =
  jwtSign :: "bytes \<Rightarrow> adminClaims \<Rightarrow> string option"
  jwtParse :: "bytes \<Rightarrow> int \<Rightarrow> string \<Rightarrow> adminClaims option"

datatype jwt_error = NoSecret | SigningFailed | TokenRejected | WrongRole string | NoSubject

definition adminJWTRole :: string where "adminJWTRole = ''admin''"

definition IssueAdminJWT :: "jwt_lib \<Rightarrow> int \<Rightarrow> bytes \<Rightarrow> string \<Rightarrow> int \<Rightarrow> jwt_error + string \<times> int" where
  "IssueAdminJWT J now secret address ttl =
     (if secret = [] then Inl NoSecret
      else
        (let expiresAt = now + ttl in
         case jwtSign J secret \<lparr>clRole = adminJWTRole, clSubject = address, clIssuedAt = now, clExpiresAt = expiresAt\<rparr> of
           None \<Rightarrow> Inl SigningFailed
         | Some token \<Rightarrow> Inr (token, expiresAt)))"

definition ParseAdminJWT :: "jwt_lib \<Rightarrow> int \<Rightarrow> bytes \<Rightarrow> string \<Rightarrow> jwt_error + string" where
  "ParseAdminJWT J now secret token =
     (if secret = [] then Inl NoSecret
      else case jwtParse J secret now token of
        None \<Rightarrow> Inl TokenRejected
      | Some cl \<Rightarrow>
          if clRole cl \<noteq> adminJWTRole then Inl (WrongRole (clRole cl))
          else if clSubject cl = '''' then Inl NoSubject
          else Inr (clSubject cl))"

datatype Role = RoleAdmin | RoleReadOnly

definition anonymousPrincipal :: string where "anonymousPrincipal = ''anonymous''"

text \<open>\<open>Authenticate\<close>: the role and the principal of a request with a bearer token (empty for none).\<close>

definition Authenticate :: "jwt_lib \<Rightarrow> int \<Rightarrow> bytes \<Rightarrow> string \<Rightarrow> Role \<times> string" where
  "Authenticate J now jwtSecret tok =
     (if jwtSecret \<noteq> [] \<and> tok \<noteq> '''' then
        (case ParseAdminJWT J now jwtSecret tok of
           Inr addr \<Rightarrow> (RoleAdmin, addr)
         | Inl _ \<Rightarrow> (RoleReadOnly, anonymousPrincipal))
      else (RoleReadOnly, anonymousPrincipal))"

definition RequireRole :: "Role list \<Rightarrow> Role \<Rightarrow> bool" where
  "RequireRole allowed role \<longleftrightarrow> role \<in> set allowed"

text \<open>The decision of \<open>createSession\<close> on a decoded signature: the status, and the token with its expiry.\<close>

definition create_session :: "jwt_lib \<Rightarrow> sig_lib \<Rightarrow> bytes \<Rightarrow> string \<Rightarrow> int \<Rightarrow> int \<Rightarrow> string \<Rightarrow> bytes \<Rightarrow> admin_map
    \<Rightarrow> (nat \<times> (string \<times> int) option) \<times> admin_map" where
  "create_session J S jwtSecret adminAddress jwtTTL now address sig m =
     (if jwtSecret = [] \<or> adminAddress = '''' then ((501, None), m)
      else case AdminVerify S now address sig m of
        (Inl _, m') \<Rightarrow> ((401, None), m')
      | (Inr recovered, m') \<Rightarrow>
          if recovered \<noteq> adminAddress then ((401, None), m')
          else case IssueAdminJWT J now jwtSecret adminAddress jwtTTL of
                 Inl _ \<Rightarrow> ((500, None), m')
               | Inr jwt \<Rightarrow> ((200, Some jwt), m'))"

section \<open>Wallet sessions\<close>

record WalletSession =
  wsToken :: string
  wsAddress :: string
  wsExpiresAt :: int

type_synonym session_map = "(string \<times> WalletSession) list"

definition memSessCreate :: "WalletSession \<Rightarrow> session_map \<Rightarrow> session_map" where
  "memSessCreate s m = AList.update (wsToken s) s m"

definition memSessGet :: "int \<Rightarrow> string \<Rightarrow> session_map \<Rightarrow> (repo_error + WalletSession) \<times> session_map" where
  "memSessGet now token m =
     (case map_of m token of
        None \<Rightarrow> (Inl ErrNotFound, m)
      | Some s \<Rightarrow> if wsExpiresAt s < now then (Inl ErrNotFound, AList.delete token m) else (Inr s, m))"

definition memSessDelete :: "string \<Rightarrow> session_map \<Rightarrow> session_map" where
  "memSessDelete token m = AList.delete token m"

definition hashSessionToken :: "(bytes \<Rightarrow> bytes) \<Rightarrow> string \<Rightarrow> string" where
  "hashSessionToken sha token = hex (sha (bytes_of_string token))"

definition Issue :: "(bytes \<Rightarrow> bytes) \<Rightarrow> int \<Rightarrow> int \<Rightarrow> bytes option \<Rightarrow> string \<Rightarrow> session_map \<Rightarrow> (string \<times> int) option \<times> session_map" where
  "Issue sha ttl now rand address m =
     (case rand of
        None \<Rightarrow> (None, m)
      | Some b \<Rightarrow>
          (let token = hex b; expiresAt = now + ttl
           in (Some (token, expiresAt),
               memSessCreate \<lparr>wsToken = hashSessionToken sha token, wsAddress = address, wsExpiresAt = expiresAt\<rparr> m)))"

definition Validate :: "(bytes \<Rightarrow> bytes) \<Rightarrow> int \<Rightarrow> string \<Rightarrow> session_map \<Rightarrow> string option \<times> session_map" where
  "Validate sha now token m =
     (case memSessGet now (hashSessionToken sha token) m of
        (Inl _, m') \<Rightarrow> (None, m')
      | (Inr s, m') \<Rightarrow> (Some (wsAddress s), m'))"

text \<open>\<open>RequireWalletSession\<close>: the status that aborts the request, or the address it may act for.\<close>

definition RequireWalletSession :: "(bytes \<Rightarrow> bytes) \<Rightarrow> bool \<Rightarrow> int \<Rightarrow> string \<Rightarrow> session_map \<Rightarrow> (nat + string) \<times> session_map" where
  "RequireWalletSession sha configured now token m =
     (if \<not> configured then (Inl 501, m)
      else if token = '''' then (Inl 401, m)
      else case Validate sha now token m of
             (None, m') \<Rightarrow> (Inl 401, m')
           | (Some address, m') \<Rightarrow> (Inr address, m'))"


section \<open>Concurrent logins\<close>

text \<open>
  A run interleaves challenge requests, which anyone may make for any address, with the halves of
  concurrent verifications. \<open>adRaced\<close> collects the addresses for which a challenge was requested
  while a verification for the address was between its check and its mark. Nonces are 16 random
  bytes: no two challenges share one.
\<close>

record ad_run =
  adStore :: admin_map
  adInflight :: "(string \<times> AdminChallenge \<times> bytes \<times> int) list"
  adLogins :: "proof_of_ownership list"
  adNonces :: "string set"
  adRaced :: "string set"

inductive ad_step :: "sig_lib \<Rightarrow> string \<Rightarrow> int \<Rightarrow> ad_run \<Rightarrow> ad_run \<Rightarrow> bool"
  for S :: sig_lib and domain :: string and ttl :: int where
  ad_created: "AdminCreate S domain ttl now (Some b) address (adStore r) = (Inr res, m) \<Longrightarrow> hex b \<notin> adNonces r \<Longrightarrow>
    ad_step S domain ttl r (r\<lparr>adStore := m, adNonces := insert (hex b) (adNonces r),
      adRaced := (if address \<in> fst ` set (adInflight r) then insert address (adRaced r) else adRaced r)\<rparr>)"
| ad_checked: "admin_check S now address sig (adStore r) = (Inr c, m) \<Longrightarrow>
    ad_step S domain ttl r (r\<lparr>adStore := m, adInflight := (address, c, sig, now) # adInflight r\<rparr>)"
| ad_rejected: "admin_check S now address sig (adStore r) = (Inl err, m) \<Longrightarrow>
    ad_step S domain ttl r (r\<lparr>adStore := m\<rparr>)"
| ad_marked: "(address, c, sig, now) \<in> set (adInflight r) \<Longrightarrow> admin_mark address c (adStore r) = (Inr a, m) \<Longrightarrow>
    ad_step S domain ttl r (r\<lparr>adStore := m,
      adLogins := \<lparr>poNonce = acNonce c, poAddress = a, poMessage = acMessage c, poSignature = sig, poAt = now\<rparr> # adLogins r,
      adInflight := remove1 (address, c, sig, now) (adInflight r)\<rparr>)"
| ad_refused: "(address, c, sig, now) \<in> set (adInflight r) \<Longrightarrow> admin_mark address c (adStore r) = (Inl err, m) \<Longrightarrow>
    ad_step S domain ttl r (r\<lparr>adStore := m, adInflight := remove1 (address, c, sig, now) (adInflight r)\<rparr>)"

definition ad_init :: ad_run where
  "ad_init = \<lparr>adStore = [], adInflight = [], adLogins = [], adNonces = {}, adRaced = {}\<rparr>"

definition ad_issued :: "sig_lib \<Rightarrow> string \<Rightarrow> int \<Rightarrow> AdminChallenge \<Rightarrow> bool" where
  "ad_issued S domain ttl c \<longleftrightarrow>
     (\<exists>t. acMessage c = admin_message S domain (acAddress c) (acNonce c) t (t + ttl) \<and> acExpiresAt c = t + ttl)"

definition ad_genuine :: "sig_lib \<Rightarrow> string \<Rightarrow> int \<Rightarrow> proof_of_ownership \<Rightarrow> bool" where
  "ad_genuine S domain ttl p \<longleftrightarrow> signed_by S (poAddress p) (poMessage p) (poSignature p) \<and>
     (\<exists>t. poMessage p = admin_message S domain (poAddress p) (poNonce p) t (t + ttl) \<and> poAt p \<le> t + ttl)"

definition store_inv :: "sig_lib \<Rightarrow> string \<Rightarrow> int \<Rightarrow> ad_run \<Rightarrow> bool" where
  "store_inv S domain ttl r \<longleftrightarrow> (\<forall>a c. map_of (adStore r) a = Some c \<longrightarrow>
     acAddress c = a \<and> ad_issued S domain ttl c \<and> acNonce c \<in> adNonces r)"

definition inflight_inv :: "sig_lib \<Rightarrow> string \<Rightarrow> int \<Rightarrow> ad_run \<Rightarrow> bool" where
  "inflight_inv S domain ttl r \<longleftrightarrow> (\<forall>a c sig t. (a, c, sig, t) \<in> set (adInflight r) \<longrightarrow>
     acAddress c = a \<and> ad_issued S domain ttl c \<and> acNonce c \<in> adNonces r \<and> signed_by S a (acMessage c) sig \<and> t \<le> acExpiresAt c \<and>
     (a \<notin> adRaced r \<longrightarrow> (\<forall>d. map_of (adStore r) a = Some d \<longrightarrow> acNonce d = acNonce c)))"

definition login_inv :: "sig_lib \<Rightarrow> string \<Rightarrow> int \<Rightarrow> ad_run \<Rightarrow> bool" where
  "login_inv S domain ttl r \<longleftrightarrow> (\<forall>p \<in> set (adLogins r). ad_genuine S domain ttl p \<and> poNonce p \<in> adNonces r \<and>
     (poAddress p \<notin> adRaced r \<longrightarrow> (\<forall>d. map_of (adStore r) (poAddress p) = Some d \<longrightarrow> acNonce d = poNonce p \<longrightarrow> acUsed d)))"

definition fair_logins :: "ad_run \<Rightarrow> proof_of_ownership list" where
  "fair_logins r = filter (\<lambda>p. poAddress p \<notin> adRaced r) (adLogins r)"

definition login_id :: "proof_of_ownership \<Rightarrow> string \<times> string" where
  "login_id p = (poAddress p, poNonce p)"

definition ad_inv :: "sig_lib \<Rightarrow> string \<Rightarrow> int \<Rightarrow> ad_run \<Rightarrow> bool" where
  "ad_inv S domain ttl r \<longleftrightarrow> store_inv S domain ttl r \<and> inflight_inv S domain ttl r \<and> login_inv S domain ttl r \<and>
     distinct (map login_id (fair_logins r))"

lemma admin_check_ok:
  assumes "admin_check S now address sig m = (Inr c, m')"
  shows "m' = m \<and> map_of m address = Some c \<and> \<not> acUsed c \<and> now \<le> acExpiresAt c \<and> signed_by S (acAddress c) (acMessage c) sig"
  using assms
  by (auto simp: admin_check_def memAdGet_def NormalizeAddress_def VerifySignature_Inr
      split: option.splits if_splits sum.splits prod.splits repo_error.splits)

lemma admin_check_err:
  assumes "admin_check S now address sig m = (Inl e, m')"
  shows "map_of m' \<subseteq>\<^sub>m map_of m"
proof -
  have "m' = m \<or> m' = AList.delete address m"
    using assms
    by (auto simp: admin_check_def memAdGet_def NormalizeAddress_def
        split: option.splits if_splits sum.splits prod.splits repo_error.splits)
  then show ?thesis by (auto simp: delete_conv map_le_def split: if_splits)
qed

lemma admin_mark_cases:
  assumes "admin_mark address c m = (res, m')"
  shows "(\<exists>e. res = Inl e \<and> m' = m) \<or>
    (res = Inr (acAddress c) \<and> (\<exists>d. map_of m address = Some d \<and> \<not> acUsed d \<and> map_of m' = (map_of m)(address \<mapsto> d\<lparr>acUsed := True\<rparr>)))"
  using assms by (auto simp: admin_mark_def memAdMarkUsed_def update_conv split: option.splits if_splits)

lemma ad_storeD: "ad_inv S domain ttl r \<Longrightarrow> map_of (adStore r) a = Some c \<Longrightarrow>
    acAddress c = a \<and> ad_issued S domain ttl c \<and> acNonce c \<in> adNonces r"
  unfolding ad_inv_def store_inv_def by blast

lemma ad_inflightD: "ad_inv S domain ttl r \<Longrightarrow> (a, c, sig, t) \<in> set (adInflight r) \<Longrightarrow>
    acAddress c = a \<and> ad_issued S domain ttl c \<and> acNonce c \<in> adNonces r \<and> signed_by S a (acMessage c) sig \<and> t \<le> acExpiresAt c \<and>
    (a \<notin> adRaced r \<longrightarrow> (\<forall>d. map_of (adStore r) a = Some d \<longrightarrow> acNonce d = acNonce c))"
  unfolding ad_inv_def inflight_inv_def by blast

lemma ad_loginD: "ad_inv S domain ttl r \<Longrightarrow> p \<in> set (adLogins r) \<Longrightarrow> ad_genuine S domain ttl p \<and> poNonce p \<in> adNonces r \<and>
    (poAddress p \<notin> adRaced r \<longrightarrow> (\<forall>d. map_of (adStore r) (poAddress p) = Some d \<longrightarrow> acNonce d = poNonce p \<longrightarrow> acUsed d))"
  unfolding ad_inv_def login_inv_def by blast

lemma ad_invI:
  assumes "\<And>a c. map_of (adStore r) a = Some c \<Longrightarrow> acAddress c = a \<and> ad_issued S domain ttl c \<and> acNonce c \<in> adNonces r"
    and "\<And>a c sig t. (a, c, sig, t) \<in> set (adInflight r) \<Longrightarrow>
      acAddress c = a \<and> ad_issued S domain ttl c \<and> acNonce c \<in> adNonces r \<and> signed_by S a (acMessage c) sig \<and> t \<le> acExpiresAt c \<and>
      (a \<notin> adRaced r \<longrightarrow> (\<forall>d. map_of (adStore r) a = Some d \<longrightarrow> acNonce d = acNonce c))"
    and "\<And>p. p \<in> set (adLogins r) \<Longrightarrow> ad_genuine S domain ttl p \<and> poNonce p \<in> adNonces r \<and>
      (poAddress p \<notin> adRaced r \<longrightarrow> (\<forall>d. map_of (adStore r) (poAddress p) = Some d \<longrightarrow> acNonce d = poNonce p \<longrightarrow> acUsed d))"
    and "distinct (map login_id (fair_logins r))"
  shows "ad_inv S domain ttl r"
  using assms unfolding ad_inv_def store_inv_def inflight_inv_def login_inv_def by blast

lemma distinct_filter_subset:
  "distinct (map f (filter P xs)) \<Longrightarrow> (\<And>x. Q x \<Longrightarrow> P x) \<Longrightarrow> distinct (map f (filter Q xs))"
  by (induction xs) (auto split: if_splits)

lemma ad_inv_created:
  assumes i: "ad_inv S domain ttl r" and c: "AdminCreate S domain ttl now (Some b) address (adStore r) = (Inr res, m)"
    and fresh: "hex b \<notin> adNonces r"
  shows "ad_inv S domain ttl (r\<lparr>adStore := m, adNonces := insert (hex b) (adNonces r),
      adRaced := (if address \<in> fst ` set (adInflight r) then insert address (adRaced r) else adRaced r)\<rparr>)" (is "ad_inv _ _ _ ?r")
proof (rule ad_invI)
  let ?c = "new_admin_challenge S domain ttl now address b"
  have m: "map_of m = (map_of (adStore r))(address \<mapsto> ?c)"
    using c by (auto simp: AdminCreate_def NormalizeAddress_def memAdUpsert_def new_admin_challenge_def Let_def update_conv split: if_splits)
  have n: "acNonce ?c = hex b" "acAddress ?c = address" "ad_issued S domain ttl ?c"
    by (auto simp: new_admin_challenge_def ad_issued_def Let_def)
  show "acAddress d = a \<and> ad_issued S domain ttl d \<and> acNonce d \<in> adNonces ?r" if "map_of (adStore ?r) a = Some d" for a d
    using that ad_storeD [OF i, of a d] n m by (cases "a = address") auto
  show "acAddress d = a \<and> ad_issued S domain ttl d \<and> acNonce d \<in> adNonces ?r \<and> signed_by S a (acMessage d) sig \<and> t \<le> acExpiresAt d \<and>
      (a \<notin> adRaced ?r \<longrightarrow> (\<forall>e. map_of (adStore ?r) a = Some e \<longrightarrow> acNonce e = acNonce d))"
    if "(a, d, sig, t) \<in> set (adInflight ?r)" for a d sig t
  proof -
    have f: "(a, d, sig, t) \<in> set (adInflight r)" using that by simp
    have "a = address \<Longrightarrow> address \<in> fst ` set (adInflight r)" using f by force
    with ad_inflightD [OF i f] m show ?thesis by (cases "a = address") auto
  qed
  show "ad_genuine S domain ttl p \<and> poNonce p \<in> adNonces ?r \<and>
      (poAddress p \<notin> adRaced ?r \<longrightarrow> (\<forall>d. map_of (adStore ?r) (poAddress p) = Some d \<longrightarrow> acNonce d = poNonce p \<longrightarrow> acUsed d))"
    if "p \<in> set (adLogins ?r)" for p
  proof -
    have p: "p \<in> set (adLogins r)" using that by simp
    have "poNonce p \<in> adNonces r" using ad_loginD [OF i p] by blast
    with fresh have "poNonce p \<noteq> hex b" by metis
    with ad_loginD [OF i p] m n show ?thesis by (auto split: if_splits)
  qed
  have "distinct (map login_id (fair_logins r))" using i by (simp add: ad_inv_def)
  then have "distinct (map login_id (filter (\<lambda>p. poAddress p \<notin> X) (adLogins r)))" if "adRaced r \<subseteq> X" for X
    unfolding fair_logins_def by (rule distinct_filter_subset) (use that in auto)
  from this [of "adRaced ?r"] show "distinct (map login_id (fair_logins ?r))" by (simp add: fair_logins_def subset_insertI)
qed

lemma ad_inv_checked:
  assumes i: "ad_inv S domain ttl r" and c: "admin_check S now address sig (adStore r) = (Inr c, m)"
  shows "ad_inv S domain ttl (r\<lparr>adStore := m, adInflight := (address, c, sig, now) # adInflight r\<rparr>)"
proof -
  note k = admin_check_ok [OF c]
  then have s: "acAddress c = address" "ad_issued S domain ttl c" "acNonce c \<in> adNonces r"
    using ad_storeD [OF i] by blast+
  show ?thesis
  proof (rule ad_invI, goal_cases)
    case (1 a d) with ad_storeD [OF i] k show ?case by simp
  next
    case (2 a d sg t)
    then consider "a = address" "d = c" "sg = sig" "t = now" | "(a, d, sg, t) \<in> set (adInflight r)" by auto
    then show ?case
    proof cases
      case 1 with k s show ?thesis by simp
    next
      case 2 from ad_inflightD [OF i this] k show ?thesis by simp
    qed
  next
    case (3 p) with ad_loginD [OF i, of p] k show ?case by simp
  next
    case 4 from i show ?case by (simp add: ad_inv_def fair_logins_def)
  qed
qed

lemma ad_inv_remove:
  assumes "ad_inv S domain ttl r" "set xs \<subseteq> set (adInflight r)"
  shows "ad_inv S domain ttl (r\<lparr>adInflight := xs\<rparr>)"
proof (rule ad_invI, goal_cases)
  case (1 a d) with ad_storeD [OF assms(1)] show ?case by simp
next
  case (2 a d sg t)
  with assms(2) have "(a, d, sg, t) \<in> set (adInflight r)" by auto
  from ad_inflightD [OF assms(1) this] show ?case by simp
next
  case (3 p) with ad_loginD [OF assms(1), of p] show ?case by simp
next
  case 4 from assms(1) show ?case by (simp add: ad_inv_def fair_logins_def)
qed

lemma ad_inv_subset:
  assumes "ad_inv S domain ttl r" "map_of m \<subseteq>\<^sub>m map_of (adStore r)"
  shows "ad_inv S domain ttl (r\<lparr>adStore := m\<rparr>)"
proof -
  have sub: "map_of (adStore r) a = Some d" if "map_of m a = Some d" for a d
    using that assms(2) by (metis domI map_le_def)
  show ?thesis
  proof (rule ad_invI, goal_cases)
    case (1 a d) with ad_storeD [OF assms(1) sub] show ?case by simp
  next
    case (2 a d sg t)
    then have "(a, d, sg, t) \<in> set (adInflight r)" by simp
    note f' = ad_inflightD [OF assms(1) this]
    have "acNonce x = acNonce d" if "a \<notin> adRaced r" "map_of m a = Some x" for x
      using f' sub [OF that(2)] that(1) by blast
    with f' show ?case by simp
  next
    case (3 p)
    then have "p \<in> set (adLogins r)" by simp
    note l = ad_loginD [OF assms(1) this]
    have "acUsed d" if "poAddress p \<notin> adRaced r" "map_of m (poAddress p) = Some d" "acNonce d = poNonce p" for d
      using l sub [OF that(2)] that(1,3) by blast
    with l show ?case by simp
  next
    case 4 from assms(1) show ?case by (simp add: ad_inv_def fair_logins_def)
  qed
qed

lemma ad_inv_marked:
  assumes i: "ad_inv S domain ttl r" and f: "(address, c, sig, now) \<in> set (adInflight r)"
    and m: "admin_mark address c (adStore r) = (Inr a, m)"
  shows "ad_inv S domain ttl (r\<lparr>adStore := m,
      adLogins := \<lparr>poNonce = acNonce c, poAddress = a, poMessage = acMessage c, poSignature = sig, poAt = now\<rparr> # adLogins r\<rparr>)"
    (is "ad_inv _ _ _ ?r")
proof -
  let ?p = "\<lparr>poNonce = acNonce c, poAddress = a, poMessage = acMessage c, poSignature = sig, poAt = now\<rparr>"
  from admin_mark_cases [OF m] obtain d where d: "a = acAddress c" "map_of (adStore r) address = Some d" "\<not> acUsed d"
      "map_of m = (map_of (adStore r))(address \<mapsto> d\<lparr>acUsed := True\<rparr>)" by auto
  note c = ad_inflightD [OF i f]
  have a: "a = address" using c d(1) by simp
  have gen: "ad_genuine S domain ttl ?p" using c d(1) by (auto simp: ad_genuine_def ad_issued_def)
  have old: "e = d \<or> e = d\<lparr>acUsed := True\<rparr> \<or> b \<noteq> address" if "map_of m b = Some e" for b e
    using that d(4) by (auto split: if_splits)
  have nonce: "\<exists>e'. map_of (adStore r) b = Some e' \<and> acNonce e' = acNonce e \<and> acAddress e' = acAddress e \<and>
      acMessage e' = acMessage e \<and> acExpiresAt e' = acExpiresAt e \<and> (acUsed e' \<longrightarrow> acUsed e)" if "map_of m b = Some e" for b e
    using that d(2,4) by (auto split: if_splits)
  show ?thesis
  proof (rule ad_invI, goal_cases)
    case (1 b e)
    then have "map_of m b = Some e" by simp
    from nonce [OF this] obtain e' where e': "map_of (adStore r) b = Some e'" "acNonce e' = acNonce e"
      "acAddress e' = acAddress e" "acMessage e' = acMessage e" "acExpiresAt e' = acExpiresAt e" by blast
    then have "ad_issued S domain ttl e" using ad_storeD [OF i e'(1)] unfolding ad_issued_def by metis
    with e' ad_storeD [OF i e'(1)] show ?case by simp
  next
    case (2 b e sg t)
    then have "(b, e, sg, t) \<in> set (adInflight r)" by simp
    note f' = ad_inflightD [OF i this]
    have "acNonce x = acNonce e" if "b \<notin> adRaced r" "map_of m b = Some x" for x
      using nonce [OF that(2)] f' that(1) by metis
    with f' show ?case by simp
  next
    case (3 p)
    then consider "p = ?p" | "p \<in> set (adLogins r)" by auto
    then show ?case
    proof cases
      case 1
      have "acUsed e" if "map_of m address = Some e" for e using that d(4) by auto
      with 1 gen c a show ?thesis by simp
    next
      case 2
      have "acUsed e" if "poAddress p \<notin> adRaced r" "map_of m (poAddress p) = Some e" "acNonce e = poNonce p" for e
        using ad_loginD [OF i 2] nonce [OF that(2)] that by metis
      with ad_loginD [OF i 2] show ?thesis by simp
    qed
  next
    case 4
    have "(a, acNonce c) \<notin> login_id ` set (fair_logins r)" if "a \<notin> adRaced r"
    proof
      assume "(a, acNonce c) \<in> login_id ` set (fair_logins r)"
      then obtain p where p: "p \<in> set (adLogins r)" "poAddress p = a" "poNonce p = acNonce c"
        by (auto simp: fair_logins_def login_id_def)
      have "acNonce d = acNonce c" using c that a d(2) by blast
      with ad_loginD [OF i p(1)] p(2,3) that a d(2,3) show False by simp
    qed
    moreover have "distinct (map login_id (fair_logins r))" using i by (simp add: ad_inv_def)
    ultimately show ?case by (simp add: fair_logins_def login_id_def)
  qed
qed

lemma ad_inv_step:
  assumes i: "ad_inv S domain ttl r" and "ad_step S domain ttl r r'"
  shows "ad_inv S domain ttl r'"
  using assms(2)
proof (cases rule: ad_step.cases)
  case (ad_created now b address res m)
  from ad_inv_created [OF i ad_created(2,3)] ad_created(1) show ?thesis by simp
next
  case (ad_checked now address sig c m)
  from ad_inv_checked [OF i ad_checked(2)] ad_checked(1) show ?thesis by simp
next
  case (ad_rejected now address sig err m)
  from ad_inv_subset [OF i admin_check_err [OF ad_rejected(2)]] ad_rejected(1) show ?thesis by simp
next
  case (ad_marked address c sig now a m)
  have "set (remove1 (address, c, sig, now) (adInflight r)) \<subseteq> set (adInflight r)" by (rule set_remove1_subset)
  then have "set (remove1 (address, c, sig, now) (adInflight r)) \<subseteq> set (adInflight (r\<lparr>adStore := m\<rparr>))" by simp
  with ad_inv_remove [OF ad_inv_marked [OF i ad_marked(2,3)], of "remove1 (address, c, sig, now) (adInflight r)"]
  show ?thesis unfolding ad_marked(1) by simp
next
  case (ad_refused address c sig now err m)
  from admin_mark_cases [OF ad_refused(3)] have "m = adStore r" by auto
  then have "r' = r\<lparr>adInflight := remove1 (address, c, sig, now) (adInflight r)\<rparr>" using ad_refused(1) by simp
  with ad_inv_remove [OF i set_remove1_subset] show ?thesis by simp
qed

lemma ad_inv_run: "(ad_step S domain ttl)\<^sup>*\<^sup>* r r' \<Longrightarrow> ad_inv S domain ttl r \<Longrightarrow> ad_inv S domain ttl r'"
  by (induction rule: rtranclp_induct) (auto intro: ad_inv_step)

lemma ad_inv_init: "ad_inv S domain ttl ad_init"
  by (rule ad_invI) (simp_all add: ad_init_def fair_logins_def)


section \<open>Tokens and sessions\<close>

lemma create_session_ok:
  assumes "create_session J S secret adminAddress ttl now address sig m = ((200, Some t), m')"
  shows "IssueAdminJWT J now secret adminAddress ttl = Inr t \<and>
    (\<exists>c. map_of m address = Some c \<and> acAddress c = adminAddress \<and> \<not> acUsed c \<and> now \<le> acExpiresAt c \<and>
       signed_by S adminAddress (acMessage c) sig \<and> map_of m' = (map_of m)(address \<mapsto> c\<lparr>acUsed := True\<rparr>))"
proof -
  from assms obtain a m1 where v: "AdminVerify S now address sig m = (Inr a, m')" "a = adminAddress"
      "IssueAdminJWT J now secret adminAddress ttl = Inr t"
    by (auto simp: create_session_def split: if_splits prod.splits sum.splits)
  from v(1) obtain c where c: "admin_check S now address sig m = (Inr c, m)" "admin_mark address c m = (Inr a, m')"
    using admin_check_ok by (fastforce simp: AdminVerify_def NormalizeAddress_def split: prod.splits sum.splits)
  from admin_check_ok [OF c(1)] admin_mark_cases [OF c(2)] v show ?thesis by auto
qed

lemma validate_issued:
  assumes "Issue sha ttl now (Some b) a m = (Some (token, expires), m')" "t \<le> expires"
  shows "Validate sha t token m' = (Some a, m')"
  using assms by (auto simp: Issue_def Validate_def memSessCreate_def memSessGet_def Let_def update_conv)

lemma validate_other:
  assumes "Issue sha ttl now (Some b) a m = (Some (token, expires), m')"
    and "sha (bytes_of_string token') \<noteq> sha (bytes_of_string token)"
  shows "fst (Validate sha t token' m') = fst (Validate sha t token' m)"
  using assms by (auto simp: Issue_def Validate_def memSessCreate_def memSessGet_def hashSessionToken_def Let_def update_conv'
      split: option.splits)

section \<open>Properties\<close>

text \<open>C24: admin logins. In any interleaving of challenge requests and of the halves of concurrent
  logins, every login carries a signature, by the very address that is logged in, of a challenge
  this service issued for that address and that had not expired; and no challenge is accepted
  twice for an address for which no challenge was requested while a login was being verified.\<close>

theorem admin_login_genuine:
  assumes "(ad_step S domain ttl)\<^sup>*\<^sup>* ad_init r"
  shows "(\<forall>p \<in> set (adLogins r). ad_genuine S domain ttl p) \<and> distinct (map login_id (fair_logins r))"
proof -
  have i: "ad_inv S domain ttl r" by (rule ad_inv_run [OF assms ad_inv_init])
  have "\<forall>p \<in> set (adLogins r). ad_genuine S domain ttl p" using ad_loginD [OF i] by blast
  moreover have "distinct (map login_id (fair_logins r))" using i unfolding ad_inv_def by blast
  ultimately show ?thesis by blast
qed

section \<open>A signature that logs in twice\<close>

definition demo_ac :: "byte \<Rightarrow> AdminChallenge" where
  "demo_ac b = new_admin_challenge demo_sig ''rwa'' 100 10 ''A'' [b]"

definition demo_login :: proof_of_ownership where
  "demo_login = \<lparr>poNonce = acNonce (demo_ac 1), poAddress = ''A'', poMessage = acMessage (demo_ac 1), poSignature = replicate 64 1, poAt = 20\<rparr>"

definition demo_ad_run :: ad_run where
  "demo_ad_run = \<lparr>adStore = [(''A'', demo_ac 2\<lparr>acUsed := True\<rparr>)], adInflight = [], adLogins = [demo_login, demo_login],
     adNonces = {hex [2], hex [1]}, adRaced = {''A''}\<rparr>"

lemma demo_ac_simps: "acAddress (demo_ac b) = ''A''" "acUsed (demo_ac b) = False" "acExpiresAt (demo_ac b) = 110"
  by (simp_all add: demo_ac_def new_admin_challenge_def Let_def)

lemma demo_ad_create: "\<exists>res. AdminCreate demo_sig ''rwa'' 100 10 (Some [b]) ''A'' m = (Inr res, AList.update ''A'' (demo_ac b) m)"
  by (simp add: AdminCreate_def ValidateAddress_def demo_sig_def NormalizeAddress_def memAdUpsert_def Let_def demo_ac_def)
    (simp add: new_admin_challenge_def Let_def)

lemma demo_ad_check: "admin_check demo_sig 20 ''A'' (replicate 64 1) [(''A'', demo_ac b)] = (Inr (demo_ac b), [(''A'', demo_ac b)])"
  by (simp add: admin_check_def ValidateAddress_def NormalizeAddress_def memAdGet_def demo_ac_simps VerifySignature_def demo_sig_def)

lemma demo_ad_mark: "admin_mark ''A'' (demo_ac 1) [(''A'', demo_ac b)] = (Inr ''A'', [(''A'', demo_ac b\<lparr>acUsed := True\<rparr>)])"
  by (simp add: admin_mark_def memAdMarkUsed_def demo_ac_simps)

definition ad_at :: "admin_map \<Rightarrow> nat \<Rightarrow> nat \<Rightarrow> string set \<Rightarrow> string set \<Rightarrow> ad_run" where
  "ad_at m i l n x = \<lparr>adStore = m, adInflight = replicate i (''A'', demo_ac 1, replicate 64 1, 20),
     adLogins = replicate l demo_login, adNonces = n, adRaced = x\<rparr>"

lemma adStore_ad_at: "adStore (ad_at m i l n x) = m"
  by (simp add: ad_at_def)

lemma ad_at_created: "hex [b] \<notin> n \<Longrightarrow> ad_step demo_sig ''rwa'' 100 (ad_at m i l n x)
    (ad_at (AList.update ''A'' (demo_ac b) m) i l (insert (hex [b]) n) (if 0 < i then insert ''A'' x else x))"
proof -
  assume n: "hex [b] \<notin> n"
  obtain res where "AdminCreate demo_sig ''rwa'' 100 10 (Some [b]) ''A'' (adStore (ad_at m i l n x)) =
      (Inr res, AList.update ''A'' (demo_ac b) m)" using demo_ad_create [of b "adStore (ad_at m i l n x)"] by (metis adStore_ad_at)
  from ad_step.ad_created [OF this] n show ?thesis by (cases i) (auto simp: ad_at_def)
qed

lemma ad_at_checked: "ad_step demo_sig ''rwa'' 100 (ad_at [(''A'', demo_ac 1)] i l n x) (ad_at [(''A'', demo_ac 1)] (Suc i) l n x)"
  using ad_step.ad_checked [of demo_sig 20 "''A''" "replicate 64 1" "ad_at [(''A'', demo_ac 1)] i l n x"] demo_ad_check [of 1]
  by (simp add: ad_at_def)

lemma ad_at_marked: "ad_step demo_sig ''rwa'' 100 (ad_at [(''A'', demo_ac b)] (Suc i) l n x)
    (ad_at [(''A'', demo_ac b\<lparr>acUsed := True\<rparr>)] i (Suc l) n x)"
  using ad_step.ad_marked [of "''A''" "demo_ac 1" "replicate 64 1" 20 "ad_at [(''A'', demo_ac b)] (Suc i) l n x" "''A''"
      "[(''A'', demo_ac b\<lparr>acUsed := True\<rparr>)]"] demo_ad_mark [of b]
  by (simp add: ad_at_def demo_login_def)

lemma demo_ad_steps: "(ad_step demo_sig ''rwa'' 100)\<^sup>*\<^sup>* ad_init demo_ad_run"
proof -
  let ?m = "[(''A'', demo_ac 1)]" and ?u = "[(''A'', demo_ac 1\<lparr>acUsed := True\<rparr>)]" and ?n = "{hex [1]}" and ?n2 = "{hex [2], hex [1]}"
  have init: "ad_init = ad_at [] 0 0 {} {}" by (simp add: ad_init_def ad_at_def)
  have 1: "ad_step demo_sig ''rwa'' 100 (ad_at [] 0 0 {} {}) (ad_at ?m 0 0 ?n {})"
    using ad_at_created [of 1 "{}" "[]" 0 0 "{}"] by simp
  note 2 = ad_at_checked [of 0 0 ?n "{}"] and 3 = ad_at_checked [of "Suc 0" 0 ?n "{}"] and 4 = ad_at_marked [of 1 "Suc 0" 0 ?n "{}"]
  have 5: "ad_step demo_sig ''rwa'' 100 (ad_at ?u (Suc 0) (Suc 0) ?n {}) (ad_at [(''A'', demo_ac 2)] (Suc 0) (Suc 0) ?n2 {''A''})"
    using ad_at_created [of 2 ?n ?u "Suc 0" "Suc 0" "{}"] by simp
  note 6 = ad_at_marked [of 2 0 "Suc 0" ?n2 "{''A''}"]
  have "demo_ad_run = ad_at [(''A'', demo_ac 2\<lparr>acUsed := True\<rparr>)] 0 (Suc (Suc 0)) ?n2 {''A''}"
    by (simp add: ad_at_def demo_ad_run_def)
  moreover note into = rtranclp.rtrancl_into_rtrancl [where r = "ad_step demo_sig ''rwa'' 100"]
  note a1 = r_into_rtranclp [of "ad_step demo_sig ''rwa'' 100", OF 1] and a2 = into [OF a1 2] and a3 = into [OF a2 3]
    and a4 = into [OF a3 4] and a5 = into [OF a4 5] and a6 = into [OF a5 6]
  from a6 init calculation
  show ?thesis by simp
qed

theorem admin_login_genuine_witness:
  "(ad_step demo_sig ''rwa'' 100)\<^sup>*\<^sup>* ad_init demo_ad_run \<and> adLogins demo_ad_run \<noteq> [] \<and>
   ad_genuine demo_sig ''rwa'' 100 (hd (adLogins demo_ad_run))"
  using admin_login_genuine [OF demo_ad_steps] demo_ad_steps by (simp add: demo_ad_run_def)

text \<open>C25: the replay. The mark is made by address, so a challenge requested (by anyone) between the two
  marks revives the address: one signature of one challenge logs in twice, although the
  challenge is documented to be single-use under concurrent verifications.\<close>

theorem admin_signature_replayed:
  "\<exists>r p. (ad_step demo_sig ''rwa'' 100)\<^sup>*\<^sup>* ad_init r \<and> adLogins r = [p, p]"
proof -
  have "adLogins demo_ad_run = [demo_login, demo_login]" by (simp add: demo_ad_run_def)
  with demo_ad_steps show ?thesis by blast
qed

end
