(* ===== verification/Sales.thy ===== *)
theory Sales
  imports Projection
begin

text \<open>
  The purchases read model: \<^verbatim>\<open>server/internal/sales/projector.go\<close> (\<open>BuildPurchases\<close>),
  \<^verbatim>\<open>reconcile.go\<close> (the rebuild), \<^verbatim>\<open>sales.go\<close> (confirmations, the view of a purchase) and the
  in-memory repository \<^verbatim>\<open>dal/memory/purchase.go\<close>, a slice without a key: the ids are
  distinct because every write of the rebuild is an \<open>Upsert\<close>.
\<close>

section \<open>The store\<close>

record Purchase =
  puID :: string
  puBuyer :: string
  puRecipient :: string
  puTokenAmount :: string
  puQuoteAmount :: string
  puTxHash :: string
  puBlockNumber :: u64
  puCreatedAt :: int
  puGeneration :: int

definition memPuCreate :: "Purchase \<Rightarrow> Purchase list \<Rightarrow> Purchase list" where
  "memPuCreate p l = l @ [p]"

definition memPuList :: "Purchase list \<Rightarrow> Purchase list" where
  "memPuList l = l"

definition memPuDeleteAll :: "Purchase list \<Rightarrow> Purchase list" where
  "memPuDeleteAll l = []"

fun memPuUpsert :: "Purchase \<Rightarrow> Purchase list \<Rightarrow> Purchase list" where
  "memPuUpsert p [] = [p]"
| "memPuUpsert p (x # xs) = (if puID x = puID p then p # xs else x # memPuUpsert p xs)"

definition memPuDeleteStale :: "int \<Rightarrow> Purchase list \<Rightarrow> Purchase list" where
  "memPuDeleteStale gen l = filter (\<lambda>p. puGeneration p = gen) l"

definition memoryPurchases :: "(Purchase, Purchase list) swap_repo" where
  "memoryPurchases = \<lparr>swUpsert = (\<lambda>p l. (Inr (), memPuUpsert p l)),
     swPrune = (\<lambda>gen l. (Inr (), memPuDeleteStale gen l))\<rparr>"

definition purchase_at :: "Purchase list \<Rightarrow> string \<Rightarrow> Purchase option" where
  "purchase_at l i = find (\<lambda>p. puID p = i) l"

definition purchases_wf :: "Purchase list \<Rightarrow> bool" where
  "purchases_wf l \<longleftrightarrow> distinct (map puID l)"

lemma set_upsert_ids: "puID ` set (memPuUpsert p l) = insert (puID p) (puID ` set l)"
  by (induction l) auto

lemma purchases_wf_upsert: "purchases_wf l \<Longrightarrow> purchases_wf (memPuUpsert p l)"
  by (induction l) (auto simp: purchases_wf_def set_upsert_ids)

lemma purchase_at_upsert: "purchase_at (memPuUpsert p l) = (purchase_at l)(puID p \<mapsto> p)"
  by (induction l) (auto simp: purchase_at_def fun_eq_iff)

lemma purchase_at_prune:
  assumes "purchases_wf l"
  shows "purchase_at (memPuDeleteStale gen l) i =
    (case purchase_at l i of None \<Rightarrow> None | Some p \<Rightarrow> if puGeneration p = gen then Some p else None)"
  using assms
proof (induction l)
  case (Cons x l)
  have "purchase_at (memPuDeleteStale gen l) (puID x) = None"
    using Cons.prems
    by (force simp: purchase_at_def memPuDeleteStale_def purchases_wf_def find_None_iff image_iff)
  with Cons show ?case by (auto simp: purchase_at_def memPuDeleteStale_def purchases_wf_def)
qed (simp add: purchase_at_def memPuDeleteStale_def)

interpretation gp: generation_store memoryPurchases purchases_wf purchase_at puID puGeneration
proof
  fix s i x
  show "purchases_wf s \<Longrightarrow> purchase_at s i = Some x \<Longrightarrow> puID x = i"
    by (auto simp: purchase_at_def dest: find_SomeD)
qed (auto simp: memoryPurchases_def purchases_wf_upsert purchase_at_upsert purchase_at_prune)

section \<open>Building and rebuilding\<close>

definition purchase_of :: "ChainEvent \<Rightarrow> Purchase" where
  "purchase_of e =
     \<lparr>puID = evTxHash e @ '':'' @ dec_nat (evLogIndex e),
      puBuyer = toString (map_of (evData e) ''buyer''),
      puRecipient = toString (map_of (evData e) ''recipient''),
      puTokenAmount = toString (map_of (evData e) ''tokenAmount''),
      puQuoteAmount = toString (map_of (evData e) ''quoteAmount''),
      puTxHash = evTxHash e, puBlockNumber = evBlockNumber e, puCreatedAt = evIndexedAt e,
      puGeneration = 0\<rparr>"

definition BuildPurchases :: "ChainEvent list \<Rightarrow> Purchase list" where
  "BuildPurchases events = map purchase_of (filter (\<lambda>e. evName e = ''Purchased'') events)"

definition EventNames :: "string list" where
  "EventNames = [''Purchased'', ''TreasuryChanged'', ''StrategyChanged'', ''ProceedsWithdrawn'']"

datatype sales_error =
    ListSales string repo_error
  | UpsertPurchase string repo_error
  | PrunePurchases repo_error

definition SalesReconcile ::
  "(string \<Rightarrow> repo_error + ChainEvent list) \<Rightarrow> (Purchase, 's) swap_repo \<Rightarrow> int \<Rightarrow> 's \<Rightarrow> (sales_error + unit) \<times> 's" where
  "SalesReconcile L R gen s =
     (case list_names L EventNames of
        Inl (name, err) \<Rightarrow> (Inl (ListSales name err), s)
      | Inr all \<Rightarrow>
          (case upsert_all R (map (\<lambda>p. p\<lparr>puGeneration := gen\<rparr>) (BuildPurchases all)) s of
             (Inl (p, err), s1) \<Rightarrow> (Inl (UpsertPurchase (puID p) err), s1)
           | (Inr _, s1) \<Rightarrow>
               (case swPrune R gen s1 of
                  (Inl err, s2) \<Rightarrow> (Inl (PrunePurchases err), s2)
                | (Inr _, s2) \<Rightarrow> (Inr (), s2))))"

section \<open>The view\<close>

record PurchaseView =
  pvTxHash :: string
  pvBuyer :: string
  pvRecipient :: string
  pvTokenAmount :: string
  pvQuoteAmount :: string
  pvBlockNumber :: u64
  pvConfirmations :: u64

definition confirmationsOf :: "u64 \<Rightarrow> u64 \<Rightarrow> u64" where
  "confirmationsOf currentBlock blockNumber =
     (if currentBlock < blockNumber then 0 else currentBlock - blockNumber)"

definition purchase_view :: "u64 \<Rightarrow> Purchase \<Rightarrow> PurchaseView" where
  "purchase_view currentBlock p =
     \<lparr>pvTxHash = puTxHash p, pvBuyer = puBuyer p, pvRecipient = puRecipient p,
      pvTokenAmount = puTokenAmount p, pvQuoteAmount = puQuoteAmount p, pvBlockNumber = puBlockNumber p,
      pvConfirmations = confirmationsOf currentBlock (puBlockNumber p)\<rparr>"

definition ListPurchases ::
  "(string \<Rightarrow> int \<Rightarrow> repo_error + (Purchase list \<times> string)) \<Rightarrow> u64 \<Rightarrow> string \<Rightarrow> int
   \<Rightarrow> repo_error + (PurchaseView list \<times> string)" where
  "ListPurchases ListPage currentBlock cursor limit =
     bind_res (ListPage cursor limit) (\<lambda>(items, nxt). Inr (map (purchase_view currentBlock) items, nxt))"

lemma confirmationsOf_no_wrap: "unat (confirmationsOf c b) = unat c - unat b"
  by (simp add: confirmationsOf_def word_less_nat_alt unat_sub word_le_nat_alt)

section \<open>The id names the event\<close>

lemma dec_nat_no_colon: "CHR '':'' \<notin> set (dec_nat n)"
  using dec_nat_not_minus [of "CHR '':''" n] by (auto simp: isDigit_def)

lemma purchase_id_inject:
  "puID (purchase_of e) = puID (purchase_of e') \<longleftrightarrow> evTxHash e = evTxHash e' \<and> evLogIndex e = evLogIndex e'"
proof
  assume "puID (purchase_of e) = puID (purchase_of e')"
  then have "rev (puID (purchase_of e)) = rev (puID (purchase_of e'))" by simp
  then have "rev (dec_nat (evLogIndex e)) @ CHR '':'' # rev (evTxHash e) =
      rev (dec_nat (evLogIndex e')) @ CHR '':'' # rev (evTxHash e')"
    by (simp only: purchase_of_def Purchase.simps rev_append rev.simps append.assoc append_Cons append_Nil)
  from append_sep_inject [OF _ _ this] show "evTxHash e = evTxHash e' \<and> evLogIndex e = evLogIndex e'"
    by (simp add: dec_nat_no_colon)
qed (simp add: purchase_of_def)

section \<open>Properties\<close>

definition stamped :: "int \<Rightarrow> ChainEvent \<Rightarrow> Purchase" where
  "stamped gen e = (purchase_of e)\<lparr>puGeneration := gen\<rparr>"

lemma stamped_simps [simp]: "puID (stamped gen e) = puID (purchase_of e)" "puGeneration (stamped gen e) = gen"
  by (simp_all add: stamped_def)

text \<open>The purchase history after a rebuild. After a successful \<open>Reconcile\<close> under a fresh generation
  the store holds exactly one purchase per Purchased event of the vault, with the event's
  buyer, recipient, amounts, slot and transaction, and nothing else, whatever it held before
  and in whatever order the events were listed.\<close>

theorem purchases_rebuilt:
  assumes "generation_store R ok look puID puGeneration" "ok s"
    and "\<forall>i p. look s i = Some p \<longrightarrow> puGeneration p \<noteq> gen"
    and "lists evs L" "distinct evs" "inj_on (\<lambda>e. (evTxHash e, evLogIndex e)) (set evs)"
    and "SalesReconcile L R gen s = (Inr (), s')"
  shows "(\<forall>e\<in>set evs. evName e = ''Purchased'' \<longrightarrow> look s' (puID (purchase_of e)) = Some (stamped gen e)) \<and>
    (\<forall>i p. look s' i = Some p \<longrightarrow> (\<exists>e\<in>set evs. evName e = ''Purchased'' \<and> p = stamped gen e \<and> i = puID p))"
proof -
  obtain all where all: "list_names L EventNames = Inr all"
    using assms(7) by (auto simp: SalesReconcile_def split: sum.splits)
  let ?ps = "map (stamped gen) (filter (\<lambda>e. evName e = ''Purchased'') all)"
  have ps: "map (\<lambda>p. p\<lparr>puGeneration := gen\<rparr>) (BuildPurchases all) = ?ps"
    by (simp add: BuildPurchases_def stamped_def)
  obtain u v s1 where r: "upsert_all R ?ps s = (Inr u, s1)" "swPrune R gen s1 = (Inr v, s')"
    using assms(7) all by (auto simp: SalesReconcile_def ps split: sum.splits prod.splits)
  have "distinct EventNames" by (simp add: EventNames_def)
  from list_names_mset [OF assms(4) this all]
  have m: "mset all = mset (filter (\<lambda>e. evName e \<in> set EventNames) evs)" .
  then have "distinct all" using assms(5) by (metis distinct_filter mset_eq_imp_distinct_iff)
  have "set all = set (filter (\<lambda>e. evName e \<in> set EventNames) evs)" using m by (metis set_mset_mset)
  then have sub: "e \<in> set (filter (\<lambda>e. evName e = ''Purchased'') all) \<longleftrightarrow> e \<in> set evs \<and> evName e = ''Purchased''" for e
    by (auto simp: EventNames_def)
  have dist: "distinct (map puID ?ps)"
    using \<open>distinct all\<close> assms(6) sub by (auto simp: distinct_map o_def purchase_id_inject inj_on_def)
  have gens: "puGeneration p = gen" if "p \<in> set ?ps" for p using that by auto
  have look: "look s' i = find (\<lambda>p. puID p = i) ?ps" for i
    using generation_store.swap_exact [OF assms(1,2) _ gens dist r] assms(3) by blast
  show ?thesis
  proof (intro conjI ballI allI impI)
    fix e assume e: "e \<in> set evs" "evName e = ''Purchased''"
    then have "stamped gen e \<in> set ?ps" using sub by auto
    from find_unique [OF dist this stamped_simps(1)]
    show "look s' (puID (purchase_of e)) = Some (stamped gen e)" by (simp only: look)
  next
    fix i p assume "look s' i = Some p"
    then have "find (\<lambda>p. puID p = i) ?ps = Some p" by (simp only: look)
    from find_SomeD [OF this] have "p \<in> set ?ps" "puID p = i" by simp_all
    with sub show "\<exists>e\<in>set evs. evName e = ''Purchased'' \<and> p = stamped gen e \<and> i = puID p" by auto
  qed
qed

section \<open>Example\<close>

definition demo_sale :: "string \<Rightarrow> nat \<Rightarrow> string \<Rightarrow> ChainEvent" where
  "demo_sale sig i name =
     \<lparr>evChainID = 1, evAddress = ''V'', evTxHash = sig, evLogIndex = i, evBlockNumber = 7, evBlockHash = '''',
      evName = name, evData = [(''buyer'', DStr ''B''), (''tokenAmount'', DStr ''100'')],
      evRemoved = False, evIndexedAt = 4\<rparr>"

definition demo_sales :: "ChainEvent list" where
  "demo_sales = [demo_sale ''a'' 1 ''Purchased'', demo_sale ''a'' 0 ''ProceedsWithdrawn'']"

definition demo_old_sales :: "Purchase list" where
  "demo_old_sales = [stamped 1 (demo_sale ''gone'' 0 ''Purchased'')]"

definition demo_sales_listing :: "string \<Rightarrow> repo_error + ChainEvent list" where
  "demo_sales_listing name = Inr (filter (\<lambda>e. evName e = name) demo_sales)"

theorem purchases_rebuilt_witness:
  "\<exists>s'. SalesReconcile demo_sales_listing memoryPurchases 2 demo_old_sales = (Inr (), s') \<and>
     purchase_at s' ''a:1'' = Some (stamped 2 (demo_sale ''a'' 1 ''Purchased'')) \<and> purchase_at s' ''gone:0'' = None"
proof -
  define s' where "s' = snd (SalesReconcile demo_sales_listing memoryPurchases 2 demo_old_sales)"
  have "fst (SalesReconcile demo_sales_listing memoryPurchases 2 demo_old_sales) = Inr ()" by code_simp
  then have c: "SalesReconcile demo_sales_listing memoryPurchases 2 demo_old_sales = (Inr (), s')"
    unfolding s'_def by (metis prod.collapse)
  have hyps: "purchases_wf demo_old_sales" "\<forall>i p. purchase_at demo_old_sales i = Some p \<longrightarrow> puGeneration p \<noteq> 2"
    "lists demo_sales demo_sales_listing" "distinct demo_sales"
    "inj_on (\<lambda>e. (evTxHash e, evLogIndex e)) (set demo_sales)"
    by (auto simp: purchases_wf_def demo_old_sales_def purchase_at_def lists_def demo_sales_listing_def
        demo_sales_def demo_sale_def)
  note p = purchases_rebuilt [OF gp.generation_store_axioms hyps c]
  have i: "puID (purchase_of (demo_sale ''a'' 1 ''Purchased'')) = ''a:1''" by code_simp
  have "purchase_at s' ''a:1'' = Some (stamped 2 (demo_sale ''a'' 1 ''Purchased''))"
    using p [THEN conjunct1, rule_format, of "demo_sale ''a'' 1 ''Purchased''"] i
    by (simp add: demo_sales_def demo_sale_def)
  moreover have "purchase_at s' ''gone:0'' = None"
  proof (cases "purchase_at s' ''gone:0''")
    case (Some q)
    with p obtain e where e: "e \<in> set demo_sales" "q = stamped 2 e" "''gone:0'' = puID q" by blast
    have "list_all (\<lambda>e. puID (purchase_of e) \<noteq> ''gone:0'') demo_sales" by code_simp
    with e(1) have "puID (purchase_of e) \<noteq> ''gone:0''" by (simp add: list_all_iff)
    with e(2,3) show ?thesis by simp
  qed
  ultimately show ?thesis using c by blast
qed

end
