(* ===== verification/Redemption.thy ===== *)
theory Redemption
  imports Projection
begin

text \<open>
  \<^verbatim>\<open>server/internal/redemption\<close> (\<^verbatim>\<open>projector.go\<close>, \<^verbatim>\<open>reconcile.go\<close>, \<^verbatim>\<open>redemption.go\<close>) and its read
  model \<^verbatim>\<open>dal/memory/redemption_request.go\<close>. A Go map of requests is an association list. The
  specification is the transition table of \<^verbatim>\<open>docs/spec/redemption-state-machine.md\<close>
  (\<open>rd_next\<close>): a rebuild leaves, for every id, the state that the id's own events reach.
\<close>

section \<open>The read model\<close>

datatype RedemptionStatus =
    RedemptionNone
  | RedemptionPending
  | RedemptionFunded
  | RedemptionCompleted
  | RedemptionRejected
  | RedemptionCancelled

record RedemptionRequest =
  rrID :: string
  rrBeneficiary :: string
  rrRWAAmount :: string
  rrQuoteAmount :: string
  rrStatus :: RedemptionStatus
  rrCreatedAt :: u64
  rrTimeoutAt :: u64
  rrReasonCode :: string
  rrRequestTxHash :: string
  rrFundTxHash :: string
  rrFundedAtBlock :: u64
  rrClaimTxHash :: string
  rrUpdatedAt :: int
  rrGeneration :: int

type_synonym redemption_map = "(string \<times> RedemptionRequest) list"

definition memRedUpsert :: "RedemptionRequest \<Rightarrow> redemption_map \<Rightarrow> (repo_error + unit) \<times> redemption_map" where
  "memRedUpsert req m = (Inr (), AList.update (rrID req) req m)"

definition memRedGet :: "string \<Rightarrow> redemption_map \<Rightarrow> repo_error + RedemptionRequest" where
  "memRedGet ident m = (case map_of m ident of None \<Rightarrow> Inl ErrNotFound | Some v \<Rightarrow> Inr v)"

text \<open>\<open>want\<close> is the status filter, \<open>None\<close> for the empty string; creation times compare signed.\<close>

definition memRedList :: "RedemptionStatus option \<Rightarrow> redemption_map \<Rightarrow> RedemptionRequest list" where
  "memRedList want m =
     sort_key (\<lambda>v. sint (rrCreatedAt v))
       (filter (\<lambda>v. case want of None \<Rightarrow> True | Some st \<Rightarrow> rrStatus v = st) (map snd m))"

definition memRedDeleteAll :: "redemption_map \<Rightarrow> redemption_map" where
  "memRedDeleteAll m = []"

definition memRedDeleteStale :: "int \<Rightarrow> redemption_map \<Rightarrow> (repo_error + unit) \<times> redemption_map" where
  "memRedDeleteStale gen m = (Inr (), filter (\<lambda>(i, v). rrGeneration v = gen) m)"

definition memoryRedemptions :: "(RedemptionRequest, redemption_map) swap_repo" where
  "memoryRedemptions = \<lparr>swUpsert = memRedUpsert, swPrune = memRedDeleteStale\<rparr>"

definition redemptions_wf :: "redemption_map \<Rightarrow> bool" where
  "redemptions_wf m \<longleftrightarrow> distinct (map fst m) \<and> (\<forall>i v. map_of m i = Some v \<longrightarrow> rrID v = i)"

lemma map_of_filter_distinct:
  "distinct (map fst m) \<Longrightarrow> map_of (filter (\<lambda>(i, v). P v) m) i =
     (case map_of m i of None \<Rightarrow> None | Some v \<Rightarrow> if P v then Some v else None)"
  by (induction m) (auto simp: map_of_eq_None_iff image_iff split: option.splits)

interpretation gr: pruning_store memoryRedemptions redemptions_wf "map_of :: redemption_map \<Rightarrow> _" rrID rrGeneration
  by unfold_locales
    (auto simp: memoryRedemptions_def memRedUpsert_def memRedDeleteStale_def redemptions_wf_def update_conv'
      distinct_update map_of_filter_distinct split: if_splits)

section \<open>Replaying events\<close>

text \<open>\<^verbatim>\<open>toInt64\<close> also has a float64 case. No decoder of the indexer makes a float64 and MongoDB returns
  integers as int32 or int64, so \<open>dval\<close> has no such shape and the case none here.\<close>

definition red_toInt64 :: "dval option \<Rightarrow> u64" where
  "red_toInt64 v = (case v of
      Some (DInt64 t) \<Rightarrow> t
    | Some (DUint64 t) \<Rightarrow> t
    | Some (DInt32 t) \<Rightarrow> word_of_int (sint t)
    | Some (DInt t) \<Rightarrow> t
    | Some (DStr t) \<Rightarrow> (case atoi t of None \<Rightarrow> 0 | Some n \<Rightarrow> word_of_int n)
    | _ \<Rightarrow> 0)"

definition on_status :: "string \<Rightarrow> RedemptionStatus \<Rightarrow> (RedemptionRequest \<Rightarrow> RedemptionRequest) \<Rightarrow> redemption_map \<Rightarrow> redemption_map" where
  "on_status ident st f states =
     (case map_of states ident of
        None \<Rightarrow> states
      | Some r \<Rightarrow> if rrStatus r = st then AList.update ident (f r) states else states)"

definition new_request :: "int \<Rightarrow> u64 \<Rightarrow> ChainEvent \<Rightarrow> string \<Rightarrow> RedemptionRequest" where
  "new_request now redemptionTimeout e ident =
     (let createdAt = red_toInt64 (map_of (evData e) ''createdAt'')
      in \<lparr>rrID = ident, rrBeneficiary = toString (map_of (evData e) ''beneficiary''),
          rrRWAAmount = toString (map_of (evData e) ''rwaAmount''),
          rrQuoteAmount = toString (map_of (evData e) ''quoteAmount''),
          rrStatus = RedemptionPending, rrCreatedAt = createdAt,
          rrTimeoutAt = createdAt + redemptionTimeout, rrReasonCode = '''',
          rrRequestTxHash = evTxHash e, rrFundTxHash = '''', rrFundedAtBlock = 0,
          rrClaimTxHash = '''', rrUpdatedAt = now, rrGeneration = 0\<rparr>)"

definition replay_event :: "int \<Rightarrow> u64 \<Rightarrow> ChainEvent \<Rightarrow> redemption_map \<Rightarrow> redemption_map" where
  "replay_event now redemptionTimeout e states =
     (let ident = toString (map_of (evData e) ''id'') in
      if ident = '''' then states
      else if evName e = ''RedemptionRequested'' then
        (case map_of states ident of
           Some _ \<Rightarrow> states
         | None \<Rightarrow> AList.update ident (new_request now redemptionTimeout e ident) states)
      else if evName e = ''RedemptionFunded'' then
        on_status ident RedemptionPending (\<lambda>r. r\<lparr>rrStatus := RedemptionFunded,
          rrFundTxHash := evTxHash e, rrFundedAtBlock := evBlockNumber e, rrUpdatedAt := now\<rparr>) states
      else if evName e = ''RedemptionCompleted'' then
        on_status ident RedemptionFunded (\<lambda>r. r\<lparr>rrStatus := RedemptionCompleted,
          rrClaimTxHash := evTxHash e, rrUpdatedAt := now\<rparr>) states
      else if evName e = ''RedemptionRejected'' then
        on_status ident RedemptionPending (\<lambda>r. r\<lparr>rrStatus := RedemptionRejected,
          rrReasonCode := toString (map_of (evData e) ''reasonCode''), rrUpdatedAt := now\<rparr>) states
      else if evName e = ''RedemptionCancelled'' then
        on_status ident RedemptionPending (\<lambda>r. r\<lparr>rrStatus := RedemptionCancelled, rrUpdatedAt := now\<rparr>) states
      else states)"

definition BuildStates :: "int \<Rightarrow> u64 \<Rightarrow> ChainEvent list \<Rightarrow> redemption_map" where
  "BuildStates now redemptionTimeout events = fold (replay_event now redemptionTimeout) (sort_events events) []"

section \<open>Rebuilding\<close>

definition EventNames :: "string list" where
  "EventNames = [''RedemptionRequested'', ''RedemptionFunded'', ''RedemptionCompleted'', ''RedemptionRejected'',
     ''RedemptionCancelled'']"

datatype red_error =
    ListEvents string repo_error
  | UpsertRequest string repo_error
  | PruneRequests repo_error

text \<open>\<open>order\<close> is the order in which Go ranges over the map of states.\<close>

definition RedemptionReconcile :: "(string \<Rightarrow> repo_error + ChainEvent list) \<Rightarrow> (RedemptionRequest, 's) swap_repo
    \<Rightarrow> (redemption_map \<Rightarrow> redemption_map) \<Rightarrow> int \<Rightarrow> int \<Rightarrow> u64 \<Rightarrow> 's \<Rightarrow> (red_error + unit) \<times> 's" where
  "RedemptionReconcile L R order now gen redemptionTimeout s =
     (case list_names L EventNames of
        Inl (name, err) \<Rightarrow> (Inl (ListEvents name err), s)
      | Inr all \<Rightarrow>
          (let states = map (\<lambda>(_, r). r\<lparr>rrGeneration := gen\<rparr>) (order (BuildStates now redemptionTimeout all)) in
           case upsert_all R states s of
             (Inl (r, err), s1) \<Rightarrow> (Inl (UpsertRequest (rrID r) err), s1)
           | (Inr _, s1) \<Rightarrow>
               (case swPrune R gen s1 of
                  (Inl err, s2) \<Rightarrow> (Inl (PruneRequests err), s2)
                | (Inr _, s2) \<Rightarrow> (Inr (), s2))))"

section \<open>Finality\<close>

definition Confirmations :: "RedemptionRequest \<Rightarrow> u64 \<Rightarrow> u64" where
  "Confirmations r currentBlock =
     (if rrStatus r \<noteq> RedemptionFunded \<or> rrFundedAtBlock r = 0 \<or> currentBlock < rrFundedAtBlock r then 0
      else currentBlock - rrFundedAtBlock r)"

definition Claimable :: "RedemptionRequest \<Rightarrow> u64 \<Rightarrow> u64 \<Rightarrow> bool" where
  "Claimable r currentBlock finalityConfirmations \<longleftrightarrow>
     rrStatus r = RedemptionFunded \<and> finalityConfirmations \<le> Confirmations r currentBlock"

section \<open>The transition table\<close>

definition rd_next :: "RedemptionStatus \<Rightarrow> string \<Rightarrow> RedemptionStatus" where
  "rd_next st name =
     (if st = RedemptionNone \<and> name = ''RedemptionRequested'' then RedemptionPending
      else if st = RedemptionPending \<and> name = ''RedemptionFunded'' then RedemptionFunded
      else if st = RedemptionFunded \<and> name = ''RedemptionCompleted'' then RedemptionCompleted
      else if st = RedemptionPending \<and> name = ''RedemptionRejected'' then RedemptionRejected
      else if st = RedemptionPending \<and> name = ''RedemptionCancelled'' then RedemptionCancelled
      else st)"

definition event_id :: "ChainEvent \<Rightarrow> string" where
  "event_id e = toString (map_of (evData e) ''id'')"

definition status_of :: "RedemptionRequest option \<Rightarrow> RedemptionStatus" where
  "status_of r = (case r of None \<Rightarrow> RedemptionNone | Some r \<Rightarrow> rrStatus r)"

definition request_ok :: "string \<Rightarrow> RedemptionRequest option \<Rightarrow> bool" where
  "request_ok i r \<longleftrightarrow> (case r of None \<Rightarrow> True | Some r \<Rightarrow> rrID r = i \<and> rrStatus r \<noteq> RedemptionNone)"

lemma map_of_on_status:
  "map_of (on_status j st f m) i =
     (if i = j then map_option (\<lambda>r. if rrStatus r = st then f r else r) (map_of m i) else map_of m i)"
  by (auto simp: on_status_def update_conv' split: option.splits)

lemma replay_other: "event_id e \<noteq> i \<Longrightarrow> map_of (replay_event now t e m) i = map_of m i"
  by (auto simp: replay_event_def event_id_def Let_def map_of_on_status update_conv' split: option.splits)

lemma replay_own:
  assumes "event_id e = i" "i \<noteq> ''''" "request_ok i (map_of m i)"
  shows "status_of (map_of (replay_event now t e m) i) = rd_next (status_of (map_of m i)) (evName e)"
    and "request_ok i (map_of (replay_event now t e m) i)"
  using assms
  by (auto simp: replay_event_def event_id_def Let_def map_of_on_status update_conv' new_request_def status_of_def
      request_ok_def rd_next_def split: option.splits)

lemma replay_states:
  assumes "i \<noteq> ''''" "request_ok i (map_of m i)"
  shows "status_of (map_of (fold (replay_event now t) es m) i) =
      foldl rd_next (status_of (map_of m i)) (map evName (filter (\<lambda>e. event_id e = i) es)) \<and>
    request_ok i (map_of (fold (replay_event now t) es m) i)"
  using assms(2)
proof (induction es arbitrary: m)
  case (Cons e es)
  show ?case
  proof (cases "event_id e = i")
    case True
    from replay_own [OF True assms(1) Cons.prems, of now t] Cons.IH [of "replay_event now t e m"] True
    show ?thesis by simp
  next
    case False
    with replay_other [OF False, of now t m] Cons.IH [of "replay_event now t e m"] Cons.prems show ?thesis by simp
  qed
qed simp

lemma replay_keys: "distinct (map fst m) \<Longrightarrow> distinct (map fst (fold (replay_event now t) es m))"
proof (induction es arbitrary: m)
  case (Cons e es)
  have "distinct (map fst (replay_event now t e m))" using Cons.prems
    by (auto simp: replay_event_def on_status_def Let_def distinct_update split: option.splits)
  then show ?case using Cons.IH by simp
qed simp

lemma replay_no_empty: "map_of m '''' = None \<Longrightarrow> map_of (fold (replay_event now t) es m) '''' = None"
proof (induction es arbitrary: m)
  case (Cons e es)
  have "map_of (replay_event now t e m) '''' = None"
    using Cons.prems by (auto simp: replay_event_def map_of_on_status update_conv' Let_def split: option.splits)
  then show ?case using Cons.IH by simp
qed simp

lemma rd_next_other: "name \<notin> set EventNames \<Longrightarrow> rd_next st name = st"
  by (auto simp: rd_next_def EventNames_def)

lemma rd_run_filter: "foldl rd_next st (map evName (filter (\<lambda>e. evName e \<in> set EventNames \<and> P e) es)) =
  foldl rd_next st (map evName (filter P es))"
  by (induction es arbitrary: st) (auto simp: rd_next_other)


section \<open>What a rebuild leaves\<close>

definition terms :: "RedemptionRequest \<Rightarrow> string \<times> string \<times> string \<times> u64 \<times> u64 \<times> string" where
  "terms r = (rrBeneficiary r, rrRWAAmount r, rrQuoteAmount r, rrCreatedAt r, rrTimeoutAt r, rrRequestTxHash r)"

definition first_request :: "string \<Rightarrow> ChainEvent list \<Rightarrow> ChainEvent option" where
  "first_request i es = find (\<lambda>e. event_id e = i \<and> evName e = ''RedemptionRequested'') es"

lemma replay_own_terms:
  assumes "event_id e = i" "i \<noteq> ''''"
  shows "map_option terms (map_of (replay_event now t e m) i) =
    (case map_of m i of
       Some r \<Rightarrow> Some (terms r)
     | None \<Rightarrow> if evName e = ''RedemptionRequested'' then Some (terms (new_request now t e i)) else None)"
  using assms
  by (auto simp: replay_event_def event_id_def Let_def map_of_on_status update_conv' terms_def split: option.splits)

lemma replay_terms:
  assumes "i \<noteq> ''''"
  shows "map_option terms (map_of (fold (replay_event now t) es m) i) =
    (case map_of m i of
       Some r \<Rightarrow> Some (terms r)
     | None \<Rightarrow> map_option (\<lambda>e. terms (new_request now t e i)) (first_request i es))"
proof (induction es arbitrary: m)
  case Nil
  then show ?case by (simp add: first_request_def split: option.splits)
next
  case (Cons e es)
  show ?case
  proof (cases "event_id e = i")
    case True
    from replay_own_terms [OF True assms, of now t m] Cons.IH [of "replay_event now t e m"] True
    show ?thesis by (auto simp: first_request_def split: option.splits if_splits)
  next
    case False
    then have "first_request i (e # es) = first_request i es" by (simp add: first_request_def)
    with replay_other [OF False, of now t m] Cons.IH [of "replay_event now t e m"] show ?thesis
      by (simp split: option.split)
  qed
qed

lemma first_request_filter: "first_request i (filter (\<lambda>e. evName e \<in> set EventNames) es) = first_request i es"
  by (induction es) (auto simp: first_request_def EventNames_def)

definition derived :: "(redemption_map \<Rightarrow> redemption_map) \<Rightarrow> int \<Rightarrow> int \<Rightarrow> u64 \<Rightarrow> ChainEvent list \<Rightarrow> RedemptionRequest list" where
  "derived order now gen t all = map (\<lambda>(_, r). r\<lparr>rrGeneration := gen\<rparr>) (order (BuildStates now t all))"

lemma build_own: "map_of (BuildStates now t all) i = Some r \<Longrightarrow> rrID r = i"
proof -
  assume a: "map_of (BuildStates now t all) i = Some r"
  then have "i \<noteq> ''''" using replay_no_empty [of "[]" now t "sort_events all"] by (auto simp: BuildStates_def)
  from replay_states [OF this, of "[]" now t "sort_events all"] a show ?thesis
    by (simp add: BuildStates_def request_ok_def)
qed

lemma build_distinct: "distinct (map fst (BuildStates now t all))"
  unfolding BuildStates_def by (rule replay_keys) simp

lemma derived_ids: "range_order order \<Longrightarrow> map rrID (derived order now gen t all) = map fst (order (BuildStates now t all))"
proof -
  assume o: "range_order order"
  have "rrID r = i" if "(i, r) \<in> set (BuildStates now t all)" for i r
    using build_own build_distinct that by (metis map_of_eq_Some_iff)
  then show ?thesis by (auto simp: derived_def range_order_set [OF o])
qed

lemma derived_distinct: "range_order order \<Longrightarrow> distinct (map rrID (derived order now gen t all))"
  by (simp add: derived_ids range_order_distinct build_distinct)

lemma derived_generation: "r \<in> set (derived order now gen t all) \<Longrightarrow> rrGeneration r = gen"
  by (auto simp: derived_def)

lemma find_derived:
  assumes "range_order order"
  shows "find (\<lambda>r. rrID r = i) (derived order now gen t all) =
    map_option (\<lambda>r. r\<lparr>rrGeneration := gen\<rparr>) (map_of (BuildStates now t all) i)"
proof -
  let ?m = "order (BuildStates now t all)"
  have "find (\<lambda>r. rrID r = i) (map (\<lambda>(_, r). r\<lparr>rrGeneration := gen\<rparr>) m) = map_option (\<lambda>r. r\<lparr>rrGeneration := gen\<rparr>) (map_of m i)"
    if "\<forall>(j, r) \<in> set m. rrID r = j" for m :: redemption_map
    using that by (induction m) auto
  moreover have "\<forall>(j, r) \<in> set ?m. rrID r = j"
    using build_own [of now t all] build_distinct [of now t all] range_order_set [OF assms] by auto
  moreover have "map_of ?m = map_of (BuildStates now t all)"
    by (rule range_order_map [OF assms build_distinct])
  ultimately show ?thesis by (simp add: derived_def)
qed

lemma reconcile_split:
  assumes "RedemptionReconcile L R order now gen t s = (Inr (), s')"
  obtains all s1 u v where "list_names L EventNames = Inr all"
    "upsert_all R (derived order now gen t all) s = (Inr u, s1)" "swPrune R gen s1 = (Inr v, s')"
  using assms by (auto simp: RedemptionReconcile_def derived_def Let_def split: sum.splits prod.splits)

text \<open>The collected events replay as the whole history does.\<close>

lemma collected_order:
  assumes "lists evs L" "distinct evs" "inj_on event_order (set evs)" "list_names L EventNames = Inr all"
  shows "sort_events all = filter (\<lambda>e. evName e \<in> set EventNames) (sort_events evs)"
proof -
  have "distinct EventNames" by (simp add: EventNames_def)
  from list_names_mset [OF assms(1) this assms(4)]
  have "sort_events all = sort_events (filter (\<lambda>e. evName e \<in> set EventNames) evs)"
    by (rule sort_events_unique) (use assms(2,3) in \<open>auto intro: inj_on_subset\<close>)
  then show ?thesis by (simp add: filter_sort_events)
qed


lemma red_rebuilt:
  assumes "generation_store R ok look rrID rrGeneration" "ok s" "\<forall>i r. look s i = Some r \<longrightarrow> rrGeneration r \<noteq> gen"
    and "lists evs L" "distinct evs" "inj_on event_order (set evs)"
    and "range_order order" "RedemptionReconcile L R order now gen t s = (Inr (), s')" "i \<noteq> ''''"
  shows "status_of (look s' i) =
      foldl rd_next RedemptionNone (map evName (filter (\<lambda>e. event_id e = i) (sort_events evs)))"
    and "map_option terms (look s' i) = map_option (\<lambda>e. terms (new_request now t e i)) (first_request i (sort_events evs))"
proof -
  from assms(8) obtain all s1 u v where c: "list_names L EventNames = Inr all"
      "upsert_all R (derived order now gen t all) s = (Inr u, s1)" "swPrune R gen s1 = (Inr v, s')"
    by (rule reconcile_split)
  have l: "look s' i = map_option (\<lambda>r. r\<lparr>rrGeneration := gen\<rparr>) (map_of (BuildStates now t all) i)"
    using generation_store.swap_exact [OF assms(1,2) _ derived_generation derived_distinct [OF assms(7)] c(2,3)] assms(3)
    by (simp add: find_derived [OF assms(7)])
  note o = collected_order [OF assms(4,5,6) c(1)]
  have st: "status_of (map_option (\<lambda>r. r\<lparr>rrGeneration := gen\<rparr>) x) = status_of x" for x
    by (cases x) (simp_all add: status_of_def)
  have te: "map_option terms (map_option (\<lambda>r. r\<lparr>rrGeneration := gen\<rparr>) x) = map_option terms x" for x
    by (cases x) (simp_all add: terms_def)
  show "status_of (look s' i) =
      foldl rd_next RedemptionNone (map evName (filter (\<lambda>e. event_id e = i) (sort_events evs)))"
    using replay_states [OF assms(9), of "[]" now t "sort_events all"]
    unfolding l st BuildStates_def o filter_filter rd_run_filter by (simp add: request_ok_def status_of_def)
  show "map_option terms (look s' i) = map_option (\<lambda>e. terms (new_request now t e i)) (first_request i (sort_events evs))"
    using replay_terms [OF assms(9), of now t "sort_events all" "[]"]
    by (simp only: l te) (simp add: BuildStates_def o first_request_filter)
qed



text \<open>Every state a reader can see during a rebuild, whatever becomes of it.\<close>

lemma watched_rebuild:
  assumes p: "pruning_store R ok look rrID rrGeneration" and "ok s"
    and l: "list_names L EventNames = Inr all" and o: "range_order order"
    and c: "RedemptionReconcile L (watched R) order now gen t (s, []) = (r, s', seen)"
  shows "RedemptionReconcile L R order now gen t s = (r, s') \<and>
    (\<forall>u\<in>set seen. pruning_store.no_gap look rrID s (derived order now gen t all) u)"
proof -
  let ?xs = "derived order now gen t all"
  obtain v s1 seen1 where w: "upsert_all (watched R) ?xs (s, []) = (v, s1, seen1)"
    by (cases "upsert_all (watched R) ?xs (s, [])")
  from pruning_store.watched_upserts [OF p w assms(2)]
  have u: "upsert_all R ?xs s = (v, s1)" and "\<forall>u\<in>set seen1. pruning_store.no_gap look rrID s ?xs u"
    using pruning_store.kept_no_gap [OF p] by auto
  note seen1 = this(2)
  show ?thesis
  proof (cases v)
    case (Inl e)
    obtain x err where "e = (x, err)" by (cases e)
    with Inl w u seen1 c l show ?thesis
      by (auto simp: RedemptionReconcile_def derived_def Let_def)
  next
    case (Inr d)
    obtain q s2 where q: "swPrune R gen s1 = (q, s2)" by (cases "swPrune R gen s1")
    have "pruning_store.no_gap look rrID s ?xs s2"
      by (rule pruning_store.pruned_no_gap [OF p assms(2) _ derived_distinct [OF o] u [unfolded Inr] q])
        (rule derived_generation)
    moreover have "s' = s2" "seen = seen1 @ [s2]" "RedemptionReconcile L R order now gen t s = (r, s2)"
      using Inr w u q c l by (auto simp: RedemptionReconcile_def derived_def Let_def watched_def split: sum.splits)
    ultimately show ?thesis using seen1 by simp
  qed
qed

text \<open>Two transactions of one slot: the request is the second program message of its transaction,
  the funding the first of its own. The replay order compares the message indices, so the
  funding comes first and is dropped: the request stays Pending, whatever follows.\<close>

definition red_event :: "string \<Rightarrow> string \<Rightarrow> u64 \<Rightarrow> nat \<Rightarrow> string \<Rightarrow> ChainEvent" where
  "red_event i name slot logIndex sig =
     \<lparr>evChainID = 1, evAddress = ''P'', evTxHash = sig, evLogIndex = logIndex, evBlockNumber = slot, evBlockHash = '''',
      evName = name, evData = [(''id'', DStr i), (''createdAt'', DStr ''100''), (''beneficiary'', DStr ''B'')],
      evRemoved = False, evIndexedAt = 0\<rparr>"

lemma same_slot_order:
  "map_of (BuildStates 0 10 [red_event ''1'' ''RedemptionRequested'' 5 1 ''a'', red_event ''1'' ''RedemptionFunded'' 5 0 ''b'',
     red_event ''1'' ''RedemptionCompleted'' 9 0 ''c'']) ''1'' =
   Some (new_request 0 10 (red_event ''1'' ''RedemptionRequested'' 5 1 ''a'') ''1'')"
  by (simp add: BuildStates_def sort_events_def event_order_def red_event_def replay_event_def on_status_def
      new_request_def Let_def)

section \<open>Properties\<close>

text \<open>C20: a rebuild refines the state machine. After a successful \<open>Reconcile\<close> under a fresh generation,
  the read model shows for every id the state the transition table reaches on the id's own
  events in replay order (no request when it is None), whatever the store held before, in
  whatever order the events were listed and the states were written, and the terms of a request
  (beneficiary, amounts, creation, timeout, transaction) are those of its first
  RedemptionRequested event.\<close>

theorem redemption_follows_table:
  assumes "generation_store R ok look rrID rrGeneration" "ok s" "\<forall>i r. look s i = Some r \<longrightarrow> rrGeneration r \<noteq> gen"
    and "lists evs L" "distinct evs" "inj_on event_order (set evs)"
    and "range_order order" "RedemptionReconcile L R order now gen t s = (Inr (), s')" "i \<noteq> ''''"
  shows "status_of (look s' i) =
      foldl rd_next RedemptionNone (map evName (filter (\<lambda>e. event_id e = i) (sort_events evs))) \<and>
    map_option terms (look s' i) = map_option (\<lambda>e. terms (new_request now t e i)) (first_request i (sort_events evs))"
  using red_rebuilt [OF assms] by blast

text \<open>C21: no gap during a rebuild. \<open>watched\<close> records the state that every write and the deletion
  of a \<open>Reconcile\<close> leave in the store. In each of them, whether or not the rebuild succeeds, a
  reader finds every request as it was before or as derived from the events, and either no
  request that was there is missing or all the derived ones are there. Watching changes neither
  outcome nor store.\<close>

theorem redemption_no_gap:
  assumes "pruning_store R ok look rrID rrGeneration" "ok s"
    and "list_names L EventNames = Inr all" "range_order order"
    and "RedemptionReconcile L (watched R) order now gen t (s, []) = (r, s', seen)"
  shows "RedemptionReconcile L R order now gen t s = (r, s') \<and>
    (\<forall>u\<in>set seen.
       (\<forall>i x. look u i = Some x \<longrightarrow> look s i = Some x \<or> x \<in> set (derived order now gen t all)) \<and>
       (dom (look s) \<subseteq> dom (look u) \<or>
        (\<forall>x\<in>set (derived order now gen t all). look u (rrID x) = Some x)))"
  using watched_rebuild [OF assms] unfolding pruning_store.no_gap_def [OF assms(1)] .

section \<open>Example\<close>

definition demo_red :: "ChainEvent list" where
  "demo_red = [red_event ''1'' ''RedemptionFunded'' 7 0 ''b'', red_event ''1'' ''RedemptionRequested'' 5 0 ''a'',
     red_event ''1'' ''RedemptionRejected'' 8 0 ''c'', red_event ''1'' ''RedemptionCompleted'' 9 0 ''d'']"

definition demo_listing :: "string \<Rightarrow> repo_error + ChainEvent list" where
  "demo_listing name = Inr (filter (\<lambda>e. evName e = name) demo_red)"

definition demo_old :: redemption_map where
  "demo_old = [(''9'', (new_request 0 0 (red_event ''9'' ''RedemptionRequested'' 2 0 ''z'') ''9'')\<lparr>rrGeneration := 1\<rparr>)]"

lemma demo_red_ok: "lists demo_red demo_listing" "distinct demo_red" "inj_on event_order (set demo_red)"
  "redemptions_wf demo_old" "\<forall>i r. map_of demo_old i = Some r \<longrightarrow> rrGeneration r \<noteq> 2"
  by (auto simp: lists_def demo_listing_def demo_red_def red_event_def event_order_def redemptions_wf_def demo_old_def
      new_request_def inj_on_def Let_def)

lemma memory_never_fails:
  "list_names L EventNames = Inr all \<Longrightarrow> \<exists>s'. RedemptionReconcile L memoryRedemptions order now gen t s = (Inr (), s')"
proof -
  assume l: "list_names L EventNames = Inr all"
  have u: "\<exists>s'. upsert_all memoryRedemptions xs s = (Inr (), s')" for xs s
    by (induction xs arbitrary: s) (simp_all add: memoryRedemptions_def memRedUpsert_def)
  obtain s1 where "upsert_all memoryRedemptions (derived order now gen t all) s = (Inr (), s1)" using u by blast
  then show ?thesis by (simp add: RedemptionReconcile_def l derived_def memoryRedemptions_def memRedDeleteStale_def)
qed

theorem redemption_follows_table_witness:
  "\<exists>s'. RedemptionReconcile demo_listing memoryRedemptions rev 50 2 10 demo_old = (Inr (), s') \<and>
     status_of (map_of s' ''1'') = RedemptionCompleted \<and> map_of s' ''9'' = None"
proof -
  have "list_names demo_listing EventNames = Inr (concat (map (\<lambda>n. filter (\<lambda>e. evName e = n) demo_red) EventNames))"
    by (simp add: EventNames_def demo_listing_def)
  from memory_never_fails [OF this] obtain s' where c: "RedemptionReconcile demo_listing memoryRedemptions rev 50 2 10 demo_old = (Inr (), s')"
    by blast
  note f = redemption_follows_table [OF gr.generation_store_axioms demo_red_ok(4,5,1,2,3) _ c]
  have sorted: "map evName (filter (\<lambda>e. event_id e = ''1'') (sort_events demo_red)) =
      [''RedemptionRequested'', ''RedemptionFunded'', ''RedemptionRejected'', ''RedemptionCompleted'']"
    "first_request ''9'' (sort_events demo_red) = None"
    by (simp_all add: sort_events_def event_order_def demo_red_def red_event_def event_id_def first_request_def)
  have "status_of (map_of s' ''1'') = RedemptionCompleted" using f [of "''1''"] by (simp add: sorted rd_next_def range_order_def)
  moreover have "map_of s' ''9'' = None" using f [of "''9''"] by (simp add: sorted range_order_def)
  ultimately show ?thesis using c by blast
qed

text \<open>The demo rebuild replaces request 9 by request 1: a reader sees both, then request 1 alone.\<close>

theorem redemption_no_gap_witness:
  "\<exists>s' seen. RedemptionReconcile demo_listing (watched memoryRedemptions) rev 50 2 10 (demo_old, []) = (Inr (), s', seen) \<and>
     RedemptionReconcile demo_listing memoryRedemptions rev 50 2 10 demo_old = (Inr (), s') \<and>
     map (map fst) seen = [[''9'', ''1''], [''1'']]"
proof -
  let ?all = "concat (map (\<lambda>n. filter (\<lambda>e. evName e = n) demo_red) EventNames)"
  have l: "list_names demo_listing EventNames = Inr ?all"
    by (simp add: EventNames_def demo_listing_def)
  let ?run = "RedemptionReconcile demo_listing (watched memoryRedemptions) rev 50 2 10 (demo_old, [])"
  have run: "fst ?run = Inr ()" "map (map fst) (snd (snd ?run)) = [[''9'', ''1''], [''1'']]" by code_simp+
  obtain s' seen where c: "?run = (Inr (), s', seen)" using run(1) by (cases ?run) auto
  have "range_order (rev :: redemption_map \<Rightarrow> _)" by (simp add: range_order_def)
  from redemption_no_gap [OF gr.pruning_store_axioms demo_red_ok(4) l this c]
  have "RedemptionReconcile demo_listing memoryRedemptions rev 50 2 10 demo_old = (Inr (), s')" by blast
  with c run show ?thesis by auto
qed

end
