(* ===== verification/TxIndex.thy ===== *)
theory TxIndex
  imports Projection ComplianceStore
begin

text \<open>
  The projector of event-derived transactions, \<^verbatim>\<open>server/internal/txindex/txindex.go\<close>: one
  transaction record per signature that the indexer stored a decoded event of and the server
  did not submit itself. The store is the \<^verbatim>\<open>TransactionRepository\<close> interface as far as
  \<open>Reconcile\<close> uses it (\<open>index_repo\<close>, laws in the locale \<open>index_store\<close>, interpreted on the
  in-memory repository). Go ranges over a map in an order of its own choice: the loops take
  it as an argument, and the properties hold for every order.
\<close>

section \<open>The store\<close>

record 's index_repo =
  ixList :: "'s \<Rightarrow> repo_error + Transaction list"
  ixCreate :: "Transaction \<Rightarrow> 's \<Rightarrow> (repo_error + unit) \<times> 's"
  ixUpdate :: "Transaction \<Rightarrow> 's \<Rightarrow> (repo_error + unit) \<times> 's"
  ixDelete :: "string \<Rightarrow> 's \<Rightarrow> (repo_error + unit) \<times> 's"

definition memoryIndex :: "tx_map index_repo" where
  "memoryIndex = \<lparr>ixList = (\<lambda>m. Inr (memTxList m)), ixCreate = memTxCreate, ixUpdate = memTxUpdate,
     ixDelete = (\<lambda>i m. (Inr (), memTxDelete i m))\<rparr>"

section \<open>Event kinds\<close>

definition txKinds :: "(string \<times> string) list" where
  "txKinds =
     [(''Purchased'', ''purchase''),
      (''ProceedsWithdrawn'', ''treasury_withdrawal''),
      (''Minted'', ''mint''),
      (''Burned'', ''burn''),
      (''RedemptionRequested'', ''redemption_requested''),
      (''RedemptionFunded'', ''redemption_funded''),
      (''RedemptionCompleted'', ''redemption_claimed''),
      (''RedemptionRejected'', ''redemption_rejected''),
      (''RedemptionCancelled'', ''redemption_cancelled''),
      (''RequestClosed'', ''redemption_request_closed''),
      (''StatusChanged'', ''compliance_status_changed''),
      (''PurchasePriceUpdated'', ''price_updated''),
      (''RedemptionPriceUpdated'', ''price_updated''),
      (''AuditorChanged'', ''auditor_changed''),
      (''PricerChanged'', ''pricer_changed''),
      (''PauseSet'', ''pause_set''),
      (''ComplianceFinalized'', ''compliance_finalized''),
      (''SupplyFinalized'', ''supply_finalized''),
      (''AdminProposed'', ''admin_transfer_scheduled''),
      (''AdminChanged'', ''admin_changed''),
      (''AdminTransferCancelled'', ''admin_transfer_cancelled''),
      (''RoleChanged'', ''role_changed'')]"

text \<open>The maps \<^verbatim>\<open>init\<close> fills from the table.\<close>

definition kindByEvent :: "string \<Rightarrow> string option" where
  "kindByEvent name = map_of txKinds name"

definition rankByEvent :: "string \<Rightarrow> nat option" where
  "rankByEvent name = map_of (zip (map fst txKinds) [0..<length txKinds]) name"

definition actorKeys :: "string list" where
  "actorKeys = [''by'', ''buyer'', ''funder'', ''beneficiary'', ''authority'', ''newAdmin'', ''account'']"

section \<open>The record of a transaction\<close>

text \<open>Slot first, then the position within the transaction.\<close>

definition earlier :: "ChainEvent \<Rightarrow> ChainEvent \<Rightarrow> bool" where
  "earlier a b =
     (if evBlockNumber a \<noteq> evBlockNumber b then evBlockNumber a < evBlockNumber b
      else evLogIndex a < evLogIndex b)"

definition actorFrom :: "event_data \<Rightarrow> string" where
  "actorFrom data =
     (case find (\<lambda>k. toString (map_of data k) \<noteq> '''') actorKeys of
        None \<Rightarrow> ''''
      | Some k \<Rightarrow> toString (map_of data k))"

definition undecoded :: "ChainEvent \<Rightarrow> bool" where
  "undecoded e \<longleftrightarrow> evName e = '''' \<or> evName e = ''unknown''"

definition event_rank :: "ChainEvent \<Rightarrow> nat" where
  "event_rank e = (case rankByEvent (evName e) of Some r \<Rightarrow> r | None \<Rightarrow> length txKinds)"

definition pick_step :: "ChainEvent \<Rightarrow> (ChainEvent \<times> nat) option \<Rightarrow> (ChainEvent \<times> nat) option" where
  "pick_step e best =
     (if undecoded e then best
      else let r = event_rank e in
        case best of
          None \<Rightarrow> Some (e, r)
        | Some (b, bestRank) \<Rightarrow>
            if r < bestRank \<or> (r = bestRank \<and> earlier e b) then Some (e, r) else best)"

definition pickPrimary :: "ChainEvent list \<Rightarrow> ChainEvent option" where
  "pickPrimary evs = map_option fst (fold pick_step evs None)"

definition earliest_of :: "ChainEvent list \<Rightarrow> ChainEvent" where
  "earliest_of evs = fold (\<lambda>e b. if earlier e b then e else b) evs (hd evs)"

definition latest_of :: "ChainEvent list \<Rightarrow> ChainEvent" where
  "latest_of evs = fold (\<lambda>e b. if earlier b e then e else b) evs (hd evs)"

text \<open>The zero time is 0.\<close>

definition submitted_at :: "ChainEvent list \<Rightarrow> Transaction option \<Rightarrow> int" where
  "submitted_at evs prev =
     (case prev of
        Some p \<Rightarrow> if txSubmittedAt p \<noteq> 0 then txSubmittedAt p else evIndexedAt (earliest_of evs)
      | None \<Rightarrow> evIndexedAt (earliest_of evs))"

definition buildEventDerivedTx ::
  "int \<Rightarrow> string \<Rightarrow> ChainEvent list \<Rightarrow> ChainEvent \<Rightarrow> Transaction option \<Rightarrow> int \<Rightarrow> Transaction" where
  "buildEventDerivedTx chainID hash evs primary prev now =
     \<lparr>txID = EventDerivedTxIDPrefix @ hash,
      txIdempotencyKey = '''',
      txKind = (case kindByEvent (evName primary) of Some k \<Rightarrow> k | None \<Rightarrow> evName primary),
      txChainID = chainID,
      txFrom = actorFrom (evData primary),
      txTo = evAddress primary,
      txHash = hash,
      txStatus = TxConfirmed,
      txBlockNumber = evBlockNumber (latest_of evs),
      txSubmittedAt = submitted_at evs prev,
      txUpdatedAt = now\<rparr>"

section \<open>Reconcile\<close>

definition owned_by_manager :: "Transaction list \<Rightarrow> string \<Rightarrow> bool" where
  "owned_by_manager existing hash \<longleftrightarrow>
     list_ex (\<lambda>t. \<not> IsEventDerived t \<and> txHash t \<noteq> '''' \<and> txHash t = hash) existing"

definition derived_by_hash :: "Transaction list \<Rightarrow> (string \<times> Transaction) list" where
  "derived_by_hash existing =
     fold (\<lambda>t m. if IsEventDerived t then AList.update (txHash t) t m else m) existing []"

definition append_at :: "ChainEvent \<Rightarrow> (string \<times> ChainEvent list) list \<Rightarrow> (string \<times> ChainEvent list) list" where
  "append_at e m =
     AList.update (evTxHash e) ((case map_of m (evTxHash e) of None \<Rightarrow> [] | Some evs \<Rightarrow> evs) @ [e]) m"

definition by_tx :: "ChainEvent list \<Rightarrow> (string \<times> ChainEvent list) list" where
  "by_tx events = fold (\<lambda>e m. if evRemoved e then m else append_at e m) events []"

datatype index_error =
    ListEvents repo_error | ListTxs repo_error
  | CreateTx string repo_error | UpdateTx string repo_error | DeleteTx string repo_error

definition fail_with :: "('e \<Rightarrow> 'f) \<Rightarrow> ('e + unit) \<times> 's \<Rightarrow> ('f + unit) \<times> 's" where
  "fail_with f rs = (case rs of (Inl err, s) \<Rightarrow> (Inl (f err), s) | (Inr _, s) \<Rightarrow> (Inr (), s))"

fun for_each :: "('x \<Rightarrow> 's \<Rightarrow> ('e + unit) \<times> 's) \<Rightarrow> 'x list \<Rightarrow> 's \<Rightarrow> ('e + unit) \<times> 's" where
  "for_each f [] s = (Inr (), s)"
| "for_each f (x # xs) s = (case f x s of (Inl err, s') \<Rightarrow> (Inl err, s') | (Inr _, s') \<Rightarrow> for_each f xs s')"

definition project_tx ::
  "'s index_repo \<Rightarrow> int \<Rightarrow> int \<Rightarrow> Transaction list \<Rightarrow> string \<times> ChainEvent list \<Rightarrow> 's \<Rightarrow> (index_error + unit) \<times> 's" where
  "project_tx R chainID now existing = (\<lambda>(hash, evs) s.
     case pickPrimary evs of
       None \<Rightarrow> (Inr (), s)
     | Some primary \<Rightarrow>
         if owned_by_manager existing hash then (Inr (), s)
         else let prev = map_of (derived_by_hash existing) hash;
                  rc = buildEventDerivedTx chainID hash evs primary prev now
           in case prev of
                None \<Rightarrow> fail_with (CreateTx hash) (ixCreate R rc s)
              | Some _ \<Rightarrow> fail_with (UpdateTx hash) (ixUpdate R rc s))"

definition live_hash :: "ChainEvent list \<Rightarrow> string \<Rightarrow> bool" where
  "live_hash events hash \<longleftrightarrow>
     (case map_of (by_tx events) hash of None \<Rightarrow> False | Some evs \<Rightarrow> pickPrimary evs \<noteq> None)"

definition drop_rolled_back ::
  "'s index_repo \<Rightarrow> ChainEvent list \<Rightarrow> string \<times> Transaction \<Rightarrow> 's \<Rightarrow> (index_error + unit) \<times> 's" where
  "drop_rolled_back R events = (\<lambda>(hash, t) s.
     if live_hash events hash then (Inr (), s)
     else fail_with (DeleteTx hash) (ixDelete R (txID t) s))"

text \<open>\<open>order1\<close> and \<open>order2\<close> are the orders in which Go ranges over \<^verbatim>\<open>byTx\<close> and \<^verbatim>\<open>derivedByHash\<close>.\<close>

definition TxReconcile ::
  "'s index_repo \<Rightarrow> repo_error + ChainEvent list \<Rightarrow> int \<Rightarrow> int
   \<Rightarrow> ((string \<times> ChainEvent list) list \<Rightarrow> (string \<times> ChainEvent list) list)
   \<Rightarrow> ((string \<times> Transaction) list \<Rightarrow> (string \<times> Transaction) list) \<Rightarrow> 's \<Rightarrow> (index_error + unit) \<times> 's" where
  "TxReconcile R listed chainID now order1 order2 s =
     (case listed of
        Inl err \<Rightarrow> (Inl (ListEvents err), s)
      | Inr events \<Rightarrow>
          (case ixList R s of
             Inl err \<Rightarrow> (Inl (ListTxs err), s)
           | Inr existing \<Rightarrow>
               (case for_each (project_tx R chainID now existing) (order1 (by_tx events)) s of
                  (Inl err, s1) \<Rightarrow> (Inl err, s1)
                | (Inr _, s1) \<Rightarrow> for_each (drop_rolled_back R events) (order2 (derived_by_hash existing)) s1)))"


section \<open>What the fields of a record are\<close>

definition event_pos :: "ChainEvent \<Rightarrow> u64 \<times> nat" where
  "event_pos e = (evBlockNumber e, evLogIndex e)"

definition priority :: "ChainEvent \<Rightarrow> nat \<times> u64 \<times> nat" where
  "priority e = (event_rank e, event_pos e)"

lemma earlier_iff: "earlier a b \<longleftrightarrow> event_pos a < event_pos b"
  by (auto simp: earlier_def event_pos_def)

lemma pick_step_iff:
  "pick_step e best =
     (if undecoded e then best
      else case best of None \<Rightarrow> Some (e, event_rank e)
        | Some (b, r) \<Rightarrow> if (event_rank e, event_pos e) < (r, event_pos b) then Some (e, event_rank e) else best)"
  by (auto simp: pick_step_def Let_def earlier_iff split: option.split)

lemma fold_pick_step:
  assumes "\<forall>b r. best = Some (b, r) \<longrightarrow> r = event_rank b"
  shows "case fold pick_step evs best of
      None \<Rightarrow> best = None \<and> (\<forall>e\<in>set evs. undecoded e)
    | Some (p, r) \<Rightarrow> r = event_rank p \<and> (best = Some (p, r) \<or> p \<in> set evs \<and> \<not> undecoded p) \<and>
        (\<forall>b rb. best = Some (b, rb) \<longrightarrow> priority p \<le> priority b) \<and>
        (\<forall>e\<in>set evs. \<not> undecoded e \<longrightarrow> priority p \<le> priority e)"
  using assms
proof (induction evs arbitrary: best)
  case Nil
  then show ?case by (cases best) auto
next
  case (Cons e evs)
  have inv: "\<forall>b r. pick_step e best = Some (b, r) \<longrightarrow> r = event_rank b"
    using Cons.prems by (auto simp: pick_step_iff split: option.splits if_splits)
  have step: "(pick_step e best = None) = (best = None \<and> undecoded e)"
    "pick_step e best = Some (p, r) \<Longrightarrow>
       (best = Some (p, r) \<or> p = e \<and> \<not> undecoded e) \<and> (\<not> undecoded e \<longrightarrow> priority p \<le> priority e) \<and>
       (\<forall>b rb. best = Some (b, rb) \<longrightarrow> priority p \<le> priority b)" for p r
    using Cons.prems by (auto simp: pick_step_iff priority_def split: option.splits if_splits)
  show ?case
  proof (cases "pick_step e best")
    case None
    with Cons.IH [OF inv] step(1) show ?thesis by (auto split: option.splits)
  next
    case (Some x)
    obtain q rq where x: "pick_step e best = Some (q, rq)" using Some by (cases x) simp
    obtain p r where f: "fold pick_step evs (pick_step e best) = Some (p, r)"
      using Cons.IH [OF inv] x by (auto split: option.splits)
    have "priority p \<le> priority q" "r = event_rank p" "p = q \<and> r = rq \<or> p \<in> set evs \<and> \<not> undecoded p"
      "\<forall>e\<in>set evs. \<not> undecoded e \<longrightarrow> priority p \<le> priority e"
      using Cons.IH [OF inv, unfolded f] x by auto
    with step(2) [OF x] f show ?thesis by (auto intro: order_trans)
  qed
qed

lemma pickPrimary_None: "pickPrimary evs = None \<longleftrightarrow> (\<forall>e\<in>set evs. undecoded e)"
  using fold_pick_step [of None evs] by (auto simp: pickPrimary_def split: option.splits)

lemma pickPrimary_Some:
  assumes "pickPrimary evs = Some p"
  shows "p \<in> set evs" "\<not> undecoded p" "\<And>e. e \<in> set evs \<Longrightarrow> \<not> undecoded e \<Longrightarrow> priority p \<le> priority e"
  using assms fold_pick_step [of None evs] by (auto simp: pickPrimary_def)

lemma fold_least:
  fixes f :: "'x \<Rightarrow> 'k :: linorder"
  shows "fold (\<lambda>e b. if f e < f b then e else b) xs b \<in> insert b (set xs) \<and>
    (\<forall>x\<in>insert b (set xs). f (fold (\<lambda>e b. if f e < f b then e else b) xs b) \<le> f x)"
proof (induction xs arbitrary: b)
  case (Cons x xs)
  let ?b = "if f x < f b then x else b"
  from Cons.IH [of ?b] have "f (fold (\<lambda>e b. if f e < f b then e else b) xs ?b) \<le> f ?b" by simp
  moreover have "f ?b \<le> f x" "f ?b \<le> f b" by auto
  ultimately show ?case using Cons.IH [of ?b] by (auto split: if_splits)
qed simp

lemma fold_greatest:
  fixes f :: "'x \<Rightarrow> 'k :: linorder"
  shows "fold (\<lambda>e b. if f b < f e then e else b) xs b \<in> insert b (set xs) \<and>
    (\<forall>x\<in>insert b (set xs). f x \<le> f (fold (\<lambda>e b. if f b < f e then e else b) xs b))"
proof (induction xs arbitrary: b)
  case (Cons x xs)
  let ?b = "if f b < f x then x else b"
  from Cons.IH [of ?b] have "f ?b \<le> f (fold (\<lambda>e b. if f b < f e then e else b) xs ?b)" by simp
  moreover have "f x \<le> f ?b" "f b \<le> f ?b" by auto
  ultimately show ?case using Cons.IH [of ?b] by (auto split: if_splits)
qed simp

lemma earliest_of_least:
  assumes "evs \<noteq> []"
  shows "earliest_of evs \<in> set evs" "e \<in> set evs \<Longrightarrow> event_pos (earliest_of evs) \<le> event_pos e"
  using fold_least [of event_pos evs "hd evs"] assms by (auto simp: earliest_of_def earlier_iff insert_absorb)

lemma latest_of_greatest:
  assumes "evs \<noteq> []"
  shows "latest_of evs \<in> set evs" "e \<in> set evs \<Longrightarrow> event_pos e \<le> event_pos (latest_of evs)"
  using fold_greatest [of event_pos evs "hd evs"] assms by (auto simp: latest_of_def earlier_iff insert_absorb)

lemma latest_slot:
  assumes "evs \<noteq> []"
  shows "evBlockNumber (latest_of evs) = Max (evBlockNumber ` set evs)"
proof (rule sym, rule Max_eqI)
  show "evBlockNumber (latest_of evs) \<in> evBlockNumber ` set evs"
    using latest_of_greatest(1) [OF assms] by blast
  show "y \<le> evBlockNumber (latest_of evs)" if "y \<in> evBlockNumber ` set evs" for y
    using that latest_of_greatest(2) [OF assms] by (fastforce simp: event_pos_def)
qed simp

section \<open>The interface of the store\<close>

definition event_id :: "string \<Rightarrow> string" where
  "event_id hash = EventDerivedTxIDPrefix @ hash"

lemma event_id_inject [simp]: "event_id h = event_id h' \<longleftrightarrow> h = h'"
  by (simp add: event_id_def)

lemma derived_id: "IsEventDerived t \<longleftrightarrow> (\<exists>h. h \<noteq> '''' \<and> txID t = event_id h)"
proof
  assume d: "IsEventDerived t"
  then have "txID t = event_id (drop (length EventDerivedTxIDPrefix) (txID t))"
    using append_take_drop_id [of "length EventDerivedTxIDPrefix" "txID t"]
    by (simp add: IsEventDerived_def event_id_def)
  moreover have "drop (length EventDerivedTxIDPrefix) (txID t) \<noteq> ''''"
    using d by (simp add: IsEventDerived_def)
  ultimately show "\<exists>h. h \<noteq> '''' \<and> txID t = event_id h" by blast
qed (auto simp: IsEventDerived_def event_id_def)

locale index_store =
  fixes R :: "'s index_repo"
    and ok :: "'s \<Rightarrow> bool"
    and look :: "'s \<Rightarrow> string \<Rightarrow> Transaction option"
  assumes list_ok: "ok s \<Longrightarrow> ixList R s = Inr ts \<Longrightarrow> t \<in> set ts \<longleftrightarrow> (\<exists>i. look s i = Some t)"
    and create_wf: "ok s \<Longrightarrow> ok (snd (ixCreate R t s))"
    and create_ok: "ok s \<Longrightarrow> ixCreate R t s = (Inr u, s') \<Longrightarrow>
      look s (txID t) = None \<and> look s' = (look s)(txID t \<mapsto> t)"
    and update_wf: "ok s \<Longrightarrow> ok (snd (ixUpdate R t s))"
    and update_ok: "ok s \<Longrightarrow> ixUpdate R t s = (Inr u, s') \<Longrightarrow> look s' = (look s)(txID t \<mapsto> t)"
    and delete_wf: "ok s \<Longrightarrow> ok (snd (ixDelete R i s))"
    and delete_ok: "ok s \<Longrightarrow> ixDelete R i s = (Inr u, s') \<Longrightarrow> look s' = (look s)(i := None)"
    and look_id: "ok s \<Longrightarrow> look s i = Some t \<Longrightarrow> txID t = i"

text \<open>Every record sits under its own id, and no id twice; an event-derived record is the one
  of the signature it names (only this projector writes such ids).\<close>

definition txs_wf :: "tx_map \<Rightarrow> bool" where
  "txs_wf m \<longleftrightarrow> distinct (map fst m) \<and> (\<forall>(i, t) \<in> set m. i = txID t)"

definition derived_wf :: "(string \<Rightarrow> Transaction option) \<Rightarrow> bool" where
  "derived_wf look \<longleftrightarrow> (\<forall>i t. look i = Some t \<longrightarrow> IsEventDerived t \<longrightarrow> i = event_id (txHash t))"

lemma txs_wf_iff: "txs_wf m \<longleftrightarrow> distinct (map fst m) \<and> (\<forall>i t. map_of m i = Some t \<longrightarrow> i = txID t)"
  by (auto simp: txs_wf_def dest: map_of_SomeD)

lemma txs_wf_update: "txs_wf m \<Longrightarrow> txs_wf (AList.update (txID t) t m)"
  by (auto simp: txs_wf_iff distinct_update update_conv' split: if_splits)

lemma txs_wf_delete: "txs_wf m \<Longrightarrow> txs_wf (AList.delete i m)"
  by (auto simp: txs_wf_iff distinct_delete delete_conv' split: if_splits)

lemma txs_wf_list: "txs_wf m \<Longrightarrow> t \<in> set (map snd m) \<longleftrightarrow> (\<exists>i. map_of m i = Some t)"
  by (auto simp: txs_wf_def image_iff Bex_def)

interpretation mo: index_store memoryIndex txs_wf "map_of :: tx_map \<Rightarrow> _"
proof
  fix s :: tx_map and ts t i
  show "txs_wf s \<Longrightarrow> ixList memoryIndex s = Inr ts \<Longrightarrow> (t \<in> set ts) = (\<exists>i. map_of s i = Some t)"
    by (auto simp: memoryIndex_def memTxList_def txs_wf_list simp del: set_map)
  show "txs_wf s \<Longrightarrow> map_of s i = Some t \<Longrightarrow> txID t = i"
    by (auto simp: txs_wf_iff)
qed (auto simp: memoryIndex_def memTxCreate_def memTxUpdate_def memTxDelete_def txs_wf_update txs_wf_delete
    update_conv delete_conv split: option.splits)

section \<open>Grouping\<close>

definition backing :: "ChainEvent list \<Rightarrow> string \<Rightarrow> ChainEvent list" where
  "backing events hash = filter (\<lambda>e. \<not> evRemoved e \<and> evTxHash e = hash) events"

lemma map_of_append_at:
  "map_of (append_at e m) h =
     (if h = evTxHash e then Some ((case map_of m h of None \<Rightarrow> [] | Some evs \<Rightarrow> evs) @ [e]) else map_of m h)"
  by (simp add: append_at_def update_conv')

lemma map_of_fold_append_at:
  "map_of (fold (\<lambda>e m. if evRemoved e then m else append_at e m) events m) h =
     (if backing events h = [] then map_of m h
      else Some ((case map_of m h of None \<Rightarrow> [] | Some evs \<Rightarrow> evs) @ backing events h))"
  by (induction events arbitrary: m) (auto simp: backing_def map_of_append_at split: option.splits)

lemma map_of_by_tx: "map_of (by_tx events) h = (if backing events h = [] then None else Some (backing events h))"
  by (simp add: by_tx_def map_of_fold_append_at)

lemma distinct_by_tx: "distinct (map fst (by_tx events))"
proof -
  have "distinct (map fst (fold (\<lambda>e m. if evRemoved e then m else append_at e m) events m))"
    if "distinct (map fst m)" for m
    using that by (induction events arbitrary: m) (simp_all add: append_at_def distinct_update)
  then show ?thesis by (simp add: by_tx_def)
qed

lemma map_of_derived_by_hash:
  "map_of (derived_by_hash ts) h = find (\<lambda>t. IsEventDerived t \<and> txHash t = h) (rev ts)"
proof -
  have "map_of (fold (\<lambda>t m. if IsEventDerived t then AList.update (txHash t) t m else m) ts m) h =
      (case find (\<lambda>t. IsEventDerived t \<and> txHash t = h) (rev ts) of Some t \<Rightarrow> Some t | None \<Rightarrow> map_of m h)" for m
    by (induction ts arbitrary: m) (auto simp: update_conv' find_append split: option.splits)
  then show ?thesis by (simp add: derived_by_hash_def split: option.splits)
qed

lemma distinct_derived_by_hash: "distinct (map fst (derived_by_hash ts))"
proof -
  have "distinct (map fst (fold (\<lambda>t m. if IsEventDerived t then AList.update (txHash t) t m else m) ts m))"
    if "distinct (map fst m)" for m :: "(string \<times> Transaction) list"
    using that by (induction ts arbitrary: m) (simp_all add: distinct_update)
  then show ?thesis by (simp add: derived_by_hash_def)
qed

text \<open>The server's own record of a signature, if any.\<close>

definition server_owned :: "(string \<Rightarrow> Transaction option) \<Rightarrow> string \<Rightarrow> bool" where
  "server_owned look hash \<longleftrightarrow> hash \<noteq> '''' \<and> (\<exists>i t. look i = Some t \<and> \<not> IsEventDerived t \<and> txHash t = hash)"

text \<open>The record a signature should have after a run.\<close>

definition derived_record ::
  "ChainEvent list \<Rightarrow> (string \<Rightarrow> Transaction option) \<Rightarrow> int \<Rightarrow> int \<Rightarrow> string \<Rightarrow> Transaction option" where
  "derived_record events look chainID now hash =
     (case pickPrimary (backing events hash) of
        None \<Rightarrow> None
      | Some p \<Rightarrow>
          if server_owned look hash then look (event_id hash)
          else Some (buildEventDerivedTx chainID hash (backing events hash) p (look (event_id hash)) now))"

section \<open>A run\<close>

context index_store
begin

lemma owned_iff: "ok s \<Longrightarrow> ixList R s = Inr ts \<Longrightarrow> owned_by_manager ts h = server_owned (look s) h"
  by (simp add: owned_by_manager_def server_owned_def list_ex_iff Bex_def list_ok) blast

lemma previous_record:
  assumes "ok s" "derived_wf (look s)" "ixList R s = Inr ts" "h \<noteq> ''''"
  shows "map_of (derived_by_hash ts) h = look s (event_id h)"
proof (cases "look s (event_id h)")
  case None
  have False if "t \<in> set ts" "IsEventDerived t" "txHash t = h" for t
    using that None assms(1-3) by (auto simp: list_ok derived_wf_def)
  with None show ?thesis by (auto simp: map_of_derived_by_hash find_None_iff)
next
  case (Some t)
  have d: "IsEventDerived t" using look_id [OF assms(1) Some] assms(4) derived_id by blast
  have "txHash t = h" using assms(2) Some d event_id_inject unfolding derived_wf_def by metis
  moreover have "t' = t" if t': "t' \<in> set ts" "IsEventDerived t'" "txHash t' = h" for t'
  proof -
    obtain i where i: "look s i = Some t'" using iffD1 [OF list_ok [OF assms(1,3)] t'(1)] by (rule exE)
    with t' assms(2) have "i = event_id h" by (auto simp: derived_wf_def)
    with i Some show ?thesis by simp
  qed
  moreover have "t \<in> set ts" using Some list_ok [OF assms(1,3)] by blast
  ultimately have "find (\<lambda>t. IsEventDerived t \<and> txHash t = h) (rev ts) = Some t"
  proof (cases "find (\<lambda>t. IsEventDerived t \<and> txHash t = h) (rev ts)")
    case None
    with \<open>t \<in> set ts\<close> \<open>txHash t = h\<close> d show ?thesis by (auto simp: find_None_iff)
  next
    case (Some t')
    from find_SomeD [OF Some] \<open>\<And>t'. t' \<in> set ts \<Longrightarrow> IsEventDerived t' \<Longrightarrow> txHash t' = h \<Longrightarrow> t' = t\<close> Some
    show ?thesis by simp
  qed
  with Some show ?thesis by (simp add: map_of_derived_by_hash)
qed

end

text \<open>The loops: what is written and removed, for any order of the ranges.\<close>

context index_store
begin

definition written ::
  "ChainEvent list \<Rightarrow> Transaction list \<Rightarrow> int \<Rightarrow> int \<Rightarrow> string \<Rightarrow> Transaction option" where
  "written events ts chainID now h =
     (case map_of (by_tx events) h of
        None \<Rightarrow> None
      | Some evs \<Rightarrow>
          (case pickPrimary evs of
             None \<Rightarrow> None
           | Some p \<Rightarrow>
               if owned_by_manager ts h then None
               else Some (buildEventDerivedTx chainID h evs p (map_of (derived_by_hash ts) h) now)))"

lemma project_tx_look:
  assumes "ok s" "map_of (by_tx events) h = Some evs"
    and "project_tx R chainID now ts (h, evs) s = (Inr u, s')"
  shows "ok s'" "look s' = (case written events ts chainID now h of None \<Rightarrow> look s | Some t \<Rightarrow> (look s)(event_id h \<mapsto> t))"
proof -
  have build: "txID (buildEventDerivedTx chainID h evs p prev now) = event_id h" for p prev
    by (simp add: buildEventDerivedTx_def event_id_def)
  have "ok s' \<and> look s' = (case written events ts chainID now h of None \<Rightarrow> look s | Some t \<Rightarrow> (look s)(event_id h \<mapsto> t))"
    using assms create_wf [OF assms(1)] create_ok [OF assms(1)] update_wf [OF assms(1)] update_ok [OF assms(1)]
    by (auto simp: project_tx_def written_def fail_with_def Let_def build
        split: option.splits if_splits prod.splits sum.splits) (metis snd_conv)+
  then show "ok s'" "look s' = (case written events ts chainID now h of None \<Rightarrow> look s | Some t \<Rightarrow> (look s)(event_id h \<mapsto> t))"
    by simp_all
qed

lemma project_loop:
  assumes "ok s" "set ps \<subseteq> set (by_tx events)" "for_each (project_tx R chainID now ts) ps s = (Inr u, s')"
  shows "ok s' \<and> (\<forall>h. look s' (event_id h) =
      (if h \<in> fst ` set ps \<and> written events ts chainID now h \<noteq> None then written events ts chainID now h
       else look s (event_id h))) \<and>
    (\<forall>i. (\<forall>h. i \<noteq> event_id h) \<longrightarrow> look s' i = look s i)"
  using assms
proof (induction ps arbitrary: s)
  case (Cons p ps)
  obtain h evs where p: "p = (h, evs)" by (cases p)
  obtain v s1 where s: "project_tx R chainID now ts (h, evs) s = (Inr v, s1)"
    "for_each (project_tx R chainID now ts) ps s1 = (Inr u, s')"
    using Cons.prems(3) p by (auto split: prod.splits sum.splits)
  have m: "map_of (by_tx events) h = Some evs" using Cons.prems(2) p distinct_by_tx by simp
  note l = project_tx_look [OF Cons.prems(1) m s(1)]
  from Cons.IH [OF l(1) _ s(2)] Cons.prems(2)
  have ih: "ok s'" "\<And>h. look s' (event_id h) =
      (if h \<in> fst ` set ps \<and> written events ts chainID now h \<noteq> None then written events ts chainID now h
       else look s1 (event_id h))" "\<And>i. (\<forall>h. i \<noteq> event_id h) \<Longrightarrow> look s' i = look s1 i"
    by auto
  show ?case
    using ih l(2) p by (auto split: option.splits)
qed simp

lemma drop_loop:
  assumes "ok s" "\<And>h t. (h, t) \<in> set qs \<Longrightarrow> txID t = event_id h"
    and "for_each (drop_rolled_back R events) qs s = (Inr u, s')"
  shows "ok s' \<and> (\<forall>h. look s' (event_id h) =
      (if h \<in> fst ` set qs \<and> \<not> live_hash events h then None else look s (event_id h))) \<and>
    (\<forall>i. (\<forall>h. i \<noteq> event_id h) \<longrightarrow> look s' i = look s i)"
  using assms
proof (induction qs arbitrary: s)
  case (Cons q qs)
  obtain h t where q: "q = (h, t)" by (cases q)
  obtain v s1 where s: "drop_rolled_back R events (h, t) s = (Inr v, s1)"
    "for_each (drop_rolled_back R events) qs s1 = (Inr u, s')"
    using Cons.prems(3) q by (auto split: prod.splits sum.splits)
  have id: "txID t = event_id h" using Cons.prems(2) q by simp
  have l: "ok s1" "look s1 = (if live_hash events h then look s else (look s)(event_id h := None))"
    using s(1) id Cons.prems(1) delete_wf [OF Cons.prems(1), of "event_id h"] delete_ok [OF Cons.prems(1)]
    by (auto simp: drop_rolled_back_def fail_with_def split: if_splits prod.splits sum.splits)
  from Cons.IH [OF l(1) _ s(2)] Cons.prems(2)
  have ih: "ok s'" "\<And>h. look s' (event_id h) =
      (if h \<in> fst ` set qs \<and> \<not> live_hash events h then None else look s1 (event_id h))"
    "\<And>i. (\<forall>h. i \<noteq> event_id h) \<Longrightarrow> look s' i = look s1 i"
    by auto
  show ?case using ih l(2) q by auto
qed simp

end

definition named :: "ChainEvent list \<Rightarrow> bool" where
  "named events \<longleftrightarrow> (\<forall>e\<in>set events. evTxHash e \<noteq> '''')"

lemma backing_no_name: "named events \<Longrightarrow> backing events '''' = []"
  by (auto simp: named_def backing_def filter_empty_conv)

lemma live_hash_iff: "live_hash events h \<longleftrightarrow> pickPrimary (backing events h) \<noteq> None"
  by (simp add: live_hash_def map_of_by_tx pickPrimary_None)

context index_store
begin

lemma written_eq:
  "written events ts chainID now h =
     (case pickPrimary (backing events h) of
        None \<Rightarrow> None
      | Some p \<Rightarrow>
          if owned_by_manager ts h then None
          else Some (buildEventDerivedTx chainID h (backing events h) p (map_of (derived_by_hash ts) h) now))"
  by (simp add: written_def map_of_by_tx pickPrimary_def)

lemma derived_hash_entry:
  assumes "ok s" "derived_wf (look s)" "ixList R s = Inr ts" "(h, t) \<in> set (derived_by_hash ts)"
  shows "txID t = event_id h" "h \<noteq> ''''"
proof -
  have "find (\<lambda>t. IsEventDerived t \<and> txHash t = h) (rev ts) = Some t"
    using assms(4) distinct_derived_by_hash [of ts] by (simp flip: map_of_derived_by_hash)
  from find_SomeD [OF this] have t: "IsEventDerived t" "txHash t = h" "t \<in> set ts" by simp_all
  obtain i where i: "look s i = Some t" using iffD1 [OF list_ok [OF assms(1,3)] t(3)] by (rule exE)
  have "txID t = i" by (rule look_id [OF assms(1) i])
  with i t assms(2) show "txID t = event_id h" by (auto simp: derived_wf_def)
  with t(1) show "h \<noteq> ''''" by (auto simp: derived_id)
qed

lemma reconcile_look:
  assumes "ok s" "derived_wf (look s)" "named events" "range_order o1" "range_order o2"
    and run: "TxReconcile R (Inr events) chainID now o1 o2 s = (Inr u, s')"
  shows "ok s'"
    and "h \<noteq> '''' \<Longrightarrow> look s' (event_id h) = derived_record events (look s) chainID now h"
    and "(\<forall>h. h \<noteq> '''' \<longrightarrow> i \<noteq> event_id h) \<Longrightarrow> look s' i = look s i"
proof -
  obtain ts where ts: "ixList R s = Inr ts" using run by (auto simp: TxReconcile_def split: sum.splits)
  obtain v s1 where r: "for_each (project_tx R chainID now ts) (o1 (by_tx events)) s = (Inr v, s1)"
    "for_each (drop_rolled_back R events) (o2 (derived_by_hash ts)) s1 = (Inr u, s')"
    using run ts by (auto simp: TxReconcile_def split: sum.splits prod.splits)
  from project_loop [OF assms(1) _ r(1)] range_order_set [OF assms(4)]
  have p: "ok s1" "\<And>h. look s1 (event_id h) =
      (if h \<in> fst ` set (by_tx events) \<and> written events ts chainID now h \<noteq> None
       then written events ts chainID now h else look s (event_id h))"
    "\<And>i. (\<forall>h. i \<noteq> event_id h) \<Longrightarrow> look s1 i = look s i"
    by auto
  from drop_loop [OF p(1) _ r(2)] derived_hash_entry [OF assms(1,2) ts] range_order_set [OF assms(5)]
  have d: "ok s'" "\<And>h. look s' (event_id h) =
      (if h \<in> fst ` set (derived_by_hash ts) \<and> \<not> live_hash events h then None else look s1 (event_id h))"
    "\<And>i. (\<forall>h. i \<noteq> event_id h) \<Longrightarrow> look s' i = look s1 i"
    by auto
  show "ok s'" by (rule d(1))
  have keys: "h \<in> fst ` set (by_tx events) \<longleftrightarrow> backing events h \<noteq> []" for h
    using map_of_by_tx [of events h] by (metis map_of_eq_None_iff option.distinct(1))
  have drops: "h \<in> fst ` set (derived_by_hash ts) \<longleftrightarrow> map_of (derived_by_hash ts) h \<noteq> None" for h
    by (metis map_of_eq_None_iff)
  show "look s' (event_id h) = derived_record events (look s) chainID now h" if "h \<noteq> ''''"
  proof (cases "pickPrimary (backing events h)")
    case None
    then show ?thesis
      by (simp add: d(2) p(2) drops previous_record [OF assms(1,2) ts that] live_hash_iff written_eq
          derived_record_def)
  next
    case (Some q)
    then have "backing events h \<noteq> []" by (auto simp: pickPrimary_def)
    with Some show ?thesis
      by (simp add: d(2) p(2) keys previous_record [OF assms(1,2) ts that] live_hash_iff written_eq
          derived_record_def owned_iff [OF assms(1) ts])
  qed
  show "look s' i = look s i" if i: "\<forall>h. h \<noteq> '''' \<longrightarrow> i \<noteq> event_id h"
  proof (cases "i = event_id ''''")
    case True
    have "'''' \<notin> fst ` set (derived_by_hash ts)"
    proof
      assume "'''' \<in> fst ` set (derived_by_hash ts)"
      then obtain t where "('''', t) \<in> set (derived_by_hash ts)" by auto
      from derived_hash_entry(2) [OF assms(1,2) ts this] show False by simp
    qed
    with True show ?thesis by (simp add: d(2) p(2) keys backing_no_name [OF assms(3)])
  next
    case False
    with i have "\<forall>h. i \<noteq> event_id h" by metis
    then show ?thesis by (simp add: d(3) p(3))
  qed
qed

end

section \<open>Properties\<close>

definition indexed_as ::
  "int \<Rightarrow> int \<Rightarrow> string \<Rightarrow> ChainEvent set \<Rightarrow> Transaction option \<Rightarrow> Transaction \<Rightarrow> bool" where
  "indexed_as chainID now hash evs prev t \<longleftrightarrow>
     txID t = event_id hash \<and> txHash t = hash \<and> txChainID t = chainID \<and> txIdempotencyKey t = '''' \<and>
     txStatus t = TxConfirmed \<and> txUpdatedAt t = now \<and>
     txBlockNumber t = Max (evBlockNumber ` evs) \<and>
     (\<exists>p\<in>evs. \<not> undecoded p \<and> (\<forall>e\<in>evs. \<not> undecoded e \<longrightarrow> priority p \<le> priority e) \<and>
        txKind t = (case kindByEvent (evName p) of Some k \<Rightarrow> k | None \<Rightarrow> evName p) \<and>
        txFrom t = actorFrom (evData p) \<and> txTo t = evAddress p) \<and>
     (\<exists>e\<in>evs. (\<forall>e'\<in>evs. event_pos e \<le> event_pos e') \<and>
        txSubmittedAt t =
          (case prev of
             Some p \<Rightarrow> if txSubmittedAt p \<noteq> 0 then txSubmittedAt p else evIndexedAt e
           | None \<Rightarrow> evIndexedAt e))"

lemma built_indexed:
  assumes "pickPrimary evs = Some p"
  shows "indexed_as chainID now h (set evs) prev (buildEventDerivedTx chainID h evs p prev now)"
proof -
  have ne: "evs \<noteq> []" using assms by (auto simp: pickPrimary_def)
  note e = earliest_of_least [OF ne] and p = pickPrimary_Some [OF assms]
  show ?thesis
    unfolding indexed_as_def
  proof (intro conjI)
    show "\<exists>q\<in>set evs. \<not> undecoded q \<and> (\<forall>e\<in>set evs. \<not> undecoded e \<longrightarrow> priority q \<le> priority e) \<and>
        txKind (buildEventDerivedTx chainID h evs p prev now) =
          (case kindByEvent (evName q) of Some k \<Rightarrow> k | None \<Rightarrow> evName q) \<and>
        txFrom (buildEventDerivedTx chainID h evs p prev now) = actorFrom (evData q) \<and>
        txTo (buildEventDerivedTx chainID h evs p prev now) = evAddress q"
      using p by (intro bexI [of _ p]) (auto simp: buildEventDerivedTx_def)
    show "\<exists>e\<in>set evs. (\<forall>e'\<in>set evs. event_pos e \<le> event_pos e') \<and>
        txSubmittedAt (buildEventDerivedTx chainID h evs p prev now) =
          (case prev of Some p \<Rightarrow> if txSubmittedAt p \<noteq> 0 then txSubmittedAt p else evIndexedAt e
           | None \<Rightarrow> evIndexedAt e)"
      using e by (intro bexI [of _ "earliest_of evs"])
        (auto simp: buildEventDerivedTx_def submitted_at_def split: option.splits)
  qed (simp_all add: buildEventDerivedTx_def event_id_def latest_slot [OF ne])
qed

lemma derived_wfD: "derived_wf look \<Longrightarrow> look i = Some t \<Longrightarrow> IsEventDerived t \<Longrightarrow> i = event_id (txHash t)"
  by (simp add: derived_wf_def)

lemma derived_wf_after:
  assumes "derived_wf (look s)"
    and "\<And>h. h \<noteq> '''' \<Longrightarrow> look s' (event_id h) = derived_record events (look s) chainID now h"
    and "\<And>i. (\<forall>h. h \<noteq> '''' \<longrightarrow> i \<noteq> event_id h) \<Longrightarrow> look s' i = look s i"
  shows "derived_wf (look s')"
  unfolding derived_wf_def
proof (intro allI impI)
  fix i t assume t: "look s' i = Some t" "IsEventDerived t"
  show "i = event_id (txHash t)"
  proof (cases "\<exists>h. h \<noteq> '''' \<and> i = event_id h")
    case True
    then obtain h where h: "h \<noteq> ''''" "i = event_id h" by blast
    with t(1) assms(2) [OF h(1)] have "look s i = Some t \<or> txHash t = h"
      by (auto simp: derived_record_def buildEventDerivedTx_def split: option.splits if_splits)
    then show ?thesis
    proof
      assume "look s i = Some t"
      from derived_wfD [OF assms(1) this t(2)] show ?thesis .
    qed (simp add: h(2))
  next
    case False
    with assms(3) [of i] t assms(1) show ?thesis unfolding derived_wf_def by metis
  qed
qed

text \<open>C26: the event-derived transactions after a successful \<open>Reconcile\<close>, for every order of
  the map ranges and any store that keeps the interface's laws. A signature without a decoded,
  unremoved event has no derived record (a rolled-back one is gone); one the server submitted
  is left as it was; every other signature has exactly the record of its events: kind, sender
  and program of the decoded event of highest priority (ties by slot and position), the slot of
  the latest event, and the submission time of the previous record or else of the earliest
  event. Every other record of the store, the server's own ones among them, is untouched.\<close>

theorem tx_index_exact:
  assumes "index_store R ok look" "ok s" "derived_wf (look s)" "named events"
    and "range_order o1" "range_order o2"
    and "TxReconcile R (Inr events) chainID now o1 o2 s = (Inr u, s')"
  shows "ok s' \<and> derived_wf (look s') \<and>
    (\<forall>h. h \<noteq> '''' \<longrightarrow>
      (if \<forall>e\<in>set (backing events h). undecoded e then look s' (event_id h) = None
       else if server_owned (look s) h then look s' (event_id h) = look s (event_id h)
       else \<exists>t. look s' (event_id h) = Some t \<and>
         indexed_as chainID now h (set (backing events h)) (look s (event_id h)) t)) \<and>
    (\<forall>i. (\<forall>h. h \<noteq> '''' \<longrightarrow> i \<noteq> event_id h) \<longrightarrow> look s' i = look s i)"
proof -
  note l = index_store.reconcile_look [OF assms]
  have "if \<forall>e\<in>set (backing events h). undecoded e then look s' (event_id h) = None
       else if server_owned (look s) h then look s' (event_id h) = look s (event_id h)
       else \<exists>t. look s' (event_id h) = Some t \<and>
         indexed_as chainID now h (set (backing events h)) (look s (event_id h)) t"
    if "h \<noteq> ''''" for h
    using l(2) [OF that] built_indexed [of "backing events h"]
    by (auto simp: derived_record_def pickPrimary_None [symmetric] split: option.splits)
  with l(1,3) derived_wf_after [OF assms(3) l(2,3)] show ?thesis by blast
qed

text \<open>Replay is stable. A second \<open>Reconcile\<close> over the same events, at another time and with
  other range orders, changes nothing but the update time of records: no record appears or
  disappears, and the submission time, the sort key of the listing, stays.\<close>

theorem tx_index_stable:
  assumes "index_store R ok look" "ok s" "derived_wf (look s)" "named events"
    and "range_order o1" "range_order o2" "range_order o3" "range_order o4"
    and "TxReconcile R (Inr events) chainID now o1 o2 s = (Inr u, s1)"
    and "TxReconcile R (Inr events) chainID now' o3 o4 s1 = (Inr v, s2)"
  shows "look s2 i = look s1 i \<or> (\<exists>t. look s1 i = Some t \<and> look s2 i = Some (t\<lparr>txUpdatedAt := now'\<rparr>))"
proof -
  note l1 = index_store.reconcile_look [OF assms(1-6,9)]
  have wf1: "derived_wf (look s1)" by (rule derived_wf_after [OF assms(3) l1(2,3)])
  note l2 = index_store.reconcile_look [OF assms(1) l1(1) wf1 assms(4,7,8,10)]
  show ?thesis
  proof (cases "\<exists>h. h \<noteq> '''' \<and> i = event_id h")
    case True
    then obtain h where h: "h \<noteq> ''''" "i = event_id h" by blast
    have same: "look s1 i = look s i" if "\<not> (\<exists>h. h \<noteq> '''' \<and> i = event_id h)" for i
      using l1(3) that by blast
    have id: "txID t = i" if "look s i = Some t" for i t
      using index_store.look_id [OF assms(1,2) that] .
    have id1: "txID t = i" if "look s1 i = Some t" for i t
      using index_store.look_id [OF assms(1) l1(1) that] .
    have owned: "server_owned (look s1) h = server_owned (look s) h"
      unfolding server_owned_def using same id id1 derived_id by metis
    show ?thesis
      using l1(2) [OF h(1)] l2(2) [OF h(1)] h(2)
      by (auto simp: derived_record_def owned buildEventDerivedTx_def submitted_at_def split: option.splits)
  qed (use l2(3) in blast)
qed

section \<open>Demonstration\<close>

definition ix_event :: "string \<Rightarrow> string \<Rightarrow> u64 \<Rightarrow> nat \<Rightarrow> event_data \<Rightarrow> ChainEvent" where
  "ix_event hash name slot idx data =
     \<lparr>evChainID = 103, evAddress = ''V'', evTxHash = hash, evLogIndex = idx, evBlockNumber = slot,
      evBlockHash = '''', evName = name, evData = data, evRemoved = False, evIndexedAt = 5\<rparr>"

text \<open>A signature with two events (the business action later), one with an undecoded event only,
  one the server submitted; the store also holds a derived record whose events are gone.\<close>

definition demo_ix_events :: "ChainEvent list" where
  "demo_ix_events =
     [ix_event ''m'' ''RoleChanged'' 7 0 [(''by'', DStr ''R'')],
      ix_event ''m'' ''Purchased'' 7 1 [(''buyer'', DStr ''B'')],
      ix_event ''u'' ''unknown'' 8 0 [],
      ix_event ''w'' ''StatusChanged'' 9 0 [(''account'', DStr ''S''), (''authority'', DStr ''A'')]]"

definition ix_row :: "string \<Rightarrow> string \<Rightarrow> TxStatus \<Rightarrow> Transaction" where
  "ix_row i hash st =
     \<lparr>txID = i, txIdempotencyKey = '''', txKind = ''k'', txChainID = 103, txFrom = ''F'', txTo = ''V'', txHash = hash,
      txStatus = st, txBlockNumber = 0, txSubmittedAt = 3, txUpdatedAt = 3\<rparr>"

definition demo_ix_store :: tx_map where
  "demo_ix_store = [(''u1'', ix_row ''u1'' ''w'' TxPending), (''evt:g'', ix_row ''evt:g'' ''g'' TxConfirmed)]"

definition demo_ix_after :: tx_map where
  "demo_ix_after = snd (TxReconcile memoryIndex (Inr demo_ix_events) 103 11 rev id demo_ix_store)"

lemma demo_ix_ok: "txs_wf demo_ix_store" "derived_wf (map_of demo_ix_store)" "named demo_ix_events"
  "range_order id" "range_order rev"
  by (auto simp: txs_wf_def demo_ix_store_def derived_wf_def ix_row_def IsEventDerived_def EventDerivedTxIDPrefix_def
      event_id_def named_def demo_ix_events_def ix_event_def range_order_def)

lemma demo_ix_run:
  "TxReconcile memoryIndex (Inr demo_ix_events) 103 11 rev id demo_ix_store = (Inr (), demo_ix_after)"
  "TxReconcile memoryIndex (Inr demo_ix_events) 103 20 id rev demo_ix_after =
     (Inr (), snd (TxReconcile memoryIndex (Inr demo_ix_events) 103 20 id rev demo_ix_after))"
  "map (\<lambda>(i, t). (i, txKind t, txFrom t, txStatus t, txSubmittedAt t)) demo_ix_after =
     [(''u1'', ''k'', ''F'', TxPending, 3), (''evt:m'', ''purchase'', ''B'', TxConfirmed, 5)]"
  by code_simp+

lemma tx_index_exact_witness:
  "(\<exists>t. map_of demo_ix_after ''evt:m'' = Some t \<and>
     indexed_as 103 11 ''m'' (set (backing demo_ix_events ''m'')) None t) \<and>
     map_of demo_ix_after ''evt:g'' = None \<and> map_of demo_ix_after ''evt:w'' = None \<and>
     map_of demo_ix_after ''u1'' = Some (ix_row ''u1'' ''w'' TxPending)"
proof -
  note x = tx_index_exact [OF mo.index_store_axioms demo_ix_ok(1,2,3,5,4) demo_ix_run(1)]
  have ids: "event_id ''m'' = ''evt:m''" "event_id ''g'' = ''evt:g''" "event_id ''w'' = ''evt:w''"
    by code_simp+
  have "ixList memoryIndex demo_ix_store = Inr (memTxList demo_ix_store)" by (simp add: memoryIndex_def)
  note owned = mo.owned_iff [OF demo_ix_ok(1) this]
  have own: "\<not> server_owned (map_of demo_ix_store) ''m''" "server_owned (map_of demo_ix_store) ''w''"
    unfolding owned [symmetric] by code_simp+
  have bk: "\<not> (\<forall>e\<in>set (backing demo_ix_events ''m''). undecoded e)"
    "\<not> (\<forall>e\<in>set (backing demo_ix_events ''w''). undecoded e)" "backing demo_ix_events ''g'' = []"
    by code_simp+
  note x2 = x [THEN conjunct2, THEN conjunct2, THEN conjunct1, rule_format]
  have "map_of demo_ix_after ''u1'' = map_of demo_ix_store ''u1''"
    by (rule x [THEN conjunct2, THEN conjunct2, THEN conjunct2, rule_format])
      (simp add: event_id_def EventDerivedTxIDPrefix_def)
  with x2 [of "''m''"] x2 [of "''g''"] x2 [of "''w''"] own bk show ?thesis
    by (simp add: ids demo_ix_store_def)
qed

lemma tx_index_stable_witness:
  "map_of (snd (TxReconcile memoryIndex (Inr demo_ix_events) 103 20 id rev demo_ix_after)) ''evt:m'' =
     map_option (txUpdatedAt_update (\<lambda>_. 20)) (map_of demo_ix_after ''evt:m'')"
proof -
  let ?s = "snd (TxReconcile memoryIndex (Inr demo_ix_events) 103 20 id rev demo_ix_after)"
  have new: "map_option txUpdatedAt (map_of ?s ''evt:m'') = Some 20" by code_simp
  from tx_index_stable [OF mo.index_store_axioms demo_ix_ok(1,2,3,5,4,4,5) demo_ix_run(1,2), of "''evt:m''"] new
  show ?thesis by auto
qed

end
