(* ===== verification/Keyset.thy ===== *)
theory Keyset
  imports Sales Redemption TxIndex GoText
begin

text \<open>
  Paged listings: \<^verbatim>\<open>server/internal/dal/repository/keyset.go\<close> (the cursor, its encoding, the
  window), the \<open>ListPage\<close> of the four in-memory repositories that use it (\<^verbatim>\<open>purchase.go\<close>,
  \<^verbatim>\<open>redemption_request.go\<close>, \<^verbatim>\<open>transaction.go\<close>, \<^verbatim>\<open>investor.go\<close> of \<^verbatim>\<open>dal/memory\<close>) and the query
  parameters of \<^verbatim>\<open>api/pagination.go\<close>. The base64 alphabet is modelled; \<^verbatim>\<open>encoding/json\<close> is a
  parameter that reads back what it wrote for the cursor struct. A client follows the cursors
  while the store changes between its requests: \<open>follow\<close> takes the sequence of stores.
\<close>

section \<open>Unpadded URL base64\<close>

definition url_char :: "nat \<Rightarrow> char" where
  "url_char n =
     (if n < 26 then char_of (n + 65) else if n < 52 then char_of (n + 71)
      else if n < 62 then char_of (n - 4) else if n = 62 then CHR ''-'' else CHR ''_'')"

definition url_val :: "char \<Rightarrow> nat option" where
  "url_val c =
     (let n = (of_char c :: nat)
      in if 65 \<le> n \<and> n \<le> 90 then Some (n - 65)
         else if 97 \<le> n \<and> n \<le> 122 then Some (n - 71)
         else if 48 \<le> n \<and> n \<le> 57 then Some (n + 4)
         else if n = 45 then Some 62
         else if n = 95 then Some 63
         else None)"

fun url_groups :: "bytes \<Rightarrow> nat list" where
  "url_groups [] = []"
| "url_groups [a] = (let n = unat a * 16 in [n div 64, n mod 64])"
| "url_groups [a, b] = (let n = (unat a * 256 + unat b) * 4 in [n div 4096, n div 64 mod 64, n mod 64])"
| "url_groups (a # b # c # rest) =
     (let n = unat a * 65536 + unat b * 256 + unat c
      in [n div 262144, n div 4096 mod 64, n div 64 mod 64, n mod 64] @ url_groups rest)"

fun url_bytes :: "nat list \<Rightarrow> bytes option" where
  "url_bytes [] = Some []"
| "url_bytes [x] = None"
| "url_bytes [x, y] = Some [of_nat ((x * 64 + y) div 16)]"
| "url_bytes [x, y, z] = (let n = (x * 4096 + y * 64 + z) div 4 in Some [of_nat (n div 256), of_nat n])"
| "url_bytes (x # y # z # w # rest) =
     (let n = x * 262144 + y * 4096 + z * 64 + w
      in map_option (\<lambda>bs. [of_nat (n div 65536), of_nat (n div 256), of_nat n] @ bs) (url_bytes rest))"

fun all_some :: "'a option list \<Rightarrow> 'a list option" where
  "all_some [] = Some []"
| "all_some (x # xs) = (case x of None \<Rightarrow> None | Some v \<Rightarrow> map_option (\<lambda>vs. v # vs) (all_some xs))"

definition url_encode :: "bytes \<Rightarrow> string" where
  "url_encode bs = map url_char (url_groups bs)"

definition url_decode :: "string \<Rightarrow> bytes option" where
  "url_decode s =
     (case all_some (map url_val (filter (\<lambda>c. of_char c \<noteq> (13::nat) \<and> of_char c \<noteq> (10::nat)) s)) of
        None \<Rightarrow> None
      | Some vs \<Rightarrow> url_bytes vs)"

lemma byte_bound: "unat (b :: byte) < 256"
  using unsigned_less [of b] by simp

lemma byte_le: "unat (b :: byte) \<le> 255"
  using byte_bound [of b] by linarith

lemma url_char_val:
  assumes "n < 64"
  shows "url_val (url_char n) = Some n"
    and "of_char (url_char n) \<noteq> (13::nat)" "of_char (url_char n) \<noteq> (10::nat)"
  using assms by (auto simp: url_val_def url_char_def Let_def)

lemma url_groups_bound: "n \<in> set (url_groups bs) \<Longrightarrow> n < 64"
proof (induction bs rule: url_groups.induct)
  case (2 a)
  then show ?case using byte_bound [of a] by (auto simp: Let_def less_mult_imp_div_less)
next
  case (3 a b)
  have "(unat a * 256 + unat b) * 4 < 64 * 4096" using byte_le [of a] byte_le [of b] by simp
  from less_mult_imp_div_less [OF this] 3 show ?case by (auto simp: Let_def)
next
  case (4 a b c rest)
  have "unat a * 65536 + unat b * 256 + unat c < 64 * 262144"
    using byte_le [of a] byte_le [of b] byte_le [of c] by simp
  from less_mult_imp_div_less [OF this] 4 show ?case by (auto simp: Let_def)
qed simp

lemma byte_of_nat_mod: "(of_nat (x * 256 + unat (b :: byte)) :: byte) = b"
proof -
  have "unat (of_nat (x * 256 + unat b) :: byte) = (x * 256 + unat b) mod 256"
    by (simp only: unsigned_of_nat) (simp add: take_bit_eq_mod)
  also have "\<dots> = unat b" using byte_bound [of b] by simp
  finally show ?thesis by (simp only: word_unat_eq_iff)
qed

lemma byte_256 [simp]: "(256 :: byte) * b = 0" "b * (256 :: byte) = 0"
  using byte_of_nat_mod [of "unat b" 0] by (simp_all add: mult.commute)

lemma url_bytes_groups: "url_bytes (url_groups bs) = Some bs"
proof (induction bs rule: url_groups.induct)
  case (2 a)
  have "unat a * 16 div 64 * 64 + unat a * 16 mod 64 = unat a * 16" by (rule split_64)
  then show ?case by (simp add: Let_def)
next
  case (3 a b)
  have "(unat a * 256 + unat b) div 256 = unat a" using byte_bound [of b] by simp
  then show ?case using join_3 [of "(unat a * 256 + unat b) * 4"] byte_of_nat_mod [of "unat a" b] by (simp add: Let_def)
next
  case (4 a b c rest)
  define n where "n = unat a * 65536 + unat b * 256 + unat c"
  have n: "n = unat a * 65536 + (unat b * 256 + unat c)" "n = (unat a * 256 + unat b) * 256 + unat c"
    by (simp_all add: n_def)
  have "unat b * 256 + unat c < 65536" using byte_le [of b] byte_le [of c] by simp
  then have "n div 65536 = unat a" unfolding n(1) by (simp only: div_mult_self3 div_less add_0_right)
  moreover have "n div 256 = unat a * 256 + unat b"
    unfolding n(2) using byte_bound [of c] by (simp only: div_mult_self3 div_less add_0_right)
  ultimately have "(of_nat (n div 65536) :: byte) = a" "(of_nat (n div 256) :: byte) = b" "(of_nat n :: byte) = c"
    using byte_of_nat_mod [of "unat a" b] byte_of_nat_mod [of "unat a * 256 + unat b" c] n(2) by simp_all
  with 4 join_4 [of n] show ?case by (simp add: Let_def n_def [symmetric])
qed simp

lemma url_decode_encode: "url_decode (url_encode bs) = Some bs"
proof -
  have "all_some (map url_val (filter (\<lambda>c. of_char c \<noteq> (13::nat) \<and> of_char c \<noteq> (10::nat)) (map url_char ns))) = Some ns"
    if "\<forall>n\<in>set ns. n < 64" for ns
    using that by (induction ns) (simp_all add: url_char_val)
  then show ?thesis using url_groups_bound by (simp add: url_decode_def url_encode_def url_bytes_groups)
qed

lemma list_all2_mono_in:
  assumes "list_all2 P xs ys" "\<And>x y. y \<in> set ys \<Longrightarrow> P x y \<Longrightarrow> Q x y"
  shows "list_all2 Q xs ys"
  using assms by (induction rule: list_all2_induct) auto

section \<open>The cursor\<close>

record KeysetCursor =
  kcSortValue :: int
  kcID :: string

text \<open>\<^verbatim>\<open>encoding/json\<close> on the cursor struct: what \<^verbatim>\<open>Unmarshal\<close> accepts and returns.\<close>

record cursor_json =
  cjMarshal :: "KeysetCursor \<Rightarrow> bytes"
  cjUnmarshal :: "bytes \<Rightarrow> KeysetCursor option"

definition EncodeKeysetCursor :: "cursor_json \<Rightarrow> KeysetCursor \<Rightarrow> string" where
  "EncodeKeysetCursor J c = url_encode (cjMarshal J c)"

definition DecodeKeysetCursor :: "cursor_json \<Rightarrow> string \<Rightarrow> KeysetCursor option" where
  "DecodeKeysetCursor J s =
     (if s = '''' then None
      else case url_decode s of None \<Rightarrow> None | Some raw \<Rightarrow> cjUnmarshal J raw)"

text \<open>A cursor whose id is ASCII text is read back as it was written, and its document is not empty;
  the sort value is an int64.\<close>

definition cursor_json_ok :: "cursor_json \<Rightarrow> bool" where
  "cursor_json_ok J \<longleftrightarrow>
     (\<forall>c. (\<forall>ch\<in>set (kcID c). of_char ch < (128::nat)) \<longrightarrow> - (2 ^ 63) \<le> kcSortValue c \<and> kcSortValue c < 2 ^ 63 \<longrightarrow>
       cjMarshal J c \<noteq> [] \<and> cjUnmarshal J (cjMarshal J c) = Some c)"

lemma url_encode_empty: "url_encode bs = '''' \<longleftrightarrow> bs = []"
  by (cases bs rule: url_groups.cases) (simp_all add: url_encode_def Let_def)

lemma decode_encode_cursor:
  assumes "cursor_json_ok J" "\<forall>ch\<in>set (kcID c). of_char ch < (128::nat)"
    and "- (2 ^ 63) \<le> kcSortValue c \<and> kcSortValue c < 2 ^ 63"
  shows "DecodeKeysetCursor J (EncodeKeysetCursor J c) = Some c" "EncodeKeysetCursor J c \<noteq> ''''"
  using assms by (simp_all add: DecodeKeysetCursor_def EncodeKeysetCursor_def url_encode_empty url_decode_encode cursor_json_ok_def)

section \<open>The window\<close>

definition past_cursor :: "bool \<Rightarrow> KeysetCursor \<Rightarrow> int \<Rightarrow> string \<Rightarrow> bool" where
  "past_cursor desc c sv i =
     (if desc then sv < kcSortValue c \<or> (sv = kcSortValue c \<and> i < kcID c)
      else sv > kcSortValue c \<or> (sv = kcSortValue c \<and> i > kcID c))"

fun first_past :: "('x \<Rightarrow> bool) \<Rightarrow> 'x list \<Rightarrow> nat" where
  "first_past P [] = 0"
| "first_past P (x # xs) = (if P x then 0 else Suc (first_past P xs))"

definition KeysetPage ::
  "cursor_json \<Rightarrow> 'x list \<Rightarrow> ('x \<Rightarrow> int) \<Rightarrow> ('x \<Rightarrow> string) \<Rightarrow> string \<Rightarrow> int \<Rightarrow> bool \<Rightarrow> 'x list \<times> string" where
  "KeysetPage J items sortValue ident cursor limit desc =
     (let start = (case DecodeKeysetCursor J cursor of
          None \<Rightarrow> 0
        | Some c \<Rightarrow> first_past (\<lambda>it. past_cursor desc c (sortValue it) (ident it)) items);
        e = int start + limit;
        en = (if limit \<le> 0 \<or> e > int (length items) then length items else nat e);
        st = (if start > length items then length items else start);
        page = drop st (take en items)
      in (page,
          if en < length items
          then EncodeKeysetCursor J \<lparr>kcSortValue = sortValue (items ! (en - 1)), kcID = ident (items ! (en - 1))\<rparr>
          else ''''))"

lemma first_past_le: "first_past P xs \<le> length xs"
  by (induction xs) auto

lemma drop_first_past: "drop (first_past P xs) xs = dropWhile (\<lambda>x. \<not> P x) xs"
  by (induction xs) auto

text \<open>A page is the beginning of what lies past the cursor; the next cursor names its last item.\<close>

lemma KeysetPage_eq:
  fixes limit :: int
  assumes "0 < limit"
    and rest_def: "rest = (case DecodeKeysetCursor J cursor of None \<Rightarrow> items
      | Some c \<Rightarrow> dropWhile (\<lambda>it. \<not> past_cursor desc c (sv it) (ident it)) items)"
  shows "KeysetPage J items sv ident cursor limit desc =
    (take (nat limit) rest,
     if nat limit < length rest
     then EncodeKeysetCursor J \<lparr>kcSortValue = sv (rest ! (nat limit - 1)), kcID = ident (rest ! (nat limit - 1))\<rparr>
     else '''')"
proof -
  define start where "start = (case DecodeKeysetCursor J cursor of None \<Rightarrow> 0
    | Some c \<Rightarrow> first_past (\<lambda>it. past_cursor desc c (sv it) (ident it)) items)"
  have le: "start \<le> length items" by (simp add: start_def first_past_le split: option.split)
  have rest: "rest = drop start items"
    by (simp add: rest_def start_def drop_first_past split: option.split)
  obtain n where n: "limit = int n" "0 < n" using assms(1) by (metis zero_less_imp_eq_int)
  show ?thesis
  proof (cases "start + n < length items")
    case True
    then have "\<not> int start + int n > int (length items)" "nat (int start + int n) = start + n" by linarith+
    with True n le show ?thesis
      unfolding KeysetPage_def Let_def start_def [symmetric] rest
      by (auto simp: take_drop add.commute)
  next
    case False
    then have en: "(if limit \<le> 0 \<or> int start + limit > int (length items) then length items else nat (int start + limit)) = length items"
      using n by auto
    show ?thesis
      unfolding KeysetPage_def Let_def start_def [symmetric] en rest using False le n
      by auto
  qed
qed

section \<open>Following the cursors\<close>

text \<open>A client reads pages until no further cursor comes back, each from the store as it is at
  that moment; \<open>None\<close> when the moments do not suffice.\<close>

fun follow :: "('s \<Rightarrow> string \<Rightarrow> 'x list \<times> string) \<Rightarrow> string \<Rightarrow> 's list \<Rightarrow> 'x list list option" where
  "follow fetch cursor [] = None"
| "follow fetch cursor (s # ss) =
     (let (page, nxt) = fetch s cursor
      in if nxt = '''' then Some [page] else map_option (\<lambda>ps. page # ps) (follow fetch nxt ss))"

locale keyset_order =
  fixes before :: "'k \<Rightarrow> 'k \<Rightarrow> bool"
  assumes before_irrefl: "\<not> before k k"
    and before_trans: "before i j \<Longrightarrow> before j k \<Longrightarrow> before i k"
    and before_total: "i \<noteq> j \<Longrightarrow> before i j \<or> before j i"
begin

definition remaining :: "('x \<Rightarrow> 'k) \<Rightarrow> 'k option \<Rightarrow> 'x list \<Rightarrow> 'x list" where
  "remaining key c xs = (case c of None \<Rightarrow> xs | Some k \<Rightarrow> dropWhile (\<lambda>x. \<not> before k (key x)) xs)"

fun walk :: "nat \<Rightarrow> ('x \<Rightarrow> 'k) \<Rightarrow> 'k option \<Rightarrow> 'x list list \<Rightarrow> 'x list list option" where
  "walk n key c [] = None"
| "walk n key c (s # ss) =
     (let rest = remaining key c s
      in if n < length rest
         then map_option (\<lambda>ps. take n rest # ps) (walk n key (Some (key (rest ! (n - 1)))) ss)
         else Some [take n rest])"

definition ordered :: "('x \<Rightarrow> 'k) \<Rightarrow> 'x list \<Rightarrow> bool" where
  "ordered key xs \<longleftrightarrow> sorted_wrt before (map key xs)"

lemma ordered_remaining: "ordered key xs \<Longrightarrow> ordered key (remaining key c xs)"
  by (induction xs) (auto simp: ordered_def remaining_def split: option.splits)

lemma set_remaining:
  assumes "ordered key xs"
  shows "x \<in> set (remaining key c xs) \<longleftrightarrow> x \<in> set xs \<and> (\<forall>k. c = Some k \<longrightarrow> before k (key x))"
proof (cases c)
  case (Some k)
  have "set (dropWhile (\<lambda>x. \<not> before k (key x)) xs) = {x \<in> set xs. before k (key x)}"
    using assms
  proof (induction xs)
    case (Cons x xs)
    show ?case
    proof (cases "before k (key x)")
      case True
      then have "before k (key y)" if "y \<in> set xs" for y
        using Cons.prems that before_trans by (auto simp: ordered_def)
      with True show ?thesis by auto
    next
      case False
      with Cons show ?thesis by (auto simp: ordered_def)
    qed
  qed simp
  with Some show ?thesis by (auto simp: remaining_def)
qed (simp add: remaining_def)

lemma ordered_distinct: "ordered key xs \<Longrightarrow> distinct xs"
  by (induction xs) (auto simp: ordered_def before_irrefl)

lemma ordered_count: "ordered key xs \<Longrightarrow> k \<in> key ` set xs \<Longrightarrow> count_list (map key xs) k = 1"
proof (induction xs)
  case (Cons y xs)
  then have "key y \<notin> key ` set xs" using before_irrefl by (auto simp: ordered_def)
  with Cons show ?case by (auto simp: ordered_def)
qed simp

lemma split_page:
  assumes "ordered key xs" "0 < n" "n < length xs"
  shows "x \<in> set (take n xs) \<Longrightarrow> key x = key (xs ! (n - 1)) \<or> before (key x) (key (xs ! (n - 1)))"
    and "x \<in> set (drop n xs) \<Longrightarrow> before (key (xs ! (n - 1))) (key x)"
proof -
  have nth: "before (key (xs ! i)) (key (xs ! j))" if "i < j" "j < length xs" for i j
    using assms(1) that by (auto simp: ordered_def sorted_wrt_iff_nth_less)
  show "key x = key (xs ! (n - 1)) \<or> before (key x) (key (xs ! (n - 1)))" if x: "x \<in> set (take n xs)"
  proof -
    from x obtain i where i: "i < n" "x = xs ! i" using assms(3) by (auto simp: in_set_conv_nth)
    then show ?thesis using nth [of i "n - 1"] assms(2,3) by (cases "i = n - 1") auto
  qed
  show "before (key (xs ! (n - 1))) (key x)" if x: "x \<in> set (drop n xs)"
  proof -
    from x obtain i where "i < length (drop n xs)" "drop n xs ! i = x" by (auto simp only: in_set_conv_nth)
    then have i: "n + i < length xs" "x = xs ! (n + i)" by simp_all
    then show ?thesis using nth [of "n - 1" "n + i"] assms(2) by auto
  qed
qed

lemma split_keys:
  assumes "ordered key xs" "0 < n" "n < length xs" "k \<in> key ` set (take n xs)"
  shows "\<not> before (key (xs ! (n - 1))) k"
proof
  assume b: "before (key (xs ! (n - 1))) k"
  from assms(4) obtain x where x: "x \<in> set (take n xs)" "k = key x" by blast
  from split_page(1) [OF assms(1-3) x(1)] b x(2) show False by (metis before_irrefl before_trans)
qed

lemma walk_past:
  assumes "walk n key (Some k) ss = Some pages" "\<forall>s\<in>set ss. ordered key s" "0 < n" "x \<in> set (concat pages)"
  shows "before k (key x)"
  using assms(1,2,4)
proof (induction ss arbitrary: k pages)
  case (Cons s ss)
  let ?rest = "remaining key (Some k) s"
  have r: "\<And>y. y \<in> set ?rest \<Longrightarrow> before k (key y)" using set_remaining [of key s] Cons.prems(2) by auto
  show ?case
  proof (cases "n < length ?rest")
    case True
    then obtain ps where ps: "walk n key (Some (key (?rest ! (n - 1)))) ss = Some ps" "pages = take n ?rest # ps"
      using Cons.prems(1) by (auto simp: Let_def)
    have "before k (key (?rest ! (n - 1)))" using r True assms(3) by (simp add: less_imp_diff_less)
    moreover have "x \<in> set (take n ?rest) \<or> before (key (?rest ! (n - 1))) (key x)"
      using Cons.IH [OF ps(1)] Cons.prems(2,3) ps(2) by auto
    ultimately show ?thesis using r before_trans by (meson in_set_takeD)
  next
    case False
    with Cons.prems(1,3) r show ?thesis by (auto simp: Let_def)
  qed
qed simp

text \<open>A key that every visited store holds past the cursor is listed exactly once.\<close>

lemma walk_once:
  assumes "walk n key c ss = Some pages" "\<forall>s\<in>set ss. ordered key s" "0 < n"
    and "\<forall>s\<in>set (take (length pages) ss). k \<in> key ` set s" "\<forall>k0. c = Some k0 \<longrightarrow> before k0 k"
  shows "count_list (map key (concat pages)) k = 1"
  using assms(1,2,4,5)
proof (induction ss arbitrary: c pages)
  case (Cons s ss)
  let ?rest = "remaining key c s"
  have o: "ordered key ?rest" "ordered key s" using ordered_remaining Cons.prems(2) by auto
  have "length pages \<noteq> 0" using Cons.prems(1) by (auto simp: Let_def split: if_splits)
  then have "k \<in> key ` set s" using Cons.prems(3) by (cases "length pages") auto
  then have k: "k \<in> key ` set ?rest" using set_remaining [OF o(2)] Cons.prems(4) by auto
  show ?case
  proof (cases "n < length ?rest")
    case True
    let ?k = "key (?rest ! (n - 1))"
    obtain ps where ps: "walk n key (Some ?k) ss = Some ps" "pages = take n ?rest # ps"
      using Cons.prems(1) True by (auto simp: Let_def)
    have split: "count_list (map key ?rest) k =
        count_list (map key (take n ?rest)) k + count_list (map key (drop n ?rest)) k"
      by (metis append_take_drop_id count_list_append map_append)
    note page = split_page [OF o(1) assms(3) True]
    show ?thesis
    proof (cases "k \<in> key ` set (drop n ?rest)")
      case drop: True
      then have b: "before ?k k" using page(2) by auto
      have "count_list (map key (concat ps)) k = 1"
        by (rule Cons.IH [OF ps(1)]) (use Cons.prems ps(2) b in auto)
      moreover have "k \<notin> key ` set (take n ?rest)" using split_keys [OF o(1) assms(3) True] b by blast
      then have "count_list (map key (take n ?rest)) k = 0" by simp
      ultimately show ?thesis using ps(2) by simp
    next
      case False
      have "k \<in> key ` set (take n ?rest @ drop n ?rest)" using k by (simp only: append_take_drop_id)
      with False have "k \<in> key ` set (take n ?rest)" by (simp only: set_append image_Un Un_iff) simp
      then have "\<not> before ?k k" by (rule split_keys [OF o(1) assms(3) True])
      then have "k \<notin> key ` set (concat ps)" using walk_past [OF ps(1) _ assms(3)] Cons.prems(2)
        by (metis imageE list.set_intros(2))
      then have "count_list (map key (concat ps)) k = 0" by (simp only: count_list_0_iff set_map) simp
      moreover have "count_list (map key (drop n ?rest)) k = 0" using False by simp
      ultimately show ?thesis using ps(2) split ordered_count [OF o(1) k] by (simp del: set_concat)
    qed
  next
    case False
    with Cons.prems(1) ordered_count [OF o(1) k] show ?thesis by (auto simp: Let_def)
  qed
qed simp

text \<open>The listing as a whole is in order: nothing is listed twice, whatever the stores do.\<close>

lemma walk_ordered:
  assumes "walk n key c ss = Some pages" "\<forall>s\<in>set ss. ordered key s" "0 < n"
  shows "ordered key (concat pages)"
  using assms(1,2)
proof (induction ss arbitrary: c pages)
  case (Cons s ss)
  let ?rest = "remaining key c s"
  have o: "ordered key ?rest" using ordered_remaining Cons.prems(2) by auto
  have t: "ordered key (take n ?rest)" using o by (simp add: ordered_def sorted_wrt_take flip: take_map)
  show ?case
  proof (cases "n < length ?rest")
    case True
    let ?k = "key (?rest ! (n - 1))"
    obtain ps where ps: "walk n key (Some ?k) ss = Some ps" "pages = take n ?rest # ps"
      using Cons.prems(1) True by (auto simp: Let_def)
    have "before (key a) (key b)" if "a \<in> set (take n ?rest)" "b \<in> set (concat ps)" for a b
      using split_page(1) [OF o assms(3) True that(1)] walk_past [OF ps(1) _ assms(3) that(2)] Cons.prems(2)
        before_trans by auto
    with t Cons.IH [OF ps(1)] Cons.prems(2) ps(2) show ?thesis by (auto simp: ordered_def sorted_wrt_append)
  next
    case False
    with Cons.prems(1) t show ?thesis by (auto simp: Let_def)
  qed
qed simp

lemma walk_pages:
  assumes "walk n key c ss = Some pages"
  shows "list_all2 (\<lambda>p s. length p \<le> n \<and> set p \<subseteq> set s) pages (take (length pages) ss)"
  using assms
proof (induction ss arbitrary: c pages)
  case (Cons s ss)
  have "set (remaining key c s) \<subseteq> set s" by (auto simp: remaining_def split: option.splits dest: set_dropWhileD)
  then have "length (take n (remaining key c s)) \<le> n \<and> set (take n (remaining key c s)) \<subseteq> set s"
    using set_take_subset by fastforce
  with Cons show ?case by (auto simp: Let_def split: if_splits)
qed simp

lemma walk_constant:
  assumes "0 < n" "ordered key s" "length (remaining key c s) \<le> m * n" "0 < m"
  shows "\<exists>pages. walk n key c (replicate m s) = Some pages \<and> concat pages = remaining key c s"
  using assms(3,4)
proof (induction m arbitrary: c)
  case (Suc m)
  let ?rest = "remaining key c s"
  show ?case
  proof (cases "n < length ?rest")
    case True
    let ?k = "key (?rest ! (n - 1))"
    have o: "ordered key ?rest" using ordered_remaining assms(2) by blast
    have next_rest: "remaining key (Some ?k) s = drop n ?rest"
    proof -
      have drop: "dropWhile (\<lambda>x. \<not> before ?k (key x)) ?rest = drop n ?rest"
      proof -
        have "dropWhile (\<lambda>x. \<not> before ?k (key x)) (take n ?rest @ drop n ?rest) =
            dropWhile (\<lambda>x. \<not> before ?k (key x)) (drop n ?rest)"
          by (rule dropWhile_append2) (use split_page(1) [OF o assms(1) True] before_trans before_irrefl in metis)
        also have "\<dots> = drop n ?rest"
          using split_page(2) [OF o assms(1) True] by (cases "drop n ?rest") auto
        finally show ?thesis by simp
      qed
      show ?thesis
      proof (cases c)
        case None
        with drop show ?thesis by (simp add: remaining_def)
      next
        case (Some k)
        have "before k ?k"
          using set_remaining [OF assms(2), of "?rest ! (n - 1)" c] True Some by (simp add: less_imp_diff_less)
        then have "\<not> before k (key x) \<Longrightarrow> \<not> before ?k (key x)" for x using before_trans by blast
        then have "dropWhile (\<lambda>x. \<not> before ?k (key x)) (dropWhile (\<lambda>x. \<not> before k (key x)) xs) =
            dropWhile (\<lambda>x. \<not> before ?k (key x)) xs" for xs
          by (induction xs) auto
        with drop Some show ?thesis by (simp add: remaining_def)
      qed
    qed
    have "0 < m" using Suc.prems(1) True by (cases m) auto
    moreover have "length (drop n ?rest) \<le> m * n" using Suc.prems(1) by auto
    ultimately obtain ps where ps: "walk n key (Some ?k) (replicate m s) = Some ps" "concat ps = drop n ?rest"
      using Suc.IH [of "Some ?k"] next_rest by auto
    with True show ?thesis by (simp add: Let_def)
  next
    case False
    then show ?thesis by (simp add: Let_def)
  qed
qed simp

end

section \<open>Pages of the window follow the order\<close>

definition keyset_lt :: "bool \<Rightarrow> int \<times> string \<Rightarrow> int \<times> string \<Rightarrow> bool" where
  "keyset_lt desc a b = (if desc then b < a else a < b)"

interpretation ko: keyset_order "keyset_lt desc" for desc
  by unfold_locales (auto simp: keyset_lt_def)

definition ascii :: "string \<Rightarrow> bool" where
  "ascii s \<longleftrightarrow> (\<forall>ch\<in>set s. of_char ch < (128::nat))"

lemma past_cursor_lt: "past_cursor desc c v i \<longleftrightarrow> keyset_lt desc (kcSortValue c, kcID c) (v, i)"
  by (auto simp: past_cursor_def keyset_lt_def)

lemma sint_u64_range: "- (2 ^ 63) \<le> sint (w :: u64) \<and> sint w < 2 ^ 63"
  using sint_ge [of w] sint_less [of w] by simp

lemma follow_walk:
  fixes sv :: "'x \<Rightarrow> int" and ident :: "'x \<Rightarrow> string"
  assumes J: "cursor_json_ok J" and l: "0 < limit" and a: "\<forall>s\<in>set ss. \<forall>x\<in>set (items s). ascii (ident x)"
    and v: "\<And>x. - (2 ^ 63) \<le> sv x \<and> sv x < 2 ^ 63"
  shows "follow (\<lambda>s c. KeysetPage J (items s) sv ident c limit desc) cursor ss =
    keyset_order.walk (keyset_lt desc) (nat limit) (\<lambda>x. (sv x, ident x))
      (map_option (\<lambda>c. (kcSortValue c, kcID c)) (DecodeKeysetCursor J cursor)) (map items ss)"
  using a
proof (induction ss arbitrary: cursor)
  case (Cons s ss)
  let ?key = "\<lambda>x. (sv x, ident x)"
  let ?c = "map_option (\<lambda>c. (kcSortValue c, kcID c)) (DecodeKeysetCursor J cursor)"
  let ?rest = "keyset_order.remaining (keyset_lt desc) ?key ?c (items s)"
  have rest: "?rest = (case DecodeKeysetCursor J cursor of None \<Rightarrow> items s
      | Some c \<Rightarrow> dropWhile (\<lambda>it. \<not> past_cursor desc c (sv it) (ident it)) (items s))"
    by (simp add: ko.remaining_def past_cursor_lt split: option.split)
  note page = KeysetPage_eq [OF l rest]
  show ?case
  proof (cases "nat limit < length ?rest")
    case True
    let ?x = "?rest ! (nat limit - 1)"
    have "set ?rest \<subseteq> set (items s)" by (auto simp: ko.remaining_def split: option.splits dest: set_dropWhileD)
    moreover have "?x \<in> set ?rest" using True by (simp add: less_imp_diff_less)
    ultimately have "ascii (ident ?x)" using Cons.prems by auto
    then have "\<forall>ch\<in>set (kcID \<lparr>kcSortValue = sv ?x, kcID = ident ?x\<rparr>). of_char ch < (128::nat)"
      by (simp add: ascii_def)
    note d = decode_encode_cursor [OF J this, unfolded KeysetCursor.simps, OF v]
    show ?thesis
      using d True Cons.prems by (simp add: page Let_def Cons.IH)
  next
    case False
    then show ?thesis by (simp add: page Let_def)
  qed
qed simp

section \<open>The listings\<close>

definition memPuSorted :: "Purchase list \<Rightarrow> Purchase list" where
  "memPuSorted l = rev (sort_key (\<lambda>p. (puBlockNumber p, puID p)) l)"

definition memPuListPage :: "cursor_json \<Rightarrow> string \<Rightarrow> int \<Rightarrow> Purchase list \<Rightarrow> Purchase list \<times> string" where
  "memPuListPage J cursor limit l = KeysetPage J (memPuSorted l) (\<lambda>p. sint (puBlockNumber p)) puID cursor limit True"

definition memRedMatches :: "RedemptionStatus option \<Rightarrow> string \<Rightarrow> RedemptionRequest \<Rightarrow> bool" where
  "memRedMatches want address v =
     (if want \<noteq> None \<and> Some (rrStatus v) \<noteq> want then False
      else if toLower address \<noteq> '''' \<and> toLower (rrBeneficiary v) \<noteq> toLower address then False
      else True)"

definition memRedSorted :: "RedemptionStatus option \<Rightarrow> string \<Rightarrow> redemption_map \<Rightarrow> RedemptionRequest list" where
  "memRedSorted want address m =
     rev (sort_key (\<lambda>r. (sint (rrCreatedAt r), rrID r)) (filter (memRedMatches want address) (map snd m)))"

definition memRedListPage ::
  "cursor_json \<Rightarrow> RedemptionStatus option \<Rightarrow> string \<Rightarrow> string \<Rightarrow> int \<Rightarrow> redemption_map \<Rightarrow> RedemptionRequest list \<times> string" where
  "memRedListPage J want address cursor limit m =
     KeysetPage J (memRedSorted want address m) (\<lambda>r. sint (rrCreatedAt r)) rrID cursor limit True"

text \<open>A time is the number of nanoseconds since the zero time; \<^verbatim>\<open>UnixNano\<close> wraps outside 1678 to 2262.\<close>

definition UnixNano :: "int \<Rightarrow> int" where
  "UnixNano t = sint (word_of_int (t - 62135596800000000000) :: u64)"

definition memTxMatches :: "string \<Rightarrow> Transaction \<Rightarrow> bool" where
  "memTxMatches address v =
     (if toLower address \<noteq> '''' \<and> toLower (txFrom v) \<noteq> toLower address \<and> toLower (txTo v) \<noteq> toLower address
      then False else True)"

definition memTxSorted :: "string \<Rightarrow> tx_map \<Rightarrow> Transaction list" where
  "memTxSorted address m = sort_key (\<lambda>t. (txSubmittedAt t, txID t)) (filter (memTxMatches address) (map snd m))"

definition memTxListPage :: "cursor_json \<Rightarrow> string \<Rightarrow> string \<Rightarrow> int \<Rightarrow> tx_map \<Rightarrow> Transaction list \<times> string" where
  "memTxListPage J address cursor limit m =
     KeysetPage J (memTxSorted address m) (\<lambda>t. UnixNano (txSubmittedAt t)) txID cursor limit False"

definition memInvListPage :: "string \<Rightarrow> int \<Rightarrow> investor_map \<Rightarrow> Investor list \<times> string" where
  "memInvListPage cursor limit m =
     (let sorted = sort_key invAddress (map snd m);
        start = (if cursor \<noteq> '''' then first_past (\<lambda>v. invAddress v > cursor) sorted else 0);
        e = int start + limit;
        en = (if limit \<le> 0 \<or> e > int (length sorted) then length sorted else nat e);
        page = drop start (take en sorted)
      in (page, if en < length sorted then invAddress (last page) else ''''))"

section \<open>Query parameters\<close>

definition defaultListLimit :: int where "defaultListLimit = 50"

definition maxListLimit :: int where "maxListLimit = 200"

definition list_limit :: "string \<Rightarrow> int" where
  "list_limit v =
     (let limit = (if v \<noteq> '''' then case atoi v of Some n \<Rightarrow> if n > 0 then n else defaultListLimit | None \<Rightarrow> defaultListLimit
                   else defaultListLimit)
      in if limit > maxListLimit then maxListLimit else limit)"

definition paginationParams :: "(string \<Rightarrow> string) \<Rightarrow> int \<times> int" where
  "paginationParams query =
     (let v = query ''cursor'';
        offset = (if v \<noteq> '''' then case atoi v of Some n \<Rightarrow> if n \<ge> 0 then n else 0 | None \<Rightarrow> 0 else 0)
      in (offset, list_limit (query ''limit'')))"

definition cursorLimitParams :: "(string \<Rightarrow> string) \<Rightarrow> string \<times> int" where
  "cursorLimitParams query = (query ''cursor'', list_limit (query ''limit''))"

definition paginateWindow :: "int \<Rightarrow> int \<Rightarrow> int \<Rightarrow> int \<times> int \<times> string" where
  "paginateWindow items offset limit =
     (let offset = (if offset < 0 then 0 else offset);
        offset = (if offset > items then items else offset);
        start = offset;
        en = start + limit;
        en = (if en > items then items else en)
      in (start, en, if en < items then dec_int en else ''''))"

lemma list_limit_bounds: "1 \<le> list_limit v \<and> list_limit v \<le> 200"
  by (auto simp: list_limit_def Let_def defaultListLimit_def maxListLimit_def split: option.splits)

section \<open>The listings are in the order of their cursors\<close>

text \<open>Times the cursor can carry: UnixNano does not wrap.\<close>

definition time_ok :: "int \<Rightarrow> bool" where
  "time_ok t \<longleftrightarrow> - (2 ^ 63) \<le> t - 62135596800000000000 \<and> t - 62135596800000000000 < 2 ^ 63"

lemma UnixNano_exact: "time_ok t \<Longrightarrow> UnixNano t = t - 62135596800000000000"
  unfolding UnixNano_def time_ok_def by (rule sint_of_int_u64) simp_all

lemma sorted_strict:
  fixes f :: "'x \<Rightarrow> 'k :: linorder"
  assumes "distinct (map f xs)"
  shows "sorted_wrt (\<lambda>x y. f x < f y) (sort_key f xs)"
proof -
  have "sorted_wrt (<) (map f (sort_key f xs))"
    using assms by (simp add: strict_sorted_iff distinct_map)
  then show ?thesis by (simp add: sorted_wrt_map)
qed

lemma ordered_sorted:
  assumes "sorted_wrt (\<lambda>x y. f x < (f y :: 'k :: linorder)) xs"
    and "\<And>x y. x \<in> set xs \<Longrightarrow> y \<in> set xs \<Longrightarrow> f x < f y \<Longrightarrow> key x < key y"
  shows "keyset_order.ordered (keyset_lt False) key xs" "keyset_order.ordered (keyset_lt True) key (rev xs)"
proof -
  have "sorted_wrt (\<lambda>x y. key x < key y) xs"
    using assms(1) by (rule sorted_wrt_mono_rel [rotated]) (rule assms(2))
  then show "keyset_order.ordered (keyset_lt False) key xs" "keyset_order.ordered (keyset_lt True) key (rev xs)"
    by (simp_all add: ko.ordered_def keyset_lt_def sorted_wrt_map rev_map sorted_wrt_rev)
qed

lemma distinct_snd_id:
  assumes "distinct (map fst m)" "\<forall>i v. map_of m i = Some v \<longrightarrow> f v = i"
  shows "distinct (map f (map snd m))"
proof -
  have "f v = i" if "(i, v) \<in> set m" for i v using assms that by auto
  then have "map f (map snd m) = map fst m" by (induction m) auto
  with assms(1) show ?thesis by (simp only:)
qed

lemma distinct_pair: "distinct (map g xs) \<Longrightarrow> distinct (map (\<lambda>x. (f x, g x)) xs)"
  by (auto simp: distinct_map inj_on_def)

lemma tx_listing_ordered:
  assumes "txs_wf m" "\<forall>t\<in>set (map snd m). time_ok (txSubmittedAt t)"
  shows "keyset_order.ordered (keyset_lt False) (\<lambda>t. (UnixNano (txSubmittedAt t), txID t)) (memTxSorted address m)"
  unfolding memTxSorted_def
proof (rule ordered_sorted(1) [OF sorted_strict])
  have "distinct (map txID (map snd m))"
    by (rule distinct_snd_id) (use assms(1) in \<open>auto simp: txs_wf_iff\<close>)
  then have "distinct (map txID (filter (memTxMatches address) (map snd m)))" by (rule distinct_map_filter)
  then show "distinct (map (\<lambda>t. (txSubmittedAt t, txID t)) (filter (memTxMatches address) (map snd m)))"
    by (rule distinct_pair)
  fix x y
  assume "x \<in> set (sort_key (\<lambda>t. (txSubmittedAt t, txID t)) (filter (memTxMatches address) (map snd m)))"
    "y \<in> set (sort_key (\<lambda>t. (txSubmittedAt t, txID t)) (filter (memTxMatches address) (map snd m)))"
    "(txSubmittedAt x, txID x) < (txSubmittedAt y, txID y)"
  moreover from this assms(2) have "time_ok (txSubmittedAt x)" "time_ok (txSubmittedAt y)" by auto
  ultimately show "(UnixNano (txSubmittedAt x), txID x) < (UnixNano (txSubmittedAt y), txID y)"
    by (auto simp: UnixNano_exact)
qed

lemma red_listing_ordered:
  assumes "redemptions_wf m"
  shows "keyset_order.ordered (keyset_lt True) (\<lambda>r. (sint (rrCreatedAt r), rrID r)) (memRedSorted want address m)"
  unfolding memRedSorted_def
proof (rule ordered_sorted(2) [OF sorted_strict])
  have "distinct (map rrID (map snd m))"
    by (rule distinct_snd_id) (use assms in \<open>auto simp: redemptions_wf_def\<close>)
  then have "distinct (map rrID (filter (memRedMatches want address) (map snd m)))" by (rule distinct_map_filter)
  then show "distinct (map (\<lambda>r. (sint (rrCreatedAt r), rrID r)) (filter (memRedMatches want address) (map snd m)))"
    by (rule distinct_pair)
qed

lemma sint_slot:
  assumes "(b :: u64) < 2 ^ 63"
  shows "sint b = uint b"
proof -
  have "uint b < 2 ^ 63" using assms by (simp add: word_less_def)
  moreover have "- (2 ^ 63) \<le> uint b" by (rule order_trans [of _ 0]) simp_all
  ultimately show ?thesis unfolding sint_uint by (intro signed_take_bit_int_eq_self) simp_all
qed

lemma purchase_listing_ordered:
  assumes "purchases_wf l" "\<forall>p\<in>set l. puBlockNumber p < 2 ^ 63"
  shows "keyset_order.ordered (keyset_lt True) (\<lambda>p. (sint (puBlockNumber p), puID p)) (memPuSorted l)"
  unfolding memPuSorted_def
proof (rule ordered_sorted(2) [OF sorted_strict])
  show "distinct (map (\<lambda>p. (puBlockNumber p, puID p)) l)"
    using assms(1) by (simp add: purchases_wf_def distinct_pair)
  fix x y
  assume "x \<in> set (sort_key (\<lambda>p. (puBlockNumber p, puID p)) l)" "y \<in> set (sort_key (\<lambda>p. (puBlockNumber p, puID p)) l)"
    "(puBlockNumber x, puID x) < (puBlockNumber y, puID y)"
  with assms(2) show "(sint (puBlockNumber x), puID x) < (sint (puBlockNumber y), puID y)"
    by (auto simp: sint_slot word_less_def word_le_def)
qed

section \<open>The investors' pages\<close>

interpretation ks: keyset_order "(<) :: string \<Rightarrow> string \<Rightarrow> bool"
  by unfold_locales auto

definition invSorted :: "investor_map \<Rightarrow> Investor list" where
  "invSorted m = sort_key invAddress (map snd m)"

lemma memInvListPage_eq:
  assumes "0 < limit"
    and rest: "rest = ks.remaining invAddress (if cursor = '''' then None else Some cursor) (invSorted m)"
  shows "memInvListPage cursor limit m =
    (take (nat limit) rest, if nat limit < length rest then invAddress (rest ! (nat limit - 1)) else '''')"
proof -
  define start where "start = (if cursor \<noteq> '''' then first_past (\<lambda>v. invAddress v > cursor) (invSorted m) else 0)"
  have le: "start \<le> length (invSorted m)" by (simp add: start_def first_past_le)
  have r: "rest = drop start (invSorted m)"
    by (simp add: rest start_def drop_first_past ks.remaining_def)
  obtain n where n: "limit = int n" "0 < n" using assms(1) by (metis zero_less_imp_eq_int)
  show ?thesis
  proof (cases "start + n < length (invSorted m)")
    case True
    have k: "\<not> int start + int n > int (length (invSorted m))" "nat (int start + int n) = start + n"
      using True by linarith+
    have "last (drop start (take (start + n) (invSorted m))) = invSorted m ! (start + n - 1)"
      using True n(2) by (simp add: last_conv_nth)
    with True k n le show ?thesis
      unfolding memInvListPage_def Let_def invSorted_def [symmetric] start_def [symmetric] r
      by (auto simp: take_drop add.commute)
  next
    case False
    then have en: "(if limit \<le> 0 \<or> int start + limit > int (length (invSorted m)) then length (invSorted m)
        else nat (int start + limit)) = length (invSorted m)"
      using n by auto
    show ?thesis
      unfolding memInvListPage_def Let_def invSorted_def [symmetric] start_def [symmetric] en r
      using False le n by auto
  qed
qed

lemma investor_follow_walk:
  assumes "0 < limit" "\<forall>m\<in>set ms. \<forall>v\<in>set (map snd m). invAddress v \<noteq> ''''"
  shows "follow (\<lambda>m c. memInvListPage c limit m) cursor ms =
    ks.walk (nat limit) invAddress (if cursor = '''' then None else Some cursor) (map invSorted ms)"
  using assms(2)
proof (induction ms arbitrary: cursor)
  case (Cons m ms)
  let ?rest = "ks.remaining invAddress (if cursor = '''' then None else Some cursor) (invSorted m)"
  note page = memInvListPage_eq [OF assms(1) refl, of cursor m]
  show ?case
  proof (cases "nat limit < length ?rest")
    case True
    have "set ?rest \<subseteq> set (map snd m)"
      by (auto simp: ks.remaining_def invSorted_def split: option.splits dest: set_dropWhileD)
    moreover have "?rest ! (nat limit - 1) \<in> set ?rest" using True by (simp add: less_imp_diff_less)
    ultimately have "?rest ! (nat limit - 1) \<in> set (map snd m)" by (rule subsetD)
    then have "invAddress (?rest ! (nat limit - 1)) \<noteq> ''''" using Cons.prems by (meson list.set_intros(1))
    then show ?thesis using True Cons.IH Cons.prems by (simp add: page Let_def)
  next
    case False
    then show ?thesis by (simp add: page Let_def)
  qed
qed simp

section \<open>Properties\<close>

definition listTransactions :: "cursor_json \<Rightarrow> (string \<Rightarrow> string) \<Rightarrow> tx_map \<Rightarrow> Transaction list \<times> string" where
  "listTransactions J query m =
     (let (cursor, limit) = cursorLimitParams query in memTxListPage J (query ''address'') cursor limit m)"

definition tx_key :: "Transaction \<Rightarrow> int \<times> string" where
  "tx_key t = (UnixNano (txSubmittedAt t), txID t)"

definition tx_listable :: "tx_map \<Rightarrow> bool" where
  "tx_listable m \<longleftrightarrow> txs_wf m \<and> (\<forall>t\<in>set (map snd m). time_ok (txSubmittedAt t) \<and> ascii (txID t))"

lemma txs_wf_stored: "txs_wf m \<Longrightarrow> t \<in> set (map snd m) \<longleftrightarrow> map_of m (txID t) = Some t"
  using txs_wf_list [of m t] by (metis txs_wf_iff)

lemma tx_follow_walk:
  assumes "cursor_json_ok J" "\<forall>m\<in>set ms. tx_listable m"
  shows "follow (\<lambda>m c. listTransactions J (query(''cursor'' := c)) m) '''' ms =
    keyset_order.walk (keyset_lt False) (nat (list_limit (query ''limit''))) tx_key None
      (map (memTxSorted (query ''address'')) ms)"
proof -
  have l: "0 < list_limit (query ''limit'')" using list_limit_bounds [of "query ''limit''"] by linarith
  have "\<forall>m\<in>set ms. \<forall>t\<in>set (memTxSorted (query ''address'') m). ascii (txID t)"
    using assms(2) by (auto simp: tx_listable_def memTxSorted_def)
  from follow_walk [where sv = "\<lambda>t. UnixNano (txSubmittedAt t)" and desc = False and cursor = "''''",
      OF assms(1) l this] sint_u64_range
  show ?thesis
    by (simp add: UnixNano_def listTransactions_def cursorLimitParams_def memTxListPage_def DecodeKeysetCursor_def tx_key_def [abs_def])
qed

text \<open>C27: a client that follows the cursors of \<^verbatim>\<open>GET /transactions\<close> to the end, while records are
  created, removed and updated between its requests, lists every record that is there at each
  of its requests, matches the address filter and keeps its submission time exactly once; the
  pages together are in the order of submission time and id, so nothing is listed twice; and
  each page shows records of the store at its request that match the filter, at most 200.\<close>

theorem tx_listing_once:
  assumes "cursor_json_ok J" "\<forall>m\<in>set ms. tx_listable m"
    and "follow (\<lambda>m c. listTransactions J (query(''cursor'' := c)) m) '''' ms = Some pages"
  shows "(\<forall>k. (\<forall>m\<in>set (take (length pages) ms). \<exists>t. map_of m (snd k) = Some t \<and> tx_key t = k \<and>
        memTxMatches (query ''address'') t) \<longrightarrow>
      count_list (map tx_key (concat pages)) k = 1) \<and>
    sorted_wrt (\<lambda>t u. tx_key t < tx_key u) (concat pages) \<and>
    list_all2 (\<lambda>page m. length page \<le> 200 \<and> (\<forall>t\<in>set page. map_of m (txID t) = Some t \<and>
      memTxMatches (query ''address'') t)) pages (take (length pages) ms)"
proof -
  let ?n = "nat (list_limit (query ''limit''))" and ?ss = "map (memTxSorted (query ''address'')) ms"
  have w: "keyset_order.walk (keyset_lt False) ?n tx_key None ?ss = Some pages"
    using tx_follow_walk [OF assms(1,2), of query] assms(3) by simp
  have n: "0 < ?n" "?n \<le> 200" using list_limit_bounds [of "query ''limit''"] by linarith+
  have o: "\<forall>s\<in>set ?ss. keyset_order.ordered (keyset_lt False) tx_key s"
    using tx_listing_ordered assms(2) by (simp add: tx_listable_def tx_key_def [abs_def])
  have mem: "t \<in> set (memTxSorted (query ''address'') m) \<longleftrightarrow> map_of m (txID t) = Some t \<and> memTxMatches (query ''address'') t"
    if "m \<in> set ms" for m t
    using txs_wf_stored [of m t] that assms(2) by (auto simp: memTxSorted_def tx_listable_def simp del: set_map)
  have "count_list (map tx_key (concat pages)) k = 1"
    if k: "\<forall>m\<in>set (take (length pages) ms). \<exists>t. map_of m (snd k) = Some t \<and> tx_key t = k \<and> memTxMatches (query ''address'') t" for k
  proof (rule ko.walk_once [OF w o n(1)])
    show "\<forall>s\<in>set (take (length pages) ?ss). k \<in> tx_key ` set s"
    proof
      fix s assume "s \<in> set (take (length pages) ?ss)"
      then obtain m where m: "m \<in> set (take (length pages) ms)" "s = memTxSorted (query ''address'') m"
        by (auto simp: take_map)
      with k obtain t where t: "map_of m (snd k) = Some t" "tx_key t = k" "memTxMatches (query ''address'') t" by blast
      have "txID t = snd k" using t(2) by (auto simp: tx_key_def)
      with t m mem [OF in_set_takeD [OF m(1)], of t] show "k \<in> tx_key ` set s" by auto
    qed
  qed simp
  moreover have "sorted_wrt (\<lambda>t u. tx_key t < tx_key u) (concat pages)"
    using ko.walk_ordered [OF w o n(1)] by (simp add: ko.ordered_def keyset_lt_def sorted_wrt_map)
  moreover have "list_all2 (\<lambda>page m. length page \<le> 200 \<and> (\<forall>t\<in>set page. map_of m (txID t) = Some t \<and>
      memTxMatches (query ''address'') t)) pages (take (length pages) ms)"
  proof -
    have l: "list_all2 (\<lambda>p m. length p \<le> ?n \<and> set p \<subseteq> set (memTxSorted (query ''address'') m)) pages (take (length pages) ms)"
      using ko.walk_pages [OF w] by (simp add: take_map list_all2_map2)
    show ?thesis
      by (rule list_all2_mono_in [OF l]) (use mem n(2) in \<open>auto dest: in_set_takeD\<close>)
  qed
  ultimately show ?thesis by blast
qed

text \<open>Following the cursors ends. On a store of redemption requests that stays as it is, a client
  that asks for \<open>limit\<close> items at a time gets, after at most the number of matching requests
  divided by the limit (rounded up), a page without a further cursor, and the pages together
  are the whole filtered listing, newest first.\<close>

theorem redemption_listing_ends:
  assumes "cursor_json_ok J" "redemptions_wf m" "\<forall>r\<in>set (map snd m). ascii (rrID r)"
    and "0 < limit" "int (length (memRedSorted want address m)) \<le> int k * limit" "0 < k"
  shows "\<exists>pages. follow (\<lambda>m c. memRedListPage J want address c limit m) '''' (replicate k m) = Some pages \<and>
    concat pages = memRedSorted want address m \<and>
    mset (concat pages) = mset (filter (memRedMatches want address) (map snd m))"
proof -
  let ?items = "memRedSorted want address m" and ?key = "\<lambda>r. (sint (rrCreatedAt r), rrID r)"
  have n: "0 < nat limit" "length ?items \<le> k * nat limit"
  proof -
    obtain l where l: "limit = int l" using assms(4) by (metis zero_le_imp_eq_int less_imp_le)
    with assms(4,5) show "0 < nat limit" "length ?items \<le> k * nat limit"
      by (simp_all flip: of_nat_mult)
  qed
  have a: "\<forall>m\<in>set (replicate k m). \<forall>r\<in>set (memRedSorted want address m). ascii (rrID r)"
    using assms(3) by (auto simp: memRedSorted_def)
  have o: "keyset_order.ordered (keyset_lt True) ?key ?items" by (rule red_listing_ordered [OF assms(2)])
  have "keyset_order.remaining (keyset_lt True) ?key None ?items = ?items" by (simp add: ko.remaining_def)
  with ko.walk_constant [OF n(1) o, of None k] n(2) assms(6)
  obtain pages where p: "keyset_order.walk (keyset_lt True) (nat limit) ?key None (replicate k ?items) = Some pages"
    "concat pages = ?items" by auto
  from follow_walk [where sv = "\<lambda>r. sint (rrCreatedAt r)" and desc = True and cursor = "''''",
      OF assms(1,4) a sint_u64_range] p(1)
  have "follow (\<lambda>m c. memRedListPage J want address c limit m) '''' (replicate k m) = Some pages"
    by (simp add: memRedListPage_def DecodeKeysetCursor_def)
  moreover have "mset ?items = mset (filter (memRedMatches want address) (map snd m))"
    by (simp add: memRedSorted_def)
  ultimately show ?thesis using p(2) by auto
qed

section \<open>Example\<close>

text \<open>A concrete document of a cursor: the decimal sort value, a colon, the id.\<close>

definition parse_int :: "string \<Rightarrow> int option" where
  "parse_int s =
     (case s of
        c # r \<Rightarrow> if c = CHR ''-'' then map_option (\<lambda>n. - int n) (parse_dec r) else map_option int (parse_dec s)
      | [] \<Rightarrow> None)"

definition demo_cursor_json :: cursor_json where
  "demo_cursor_json =
     \<lparr>cjMarshal = (\<lambda>c. bytes_of_string (dec_int (kcSortValue c) @ '':'' @ kcID c)),
      cjUnmarshal = (\<lambda>bs. case cut (string_of_bytes bs) '':'' of
          None \<Rightarrow> None
        | Some (v, i) \<Rightarrow> map_option (\<lambda>n. \<lparr>kcSortValue = n, kcID = i\<rparr>) (parse_int v))\<rparr>"

lemma parse_int_dec: "parse_int (dec_int i) = Some i"
proof -
  have "parse_int (dec_nat n) = Some (int n)" for n
  proof -
    obtain c r where c: "dec_nat n = c # r" using parse_dec_nat [of n] by (cases "dec_nat n") (auto simp: parse_dec_def)
    have "c \<noteq> CHR ''-''" using dec_nat_not_minus [of c n] c by (auto simp: isDigit_def)
    then have "parse_int (c # r) = map_option int (parse_dec (c # r))" by (simp add: parse_int_def)
    then show ?thesis by (simp flip: c)
  qed
  then show ?thesis by (simp add: dec_int_def) (simp add: parse_int_def)
qed

lemma cut_colon: "CHR '':'' \<notin> set a \<Longrightarrow> cut (a @ CHR '':'' # b) '':'' = Some (a, b)"
  by (induction a) auto

lemma demo_cursor_json_ok: "cursor_json_ok demo_cursor_json"
  by (simp add: cursor_json_ok_def demo_cursor_json_def cut_colon dec_int_no_colon parse_int_dec
      flip: length_0_conv)

definition page_row :: "string \<Rightarrow> int \<Rightarrow> Transaction" where
  "page_row i at = (ix_row i i TxConfirmed)\<lparr>txSubmittedAt := 62135596800000000000 + at\<rparr>"

text \<open>Between the two requests the oldest record goes and an older one comes.\<close>

definition demo_page_stores :: "tx_map list" where
  "demo_page_stores =
     [[(''a'', page_row ''a'' 1), (''b'', page_row ''b'' 2), (''c'', page_row ''c'' 3)],
      [(''c'', page_row ''c'' 3), (''z'', page_row ''z'' 0), (''b'', page_row ''b'' 2)]]"

definition demo_page_query :: "string \<Rightarrow> string" where
  "demo_page_query k = (if k = ''limit'' then ''2'' else '''')"

lemma page_row_simps: "txID (page_row i at) = i" "txSubmittedAt (page_row i at) = 62135596800000000000 + at"
  by (simp_all add: page_row_def ix_row_def)

lemma page_row_key: "0 \<le> at \<Longrightarrow> at < 100 \<Longrightarrow> tx_key (page_row i at) = (at, i)"
  by (simp add: tx_key_def page_row_simps UnixNano_exact time_ok_def)

lemma demo_page_stores_ok: "\<forall>m\<in>set demo_page_stores. tx_listable m"
  by (simp add: demo_page_stores_def tx_listable_def txs_wf_def page_row_def ix_row_def time_ok_def ascii_def)

lemma demo_page_matches: "memTxMatches (demo_page_query ''address'') t"
  by (simp add: memTxMatches_def demo_page_query_def toLower_def)

lemma demo_pages:
  "follow (\<lambda>m c. listTransactions demo_cursor_json (demo_page_query(''cursor'' := c)) m) '''' demo_page_stores =
     Some [[page_row ''a'' 1, page_row ''b'' 2], [page_row ''c'' 3]]"
proof -
  have "list_limit (demo_page_query ''limit'') = 2" by code_simp
  moreover have "map (memTxSorted (demo_page_query ''address'')) demo_page_stores =
      [[page_row ''a'' 1, page_row ''b'' 2, page_row ''c'' 3], [page_row ''z'' 0, page_row ''b'' 2, page_row ''c'' 3]]"
    by (simp add: memTxSorted_def demo_page_matches demo_page_stores_def page_row_simps)
  ultimately show ?thesis
    unfolding tx_follow_walk [OF demo_cursor_json_ok demo_page_stores_ok]
    by (simp add: Let_def ko.remaining_def keyset_lt_def page_row_key)
qed

theorem tx_listing_once_witness:
  "count_list (map tx_key (concat [[page_row ''a'' 1, page_row ''b'' 2], [page_row ''c'' 3]])) (tx_key (page_row ''c'' 3)) = 1"
  by (rule tx_listing_once [OF demo_cursor_json_ok demo_page_stores_ok demo_pages, THEN conjunct1, rule_format])
    (auto simp: demo_page_matches demo_page_stores_def page_row_key)

definition demo_red_store :: redemption_map where
  "demo_red_store = map (\<lambda>i. (i, new_request 0 10 (red_event i ''RedemptionRequested'' 5 1 i) i)) [''1'', ''2'', ''3'']"

theorem redemption_listing_ends_witness:
  "\<exists>pages. follow (\<lambda>m c. memRedListPage demo_cursor_json None '''' c 2 m) '''' (replicate 2 demo_red_store) = Some pages \<and>
    map rrID (concat pages) = [''3'', ''2'', ''1'']"
proof -
  have s: "map rrID (memRedSorted None '''' demo_red_store) = [''3'', ''2'', ''1'']" by code_simp
  then have "length (map rrID (memRedSorted None '''' demo_red_store)) = 3" by simp
  then have l: "int (length (memRedSorted None '''' demo_red_store)) \<le> int 2 * 2" by simp
  have w: "redemptions_wf demo_red_store" "\<forall>r\<in>set (map snd demo_red_store). ascii (rrID r)"
    by (auto simp: redemptions_wf_def demo_red_store_def new_request_def Let_def ascii_def split: if_splits)
  from redemption_listing_ends [OF demo_cursor_json_ok w _ l] s show ?thesis by auto
qed

end
