(* ===== verification/JsonDoc.thy ===== *)
theory JsonDoc
  imports GoStd "HOL-Library.List_Lexorder"
begin

text \<open>
  The signer's strict JSON parser, \<^verbatim>\<open>signer/internal/canonical/canonical.go\<close> up to
  \<open>parseArray\<close>. A document string is a list of Unicode scalar values (runes). The tokenizer of
  \<^verbatim>\<open>encoding/json\<close> is a parameter: it turns the input into the tokens that \<^verbatim>\<open>Token\<close> returns one after
  another and says whether the error that ends them is \<^verbatim>\<open>io.EOF\<close>, which it also is when the input
  stops between two tokens of an open container. What it promises (\<open>decoder_ok\<close>) is that it
  enforces the grammar as it goes: the tokens are the beginning of a sequence of JSON values. The
  parser is recursive on a budget that always suffices (\<open>parse_total\<close>).
\<close>

section \<open>Values and tokens\<close>

type_synonym runes = "nat list"

datatype jvalue =
    JNull
  | JBool bool
  | JNumber string
  | JString runes
  | JArray "jvalue list"
  | JObject "(runes \<times> jvalue) list"

datatype token = TDelim char | TNull | TBool bool | TNumber string | TString runes

fun tokens_of :: "jvalue \<Rightarrow> token list" where
  "tokens_of JNull = [TNull]"
| "tokens_of (JBool b) = [TBool b]"
| "tokens_of (JNumber s) = [TNumber s]"
| "tokens_of (JString s) = [TString s]"
| "tokens_of (JArray vs) = TDelim CHR ''['' # concat (map tokens_of vs) @ [TDelim CHR '']'']"
| "tokens_of (JObject kvs) =
     TDelim CHR ''{'' # concat (map (\<lambda>(k, v). TString k # tokens_of v) kvs) @ [TDelim CHR ''}'']"

text \<open>The length of a string in UTF-8 bytes, Go's \<^verbatim>\<open>len\<close>.\<close>

definition rune_len :: "nat \<Rightarrow> nat" where
  "rune_len r = (if r < 128 then 1 else if r < 2048 then 2 else if r < 65536 then 3 else 4)"

definition str_len :: "runes \<Rightarrow> nat" where
  "str_len s = sum_list (map rune_len s)"

section \<open>The parser\<close>

record Limits =
  MaxBytes :: nat
  MaxDepth :: nat
  MaxStringLen :: nat
  MaxArrayLen :: nat
  MaxObjectKeys :: nat

definition DefaultLimits :: Limits where
  "DefaultLimits = \<lparr>MaxBytes = 2 ^ 20, MaxDepth = 32, MaxStringLen = 32768, MaxArrayLen = 4096, MaxObjectKeys = 4096\<rparr>"

definition hardMaxDepth :: nat where "hardMaxDepth = 512"

datatype json_error =
    DocTooBig | NotUtf8 | TooDeep | BadSyntax | UnexpectedToken | StringTooLong | KeyTooLong
  | TooManyKeys | ArrayTooLong | NotAKey | DuplicateKey runes | TrailingData | OutOfFuel

text \<open>A bound of 0 means unbounded.\<close>

definition exceeds :: "nat \<Rightarrow> nat \<Rightarrow> bool" where
  "exceeds bound n \<longleftrightarrow> 0 < bound \<and> bound < n"

definition reached :: "nat \<Rightarrow> nat \<Rightarrow> bool" where
  "reached bound n \<longleftrightarrow> 0 < bound \<and> bound \<le> n"

definition too_deep :: "Limits \<Rightarrow> nat \<Rightarrow> bool" where
  "too_deep lim depth \<longleftrightarrow> hardMaxDepth < depth \<or> exceeds (MaxDepth lim) depth"

text \<open>\<^verbatim>\<open>Decoder.More\<close>: another element follows in the current array or object.\<close>

definition has_more :: "token list \<Rightarrow> bool" where
  "has_more ts = (case ts of [] \<Rightarrow> False | t # _ \<Rightarrow> t \<noteq> TDelim CHR '']'' \<and> t \<noteq> TDelim CHR ''}'')"

fun parse_value :: "Limits \<Rightarrow> nat \<Rightarrow> nat \<Rightarrow> token list \<Rightarrow> json_error + jvalue \<times> token list"
  and parse_object :: "Limits \<Rightarrow> nat \<Rightarrow> nat \<Rightarrow> (runes \<times> jvalue) list \<Rightarrow> token list
    \<Rightarrow> json_error + (runes \<times> jvalue) list \<times> token list"
  and parse_array :: "Limits \<Rightarrow> nat \<Rightarrow> nat \<Rightarrow> jvalue list \<Rightarrow> token list
    \<Rightarrow> json_error + jvalue list \<times> token list" where
  "parse_value lim 0 depth ts = Inl OutOfFuel"
| "parse_value lim (Suc n) depth ts =
     (if too_deep lim depth then Inl TooDeep
      else case ts of
        [] \<Rightarrow> Inl BadSyntax
      | TDelim c # rest \<Rightarrow>
          if c = CHR ''{'' then bind_res (parse_object lim n depth [] rest) (\<lambda>(kvs, r). Inr (JObject kvs, r))
          else if c = CHR ''['' then bind_res (parse_array lim n depth [] rest) (\<lambda>(vs, r). Inr (JArray vs, r))
          else Inl UnexpectedToken
      | TNull # rest \<Rightarrow> Inr (JNull, rest)
      | TBool b # rest \<Rightarrow> Inr (JBool b, rest)
      | TNumber s # rest \<Rightarrow> Inr (JNumber s, rest)
      | TString s # rest \<Rightarrow>
          if exceeds (MaxStringLen lim) (str_len s) then Inl StringTooLong else Inr (JString s, rest))"
| "parse_object lim 0 depth acc ts = Inl OutOfFuel"
| "parse_object lim (Suc n) depth acc ts =
     (if has_more ts then
        if reached (MaxObjectKeys lim) (length acc) then Inl TooManyKeys
        else case ts of
          TString key # rest \<Rightarrow>
            if exceeds (MaxStringLen lim) (str_len key) then Inl KeyTooLong
            else bind_res (parse_value lim n (depth + 1) rest) (\<lambda>(v, r).
              if key \<in> fst ` set acc then Inl (DuplicateKey key)
              else parse_object lim n depth (acc @ [(key, v)]) r)
        | _ \<Rightarrow> Inl NotAKey
      else case ts of [] \<Rightarrow> Inl BadSyntax | _ # rest \<Rightarrow> Inr (acc, rest))"
| "parse_array lim 0 depth acc ts = Inl OutOfFuel"
| "parse_array lim (Suc n) depth acc ts =
     (if has_more ts then
        if reached (MaxArrayLen lim) (length acc) then Inl ArrayTooLong
        else bind_res (parse_value lim n (depth + 1) ts) (\<lambda>(v, r). parse_array lim n depth (acc @ [v]) r)
      else case ts of [] \<Rightarrow> Inl BadSyntax | _ # rest \<Rightarrow> Inr (acc, rest))"

text \<open>The tokenizer and \<^verbatim>\<open>utf8.Valid\<close> are parameters of \<open>ParseWithLimits\<close>.\<close>

record decoder =
  dcTokens :: "bytes \<Rightarrow> token list \<times> bool"
  dcUtf8Valid :: "bytes \<Rightarrow> bool"

definition ParseWithLimits :: "decoder \<Rightarrow> bytes \<Rightarrow> Limits \<Rightarrow> json_error + jvalue" where
  "ParseWithLimits D input lim =
     (if exceeds (MaxBytes lim) (length input) then Inl DocTooBig
      else if \<not> dcUtf8Valid D input then Inl NotUtf8
      else let (ts, clean) = dcTokens D input in
        bind_res (parse_value lim (2 * length ts + 2) 0 ts) (\<lambda>(v, rest).
          if rest = [] \<and> clean then Inr v else Inl TrailingData))"

definition noLimits :: Limits where
  "noLimits = \<lparr>MaxBytes = 0, MaxDepth = 0, MaxStringLen = 0, MaxArrayLen = 0, MaxObjectKeys = 0\<rparr>"

definition Parse :: "decoder \<Rightarrow> bytes \<Rightarrow> json_error + jvalue" where
  "Parse D input = ParseWithLimits D input noLimits"

section \<open>The budget suffices\<close>

text \<open>Every call either consumes a token or passes from a container to its next element.\<close>

definition progress :: "json_error + 'a \<times> token list \<Rightarrow> token list \<Rightarrow> bool" where
  "progress res ts \<longleftrightarrow> (case res of Inl e \<Rightarrow> e \<noteq> OutOfFuel | Inr (_, rest) \<Rightarrow> length rest < length ts)"

lemma progress_simps [simp]:
  "progress (Inl e) ts \<longleftrightarrow> e \<noteq> OutOfFuel" "progress (Inr (x, rest)) ts \<longleftrightarrow> length rest < length ts"
  by (simp_all add: progress_def)

lemma progress_bind:
  assumes "progress m us" "\<And>x rest. length rest < length us \<Longrightarrow> progress (f (x, rest)) ts"
  shows "progress (bind_res m f) ts"
proof (cases m)
  case (Inr y)
  with assms show ?thesis by (cases y) simp
qed (use assms(1) in simp)

lemma parse_budget:
  "(\<forall>depth ts. 2 * length ts < n \<longrightarrow> progress (parse_value lim n depth ts) ts) \<and>
   (\<forall>depth acc ts. 2 * length ts + 1 < n \<longrightarrow> progress (parse_object lim n depth acc ts) ts) \<and>
   (\<forall>depth vs ts. 2 * length ts + 1 < n \<longrightarrow> progress (parse_array lim n depth vs ts) ts)"
proof (induction n)
  case (Suc n)
  have v: "progress (parse_value lim n depth ts) ts" if "2 * length ts < n" for depth ts using Suc that by blast
  have o: "progress (parse_object lim n depth acc ts) ts" if "2 * length ts + 1 < n" for depth acc ts
    using Suc that by blast
  have a: "progress (parse_array lim n depth vs ts) ts" if "2 * length ts + 1 < n" for depth vs ts
    using Suc that by blast
  have "progress (parse_value lim (Suc n) depth ts) ts" if l: "2 * length ts < Suc n" for depth ts
  proof (cases ts)
    case (Cons t rest)
    then have "2 * length rest + 1 < n" using l by simp
    note r = o [OF this] a [OF this]
    show ?thesis
      using Cons by (auto split: token.split intro!: progress_bind [OF r(1)] progress_bind [OF r(2)])
  qed simp
  moreover have "progress (parse_object lim (Suc n) depth acc ts) ts" if l: "2 * length ts + 1 < Suc n" for depth acc ts
  proof (cases ts)
    case (Cons t rest)
    then have "2 * length rest < n" using l by simp
    note r = v [OF this]
    have "progress (parse_object lim n depth acc us) ts" if "length us < length rest" for depth acc us
      using o [of us depth acc] that l Cons by (auto simp: progress_def split: sum.splits)
    then show ?thesis using Cons by (auto split: token.split intro!: progress_bind [OF r])
  qed (simp add: has_more_def)
  moreover have "progress (parse_array lim (Suc n) depth vs ts) ts" if l: "2 * length ts + 1 < Suc n" for depth vs ts
  proof (cases ts)
    case (Cons t rest)
    have "progress (parse_array lim n depth vs us) ts" if "length us < length ts" for depth vs us
      using a [of us depth vs] that l by (auto simp: progress_def split: sum.splits)
    then show ?thesis using Cons l by (auto intro!: progress_bind [OF v])
  qed (simp add: has_more_def)
  ultimately show ?case by blast
qed simp

section \<open>What the parser accepts\<close>

fun fits :: "Limits \<Rightarrow> nat \<Rightarrow> jvalue \<Rightarrow> bool" where
  "fits lim depth (JString s) \<longleftrightarrow> \<not> too_deep lim depth \<and> \<not> exceeds (MaxStringLen lim) (str_len s)"
| "fits lim depth (JArray vs) \<longleftrightarrow>
     \<not> too_deep lim depth \<and> \<not> exceeds (MaxArrayLen lim) (length vs) \<and> list_all (fits lim (depth + 1)) vs"
| "fits lim depth (JObject kvs) \<longleftrightarrow>
     \<not> too_deep lim depth \<and> \<not> exceeds (MaxObjectKeys lim) (length kvs) \<and> distinct (map fst kvs) \<and>
     list_all (\<lambda>(k, v). \<not> exceeds (MaxStringLen lim) (str_len k) \<and> fits lim (depth + 1) v) kvs"
| "fits lim depth v \<longleftrightarrow> \<not> too_deep lim depth"

text \<open>The outcome on the tokens of a value: that value and the rest if it fits, an error otherwise.\<close>

definition outcome :: "bool \<Rightarrow> 'a \<Rightarrow> token list \<Rightarrow> json_error + 'a \<times> token list \<Rightarrow> bool" where
  "outcome ok x rest res \<longleftrightarrow> (if ok then res = Inr (x, rest) else \<exists>e. res = Inl e)"

lemma outcome_bind:
  assumes "outcome ok x rest m" "ok \<Longrightarrow> outcome ok' y rest' (f (x, rest))" "\<not> ok \<Longrightarrow> \<not> ok'"
  shows "outcome ok' y rest' (bind_res m f)"
  using assms by (cases ok) (auto simp: outcome_def)

lemma tokens_of_more: "has_more (tokens_of v @ ts)"
  by (cases v) (auto simp: has_more_def)

lemma reached_exceeds: "length acc + length vs = n \<Longrightarrow> vs \<noteq> [] \<Longrightarrow> reached b (length acc) \<Longrightarrow> exceeds b n"
  by (auto simp: reached_def exceeds_def Suc_le_eq neq_Nil_conv)

lemma parse_array_tokens:
  assumes "\<And>v m us. v \<in> set vs \<Longrightarrow> 2 * length (tokens_of v @ us) < m \<Longrightarrow>
      outcome (fits lim (depth + 1) v) v us (parse_value lim m (depth + 1) (tokens_of v @ us))"
    and "2 * length (concat (map tokens_of vs) @ TDelim CHR '']'' # rest) + 1 < n"
  shows "outcome (\<not> exceeds (MaxArrayLen lim) (length acc + length vs) \<and> list_all (fits lim (depth + 1)) vs \<or> vs = [])
    (acc @ vs) rest (parse_array lim n depth acc (concat (map tokens_of vs) @ TDelim CHR '']'' # rest))"
  using assms
proof (induction vs arbitrary: acc n)
  case Nil
  then show ?case by (cases n) (simp_all add: outcome_def has_more_def)
next
  case (Cons v vs)
  let ?us = "concat (map tokens_of vs) @ TDelim CHR '']'' # rest"
  obtain m where n: "n = Suc m" using Cons.prems(2) by (cases n) auto
  have "1 \<le> length (tokens_of v)" by (cases v) auto
  then have "length ?us + 1 \<le> length (tokens_of v @ ?us)" by (simp only: length_append)
  moreover have b1: "2 * length (tokens_of v @ ?us) < m" using Cons.prems(2) n by simp
  ultimately have b: "2 * length (tokens_of v @ ?us) < m" "2 * length ?us + 1 < m" by linarith+
  show ?case
  proof (cases "reached (MaxArrayLen lim) (length acc)")
    case True
    with reached_exceeds [OF refl _ this, of "v # vs"] tokens_of_more [of v ?us]
    show ?thesis by (simp add: n outcome_def)
  next
    case False
    have first: "outcome (fits lim (depth + 1) v) v ?us (parse_value lim m (depth + 1) (tokens_of v @ ?us))"
      using Cons.prems(1) b(1) by simp
    have rec: "outcome (\<not> exceeds (MaxArrayLen lim) (length (acc @ [v]) + length vs) \<and> list_all (fits lim (depth + 1)) vs \<or> vs = [])
        ((acc @ [v]) @ vs) rest (parse_array lim m depth (acc @ [v]) ?us)"
      by (rule Cons.IH) (use Cons.prems(1) b(2) in auto)
    have small: "vs = [] \<Longrightarrow> \<not> exceeds (MaxArrayLen lim) (Suc (length acc))"
      using False by (auto simp: reached_def exceeds_def)
    show ?thesis
      using first rec small tokens_of_more [of v ?us] False
      by (cases "fits lim (depth + 1) v"; cases "vs = []") (auto simp: n outcome_def split: if_splits)
  qed
qed

lemma parse_object_tokens:
  assumes "\<And>k v m us. (k, v) \<in> set kvs \<Longrightarrow> 2 * length (tokens_of v @ us) < m \<Longrightarrow>
      outcome (fits lim (depth + 1) v) v us (parse_value lim m (depth + 1) (tokens_of v @ us))"
    and "2 * length (concat (map (\<lambda>(k, v). TString k # tokens_of v) kvs) @ TDelim CHR ''}'' # rest) + 1 < n"
  shows "outcome (\<not> exceeds (MaxObjectKeys lim) (length acc + length kvs) \<and> distinct (map fst kvs) \<and>
      fst ` set acc \<inter> fst ` set kvs = {} \<and>
      list_all (\<lambda>(k, v). \<not> exceeds (MaxStringLen lim) (str_len k) \<and> fits lim (depth + 1) v) kvs \<or> kvs = [])
    (acc @ kvs) rest
    (parse_object lim n depth acc (concat (map (\<lambda>(k, v). TString k # tokens_of v) kvs) @ TDelim CHR ''}'' # rest))"
  using assms
proof (induction kvs arbitrary: acc n)
  case Nil
  then show ?case by (cases n) (simp_all add: outcome_def has_more_def)
next
  case (Cons kv kvs)
  obtain k v where kv: "kv = (k, v)" by (cases kv)
  let ?us = "concat (map (\<lambda>(k, v). TString k # tokens_of v) kvs) @ TDelim CHR ''}'' # rest"
  obtain m where n: "n = Suc m" using Cons.prems(2) by (cases n) auto
  have "1 \<le> length (tokens_of v)" by (cases v) auto
  then have "length ?us + 1 \<le> length (tokens_of v @ ?us)" by (simp only: length_append)
  moreover have b1: "2 * length (tokens_of v @ ?us) < m" using Cons.prems(2) n by (simp add: kv)
  ultimately have b: "2 * length (tokens_of v @ ?us) < m" "2 * length ?us + 1 < m" by linarith+
  have more: "has_more (TString k # tokens_of v @ ?us)" by (simp add: has_more_def)
  show ?case
  proof (cases "reached (MaxObjectKeys lim) (length acc)")
    case True
    with reached_exceeds [OF refl _ this, of "kv # kvs"] more
    show ?thesis by (simp add: n kv outcome_def)
  next
    case False
    have first: "outcome (fits lim (depth + 1) v) v ?us (parse_value lim m (depth + 1) (tokens_of v @ ?us))"
      by (rule Cons.prems(1) [OF _ b(1), of k]) (simp add: kv)
    have rec: "outcome (\<not> exceeds (MaxObjectKeys lim) (length (acc @ [(k, v)]) + length kvs) \<and> distinct (map fst kvs) \<and>
        fst ` set (acc @ [(k, v)]) \<inter> fst ` set kvs = {} \<and>
        list_all (\<lambda>(k, v). \<not> exceeds (MaxStringLen lim) (str_len k) \<and> fits lim (depth + 1) v) kvs \<or> kvs = [])
        ((acc @ [(k, v)]) @ kvs) rest (parse_object lim m depth (acc @ [(k, v)]) ?us)"
      by (rule Cons.IH) (use Cons.prems(1) b(2) in \<open>auto simp: kv\<close>)
    have small: "kvs = [] \<Longrightarrow> \<not> exceeds (MaxObjectKeys lim) (Suc (length acc))"
      using False by (auto simp: reached_def exceeds_def)
    show ?thesis
    proof (cases "exceeds (MaxStringLen lim) (str_len k) \<or> \<not> fits lim (depth + 1) v \<or> k \<in> fst ` set acc")
      case True
      then show ?thesis using first more False by (auto simp: n kv outcome_def split: if_splits)
    next
      case ok: False
      then have "parse_object lim n depth acc (TString k # tokens_of v @ ?us) = parse_object lim m depth (acc @ [(k, v)]) ?us"
        using first more False by (simp add: n outcome_def)
      then show ?thesis using rec small ok by (cases "kvs = []") (auto simp: kv outcome_def split: if_splits)
    qed
  qed
qed

lemma parse_value_tokens:
  "2 * length (tokens_of v @ rest) < n \<Longrightarrow>
     outcome (fits lim depth v) v rest (parse_value lim n depth (tokens_of v @ rest))"
proof (induction v arbitrary: rest n depth)
  case (JArray vs)
  obtain m where n: "n = Suc m" using JArray.prems by (cases n) auto
  have "2 * length (concat (map tokens_of vs) @ TDelim CHR '']'' # rest) + 1 < m" using JArray.prems n by simp
  from parse_array_tokens [where acc = "[]", OF _ this] JArray.IH
  have "outcome (\<not> exceeds (MaxArrayLen lim) (length vs) \<and> list_all (fits lim (depth + 1)) vs \<or> vs = [])
    vs rest (parse_array lim m depth [] (concat (map tokens_of vs) @ TDelim CHR '']'' # rest))" by simp
  then show ?case by (auto simp: n outcome_def exceeds_def split: if_splits)
next
  case (JObject kvs)
  obtain m where n: "n = Suc m" using JObject.prems by (cases n) auto
  have "2 * length (concat (map (\<lambda>(k, v). TString k # tokens_of v) kvs) @ TDelim CHR ''}'' # rest) + 1 < m"
    using JObject.prems n by simp
  from parse_object_tokens [where acc = "[]", OF _ this] JObject.IH
  have "outcome (\<not> exceeds (MaxObjectKeys lim) (length kvs) \<and> distinct (map fst kvs) \<and>
      list_all (\<lambda>(k, v). \<not> exceeds (MaxStringLen lim) (str_len k) \<and> fits lim (depth + 1) v) kvs \<or> kvs = [])
    kvs rest (parse_object lim m depth [] (concat (map (\<lambda>(k, v). TString k # tokens_of v) kvs) @ TDelim CHR ''}'' # rest))"
    by simp
  then show ?case by (auto simp: n outcome_def exceeds_def split: if_splits)
qed (auto simp: outcome_def neq_Nil_conv Suc_less_eq2 gr0_conv_Suc dest!: less_natE)

text \<open>A successful call never looks at the end of the tokens, nor at its budget.\<close>

lemma has_more_append: "ts \<noteq> [] \<Longrightarrow> has_more (ts @ us) = has_more ts"
  by (cases ts) (simp_all add: has_more_def)

lemma parse_grows:
  "(\<forall>m depth ts v rest. n \<le> m \<longrightarrow> parse_value lim n depth ts = Inr (v, rest) \<longrightarrow>
      parse_value lim m depth (ts @ us) = Inr (v, rest @ us)) \<and>
   (\<forall>m depth acc ts v rest. n \<le> m \<longrightarrow> parse_object lim n depth acc ts = Inr (v, rest) \<longrightarrow>
      parse_object lim m depth acc (ts @ us) = Inr (v, rest @ us)) \<and>
   (\<forall>m depth acc ts v rest. n \<le> m \<longrightarrow> parse_array lim n depth acc ts = Inr (v, rest) \<longrightarrow>
      parse_array lim m depth acc (ts @ us) = Inr (v, rest @ us))"
proof (induction n)
  case (Suc n)
  have v: "parse_value lim m depth (ts @ us) = Inr (v, rest @ us)"
    if "parse_value lim n depth ts = Inr (v, rest)" "n \<le> m" for m depth ts v rest using Suc that by blast
  have o: "parse_object lim m depth acc (ts @ us) = Inr (v, rest @ us)"
    if "parse_object lim n depth acc ts = Inr (v, rest)" "n \<le> m" for m depth acc ts v rest using Suc that by blast
  have a: "parse_array lim m depth acc (ts @ us) = Inr (v, rest @ us)"
    if "parse_array lim n depth acc ts = Inr (v, rest)" "n \<le> m" for m depth acc ts v rest using Suc that by blast
  have "parse_value lim m depth (ts @ us) = Inr (v, rest @ us)"
    if "parse_value lim (Suc n) depth ts = Inr (v, rest)" "Suc n \<le> m" for m depth ts v rest
  proof -
    from that(2) obtain m' where m: "m = Suc m'" "n \<le> m'" by (cases m) auto
    show ?thesis
      using that(1) unfolding m(1)
      by (cases ts) (auto simp: bind_res_eq_Inr split: if_splits token.splits dest: o [OF _ m(2)] a [OF _ m(2)])
  qed
  moreover have "parse_object lim m depth acc (ts @ us) = Inr (v, rest @ us)"
    if "parse_object lim (Suc n) depth acc ts = Inr (v, rest)" "Suc n \<le> m" for m depth acc ts v rest
  proof -
    from that(2) obtain m' where m: "m = Suc m'" "n \<le> m'" by (cases m) auto
    show ?thesis
      using that(1) unfolding m(1)
      by (cases ts) (auto simp: bind_res_eq_Inr has_more_def split: if_splits token.splits
        dest!: v [OF _ m(2)] o [OF _ m(2)])
  qed
  moreover have "parse_array lim m depth acc (ts @ us) = Inr (v, rest @ us)"
    if "parse_array lim (Suc n) depth acc ts = Inr (v, rest)" "Suc n \<le> m" for m depth acc ts v rest
  proof -
    from that(2) obtain m' where m: "m = Suc m'" "n \<le> m'" by (cases m) auto
    show ?thesis
    proof (cases ts)
      case Nil
      with that(1) show ?thesis by (simp add: has_more_def)
    next
      case (Cons t rest')
      then have h: "has_more (ts @ us) = has_more ts" by (intro has_more_append) simp
      show ?thesis
      proof (cases "has_more ts")
        case True
        with that(1) obtain w r1 where "\<not> reached (MaxArrayLen lim) (length acc)"
          "parse_value lim n (depth + 1) ts = Inr (w, r1)" "parse_array lim n depth (acc @ [w]) r1 = Inr (v, rest)"
          by (auto simp: bind_res_eq_Inr split: if_splits)
        with v [OF this(2) m(2)] a [OF this(3) m(2)] True show ?thesis unfolding m(1) by (simp add: h)
      next
        case False
        moreover have "\<not> has_more (t # rest' @ us)" using h False Cons by simp
        ultimately show ?thesis using that(1) Cons unfolding m(1) by simp
      qed
    qed
  qed
  ultimately show ?case by blast
qed simp

lemmas parse_value_grows = parse_grows [THEN conjunct1, rule_format]

definition decoder_ok :: "decoder \<Rightarrow> bool" where
  "decoder_ok D \<longleftrightarrow> (\<forall>input. \<exists>rest vs. fst (dcTokens D input) @ rest = concat (map tokens_of vs))"

text \<open>Tokens which parse as one value are the tokens of that value.\<close>

lemma parsed_tokens:
  assumes "ts @ more_tokens = concat (map tokens_of vs)" "parse_value lim n 0 ts = Inr (v, [])"
  shows "ts = tokens_of v \<and> fits lim 0 v"
proof -
  have "ts \<noteq> []" using assms(2) by (cases n) (auto split: if_splits)
  with assms(1) obtain w ws where "vs = w # ws" by (cases vs) auto
  with assms(1) have ts: "ts @ more_tokens = tokens_of w @ concat (map tokens_of ws)" by simp
  let ?rest = "concat (map tokens_of ws)"
  define m where "m = max n (2 * length (tokens_of w @ ?rest) + 2)"
  have m: "n \<le> m" "2 * length (tokens_of w @ ?rest) < m" by (auto simp: m_def)
  have out: "outcome (fits lim 0 w) w ?rest (parse_value lim m 0 (tokens_of w @ ?rest))"
    by (rule parse_value_tokens) (use m(2) in simp)
  have p: "parse_value lim m 0 (tokens_of w @ ?rest) = Inr (v, more_tokens)"
    using parse_value_grows [OF m(1) assms(2), of more_tokens] by (simp only: ts append_Nil)
  from out p have fit: "fits lim 0 w" by (auto simp only: outcome_def split: if_splits)
  with out p have "w = v" "?rest = more_tokens" by (simp_all add: outcome_def)
  with ts fit show ?thesis by simp
qed

lemma parse_value_accepts:
  assumes "decoder_ok D"
  shows "ParseWithLimits D input lim = Inr v \<longleftrightarrow>
    \<not> exceeds (MaxBytes lim) (length input) \<and> dcUtf8Valid D input \<and>
    dcTokens D input = (tokens_of v, True) \<and> fits lim 0 v"
proof (cases "exceeds (MaxBytes lim) (length input) \<or> \<not> dcUtf8Valid D input")
  case False
  obtain ts clean where t: "dcTokens D input = (ts, clean)" by fastforce
  have parse: "ParseWithLimits D input lim = Inr v \<longleftrightarrow>
      clean \<and> parse_value lim (2 * length ts + 2) 0 ts = Inr (v, [])"
    using False t by (auto simp: ParseWithLimits_def bind_res_eq_Inr)
  have "parse_value lim (2 * length ts + 2) 0 ts = Inr (v, []) \<longleftrightarrow> ts = tokens_of v \<and> fits lim 0 v"
  proof
    assume p: "parse_value lim (2 * length ts + 2) 0 ts = Inr (v, [])"
    from assms t obtain rest vs where "ts @ rest = concat (map tokens_of vs)"
      unfolding decoder_ok_def by (metis fst_conv)
    from parsed_tokens [OF this p] show "ts = tokens_of v \<and> fits lim 0 v" .
  next
    assume v: "ts = tokens_of v \<and> fits lim 0 v"
    have "outcome (fits lim 0 v) v [] (parse_value lim (2 * length ts + 2) 0 (tokens_of v @ []))"
      by (rule parse_value_tokens) (simp add: v)
    with v show "parse_value lim (2 * length ts + 2) 0 ts = Inr (v, [])" by (simp add: outcome_def)
  qed
  with parse False t show ?thesis by auto
qed (auto simp: ParseWithLimits_def split: if_splits)

section \<open>Properties\<close>

text \<open>C29: the parser ends. On every token stream, well-formed or not, and under every limits, the
  recursion of \<open>ParseWithLimits\<close> returns a value or one of the code's own errors: each call
  consumes a token or goes on to the next element of a container.\<close>

theorem parse_total: "ParseWithLimits D input lim \<noteq> Inl OutOfFuel"
proof -
  obtain ts clean where t: "dcTokens D input = (ts, clean)" by fastforce
  have "progress (parse_value lim (2 * length ts + 2) 0 ts) ts"
    using parse_budget [of "2 * length ts + 2" lim] by simp
  then show ?thesis
    by (auto simp: ParseWithLimits_def t bind_res_def progress_def split: sum.splits)
qed

text \<open>C28: what the signer's parser accepts, and what it returns. A document is accepted exactly when it
  is within the byte limit, valid UTF-8, and its tokens are those of one value that fits the
  limits: every value at a depth of at most \<open>MaxDepth\<close> (and 512), strings and keys within
  \<open>MaxStringLen\<close> bytes, arrays and objects within their element limits, no key twice in an
  object; the value returned is that one.\<close>

theorem parse_accepts:
  assumes "decoder_ok D"
  shows "ParseWithLimits D input lim = Inr v \<longleftrightarrow>
    \<not> exceeds (MaxBytes lim) (length input) \<and> dcUtf8Valid D input \<and>
    dcTokens D input = (tokens_of v, True) \<and> fits lim 0 v"
  by (rule parse_value_accepts [OF assms])

section \<open>Example\<close>

definition demo_doc :: jvalue where
  "demo_doc = JObject [([97], JArray [JBool True, JString [8364]]), ([98], JNull)]"

definition demo_decoder :: "jvalue \<Rightarrow> decoder" where
  "demo_decoder v = \<lparr>dcTokens = (\<lambda>b. if b = [1] then (tokens_of v, True) else ([], False)), dcUtf8Valid = (\<lambda>_. True)\<rparr>"

lemma demo_decoder_ok: "decoder_ok (demo_decoder v)"
proof -
  have "fst (dcTokens (demo_decoder v) input) @ [] = concat (map tokens_of (if input = [1] then [v] else []))" for input
    by (simp add: demo_decoder_def)
  then show ?thesis unfolding decoder_ok_def by blast
qed

lemma parse_accepts_witness:
  "ParseWithLimits (demo_decoder demo_doc) [1] DefaultLimits = Inr demo_doc"
  by (subst parse_accepts [OF demo_decoder_ok])
    (simp add: demo_decoder_def demo_doc_def DefaultLimits_def exceeds_def too_deep_def hardMaxDepth_def
      str_len_def rune_len_def)

end
