(* ===== verification/DocLimits.thy ===== *)
theory DocLimits
  imports JsonDoc
begin

text \<open>
  The server's structural limits, \<^verbatim>\<open>server/internal/auditpkg/limits.go\<close> and \<open>CheckLimits\<close> of
  \<^verbatim>\<open>canonical.go\<close>: a scan of the token stream with an explicit stack of open containers. The
  tokenizer is the parameter of the signer's parser (both sides use \<^verbatim>\<open>encoding/json\<close>), so the
  two can be compared: the documents say they must accept the same ones.
\<close>

section \<open>The scan\<close>

definition MaxDocumentBytes :: nat where "MaxDocumentBytes = 2 ^ 20"
definition MaxObjectDepth :: nat where "MaxObjectDepth = 32"
definition MaxStringLength :: nat where "MaxStringLength = 32768"
definition MaxArrayLength :: nat where "MaxArrayLength = 4096"
definition MaxKeys :: nat where "MaxKeys = 4096"

definition safeIntegerBound :: int where "safeIntegerBound = 9007199254740991"

datatype limit_error =
    EmptyDocument | DocumentTooBig | InvalidUtf8 | InvalidJson | NestedTooDeep | LongString
  | ManyKeys | LongArray | BadNumber string | UnsafeInteger string

record container =
  isObject :: bool
  itemCount :: nat
  awaitingValue :: bool

text \<open>\<^verbatim>\<open>big.Int.SetString\<close> in base 10.\<close>

definition SetString10 :: "string \<Rightarrow> int option" where
  "SetString10 s =
     (case s of
        [] \<Rightarrow> None
      | c # r \<Rightarrow>
          if c = CHR ''-'' then map_option (\<lambda>n. - int n) (parse_dec r)
          else if c = CHR ''+'' then map_option int (parse_dec r)
          else map_option int (parse_dec s))"

definition checkSafeInteger :: "string \<Rightarrow> limit_error + unit" where
  "checkSafeInteger s =
     (if list_ex (\<lambda>c. c \<in> set ''.eE'') s then Inr ()
      else case SetString10 s of
        None \<Rightarrow> Inl (BadNumber s)
      | Some i \<Rightarrow> if \<bar>i\<bar> > safeIntegerBound then Inl (UnsafeInteger s) else Inr ())"

text \<open>The stack has its top first.\<close>

definition recordElement :: "bool \<Rightarrow> container list \<Rightarrow> limit_error + container list" where
  "recordElement isLeaf stack =
     (case stack of
        [] \<Rightarrow> Inr []
      | c # below \<Rightarrow>
          if isObject c \<and> isLeaf \<and> \<not> awaitingValue c then Inr (c\<lparr>awaitingValue := True\<rparr> # below)
          else
            let c = (if isObject c then c\<lparr>awaitingValue := False\<rparr> else c);
                c = c\<lparr>itemCount := itemCount c + 1\<rparr>
            in if isObject c
               then (if itemCount c > MaxKeys then Inl ManyKeys else Inr (c # below))
               else (if itemCount c > MaxArrayLength then Inl LongArray else Inr (c # below)))"

definition with_depth :: "nat \<Rightarrow> limit_error + container list \<Rightarrow> limit_error + nat \<times> container list" where
  "with_depth depth r = bind_res r (\<lambda>stack. Inr (depth, stack))"

definition handle_token :: "token \<Rightarrow> nat \<times> container list \<Rightarrow> limit_error + nat \<times> container list" where
  "handle_token tok = (\<lambda>(depth, stack).
     case tok of
       TDelim c \<Rightarrow>
         if c = CHR ''{'' \<or> c = CHR ''['' then
           let depth = depth + 1 in
           if depth > MaxObjectDepth then Inl NestedTooDeep
           else Inr (depth, \<lparr>isObject = (c = CHR ''{''), itemCount = 0, awaitingValue = False\<rparr> # stack)
         else if c = CHR ''}'' \<or> c = CHR '']'' then
           let (depth, stack) = (if depth > 0 then (depth - 1, tl stack) else (depth, stack))
           in with_depth depth (recordElement False stack)
         else Inr (depth, stack)
     | TString v \<Rightarrow>
         if str_len v > MaxStringLength then Inl LongString else with_depth depth (recordElement True stack)
     | TNumber v \<Rightarrow> bind_res (checkSafeInteger v) (\<lambda>_. with_depth depth (recordElement True stack))
     | _ \<Rightarrow> with_depth depth (recordElement True stack))"

fun run_tokens :: "token list \<Rightarrow> nat \<times> container list \<Rightarrow> limit_error + nat \<times> container list" where
  "run_tokens [] st = Inr st"
| "run_tokens (t # ts) st = bind_res (handle_token t st) (run_tokens ts)"

text \<open>\<^verbatim>\<open>io.EOF\<close> ends the scan without an error, also when it comes inside an open container
  (\<open>truncated_passes\<close>).\<close>

definition limit_walk :: "token list \<times> bool \<Rightarrow> limit_error + unit" where
  "limit_walk = (\<lambda>(ts, clean). bind_res (run_tokens ts (0, [])) (\<lambda>_. if clean then Inr () else Inl InvalidJson))"

definition CheckLimits :: "decoder \<Rightarrow> bytes \<Rightarrow> limit_error + unit" where
  "CheckLimits D raw =
     (if length raw = 0 then Inl EmptyDocument
      else if length raw > MaxDocumentBytes then Inl DocumentTooBig
      else if \<not> dcUtf8Valid D raw then Inl InvalidUtf8
      else limit_walk (dcTokens D raw))"

text \<open>The canonicalizer and the hash are third-party code: parameters.\<close>

datatype canon_error = LimitViolated limit_error | CanonFailed

definition ServerCanonicalize :: "decoder \<Rightarrow> (bytes \<Rightarrow> bytes option) \<Rightarrow> bytes \<Rightarrow> canon_error + bytes" where
  "ServerCanonicalize D jcs raw =
     (case CheckLimits D raw of
        Inl e \<Rightarrow> Inl (LimitViolated e)
      | Inr _ \<Rightarrow> (case jcs raw of None \<Rightarrow> Inl CanonFailed | Some b \<Rightarrow> Inr b))"

section \<open>What the scan accepts\<close>

fun server_fits :: "nat \<Rightarrow> jvalue \<Rightarrow> bool" where
  "server_fits depth (JNumber s) \<longleftrightarrow> checkSafeInteger s = Inr ()"
| "server_fits depth (JString s) \<longleftrightarrow> str_len s \<le> MaxStringLength"
| "server_fits depth (JArray vs) \<longleftrightarrow>
     depth < MaxObjectDepth \<and> length vs \<le> MaxArrayLength \<and> list_all (server_fits (depth + 1)) vs"
| "server_fits depth (JObject kvs) \<longleftrightarrow>
     depth < MaxObjectDepth \<and> length kvs \<le> MaxKeys \<and>
     list_all (\<lambda>(k, v). str_len k \<le> MaxStringLength \<and> server_fits (depth + 1) v) kvs"
| "server_fits depth v \<longleftrightarrow> True"

lemma run_tokens_append: "run_tokens (xs @ ys) st = bind_res (run_tokens xs st) (run_tokens ys)"
  by (induction xs arbitrary: st) (auto simp: bind_res_def split: sum.splits)

definition value_expected :: "container list \<Rightarrow> bool" where
  "value_expected stack \<longleftrightarrow> (case stack of [] \<Rightarrow> True | c # _ \<Rightarrow> isObject c \<longrightarrow> awaitingValue c)"

lemma recordElement_leaf: "value_expected stack \<Longrightarrow> recordElement True stack = recordElement False stack"
  by (auto simp: recordElement_def value_expected_def split: list.splits)

definition scans :: "bool \<Rightarrow> limit_error + nat \<times> container list \<Rightarrow> limit_error + nat \<times> container list \<Rightarrow> bool" where
  "scans ok st res \<longleftrightarrow> (if ok then res = st else \<exists>e. res = Inl e)"

lemma scans_bind:
  assumes "scans ok st m" "\<And>x. ok \<Longrightarrow> st = Inr x \<Longrightarrow> scans ok' st' (f x)"
    and "\<And>e. ok \<Longrightarrow> st = Inl e \<Longrightarrow> \<not> ok'" "\<not> ok \<Longrightarrow> \<not> ok'"
  shows "scans ok' st' (bind_res m f)"
proof (cases ok)
  case True
  with assms show ?thesis by (cases st) (auto simp: scans_def)
qed (use assms in \<open>auto simp: scans_def\<close>)

lemma scan_array_items:
  assumes "\<And>v stack. v \<in> set vs \<Longrightarrow> value_expected stack \<Longrightarrow> length stack = d \<Longrightarrow>
      scans (server_fits d v) (with_depth d (recordElement False stack)) (run_tokens (tokens_of v) (d, stack))"
    and "\<not> isObject c" "length (c # stack) = d"
  shows "scans (list_all (server_fits d) vs \<and> (vs = [] \<or> itemCount c + length vs \<le> MaxArrayLength))
    (Inr (d, c\<lparr>itemCount := itemCount c + length vs\<rparr> # stack)) (run_tokens (concat (map tokens_of vs)) (d, c # stack))"
  using assms
proof (induction vs arbitrary: c)
  case (Cons v vs)
  let ?c = "c\<lparr>itemCount := itemCount c + 1\<rparr>"
  have "value_expected (c # stack)" using Cons.prems(2) by (simp add: value_expected_def)
  with Cons.prems have v: "scans (server_fits d v) (with_depth d (recordElement False (c # stack)))
      (run_tokens (tokens_of v) (d, c # stack))" by simp
  have next_c: "recordElement False (c # stack) = (if itemCount c + 1 > MaxArrayLength then Inl LongArray else Inr (?c # stack))"
    using Cons.prems(2) by (simp add: recordElement_def Let_def)
  have rest: "scans (list_all (server_fits d) vs \<and> (vs = [] \<or> itemCount ?c + length vs \<le> MaxArrayLength))
    (Inr (d, ?c\<lparr>itemCount := itemCount ?c + length vs\<rparr> # stack)) (run_tokens (concat (map tokens_of vs)) (d, ?c # stack))"
  proof (rule Cons.IH)
    show "scans (server_fits d v) (with_depth d (recordElement False stack)) (run_tokens (tokens_of v) (d, stack))"
      if "v \<in> set vs" "value_expected stack" "length stack = d" for v stack
      using Cons.prems(1) that by simp
  qed (use Cons.prems in simp_all)
  show ?case
    unfolding list.map concat.simps run_tokens_append
    by (rule scans_bind [OF v]) (use rest in \<open>auto simp: next_c with_depth_def scans_def split: if_splits\<close>)
qed (simp add: scans_def)

lemma scan_object_items:
  assumes "\<And>k v stack. (k, v) \<in> set kvs \<Longrightarrow> value_expected stack \<Longrightarrow> length stack = d \<Longrightarrow>
      scans (server_fits d v) (with_depth d (recordElement False stack)) (run_tokens (tokens_of v) (d, stack))"
    and "isObject c" "\<not> awaitingValue c" "length (c # stack) = d"
  shows "scans (list_all (\<lambda>(k, v). str_len k \<le> MaxStringLength \<and> server_fits d v) kvs \<and>
      (kvs = [] \<or> itemCount c + length kvs \<le> MaxKeys))
    (Inr (d, c\<lparr>itemCount := itemCount c + length kvs\<rparr> # stack))
    (run_tokens (concat (map (\<lambda>(k, v). TString k # tokens_of v) kvs)) (d, c # stack))"
  using assms
proof (induction kvs arbitrary: c)
  case (Cons kv kvs)
  obtain k v where kv: "kv = (k, v)" by (cases kv)
  let ?a = "c\<lparr>awaitingValue := True\<rparr>" and ?c = "c\<lparr>itemCount := itemCount c + 1\<rparr>"
  have key: "handle_token (TString k) (d, c # stack) =
      (if str_len k > MaxStringLength then Inl LongString else Inr (d, ?a # stack))"
    using Cons.prems(2,3) by (simp add: handle_token_def recordElement_def with_depth_def)
  have "value_expected (?a # stack)" by (simp add: value_expected_def)
  from Cons.prems(1) [OF _ this, of k v] Cons.prems(4)
  have v: "scans (server_fits d v) (with_depth d (recordElement False (?a # stack)))
      (run_tokens (tokens_of v) (d, ?a # stack))" by (simp add: kv)
  have next_c: "recordElement False (?a # stack) = (if itemCount c + 1 > MaxKeys then Inl ManyKeys else Inr (?c # stack))"
    using Cons.prems(2,3) by (cases c) (simp add: recordElement_def Let_def)
  have rest: "scans (list_all (\<lambda>(k, v). str_len k \<le> MaxStringLength \<and> server_fits d v) kvs \<and>
      (kvs = [] \<or> itemCount ?c + length kvs \<le> MaxKeys))
    (Inr (d, ?c\<lparr>itemCount := itemCount ?c + length kvs\<rparr> # stack))
    (run_tokens (concat (map (\<lambda>(k, v). TString k # tokens_of v) kvs)) (d, ?c # stack))"
  proof (rule Cons.IH)
    show "scans (server_fits d v) (with_depth d (recordElement False stack)) (run_tokens (tokens_of v) (d, stack))"
      if "(k, v) \<in> set kvs" "value_expected stack" "length stack = d" for k v stack
      by (rule Cons.prems(1) [OF _ that(2,3), of k]) (simp add: that(1))
  qed (use Cons.prems in simp_all)
  show ?case
  proof (cases "str_len k > MaxStringLength")
    case True
    then show ?thesis by (simp add: kv key scans_def)
  next
    case False
    have "scans (list_all (\<lambda>(k, v). str_len k \<le> MaxStringLength \<and> server_fits d v) (kv # kvs) \<and>
        (kv # kvs = [] \<or> itemCount c + length (kv # kvs) \<le> MaxKeys))
      (Inr (d, c\<lparr>itemCount := itemCount c + length (kv # kvs)\<rparr> # stack))
      (bind_res (run_tokens (tokens_of v) (d, ?a # stack))
        (run_tokens (concat (map (\<lambda>(k, v). TString k # tokens_of v) kvs))))"
      by (rule scans_bind [OF v]) (use rest False in \<open>auto simp: next_c with_depth_def scans_def kv split: if_splits\<close>)
    with False show ?thesis by (simp add: kv key run_tokens_append)
  qed
qed (simp add: scans_def)

lemma scan_value:
  "value_expected stack \<Longrightarrow> length stack = d \<Longrightarrow>
     scans (server_fits d v) (with_depth d (recordElement False stack)) (run_tokens (tokens_of v) (d, stack))"
proof (induction v arbitrary: stack d)
  case (JNumber s)
  then show ?case
    by (cases "checkSafeInteger s") (simp_all add: handle_token_def recordElement_leaf scans_def bind_res_def with_depth_def split: sum.split)
next
  case (JArray vs)
  let ?c = "\<lparr>isObject = False, itemCount = 0, awaitingValue = False\<rparr>"
  have "scans (list_all (server_fits (d + 1)) vs \<and> (vs = [] \<or> itemCount ?c + length vs \<le> MaxArrayLength))
    (Inr (d + 1, ?c\<lparr>itemCount := itemCount ?c + length vs\<rparr> # stack)) (run_tokens (concat (map tokens_of vs)) (d + 1, ?c # stack))"
    by (rule scan_array_items) (use JArray in auto)
  then have items: "scans (list_all (server_fits (d + 1)) vs \<and> length vs \<le> MaxArrayLength)
    (Inr (d + 1, ?c\<lparr>itemCount := length vs\<rparr> # stack)) (run_tokens (concat (map tokens_of vs)) (d + 1, ?c # stack))"
    by (cases "vs = []") (simp_all add: scans_def)
  show ?case
  proof (cases "d < MaxObjectDepth")
    case True
    have "scans (server_fits d (JArray vs)) (with_depth d (recordElement False stack))
      (bind_res (run_tokens (concat (map tokens_of vs)) (d + 1, ?c # stack)) (run_tokens [TDelim CHR '']'']))"
      by (rule scans_bind [OF items]) (use True in \<open>auto simp: scans_def handle_token_def with_depth_def bind_res_def split: sum.splits\<close>)
    moreover have "run_tokens (tokens_of (JArray vs)) (d, stack) =
        bind_res (run_tokens (concat (map tokens_of vs)) (d + 1, ?c # stack)) (run_tokens [TDelim CHR '']''])"
      using True by (simp add: handle_token_def run_tokens_append del: run_tokens.simps(2)) (simp add: handle_token_def run_tokens_append)
    ultimately show ?thesis by simp
  next
    case False
    then show ?thesis by (simp add: scans_def handle_token_def)
  qed
next
  case (JObject kvs)
  let ?c = "\<lparr>isObject = True, itemCount = 0, awaitingValue = False\<rparr>"
  have "scans (list_all (\<lambda>(k, v). str_len k \<le> MaxStringLength \<and> server_fits (d + 1) v) kvs \<and>
      (kvs = [] \<or> itemCount ?c + length kvs \<le> MaxKeys))
    (Inr (d + 1, ?c\<lparr>itemCount := itemCount ?c + length kvs\<rparr> # stack))
    (run_tokens (concat (map (\<lambda>(k, v). TString k # tokens_of v) kvs)) (d + 1, ?c # stack))"
  proof (rule scan_object_items)
    show "scans (server_fits (d + 1) v) (with_depth (d + 1) (recordElement False stack)) (run_tokens (tokens_of v) (d + 1, stack))"
      if "(k, v) \<in> set kvs" "value_expected stack" "length stack = d + 1" for k v stack
      using JObject.IH [OF that(1) _ that(2,3)] by simp
  qed (use JObject.prems in auto)
  then have items: "scans (list_all (\<lambda>(k, v). str_len k \<le> MaxStringLength \<and> server_fits (d + 1) v) kvs \<and> length kvs \<le> MaxKeys)
    (Inr (d + 1, ?c\<lparr>itemCount := length kvs\<rparr> # stack))
    (run_tokens (concat (map (\<lambda>(k, v). TString k # tokens_of v) kvs)) (d + 1, ?c # stack))"
    by (cases "kvs = []") (simp_all add: scans_def)
  show ?case
  proof (cases "d < MaxObjectDepth")
    case True
    have "scans (server_fits d (JObject kvs)) (with_depth d (recordElement False stack))
      (bind_res (run_tokens (concat (map (\<lambda>(k, v). TString k # tokens_of v) kvs)) (d + 1, ?c # stack)) (run_tokens [TDelim CHR ''}'']))"
      by (rule scans_bind [OF items]) (use True in \<open>auto simp: scans_def handle_token_def with_depth_def bind_res_def split: sum.splits\<close>)
    moreover have "run_tokens (tokens_of (JObject kvs)) (d, stack) =
        bind_res (run_tokens (concat (map (\<lambda>(k, v). TString k # tokens_of v) kvs)) (d + 1, ?c # stack)) (run_tokens [TDelim CHR ''}''])"
      using True by (simp add: handle_token_def run_tokens_append del: run_tokens.simps(2)) (simp add: handle_token_def run_tokens_append)
    ultimately show ?thesis by simp
  next
    case False
    then show ?thesis by (simp add: scans_def handle_token_def)
  qed
qed (simp_all add: handle_token_def recordElement_leaf scans_def bind_res_def with_depth_def split: sum.split)

lemma scan_values: "scans (list_all (server_fits 0) vs) (Inr (0, [])) (run_tokens (concat (map tokens_of vs)) (0, []))"
proof (induction vs)
  case (Cons v vs)
  have "value_expected []" by (simp add: value_expected_def)
  from scan_value [OF this refl, of v]
  have v: "scans (server_fits 0 v) (Inr (0, [])) (run_tokens (tokens_of v) (0, []))"
    by (simp add: recordElement_def with_depth_def)
  show ?case
    unfolding list.map concat.simps run_tokens_append
    by (rule scans_bind [OF v]) (use Cons in \<open>auto simp: scans_def split: if_splits\<close>)
qed (simp add: scans_def)

lemma CheckLimits_iff:
  assumes "dcTokens D raw = (concat (map tokens_of vs), True)"
  shows "CheckLimits D raw = Inr () \<longleftrightarrow> raw \<noteq> [] \<and> length raw \<le> MaxDocumentBytes \<and> dcUtf8Valid D raw \<and>
    list_all (server_fits 0) vs"
  using scan_values [of vs] by (auto simp: CheckLimits_def limit_walk_def assms scans_def split: if_splits)

section \<open>The signer's limits against the server's\<close>

text \<open>At most \<open>n\<close> containers nested in one another.\<close>

fun nested :: "nat \<Rightarrow> jvalue \<Rightarrow> bool" where
  "nested n (JArray vs) \<longleftrightarrow> 0 < n \<and> list_all (nested (n - 1)) vs"
| "nested n (JObject kvs) \<longleftrightarrow> 0 < n \<and> list_all (\<lambda>(k, v). nested (n - 1) v) kvs"
| "nested n v \<longleftrightarrow> True"

fun safe_numbers :: "jvalue \<Rightarrow> bool" where
  "safe_numbers (JNumber s) \<longleftrightarrow> checkSafeInteger s = Inr ()"
| "safe_numbers (JArray vs) \<longleftrightarrow> list_all safe_numbers vs"
| "safe_numbers (JObject kvs) \<longleftrightarrow> list_all (\<lambda>(k, v). safe_numbers v) kvs"
| "safe_numbers v \<longleftrightarrow> True"

fun unique_keys :: "jvalue \<Rightarrow> bool" where
  "unique_keys (JArray vs) \<longleftrightarrow> list_all unique_keys vs"
| "unique_keys (JObject kvs) \<longleftrightarrow> distinct (map fst kvs) \<and> list_all (\<lambda>(k, v). unique_keys v) kvs"
| "unique_keys v \<longleftrightarrow> True"

lemmas shared_limits = DefaultLimits_def exceeds_def too_deep_def hardMaxDepth_def MaxObjectDepth_def MaxStringLength_def
  MaxArrayLength_def MaxKeys_def

lemma server_fits_signer: "d \<le> 32 \<Longrightarrow> server_fits d v \<Longrightarrow> unique_keys v \<Longrightarrow> fits DefaultLimits d v"
proof (induction v arbitrary: d)
  case (JArray vs)
  then show ?case by (auto simp: shared_limits list_all_iff)
next
  case (JObject kvs)
  have "fits DefaultLimits (d + 1) v" if "(k, v) \<in> set kvs" for k v
    using JObject.IH [OF that, of v "d + 1"] JObject.prems that by (auto simp: list_all_iff shared_limits)
  with JObject.prems show ?case by (auto simp: shared_limits list_all_iff)
qed (simp_all add: shared_limits)

lemma signer_fits_server:
  "d \<le> 32 \<Longrightarrow> fits DefaultLimits d v \<Longrightarrow> nested (32 - d) v \<Longrightarrow> safe_numbers v \<Longrightarrow> server_fits d v"
proof (induction v arbitrary: d)
  case (JArray vs)
  then show ?case by (auto simp: shared_limits list_all_iff)
next
  case (JObject kvs)
  have "server_fits (d + 1) v" if "(k, v) \<in> set kvs" for k v
    using JObject.IH [OF that, of v "d + 1"] JObject.prems that by (fastforce simp: list_all_iff)
  with JObject.prems show ?case by (auto simp: shared_limits list_all_iff)
qed (simp_all add: shared_limits)

lemma server_fits_nested: "server_fits d v \<Longrightarrow> nested (32 - d) v \<and> safe_numbers v"
proof (induction v arbitrary: d)
  case (JArray vs)
  have "nested (32 - d - 1) v \<and> safe_numbers v" if "v \<in> set vs" for v
    using JArray.IH [OF that, of "d + 1"] JArray.prems that by (auto simp: list_all_iff)
  with JArray.prems show ?case by (auto simp: MaxObjectDepth_def list_all_iff)
next
  case (JObject kvs)
  have "nested (32 - d - 1) v \<and> safe_numbers v" if "(k, v) \<in> set kvs" for k v
    using JObject.IH [OF that, of v "d + 1"] JObject.prems that by (fastforce simp: list_all_iff)
  with JObject.prems show ?case by (fastforce simp: MaxObjectDepth_def list_all_iff)
qed simp_all

lemma fits_unique: "fits lim d v \<Longrightarrow> unique_keys v"
proof (induction v arbitrary: d)
  case (JObject kvs)
  have "unique_keys v" if "(k, v) \<in> set kvs" for k v
    using JObject.IH [OF that, of v "d + 1"] JObject.prems that by (auto simp: list_all_iff)
  with JObject.prems show ?case by (auto simp: list_all_iff)
qed (auto simp: list_all_iff)

section \<open>Properties\<close>

text \<open>C30: the signer's and the server's limits agree on every well-formed document nested at most
  32 containers deep whose integers are in the safe range: the server's scan accepts it and no
  key repeats exactly when the signer's parser accepts it. In particular a document the server
  accepts, without a repeated key, is never refused by the signer.\<close>

theorem limits_agree:
  assumes "decoder_ok D" "dcTokens D raw = (tokens_of v, True)" "raw \<noteq> []"
  shows "CheckLimits D raw = Inr () \<and> unique_keys v \<longleftrightarrow>
    ParseWithLimits D raw DefaultLimits = Inr v \<and> nested 32 v \<and> safe_numbers v"
proof -
  have "CheckLimits D raw = Inr () \<longleftrightarrow> length raw \<le> MaxDocumentBytes \<and> dcUtf8Valid D raw \<and> server_fits 0 v"
    using CheckLimits_iff [of D raw "[v]"] assms(2,3) by simp
  moreover have "ParseWithLimits D raw DefaultLimits = Inr v \<longleftrightarrow>
      length raw \<le> MaxDocumentBytes \<and> dcUtf8Valid D raw \<and> fits DefaultLimits 0 v"
    using parse_value_accepts [OF assms(1), of raw DefaultLimits v] assms(2)
    by (auto simp: DefaultLimits_def exceeds_def MaxDocumentBytes_def)
  ultimately show ?thesis
    using server_fits_signer [of 0 v] signer_fits_server [of 0 v] server_fits_nested [of 0 v] fits_unique [of DefaultLimits 0 v]
    by auto
qed

fun brackets :: "nat \<Rightarrow> jvalue" where
  "brackets 0 = JArray []"
| "brackets (Suc n) = JArray [brackets n]"

lemma brackets_fit: "d + n \<le> 32 \<Longrightarrow> fits DefaultLimits d (brackets n)"
  by (induction n arbitrary: d) (simp_all add: DefaultLimits_def exceeds_def too_deep_def hardMaxDepth_def)

lemma brackets_scan: "d + n = 32 \<Longrightarrow> run_tokens (tokens_of (brackets n) @ ts) (d, stack) = Inl NestedTooDeep"
  by (induction n arbitrary: d ts stack) (simp_all add: handle_token_def MaxObjectDepth_def)

lemma demo_decoder_one: "dcTokens (demo_decoder v) [1] = (tokens_of v, True)" "dcUtf8Valid (demo_decoder v) [1]"
  by (simp_all add: demo_decoder_def)

lemma demo_parse: "ParseWithLimits (demo_decoder v) [1] DefaultLimits = Inr v \<longleftrightarrow> fits DefaultLimits 0 v"
  by (subst parse_value_accepts [OF demo_decoder_ok])
    (simp add: demo_decoder_one exceeds_def DefaultLimits_def)

text \<open>Where they do not agree. The signer accepts 33 arrays nested in one another, the innermost
  empty (its depth counts the elements, so an empty container is not one deeper), and an integer
  outside the safe range; the server refuses both.\<close>

theorem limits_differ:
  "ParseWithLimits (demo_decoder (brackets 32)) [1] DefaultLimits = Inr (brackets 32) \<and>
   CheckLimits (demo_decoder (brackets 32)) [1] = Inl NestedTooDeep \<and>
   ParseWithLimits (demo_decoder (JNumber ''9007199254740993'')) [1] DefaultLimits = Inr (JNumber ''9007199254740993'') \<and>
   CheckLimits (demo_decoder (JNumber ''9007199254740993'')) [1] = Inl (UnsafeInteger ''9007199254740993'')"
proof (intro conjI)
  show "ParseWithLimits (demo_decoder (brackets 32)) [1] DefaultLimits = Inr (brackets 32)"
    unfolding demo_parse by (rule brackets_fit) simp
  show "CheckLimits (demo_decoder (brackets 32)) [1] = Inl NestedTooDeep"
    using brackets_scan [of 0 32 "[]" "[]"]
    by (simp add: CheckLimits_def MaxDocumentBytes_def demo_decoder_one limit_walk_def)
  show "ParseWithLimits (demo_decoder (JNumber ''9007199254740993'')) [1] DefaultLimits = Inr (JNumber ''9007199254740993'')"
    unfolding demo_parse by (simp add: DefaultLimits_def exceeds_def too_deep_def hardMaxDepth_def)
  have "checkSafeInteger ''9007199254740993'' = Inl (UnsafeInteger ''9007199254740993'')"
    by (simp add: checkSafeInteger_def SetString10_def parse_dec_def isDigit_def digit_val_def horner_def safeIntegerBound_def)
  then show "CheckLimits (demo_decoder (JNumber ''9007199254740993'')) [1] = Inl (UnsafeInteger ''9007199254740993'')"
    by (simp add: CheckLimits_def MaxDocumentBytes_def demo_decoder_one limit_walk_def handle_token_def)
qed

text \<open>A truncated document passes the scan: after \<^verbatim>\<open>[null\<close> the tokenizer reports \<^verbatim>\<open>io.EOF\<close>. The signer's
  parser refuses it.\<close>

definition truncated_decoder :: decoder where
  "truncated_decoder = \<lparr>dcTokens = (\<lambda>b. if b = [1] then ([TDelim CHR ''['', TNull], True) else ([], False)), dcUtf8Valid = (\<lambda>_. True)\<rparr>"

lemma truncated_passes:
  "decoder_ok truncated_decoder" "CheckLimits truncated_decoder [1] = Inr ()"
  "ParseWithLimits truncated_decoder [1] DefaultLimits \<noteq> Inr v"
proof -
  have "fst (dcTokens truncated_decoder input) @ (if input = [1] then [TDelim CHR '']''] else []) =
      concat (map tokens_of (if input = [1] then [JArray [JNull]] else []))" for input
    by (simp add: truncated_decoder_def)
  then show ok: "decoder_ok truncated_decoder" unfolding decoder_ok_def by blast
  show "CheckLimits truncated_decoder [1] = Inr ()"
    by (simp add: CheckLimits_def truncated_decoder_def MaxDocumentBytes_def limit_walk_def handle_token_def
        with_depth_def recordElement_def MaxObjectDepth_def MaxArrayLength_def Let_def)
  have "tokens_of v \<noteq> [TDelim CHR ''['', TNull]"
    by (cases v) (auto simp: append_eq_Cons_conv)
  then show "ParseWithLimits truncated_decoder [1] DefaultLimits \<noteq> Inr v"
    using parse_value_accepts [OF ok] by (simp add: truncated_decoder_def eq_commute)
qed

theorem limits_agree_witness:
  "CheckLimits (demo_decoder demo_doc) [1] = Inr ()"
proof -
  have "nested 32 demo_doc" "safe_numbers demo_doc" by (simp_all add: demo_doc_def)
  moreover have "fits DefaultLimits 0 demo_doc"
    by (simp add: demo_doc_def DefaultLimits_def exceeds_def too_deep_def hardMaxDepth_def str_len_def rune_len_def)
  ultimately show ?thesis
    using limits_agree [OF demo_decoder_ok demo_decoder_one(1) not_Cons_self2, of demo_doc] demo_parse by blast
qed

end
