(* ===== verification/CanonNumber.thy ===== *)
theory CanonNumber
  imports GoStd
begin

text \<open>
  The ECMAScript number writer of the signer, \<open>formatNumber\<close> of
  \<^verbatim>\<open>signer/internal/canonical/canonical.go\<close>. A float64 is given by its shortest decimal digits
  and exponent, which determine it, and \<^verbatim>\<open>strconv.FormatFloat\<close> writes it. The lemmas read a
  canonical number back, so its text determines the number.
\<close>

section \<open>Numbers\<close>

datatype gofloat = FNaN | FInf bool | FZero bool | FNum bool "nat list" int

text \<open>The shortest digits of a finite float: none is above 9, the first and the last are not 0.\<close>

definition float_wf :: "gofloat \<Rightarrow> bool" where
  "float_wf f =
     (case f of
        FNum neg ds ex \<Rightarrow> ds \<noteq> [] \<and> hd ds \<noteq> 0 \<and> last ds \<noteq> 0 \<and> (\<forall>d\<in>set ds. d < 10) \<and> \<bar>ex\<bar> < 1000
      | _ \<Rightarrow> True)"

text \<open>\<^verbatim>\<open>strconv.FormatFloat(f, 'e', -1, 64)\<close>: the exponent has a sign and at least two digits.\<close>

definition FormatE :: "nat list \<Rightarrow> int \<Rightarrow> string" where
  "FormatE ds ex =
     digit_char (hd ds) # (if tl ds = [] then '''' else CHR ''.'' # map digit_char (tl ds)) @
     CHR ''e'' # (if ex < 0 then CHR ''-'' else CHR ''+'') #
     (if \<bar>ex\<bar> < 10 then CHR ''0'' # dec_nat (nat \<bar>ex\<bar>) else dec_nat (nat \<bar>ex\<bar>))"

datatype write_error = InvalidNumber | NonFinite | BadFormat string

definition number_layout :: "string \<Rightarrow> int \<Rightarrow> string" where
  "number_layout digits n =
     (let k = int (length digits) in
      if k \<le> n \<and> n \<le> 21 then digits @ replicate (nat (n - k)) CHR ''0''
      else if 0 < n \<and> n \<le> 21 then take (nat n) digits @ CHR ''.'' # drop (nat n) digits
      else if - 6 < n \<and> n \<le> 0 then ''0.'' @ replicate (nat (- n)) CHR ''0'' @ digits
      else
        let e = n - 1 in
        hd digits # (if k > 1 then CHR ''.'' # tl digits else '''') @
        CHR ''e'' # (if e \<ge> 0 then CHR ''+'' else CHR ''-'') # dec_int (if e \<ge> 0 then e else - e))"

definition formatFinite :: "bool \<Rightarrow> string \<Rightarrow> write_error + string" where
  "formatFinite neg repr =
     (case cut repr ''e'' of
        None \<Rightarrow> Inl (BadFormat repr)
      | Some (mantissa, expPart) \<Rightarrow>
          (case atoi expPart of
             None \<Rightarrow> Inl (BadFormat expPart)
           | Some ex \<Rightarrow>
               let digits = (case cut mantissa ''.'' of None \<Rightarrow> mantissa | Some (a, b) \<Rightarrow> a @ b);
                   s = number_layout digits (ex + 1)
               in Inr (if neg then CHR ''-'' # s else s)))"

definition formatNumber :: "gofloat \<Rightarrow> write_error + string" where
  "formatNumber f =
     (case f of
        FNaN \<Rightarrow> Inl NonFinite
      | FInf _ \<Rightarrow> Inl NonFinite
      | FZero _ \<Rightarrow> Inr ''0''
      | FNum neg ds ex \<Rightarrow> formatFinite neg (FormatE ds ex))"

text \<open>0 and -0 are the same number.\<close>

definition float_value :: "gofloat \<Rightarrow> gofloat" where
  "float_value f = (case f of FZero _ \<Rightarrow> FZero False | _ \<Rightarrow> f)"

lemma formatNumber_value: "formatNumber (float_value f) = formatNumber f"
  by (cases f) (simp_all add: formatNumber_def float_value_def)

section \<open>Reading a number back\<close>

text \<open>
  What an ECMAScript number text denotes: its sign, its decimal digits without leading or trailing
  zeros, and the position of the decimal point before which the digits stand.
\<close>

definition stripZeros :: "string \<Rightarrow> string" where
  "stripZeros s = rev (dropWhile (\<lambda>c. c = CHR ''0'') (rev s))"

definition read_decimal :: "string \<Rightarrow> string \<times> int" where
  "read_decimal s =
     (case cut s ''e'' of
        Some (m, e) \<Rightarrow>
          ((case cut m ''.'' of None \<Rightarrow> m | Some (a, b) \<Rightarrow> a @ b),
           (case atoi e of None \<Rightarrow> 0 | Some i \<Rightarrow> i + 1))
      | None \<Rightarrow>
          (case cut s ''.'' of
             Some (a, b) \<Rightarrow>
               if a = ''0''
               then (dropWhile (\<lambda>c. c = CHR ''0'') b, - int (length (takeWhile (\<lambda>c. c = CHR ''0'') b)))
               else (a @ b, int (length a))
           | None \<Rightarrow> (stripZeros s, int (length s))))"

definition read_number :: "string \<Rightarrow> bool \<times> string \<times> int" where
  "read_number s = (case s of c # r \<Rightarrow> if c = CHR ''-'' then (True, read_decimal r) else (False, read_decimal s)
     | [] \<Rightarrow> (False, read_decimal s))"

text \<open>The digits of a finite number: none of them stands at an end as a zero.\<close>

definition decimal :: "string \<Rightarrow> bool" where
  "decimal s \<longleftrightarrow> s \<noteq> [] \<and> hd s \<noteq> CHR ''0'' \<and> last s \<noteq> CHR ''0'' \<and> list_all isDigit s"

lemma cut_absent: "c \<notin> set s \<Longrightarrow> cut s [c] = None"
  by (induction s) auto

lemma cut_char: "c \<notin> set a \<Longrightarrow> cut (a @ c # b) [c] = Some (a, b)"
  using cut_at_first [of c a "[]" b] by simp

lemma not_digit: "\<not> isDigit CHR ''e''" "\<not> isDigit CHR ''.''" "\<not> isDigit CHR ''-''" "isDigit CHR ''0''"
  by (simp_all add: isDigit_def)

lemma digits_only:
  assumes "list_all isDigit s" "\<not> isDigit c"
  shows "c \<notin> set s"
  using assms by (auto simp: list_all_iff)

lemma parse_dec_zero: "parse_dec (CHR ''0'' # dec_nat n) = Some n"
  using parse_dec_nat [of n]
  by (auto simp: parse_dec_def digit_val_def horner_def not_digit split: if_splits)

lemma atoi_signed:
  assumes "\<bar>i\<bar> < 1000" "parse_dec t = Some (nat \<bar>i\<bar>)"
  shows "atoi ((if i < 0 then CHR ''-'' else CHR ''+'') # t) = Some i"
  using assms by (auto simp: atoi_def Let_def)

lemma takeWhile_zero_digits:
  assumes "ds \<noteq> []" "hd ds \<noteq> CHR ''0''"
  shows "takeWhile (\<lambda>c. c = CHR ''0'') (replicate m CHR ''0'' @ ds) = replicate m CHR ''0''"
    "dropWhile (\<lambda>c. c = CHR ''0'') (replicate m CHR ''0'' @ ds) = ds"
  using assms by (induction m; cases ds; simp)+

lemma stripZeros_append:
  assumes "ds \<noteq> []" "last ds \<noteq> CHR ''0''"
  shows "stripZeros (ds @ replicate m CHR ''0'') = ds"
  using takeWhile_zero_digits(2) [of "rev ds" m] assms by (simp add: stripZeros_def hd_rev)

lemma mantissa_cut:
  assumes "list_all isDigit ds" "ds \<noteq> []"
  shows "(case cut (hd ds # (if tl ds = [] then [] else CHR ''.'' # tl ds)) ''.'' of None \<Rightarrow>
      hd ds # (if tl ds = [] then [] else CHR ''.'' # tl ds) | Some (a, b) \<Rightarrow> a @ b) = ds"
proof (cases ds)
  case (Cons d r)
  have d: "CHR ''.'' \<noteq> d" using assms(1) Cons not_digit(2) by auto
  show ?thesis
  proof (cases "r = []")
    case False
    have "cut ([d] @ CHR ''.'' # r) ''.'' = Some ([d], r)" by (rule cut_char) (use d in simp)
    then show ?thesis using False Cons by simp
  qed (use Cons d cut_absent [of "CHR ''.''" "[d]"] in simp)
qed (use assms in simp)

lemma mantissa_no_e:
  assumes "list_all isDigit ds" "ds \<noteq> []"
  shows "CHR ''e'' \<notin> set (hd ds # (if tl ds = [] then [] else CHR ''.'' # tl ds))"
proof -
  have "CHR ''e'' \<notin> set ds" using digits_only [OF assms(1) not_digit(1)] .
  with assms(2) show ?thesis by (cases ds) auto
qed

lemma read_layout:
  assumes "decimal ds" "\<bar>n - 1\<bar> < 1000"
  shows "read_decimal (number_layout ds n) = (ds, n)"
proof -
  have ne: "ds \<noteq> []" "hd ds \<noteq> CHR ''0''" "last ds \<noteq> CHR ''0''" and dg: "list_all isDigit ds"
    using assms(1) by (simp_all add: decimal_def)
  have e: "CHR ''e'' \<notin> set ds" and p: "CHR ''.'' \<notin> set ds" using digits_only [OF dg] not_digit by auto
  consider "int (length ds) \<le> n" "n \<le> 21" | "0 < n" "n < int (length ds)" "n \<le> 21" | "- 6 < n" "n \<le> 0"
    | "n > 21 \<or> n \<le> - 6" by linarith
  then show ?thesis
  proof cases
    case 1
    let ?s = "ds @ replicate (nat (n - int (length ds))) CHR ''0''"
    have "number_layout ds n = ?s" using 1 by (simp add: number_layout_def)
    moreover have "cut ?s ''e'' = None" "cut ?s ''.'' = None" using e p by (simp_all add: cut_absent)
    ultimately show ?thesis using 1 ne by (simp add: read_decimal_def stripZeros_append)
  next
    case 2
    define a where "a = take (nat n) ds"
    define b where "b = drop (nat n) ds"
    have ab: "a @ b = ds" "length a = nat n" using 2 by (auto simp: a_def b_def)
    with 2 ne have "a \<noteq> ''0''" by (cases a) auto
    have "number_layout ds n = a @ CHR ''.'' # b" using 2 by (simp add: number_layout_def a_def b_def)
    moreover have "cut (a @ CHR ''.'' # b) ''e'' = None" by (rule cut_absent) (use e ab(1) in auto)
    moreover have "cut (a @ CHR ''.'' # b) ''.'' = Some (a, b)" by (rule cut_char) (use p ab(1) in auto)
    ultimately show ?thesis using ab 2 \<open>a \<noteq> ''0''\<close> by (simp add: read_decimal_def)
  next
    case 3
    let ?z = "replicate (nat (- n)) CHR ''0'' @ ds"
    have "\<not> int (length ds) \<le> n" using 3 ne(1) by (cases ds) auto
    have "number_layout ds n = ''0'' @ CHR ''.'' # ?z"
      using 3 \<open>\<not> int (length ds) \<le> n\<close> by (simp add: number_layout_def Let_def)
    moreover have "cut (''0'' @ CHR ''.'' # ?z) ''e'' = None" by (rule cut_absent) (use e in auto)
    moreover have "cut (''0'' @ CHR ''.'' # ?z) ''.'' = Some (''0'', ?z)" by (rule cut_char) simp
    ultimately show ?thesis using 3 takeWhile_zero_digits [OF ne(1,2)] by (simp add: read_decimal_def)
  next
    case 4
    let ?m = "hd ds # (if tl ds = [] then [] else CHR ''.'' # tl ds)"
    let ?x = "(if n - 1 < 0 then CHR ''-'' else CHR ''+'') # dec_nat (nat \<bar>n - 1\<bar>)"
    have "int (length ds) > 1 \<longleftrightarrow> tl ds \<noteq> []" using ne(1) by (cases ds) auto
    moreover have "\<not> (int (length ds) \<le> n \<and> n \<le> 21)" "\<not> (0 < n \<and> n \<le> 21)" "\<not> (- 6 < n \<and> n \<le> 0)"
      using 4 ne(1) by (auto simp: not_le)
    ultimately have "number_layout ds n = ?m @ CHR ''e'' # ?x"
      by (auto simp: number_layout_def Let_def dec_int_def)
    moreover have "cut (?m @ CHR ''e'' # ?x) ''e'' = Some (?m, ?x)" by (rule cut_char) (rule mantissa_no_e [OF dg ne(1)])
    moreover have "atoi ?x = Some (n - 1)" if "\<bar>n - 1\<bar> < 1000" by (rule atoi_signed [OF that]) simp
    ultimately show ?thesis using mantissa_cut [OF dg ne(1)] assms(2) by (simp add: read_decimal_def)
  qed
qed

section \<open>Finite numbers\<close>

lemma layout_chars:
  assumes "list_all isDigit ds" "ds \<noteq> []"
  shows "number_layout ds n \<noteq> [] \<and> isDigit (hd (number_layout ds n)) \<and>
    (\<forall>c\<in>set (number_layout ds n). isDigit c \<or> c \<in> {CHR ''.'', CHR ''e'', CHR ''+'', CHR ''-''})"
proof -
  have d: "isDigit c" if "c \<in> set ds" for c using assms(1) that by (simp add: list_all_iff)
  have t: "set (tl ds) \<subseteq> set ds" by (cases ds) auto
  have k: "isDigit (hd (take (nat n) ds))" "take (nat n) ds \<noteq> []" if "0 < n"
    using d [of "hd ds"] assms(2) that by (cases ds; simp add: take_Cons' )+
  have hd: "isDigit (hd (number_layout ds n)) \<and> number_layout ds n \<noteq> []"
    using assms(2) k d by (auto simp: number_layout_def Let_def not_digit)
  have "\<forall>c\<in>set (number_layout ds n). isDigit c \<or> c \<in> {CHR ''.'', CHR ''e'', CHR ''+'', CHR ''-''}"
    using d t assms(2) dec_nat_not_minus
    by (auto simp: number_layout_def Let_def not_digit dec_int_def dest!: in_set_takeD in_set_dropD split: if_splits)
  with hd show ?thesis by blast
qed

lemma wf_digits:
  assumes "float_wf (FNum neg ds ex)"
  shows "decimal (map digit_char ds)" "inj_on digit_char {..<10}" "set ds \<subseteq> {..<10}" "\<bar>ex\<bar> < 1000"
proof -
  have z: "digit_char d \<noteq> CHR ''0''" if "d < 10" "d \<noteq> 0" for d
    using digit_val_digit_char [OF that(1)] that(2) by (auto simp: digit_val_def)
  from assms have ds: "ds \<noteq> []" "hd ds \<noteq> 0" "last ds \<noteq> 0" "\<forall>d\<in>set ds. d < 10" "\<bar>ex\<bar> < 1000"
    by (simp_all add: float_wf_def)
  then show "decimal (map digit_char ds)" using z [of "hd ds"] z [of "last ds"]
    by (auto simp: decimal_def hd_map last_map list_all_iff)
  show "inj_on digit_char {..<10}" by (rule inj_on_inverseI [of _ digit_val]) simp
  show "set ds \<subseteq> {..<10}" "\<bar>ex\<bar> < 1000" using ds by auto
qed

lemma formatNumber_finite:
  assumes "float_wf (FNum neg ds ex)"
  shows "formatNumber (FNum neg ds ex) =
    Inr ((if neg then ''-'' else '''') @ number_layout (map digit_char ds) (ex + 1))"
proof -
  note wf = wf_digits [OF assms]
  let ?ds = "map digit_char ds"
  let ?m = "hd ?ds # (if tl ?ds = [] then [] else CHR ''.'' # tl ?ds)"
  let ?t = "if \<bar>ex\<bar> < 10 then CHR ''0'' # dec_nat (nat \<bar>ex\<bar>) else dec_nat (nat \<bar>ex\<bar>)"
  let ?x = "(if ex < 0 then CHR ''-'' else CHR ''+'') # ?t"
  have ne: "?ds \<noteq> []" and dg: "list_all isDigit ?ds" using wf(1) by (simp_all add: decimal_def)
  have "FormatE ds ex = ?m @ CHR ''e'' # ?x"
    using ne by (cases ds) (auto simp: FormatE_def)
  moreover have "cut (?m @ CHR ''e'' # ?x) ''e'' = Some (?m, ?x)"
    by (rule cut_char) (rule mantissa_no_e [OF dg ne])
  moreover have "atoi ?x = Some ex" by (rule atoi_signed [OF wf(4)]) (simp add: parse_dec_zero)
  ultimately show ?thesis
    using mantissa_cut [OF dg ne] by (simp add: formatNumber_def formatFinite_def Let_def)
qed

lemma number_reads_back:
  assumes "float_wf (FNum neg ds ex)" "formatNumber (FNum neg ds ex) = Inr s"
  shows "read_number s = (neg, map digit_char ds, ex + 1)"
proof -
  note wf = wf_digits [OF assms(1)]
  let ?l = "number_layout (map digit_char ds) (ex + 1)"
  have r: "read_decimal ?l = (map digit_char ds, ex + 1)" by (rule read_layout [OF wf(1)]) (use wf(4) in simp)
  have l: "?l \<noteq> []" "isDigit (hd ?l)" using layout_chars [of "map digit_char ds"] wf(1) by (auto simp: decimal_def)
  then have "hd ?l \<noteq> CHR ''-''" using not_digit(3) by metis
  with l(1) have "read_number ?l = (False, map digit_char ds, ex + 1)"
    using r by (cases ?l) (simp_all add: read_number_def)
  moreover have "read_number (CHR ''-'' # ?l) = (True, map digit_char ds, ex + 1)" using r by (simp add: read_number_def)
  ultimately show ?thesis using assms(2) formatNumber_finite [OF assms(1)] by (cases neg) simp_all
qed

lemma formatNumber_cases:
  assumes "formatNumber f = Inr s"
  obtains b where "f = FZero b" "s = ''0''" | neg ds ex where "f = FNum neg ds ex"
  using assms by (cases f) (auto simp: formatNumber_def)

lemma formatNumber_inject:
  assumes "float_wf f" "float_wf g" "formatNumber f = Inr s" "formatNumber g = Inr s"
  shows "float_value f = float_value g"
proof -
  have zero: "read_number ''0'' = (False, '''', 1)" by (simp add: read_number_def read_decimal_def stripZeros_def)
  have num: "h = FNum neg ds ex \<Longrightarrow> float_wf h \<Longrightarrow> formatNumber h = Inr s \<Longrightarrow> ds \<noteq> [] \<and> read_number s = (neg, map digit_char ds, ex + 1)"
    for h neg ds ex using number_reads_back by (auto simp: float_wf_def)
  from assms(3) show ?thesis
  proof (cases rule: formatNumber_cases)
    case (1 b)
    from assms(4) show ?thesis
      by (cases rule: formatNumber_cases) (use 1 zero num [of g] assms in \<open>auto simp: float_value_def\<close>)
  next
    case (2 neg ds ex)
    note f = num [OF 2 assms(1,3)]
    from assms(4) show ?thesis
    proof (cases rule: formatNumber_cases)
      case (2 neg' ds' ex')
      note g = num [OF 2 assms(2,4)]
      have "map digit_char ds = map digit_char ds'" "neg = neg'" "ex = ex'" using f g by simp_all
      moreover have "ds = ds'"
        by (rule inj_on_map_eq_map [THEN iffD1, OF inj_on_subset [OF wf_digits(2)]])
          (use wf_digits(3) 2 \<open>f = _\<close> assms(1,2) calculation(1) in blast)+
      ultimately show ?thesis using 2 \<open>f = _\<close> by simp
    qed (use f zero in auto)
  qed
qed

lemma number_chars:
  assumes "float_wf f" "formatNumber f = Inr s"
  shows "s \<noteq> [] \<and> (isDigit (hd s) \<or> hd s = CHR ''-'') \<and>
    (\<forall>c\<in>set s. isDigit c \<or> c \<in> {CHR ''.'', CHR ''e'', CHR ''+'', CHR ''-''})"
  using assms(2)
proof (cases rule: formatNumber_cases)
  case (2 neg ds ex)
  then have "s = (if neg then ''-'' else '''') @ number_layout (map digit_char ds) (ex + 1)"
    using formatNumber_finite assms by simp
  moreover have "list_all isDigit (map digit_char ds)" "map digit_char ds \<noteq> []"
    using wf_digits(1) assms(1) 2 by (auto simp: decimal_def)
  note layout_chars [OF this, of "ex + 1"]
  ultimately show ?thesis by auto
qed (simp add: not_digit)

text \<open>A canonical number reads back exactly. The text written for a finite, non-zero float has its
  sign, its shortest digits and its decimal point, in each of the four layouts, so no two floats share it.\<close>

theorem number_roundtrip:
  assumes "float_wf (FNum neg ds ex)"
  shows "\<exists>s. formatNumber (FNum neg ds ex) = Inr s \<and> read_number s = (neg, map digit_char ds, ex + 1)"
  using number_reads_back [OF assms] formatNumber_finite [OF assms] by blast

theorem number_roundtrip_witness:
  "\<exists>s. formatNumber (FNum True [1, 2, 5] (- 7)) = Inr s \<and> read_number s = (True, map digit_char [1, 2, 5], - 6)"
  using number_roundtrip [of True "[1, 2, 5]" "- 7"] by (simp add: float_wf_def)

end
