(* ===== verification/Canonical.thy ===== *)
theory Canonical
  imports JsonDoc CanonNumber "HOL-Library.Multiset"
begin

text \<open>
  The RFC 8785 serializer of the signer, the second half of
  \<^verbatim>\<open>signer/internal/canonical/canonical.go\<close>: \<open>writeValue\<close>, the UTF-16 key order, string escapes
  and values; the numbers are in CanonNumber. A byte is its value below 256 while it is being written. The
  section on meaning gives the abstract content of a document: entries in key order, numbers as
  floats. \<^verbatim>\<open>json.Number.Float64\<close> is a parameter.
\<close>

section \<open>Unicode\<close>

definition valid_rune :: "nat \<Rightarrow> bool" where
  "valid_rune r \<longleftrightarrow> r < 1114112 \<and> \<not> (55296 \<le> r \<and> r < 57344)"

definition utf8 :: "nat \<Rightarrow> nat list" where
  "utf8 r =
     (if r < 128 then [r]
      else if r < 2048 then [192 + r div 64, 128 + r mod 64]
      else if r < 65536 then [224 + r div 4096, 128 + r div 64 mod 64, 128 + r mod 64]
      else [240 + r div 262144, 128 + r div 4096 mod 64, 128 + r div 64 mod 64, 128 + r mod 64])"

text \<open>\<^verbatim>\<open>utf16.Encode\<close>: characters above the basic plane are surrogate pairs.\<close>

definition utf16_rune :: "nat \<Rightarrow> nat list" where
  "utf16_rune r = (if r < 65536 then [r] else [55296 + (r - 65536) div 1024, 56320 + (r - 65536) mod 1024])"

definition utf16 :: "runes \<Rightarrow> nat list" where
  "utf16 s = concat (map utf16_rune s)"

fun units_less :: "nat list \<Rightarrow> nat list \<Rightarrow> bool" where
  "units_less ua [] = False"
| "units_less [] (y # ys) = True"
| "units_less (x # xs) (y # ys) = (if x \<noteq> y then x < y else units_less xs ys)"

definition utf16Less :: "runes \<Rightarrow> runes \<Rightarrow> bool" where
  "utf16Less a b = units_less (utf16 a) (utf16 b)"

lemma units_less_iff: "units_less xs ys \<longleftrightarrow> xs < ys"
  by (induction xs ys rule: units_less.induct) auto

lemma utf16Less_iff: "utf16Less a b \<longleftrightarrow> utf16 a < utf16 b"
  by (simp add: utf16Less_def units_less_iff)

section \<open>Strings\<close>

definition codes :: "string \<Rightarrow> nat list" where
  "codes s = map of_char s"

definition hex_code :: "nat \<Rightarrow> nat" where
  "hex_code n = (if n < 10 then 48 + n else 87 + n)"

definition escape :: "nat \<Rightarrow> nat list" where
  "escape r =
     (if r = 34 then [92, 34] else if r = 92 then [92, 92] else if r = 8 then [92, 98]
      else if r = 12 then [92, 102] else if r = 10 then [92, 110] else if r = 13 then [92, 114]
      else if r = 9 then [92, 116]
      else if r < 32 then [92, 117, 48, 48, hex_code (r div 16), hex_code (r mod 16)]
      else utf8 r)"

definition writeString :: "runes \<Rightarrow> nat list" where
  "writeString s = 34 # concat (map escape s) @ [34]"

section \<open>Values\<close>

fun join_results :: "(write_error + nat list) list \<Rightarrow> write_error + nat list" where
  "join_results [] = Inr []"
| "join_results [r] = r"
| "join_results (r # rs) = bind_res r (\<lambda>x. bind_res (join_results rs) (\<lambda>y. Inr (x @ 44 # y)))"

definition write_entry :: "runes \<times> (write_error + nat list) \<Rightarrow> write_error + nat list" where
  "write_entry = (\<lambda>(k, r). bind_res r (\<lambda>x. Inr (writeString k @ 58 # x)))"

definition write_object :: "(runes \<times> (write_error + nat list)) list \<Rightarrow> write_error + nat list" where
  "write_object entries =
     bind_res (join_results (map write_entry (sort_key (\<lambda>(k, r). utf16 k) entries))) (\<lambda>x. Inr (123 # x @ [125]))"

fun writeValue :: "(string \<Rightarrow> gofloat option) \<Rightarrow> jvalue \<Rightarrow> write_error + nat list" where
  "writeValue Float64 JNull = Inr (codes ''null'')"
| "writeValue Float64 (JBool b) = Inr (codes (if b then ''true'' else ''false''))"
| "writeValue Float64 (JNumber s) =
     (case Float64 s of
        None \<Rightarrow> Inl InvalidNumber
      | Some f \<Rightarrow> bind_res (formatNumber f) (\<lambda>t. Inr (codes t)))"
| "writeValue Float64 (JString s) = Inr (writeString s)"
| "writeValue Float64 (JArray vs) =
     bind_res (join_results (map (writeValue Float64) vs)) (\<lambda>x. Inr (91 # x @ [93]))"
| "writeValue Float64 (JObject kvs) = write_object (map (\<lambda>(k, v). (k, writeValue Float64 v)) kvs)"

definition Marshal :: "(string \<Rightarrow> gofloat option) \<Rightarrow> jvalue \<Rightarrow> write_error + bytes" where
  "Marshal Float64 v = bind_res (writeValue Float64 v) (\<lambda>x. Inr (map of_nat x))"

datatype canonical_error = ParseFailed json_error | WriteFailed write_error

definition Canonicalize :: "decoder \<Rightarrow> (string \<Rightarrow> gofloat option) \<Rightarrow> bytes \<Rightarrow> canonical_error + bytes" where
  "Canonicalize D Float64 input =
     (case Parse D input of
        Inl e \<Rightarrow> Inl (ParseFailed e)
      | Inr v \<Rightarrow> (case Marshal Float64 v of Inl e \<Rightarrow> Inl (WriteFailed e) | Inr b \<Rightarrow> Inr b))"

section \<open>Meaning\<close>

datatype meaning =
    MNull | MBool bool | MNumber "gofloat option" | MString runes | MArray "meaning list"
  | MObject "(runes \<times> meaning) list"

fun meaning_of :: "(string \<Rightarrow> gofloat option) \<Rightarrow> jvalue \<Rightarrow> meaning" where
  "meaning_of F JNull = MNull"
| "meaning_of F (JBool b) = MBool b"
| "meaning_of F (JNumber s) = MNumber (map_option float_value (F s))"
| "meaning_of F (JString s) = MString s"
| "meaning_of F (JArray vs) = MArray (map (meaning_of F) vs)"
| "meaning_of F (JObject kvs) = MObject (sort_key (\<lambda>(k, m). utf16 k) (map (\<lambda>(k, v). (k, meaning_of F v)) kvs))"

fun write_meaning :: "meaning \<Rightarrow> write_error + nat list" where
  "write_meaning MNull = Inr (codes ''null'')"
| "write_meaning (MBool b) = Inr (codes (if b then ''true'' else ''false''))"
| "write_meaning (MNumber f) =
     (case f of None \<Rightarrow> Inl InvalidNumber | Some f \<Rightarrow> bind_res (formatNumber f) (\<lambda>t. Inr (codes t)))"
| "write_meaning (MString s) = Inr (writeString s)"
| "write_meaning (MArray ms) = bind_res (join_results (map write_meaning ms)) (\<lambda>x. Inr (91 # x @ [93]))"
| "write_meaning (MObject kms) =
     bind_res (join_results (map (\<lambda>(k, m). write_entry (k, write_meaning m)) kms)) (\<lambda>x. Inr (123 # x @ [125]))"

lemma sort_key_map_pairs: "sort_key (\<lambda>(k, x). g k) (map (\<lambda>(k, x). (k, f x)) xs) = map (\<lambda>(k, x). (k, f x)) (sort_key (\<lambda>(k, x). g k) xs)"
  for g :: "'k \<Rightarrow> 'o :: linorder"
proof -
  have ins: "insort_key (\<lambda>(k, x). g k) (k, f v) (map (\<lambda>(k, x). (k, f x)) ys) =
      map (\<lambda>(k, x). (k, f x)) (insort_key (\<lambda>(k, x). g k) (k, v) ys)" for k v ys
    by (induction ys) auto
  show ?thesis by (induction xs) (auto simp: ins)
qed

lemma write_meaning_of: "writeValue F v = write_meaning (meaning_of F v)"
proof (induction v)
  case (JNumber s)
  then show ?case by (cases "F s") (simp_all add: formatNumber_value)
next
  case (JArray vs)
  then have "map (writeValue F) vs = map (write_meaning \<circ> meaning_of F) vs" by simp
  then show ?case by (simp only: writeValue.simps meaning_of.simps write_meaning.simps map_map)
next
  case (JObject kvs)
  have "map (\<lambda>(k, v). (k, writeValue F v)) kvs = map (\<lambda>(k, m). (k, write_meaning m)) (map (\<lambda>(k, v). (k, meaning_of F v)) kvs)"
    using JObject by (auto simp: snds.simps)
  moreover have "map write_entry (sort_key (\<lambda>(k, r). utf16 k) (map (\<lambda>(k, m). (k, write_meaning m)) ms)) =
      map (\<lambda>(k, m). write_entry (k, write_meaning m)) (sort_key (\<lambda>(k, m). utf16 k) ms)" for ms
    unfolding sort_key_map_pairs by (simp add: case_prod_beta')
  ultimately have "map write_entry (sort_key (\<lambda>(k, r). utf16 k) (map (\<lambda>(k, v). (k, writeValue F v)) kvs)) =
      map (\<lambda>(k, m). write_entry (k, write_meaning m))
        (sort_key (\<lambda>(k, m). utf16 k) (map (\<lambda>(k, v). (k, meaning_of F v)) kvs))"
    by (simp only:)
  then show ?case by (simp only: writeValue.simps meaning_of.simps write_meaning.simps write_object_def)
qed simp_all

section \<open>The output determines the text\<close>

lemma digits_64:
  assumes "(a :: nat) div 64 = b div 64" "a mod 64 = b mod 64"
  shows "a = b"
  by (rule trans [OF split_64 [of a, symmetric]]) (simp only: assms split_64)

lemma digits_4096:
  assumes "(a :: nat) div 4096 = b div 4096" "a div 64 mod 64 = b div 64 mod 64" "a mod 64 = b mod 64"
  shows "a = b"
  by (rule trans [OF join_3 [of a, symmetric]]) (simp only: assms join_3)

lemma digits_262144:
  assumes "(a :: nat) div 262144 = b div 262144" "a div 4096 mod 64 = b div 4096 mod 64"
    "a div 64 mod 64 = b div 64 mod 64" "a mod 64 = b mod 64"
  shows "a = b"
  by (rule trans [OF join_4 [of a, symmetric]]) (simp only: assms join_4)

lemma utf8_lead:
  assumes "valid_rune r"
  shows "\<exists>h t. utf8 r = h # t \<and> (r < 128 \<longleftrightarrow> h < 128) \<and> (r < 2048 \<longleftrightarrow> h < 224) \<and> (r < 65536 \<longleftrightarrow> h < 240) \<and>
    h < 256 \<and> (h < 128 \<longrightarrow> h = r)"
proof -
  have "192 + r div 64 < 224" if "r < 2048" using less_mult_imp_div_less [of r 32 64] that by simp
  moreover have "224 + r div 4096 < 240" if "r < 65536" using less_mult_imp_div_less [of r 16 4096] that by simp
  moreover have "240 + r div 262144 < 256" using less_mult_imp_div_less [of r 16 262144] assms by (simp add: valid_rune_def)
  ultimately show ?thesis by (auto simp: utf8_def)
qed

lemma utf8_prefix:
  assumes "valid_rune a" "valid_rune b" "utf8 a @ x = utf8 b @ y"
  shows "a = b \<and> x = y"
proof -
  obtain h t where a: "utf8 a = h # t" "(a < 128) = (h < 128)" "(a < 2048) = (h < 224)" "(a < 65536) = (h < 240)"
    using utf8_lead [OF assms(1)] by blast
  obtain h' t' where b: "utf8 b = h' # t'" "(b < 128) = (h' < 128)" "(b < 2048) = (h' < 224)" "(b < 65536) = (h' < 240)"
    using utf8_lead [OF assms(2)] by blast
  have "h = h'" using assms(3) a(1) b(1) by simp
  with a b have same: "(a < 128) = (b < 128)" "(a < 2048) = (b < 2048)" "(a < 65536) = (b < 65536)" by simp_all
  consider "a < 128" "b < 128" | "128 \<le> a" "a < 2048" "128 \<le> b" "b < 2048"
    | "2048 \<le> a" "a < 65536" "2048 \<le> b" "b < 65536" | "65536 \<le> a" "65536 \<le> b"
    using same by (meson not_le)
  then show ?thesis
  proof cases
    case 1
    then show ?thesis using assms(3) by (simp add: utf8_def)
  next
    case 2
    then show ?thesis using assms(3) digits_64 [of a b] by (simp add: utf8_def)
  next
    case 3
    then show ?thesis using assms(3) digits_4096 [of a b] by (simp add: utf8_def)
  next
    case 4
    then show ?thesis using assms(3) digits_262144 [of a b] by (simp add: utf8_def)
  qed
qed

text \<open>A raw character starts with itself or with a byte of at least 192, an escape with a backslash.\<close>

lemma escape_raw:
  assumes "valid_rune r" "\<not> (r < 32 \<or> r = 34 \<or> r = 92)"
  shows "escape r = utf8 r" "\<exists>h t. utf8 r = h # t \<and> h \<noteq> 92 \<and> h \<noteq> 34"
proof -
  show "escape r = utf8 r" using assms(2) by (simp add: escape_def)
  obtain h t where h: "utf8 r = h # t" "(r < 128) = (h < 128)" "h < 128 \<longrightarrow> h = r" using utf8_lead [OF assms(1)] by blast
  then have "h \<noteq> 92 \<and> h \<noteq> 34" using assms(2) by auto
  with h(1) show "\<exists>h t. utf8 r = h # t \<and> h \<noteq> 92 \<and> h \<noteq> 34" by blast
qed

definition unescape :: "nat \<Rightarrow> nat" where
  "unescape c = (if c = 98 then 8 else if c = 102 then 12 else if c = 110 then 10 else if c = 114 then 13
     else if c = 116 then 9 else c)"

lemma escape_code:
  assumes "r < 32 \<or> r = 34 \<or> r = 92"
  obtains c where "escape r = [92, c]" "c \<noteq> 117" "r = unescape c"
  | "escape r = [92, 117, 48, 48, hex_code (r div 16), hex_code (r mod 16)]" "r < 32"
proof (cases "r \<in> {34, 92, 8, 12, 10, 13, 9}")
  case True
  then have "\<exists>c. escape r = [92, c] \<and> c \<noteq> 117 \<and> r = unescape c" by (auto simp: escape_def unescape_def)
  with that(1) show ?thesis by blast
next
  case False
  with assms have "r < 32" "escape r = [92, 117, 48, 48, hex_code (r div 16), hex_code (r mod 16)]"
    by (auto simp: escape_def)
  with that(2) show ?thesis by blast
qed

lemma hex_code_inject: "m < 16 \<Longrightarrow> n < 16 \<Longrightarrow> hex_code m = hex_code n \<Longrightarrow> m = n"
  by (auto simp: hex_code_def split: if_splits)

lemma escape_code_prefix:
  assumes "r < 32 \<or> r = 34 \<or> r = 92" "r' < 32 \<or> r' = 34 \<or> r' = 92" "escape r @ x = escape r' @ y"
  shows "r = r' \<and> x = y"
proof (rule escape_code [OF assms(1)]; rule escape_code [OF assms(2)])
  fix c c'
  assume "escape r = [92, c]" "r = unescape c" "escape r' = [92, c']" "r' = unescape c'"
  with assms(3) show ?thesis by simp
next
  assume e: "escape r = [92, 117, 48, 48, hex_code (r div 16), hex_code (r mod 16)]" "r < 32"
    "escape r' = [92, 117, 48, 48, hex_code (r' div 16), hex_code (r' mod 16)]" "r' < 32"
  with assms(3) have "hex_code (r div 16) = hex_code (r' div 16)" "hex_code (r mod 16) = hex_code (r' mod 16)" "x = y"
    by simp_all
  then have "r div 16 = r' div 16" "r mod 16 = r' mod 16" using hex_code_inject e(2,4) by auto
  then have "r = r'" by (metis div_mult_mod_eq)
  with \<open>x = y\<close> show ?thesis by simp
qed (use assms(3) in auto)

lemma escape_prefix:
  assumes "valid_rune r" "valid_rune r'" "escape r @ x = escape r' @ y"
  shows "r = r' \<and> x = y"
proof (cases "r < 32 \<or> r = 34 \<or> r = 92"; cases "r' < 32 \<or> r' = 34 \<or> r' = 92")
  assume "r < 32 \<or> r = 34 \<or> r = 92" "r' < 32 \<or> r' = 34 \<or> r' = 92"
  then show ?thesis using escape_code_prefix assms(3) by blast
next
  assume c: "r < 32 \<or> r = 34 \<or> r = 92" and n: "\<not> (r' < 32 \<or> r' = 34 \<or> r' = 92)"
  obtain t where "escape r = 92 # t" by (rule escape_code [OF c]) auto
  with escape_raw [OF assms(2) n] assms(3) show ?thesis by auto
next
  assume n: "\<not> (r < 32 \<or> r = 34 \<or> r = 92)" and c: "r' < 32 \<or> r' = 34 \<or> r' = 92"
  obtain t where "escape r' = 92 # t" by (rule escape_code [OF c]) auto
  with escape_raw [OF assms(1) n] assms(3) show ?thesis by auto
next
  assume "\<not> (r < 32 \<or> r = 34 \<or> r = 92)" "\<not> (r' < 32 \<or> r' = 34 \<or> r' = 92)"
  then show ?thesis using escape_raw(1) utf8_prefix assms by metis
qed

lemma escape_no_quote:
  assumes "valid_rune r"
  shows "escape r @ x \<noteq> 34 # y"
proof (cases "r < 32 \<or> r = 34 \<or> r = 92")
  case True
  obtain t where "escape r = 92 # t" by (rule escape_code [OF True]) auto
  then show ?thesis by simp
next
  case False
  from escape_raw [OF assms False] show ?thesis by auto
qed

definition valid_string :: "runes \<Rightarrow> bool" where
  "valid_string s \<longleftrightarrow> (\<forall>r\<in>set s. valid_rune r)"

lemma writeString_prefix:
  assumes "valid_string s" "valid_string t" "writeString s @ x = writeString t @ y"
  shows "s = t \<and> x = y"
proof -
  have "concat (map escape s) @ 34 # x = concat (map escape t) @ 34 # y" using assms(3) by (simp add: writeString_def)
  with assms(1,2) show ?thesis
  proof (induction s arbitrary: t)
    case Nil
    show ?case
    proof (cases t)
      case (Cons r t')
      with Nil escape_no_quote [of r] show ?thesis by (auto simp: valid_string_def dest: sym)
    qed (use Nil in simp)
  next
    case (Cons r s)
    show ?case
    proof (cases t)
      case Nil
      with Cons.prems escape_no_quote [of r] show ?thesis by (auto simp: valid_string_def)
    next
      case (Cons r' t')
      from Cons.prems Cons have "escape r @ concat (map escape s) @ 34 # x = escape r' @ concat (map escape t') @ 34 # y"
        by simp
      from escape_prefix [OF _ _ this] Cons.prems Cons
      have "r = r'" "concat (map escape s) @ 34 # x = concat (map escape t') @ 34 # y" by (auto simp: valid_string_def)
      with Cons.IH [of t'] Cons.prems Cons show ?thesis by (simp add: valid_string_def)
    qed
  qed
qed

section \<open>The output determines the meaning\<close>

text \<open>A value is followed by the end of the text, a comma or a closing bracket.\<close>

definition delimiter :: "nat \<Rightarrow> bool" where
  "delimiter c \<longleftrightarrow> c \<in> {44, 93, 125}"

definition delimited :: "nat list \<Rightarrow> bool" where
  "delimited r \<longleftrightarrow> (case r of [] \<Rightarrow> True | c # _ \<Rightarrow> delimiter c)"

fun valid_meaning :: "meaning \<Rightarrow> bool" where
  "valid_meaning (MNumber (Some f)) = (float_wf f \<and> float_value f = f)"
| "valid_meaning (MString s) = valid_string s"
| "valid_meaning (MArray ms) = list_all valid_meaning ms"
| "valid_meaning (MObject kms) = list_all (\<lambda>(k, m). valid_string k \<and> valid_meaning m) kms"
| "valid_meaning _ = True"

fun lead :: "meaning \<Rightarrow> nat set" where
  "lead MNull = {110}"
| "lead (MBool b) = (if b then {116} else {102})"
| "lead (MNumber f) = {45} \<union> {48..57}"
| "lead (MString s) = {34}"
| "lead (MArray ms) = {91}"
| "lead (MObject kms) = {123}"

lemma codes_bool: "codes ''null'' = [110, 117, 108, 108]" "codes ''true'' = [116, 114, 117, 101]"
  "codes ''false'' = [102, 97, 108, 115, 101]"
  by (simp_all add: codes_def)

lemma write_lead:
  assumes "valid_meaning m" "write_meaning m = Inr x"
  shows "x \<noteq> [] \<and> hd x \<in> lead m"
proof (cases m)
  case (MNumber g)
  with assms obtain f t where f: "float_wf f" "formatNumber f = Inr t" "x = codes t"
    by (auto simp: res_iff split: option.splits)
  from number_chars [OF f(1,2)] have t: "t \<noteq> []" "isDigit (hd t) \<or> hd t = CHR ''-''" by auto
  then have "hd x = of_char (hd t)" "x \<noteq> []" using f(3) by (cases t; simp add: codes_def)+
  with t(2) MNumber show ?thesis by (auto simp: isDigit_def)
qed (use assms in \<open>auto simp: codes_bool writeString_def res_iff split: if_splits\<close>)

lemma codes_inject: "codes s = codes t \<longleftrightarrow> s = t"
  unfolding codes_def by (rule inj_map_eq_map) (simp add: inj_on_def)

lemma append_until:
  assumes "a @ r = b @ s" "\<forall>c\<in>set a. \<not> P c" "\<forall>c\<in>set b. \<not> P c"
    "case r of [] \<Rightarrow> True | c # _ \<Rightarrow> P c" "case s of [] \<Rightarrow> True | c # _ \<Rightarrow> P c"
  shows "a = b \<and> r = s"
proof -
  have "takeWhile (\<lambda>c. \<not> P c) (a @ r) = a" using assms(2,4) by (cases r) (auto simp: takeWhile_append)
  moreover have "takeWhile (\<lambda>c. \<not> P c) (b @ s) = b" using assms(3,5) by (cases s) (auto simp: takeWhile_append)
  ultimately show ?thesis using assms(1) by simp
qed

lemma number_prefix:
  assumes "float_wf f" "float_wf g" "formatNumber f = Inr s" "formatNumber g = Inr t"
    "delimited r" "delimited r'" "codes s @ r = codes t @ r'"
  shows "float_value f = float_value g \<and> r = r'"
proof -
  have c: "\<forall>c\<in>set (codes u). \<not> delimiter c" if "float_wf h" "formatNumber h = Inr u" for h u
  proof -
    have "\<not> delimiter (of_char c)" if "c \<in> set u" for c
    proof -
      have "isDigit c \<or> c \<in> {CHR ''.'', CHR ''e'', CHR ''+'', CHR ''-''}"
        using number_chars [OF \<open>float_wf h\<close> \<open>formatNumber h = Inr u\<close>] that by (elim conjE) (rule bspec)
      then show ?thesis by (elim disjE insertE emptyE) (auto simp: isDigit_def delimiter_def)
    qed
    then show ?thesis by (simp add: codes_def)
  qed
  have "codes s = codes t \<and> r = r'"
    by (rule append_until [where P = delimiter, OF assms(7) c [OF assms(1,3)] c [OF assms(2,4)]
          assms(5,6) [unfolded delimited_def]])
  then have "s = t" "r = r'" by (simp_all add: codes_inject)
  with formatNumber_inject [OF assms(1,2,3)] assms(4) show ?thesis by blast
qed

lemma join_results_Cons: "join_results (r # rs) =
    bind_res r (\<lambda>x. if rs = [] then Inr x else bind_res (join_results rs) (\<lambda>y. Inr (x @ 44 # y)))"
  by (cases rs; cases r) simp_all

lemma join_split:
  assumes "join_results (map w (a # as)) = Inr x"
  obtains z X where "w a = Inr z" "x = z @ X"
    "X = [] \<and> as = [] \<or> (\<exists>u. X = 44 # u \<and> as \<noteq> [] \<and> join_results (map w as) = Inr u)"
proof -
  from assms obtain z where z: "w a = Inr z"
    "(if as = [] then Inr z else bind_res (join_results (map w as)) (\<lambda>y. Inr (z @ 44 # y))) = Inr x"
    by (simp add: join_results_Cons res_iff) blast
  show ?thesis
  proof (cases "as = []")
    case True
    then show ?thesis using that [of z "[]"] z by simp
  next
    case False
    with z obtain u where "join_results (map w as) = Inr u" "x = z @ 44 # u" by (auto simp: res_iff)
    with that [of z "44 # u"] z False show ?thesis by simp
  qed
qed

lemma join_prefix:
  assumes inj: "\<And>a b x y r s. a \<in> set as \<Longrightarrow> b \<in> set bs \<Longrightarrow> w a = Inr x \<Longrightarrow> w b = Inr y \<Longrightarrow> delimited r \<Longrightarrow>
      delimited s \<Longrightarrow> x @ r = y @ s \<Longrightarrow> a = b \<and> r = s"
    and start: "\<And>a x. a \<in> set as \<union> set bs \<Longrightarrow> w a = Inr x \<Longrightarrow> x \<noteq> [] \<and> hd x \<noteq> c"
    and "c \<in> {93, 125}" "join_results (map w as) = Inr x" "join_results (map w bs) = Inr y"
    and "x @ c # r = y @ c # s"
  shows "as = bs \<and> r = s"
  using assms
proof (induction as arbitrary: bs x y)
  case Nil
  show ?case
  proof (cases bs)
    case (Cons b bs')
    obtain z Y where "w b = Inr z" "y = z @ Y" by (rule join_split [OF Nil.prems(5) [unfolded Cons]])
    moreover have "z \<noteq> []" "hd z \<noteq> c" using Nil.prems(2) [of b z] calculation Cons by auto
    ultimately show ?thesis using Nil.prems(4,6) by (cases z) auto
  qed (use Nil in auto)
next
  case (Cons a as)
  obtain z X where a: "w a = Inr z" "x = z @ X" "X = [] \<and> as = [] \<or> (\<exists>u. X = 44 # u \<and> as \<noteq> [] \<and> join_results (map w as) = Inr u)"
    by (rule join_split [OF Cons.prems(4)])
  show ?case
  proof (cases bs)
    case Nil
    then show ?thesis using Cons.prems(2) [of a z] Cons.prems(5,6) a by (cases z) auto
  next
    case bs: (Cons b bs')
    obtain z' Y where b: "w b = Inr z'" "y = z' @ Y" "Y = [] \<and> bs' = [] \<or> (\<exists>u. Y = 44 # u \<and> bs' \<noteq> [] \<and> join_results (map w bs') = Inr u)"
      by (rule join_split [OF Cons.prems(5) [unfolded bs]])
    have "a = b \<and> X @ c # r = Y @ c # s"
      by (rule Cons.prems(1) [OF _ _ a(1) b(1)])
        (use Cons.prems(3,6) a(2,3) b(2,3) bs in \<open>auto simp: delimited_def delimiter_def\<close>)
    moreover have "as = bs' \<and> r = s"
    proof (cases "as = []")
      case True
      then show ?thesis using a(3) b(3) calculation Cons.prems(3) by auto
    next
      case False
      then obtain u where u: "X = 44 # u" "join_results (map w as) = Inr u" using a(3) by auto
      with calculation Cons.prems(3) b(3) obtain v where v: "Y = 44 # v" "join_results (map w bs') = Inr v" by auto
      show ?thesis
        by (rule Cons.IH [OF Cons.prems(1) Cons.prems(2) Cons.prems(3) u(2) v(2)])
          (use calculation u v bs in auto)
    qed
    ultimately show ?thesis using bs by simp
  qed
qed

lemma entry_prefix:
  assumes "valid_string k" "valid_string k'" "write_entry (k, u) = Inr x" "write_entry (k', v) = Inr y" "x @ r = y @ s"
  obtains a b where "u = Inr a" "v = Inr b" "k = k'" "a @ r = b @ s"
proof -
  from assms(3,4) obtain a b where u: "u = Inr a" "x = writeString k @ 58 # a" and v: "v = Inr b" "y = writeString k' @ 58 # b"
    by (auto simp: write_entry_def res_iff)
  with assms(5) have "writeString k @ 58 # a @ r = writeString k' @ 58 # b @ s" by simp
  from writeString_prefix [OF assms(1,2) this] that [OF u(1) v(1)] show ?thesis by simp
qed

lemma same_lead:
  assumes "valid_meaning m" "valid_meaning m'" "write_meaning m = Inr x" "write_meaning m' = Inr y" "x @ r = y @ s"
  shows "lead m \<inter> lead m' \<noteq> {}"
proof -
  have "x \<noteq> []" "hd x \<in> lead m" "y \<noteq> []" "hd y \<in> lead m'" using write_lead assms by auto
  moreover from this assms(5) have "hd x = hd y" by (metis hd_append2)
  ultimately show ?thesis by auto
qed

lemma write_prefix:
  assumes "valid_meaning m" "valid_meaning m'" "write_meaning m = Inr x" "write_meaning m' = Inr y"
    "delimited r" "delimited s" "x @ r = y @ s"
  shows "m = m' \<and> r = s"
  using assms
proof (induction m arbitrary: m' x y r s)
  case MNull
  with same_lead [OF MNull.prems(1-4,7)] show ?case by (cases m') (auto split: if_splits)
next
  case (MBool b)
  with same_lead [OF MBool.prems(1-4,7)] show ?case by (cases m') (auto split: if_splits)
next
  case (MNumber f)
  with same_lead [OF MNumber.prems(1-4,7)] obtain g where m': "m' = MNumber g" by (cases m') (auto split: if_splits)
  from MNumber.prems(1,3) obtain a t where a: "f = Some a" "formatNumber a = Inr t" "x = codes t" "float_wf a" "float_value a = a"
    by (auto simp: res_iff split: option.splits)
  from MNumber.prems(2,4) m' obtain b t' where b: "g = Some b" "formatNumber b = Inr t'" "y = codes t'" "float_wf b" "float_value b = b"
    by (auto simp: res_iff split: option.splits)
  have "codes t @ r = codes t' @ s" using MNumber.prems(7) a b by simp
  from number_prefix [OF a(4) b(4) a(2) b(2) MNumber.prems(5,6) this] show ?case using a b m' by simp
next
  case (MString k)
  with same_lead [OF MString.prems(1-4,7)] obtain k' where m': "m' = MString k'" by (cases m') (auto split: if_splits)
  have "writeString k @ r = writeString k' @ s" "valid_string k" "valid_string k'" using MString.prems m' by simp_all
  from writeString_prefix [OF this(2,3,1)] show ?case using m' by simp
next
  case (MArray ms)
  with same_lead [OF MArray.prems(1-4,7)] obtain ms' where m': "m' = MArray ms'" by (cases m') (auto split: if_splits)
  obtain u where u: "join_results (map write_meaning ms) = Inr u" "x = 91 # u @ [93]" using MArray.prems(3) by (auto simp: res_iff)
  obtain v where v: "join_results (map write_meaning ms') = Inr v" "y = 91 # v @ [93]" using MArray.prems(4) m' by (auto simp: res_iff)
  have valid: "\<And>a. a \<in> set ms \<union> set ms' \<Longrightarrow> valid_meaning a" using MArray.prems(1,2) m' by (auto simp: list_all_iff)
  have "ms = ms' \<and> r = s"
  proof (rule join_prefix [OF _ _ _ u(1) v(1)])
    show "\<And>a b x y r s. a \<in> set ms \<Longrightarrow> b \<in> set ms' \<Longrightarrow> write_meaning a = Inr x \<Longrightarrow> write_meaning b = Inr y \<Longrightarrow>
        delimited r \<Longrightarrow> delimited s \<Longrightarrow> x @ r = y @ s \<Longrightarrow> a = b \<and> r = s"
      using MArray.IH valid by (metis UnI1 UnI2)
    show "\<And>a x. a \<in> set ms \<union> set ms' \<Longrightarrow> write_meaning a = Inr x \<Longrightarrow> x \<noteq> [] \<and> hd x \<noteq> 93"
    proof -
      fix a x
      assume "a \<in> set ms \<union> set ms'" "write_meaning a = Inr x"
      with write_lead [OF valid] have "x \<noteq> [] \<and> hd x \<in> lead a" by blast
      then show "x \<noteq> [] \<and> hd x \<noteq> 93" by (cases a) (auto split: if_splits)
    qed
    show "u @ 93 # r = v @ 93 # s" using MArray.prems(7) u(2) v(2) by simp
  qed simp
  then show ?case using m' by simp
next
  case (MObject kms)
  with same_lead [OF MObject.prems(1-4,7)] obtain kms' where m': "m' = MObject kms'" by (cases m') (auto split: if_splits)
  let ?w = "\<lambda>(k, m). write_entry (k, write_meaning m)"
  obtain u where u: "join_results (map ?w kms) = Inr u" "x = 123 # u @ [125]" using MObject.prems(3) by (auto simp: res_iff)
  obtain v where v: "join_results (map ?w kms') = Inr v" "y = 123 # v @ [125]" using MObject.prems(4) m' by (auto simp: res_iff)
  have valid: "\<And>k a. (k, a) \<in> set kms \<union> set kms' \<Longrightarrow> valid_string k \<and> valid_meaning a"
    using MObject.prems(1,2) m' by (auto simp: list_all_iff)
  have "kms = kms' \<and> r = s"
  proof (rule join_prefix [OF _ _ _ u(1) v(1)])
    fix a b x y r s
    assume h: "a \<in> set kms" "b \<in> set kms'" "?w a = Inr x" "?w b = Inr y" "delimited r" "delimited s" "x @ r = y @ s"
    obtain k c k' d where ab: "a = (k, c)" "b = (k', d)" by (cases a; cases b)
    obtain p q where pq: "write_meaning c = Inr p" "write_meaning d = Inr q" "k = k'" "p @ r = q @ s"
      by (rule entry_prefix [of k k' "write_meaning c" x "write_meaning d" y r s]) (use h ab valid in auto)
    have "c = d \<and> r = s"
      by (rule MObject.IH [OF _ _ _ _ pq(1,2) h(5,6) pq(4)]) (use h ab valid in \<open>auto simp: snds.simps\<close>)
    then show "a = b \<and> r = s" using ab pq(3) by simp
  next
    fix a x
    assume "?w a = Inr x"
    then show "x \<noteq> [] \<and> hd x \<noteq> 125" by (cases a) (auto simp: write_entry_def res_iff writeString_def)
  next
    show "u @ 125 # r = v @ 125 # s" using MObject.prems(7) u(2) v(2) by simp
  qed simp
  then show ?case using m' by simp
qed

section \<open>Bytes\<close>

abbreviation byte_list :: "nat list \<Rightarrow> bool" where
  "byte_list \<equiv> list_all (\<lambda>c. c < 256)"

lemma utf8_bytes: "valid_rune r \<Longrightarrow> byte_list (utf8 r)"
  using utf8_lead [of r] by (auto simp: utf8_def split: if_splits)

lemma escape_bytes: "valid_rune r \<Longrightarrow> byte_list (escape r)"
  using utf8_bytes by (auto simp: escape_def hex_code_def)

lemma writeString_bytes: "valid_string s \<Longrightarrow> byte_list (writeString s)"
  using escape_bytes by (fastforce simp: writeString_def valid_string_def list_all_iff)

lemma codes_bytes: "byte_list (codes s)"
  by (simp add: codes_def list_all_iff)

lemma join_bytes:
  assumes "\<And>r x. r \<in> set rs \<Longrightarrow> r = Inr x \<Longrightarrow> byte_list x" "join_results rs = Inr x"
  shows "byte_list x"
  using assms
proof (induction rs arbitrary: x)
  case (Cons r rs)
  then show ?case by (auto simp: join_results_Cons res_iff split: if_splits)
qed simp

lemma write_bytes:
  assumes "valid_meaning m" "write_meaning m = Inr x"
  shows "byte_list x"
  using assms
proof (induction m arbitrary: x)
  case (MNumber f)
  then show ?case using codes_bytes by (auto simp: res_iff split: option.splits)
next
  case (MArray ms)
  then obtain u where u: "join_results (map write_meaning ms) = Inr u" "x = 91 # u @ [93]" by (auto simp: res_iff)
  have "byte_list y" if "m \<in> set ms" "write_meaning m = Inr y" for m y
    by (rule MArray.IH [OF that(1) _ that(2)]) (use MArray.prems(1) that(1) in \<open>simp add: list_all_iff\<close>)
  then have "byte_list u" by (intro join_bytes [OF _ u(1)]) auto
  with u(2) show ?case by simp
next
  case (MObject kms)
  let ?w = "\<lambda>(k, m). write_entry (k, write_meaning m)"
  obtain u where u: "join_results (map ?w kms) = Inr u" "x = 123 # u @ [125]" using MObject.prems(2) by (auto simp: res_iff)
  have "byte_list y" if "(k, m) \<in> set kms" "write_entry (k, write_meaning m) = Inr y" for k m y
  proof -
    from that(1) MObject.prems(1) have v: "valid_string k" "valid_meaning m" by (auto simp: list_all_iff)
    from that(2) obtain z where z: "write_meaning m = Inr z" "y = writeString k @ 58 # z" by (auto simp: write_entry_def res_iff)
    have "byte_list z" by (rule MObject.IH [OF _ _ v(2) z(1)]) (use that(1) in \<open>auto simp: snds.simps\<close>)
    with writeString_bytes [OF v(1)] z(2) show ?thesis by simp
  qed
  then have "byte_list u" by (intro join_bytes [OF _ u(1)]) auto
  with u(2) show ?case by simp
qed (use writeString_bytes in \<open>auto simp: codes_bool\<close>)

section \<open>Canonical bytes and meaning\<close>

fun valid_doc :: "(string \<Rightarrow> gofloat option) \<Rightarrow> jvalue \<Rightarrow> bool" where
  "valid_doc F (JNumber s) = (case F s of None \<Rightarrow> True | Some f \<Rightarrow> float_wf f)"
| "valid_doc F (JString s) = valid_string s"
| "valid_doc F (JArray vs) = list_all (valid_doc F) vs"
| "valid_doc F (JObject kvs) = list_all (\<lambda>(k, v). valid_string k \<and> valid_doc F v) kvs"
| "valid_doc F _ = True"

lemma float_value_wf: "float_wf f \<Longrightarrow> float_wf (float_value f) \<and> float_value (float_value f) = float_value f"
  by (cases f) (simp_all add: float_wf_def float_value_def)

lemma valid_meaning_of: "valid_doc F v \<Longrightarrow> valid_meaning (meaning_of F v)"
proof (induction v)
  case (JNumber s)
  then show ?case using float_value_wf by (cases "F s") auto
next
  case (JObject kvs)
  then have "\<forall>(k, v)\<in>set kvs. valid_string k \<and> valid_meaning (meaning_of F v)"
    by (fastforce simp: list_all_iff)
  then show ?case by (auto simp: list_all_iff)
qed (auto simp: list_all_iff)

lemma of_nat_bytes_inject:
  assumes "byte_list x" "byte_list y" "map of_nat x = (map of_nat y :: bytes)"
  shows "x = y"
proof (rule inj_on_map_eq_map [THEN iffD1, OF inj_on_subset assms(3)])
  show "inj_on (of_nat :: nat \<Rightarrow> byte) {..<256}"
    by (rule inj_on_inverseI [of _ unat]) (simp add: unat_of_nat)
  show "set x \<union> set y \<subseteq> {..<256}" using assms(1,2) by (auto simp: list_all_iff)
qed

lemma canonical_bytes_iff:
  assumes "valid_doc F v" "valid_doc F w" "Marshal F v = Inr b" "Marshal F w = Inr c"
  shows "b = c \<longleftrightarrow> meaning_of F v = meaning_of F w"
proof
  assume "meaning_of F v = meaning_of F w"
  with assms(3,4) show "b = c" by (simp add: Marshal_def write_meaning_of)
next
  assume "b = c"
  from assms(3) obtain x where x: "write_meaning (meaning_of F v) = Inr x" "b = map of_nat x"
    by (auto simp: Marshal_def write_meaning_of res_iff)
  from assms(4) obtain y where y: "write_meaning (meaning_of F w) = Inr y" "c = map of_nat y"
    by (auto simp: Marshal_def write_meaning_of res_iff)
  note v = valid_meaning_of [OF assms(1)] and w = valid_meaning_of [OF assms(2)]
  have "x = y"
    by (rule of_nat_bytes_inject [OF write_bytes [OF v x(1)] write_bytes [OF w y(1)]]) (use \<open>b = c\<close> x y in simp)
  then show "meaning_of F v = meaning_of F w"
    using write_prefix [OF v w x(1) y(1), of "[]" "[]"] by (simp add: delimited_def)
qed

lemma utf16_rune_prefix:
  assumes "valid_rune a" "valid_rune b" "utf16_rune a @ x = utf16_rune b @ y"
  shows "a = b \<and> x = y"
proof (cases "a < 65536"; cases "b < 65536")
  assume "\<not> a < 65536" "\<not> b < 65536"
  with assms(3) have "(a - 65536) div 1024 = (b - 65536) div 1024" "(a - 65536) mod 1024 = (b - 65536) mod 1024" "x = y"
    by (simp_all add: utf16_rune_def)
  then have "a - 65536 = b - 65536" by (metis div_mult_mod_eq)
  with \<open>\<not> a < 65536\<close> \<open>\<not> b < 65536\<close> \<open>x = y\<close> show ?thesis by simp
next
  have s: "55296 \<le> 55296 + (r - 65536) div 1024 \<and> 55296 + (r - 65536) div 1024 < 57344" if "valid_rune r" for r
  proof -
    have "r < 1114112" using that by (simp add: valid_rune_def)
    then have "r - 65536 < 1024 * 1024" by linarith
    from less_mult_imp_div_less [OF this] show ?thesis by simp
  qed
  {
    assume "a < 65536" "\<not> b < 65536"
    then show ?thesis using assms s [OF assms(2)] by (simp add: utf16_rune_def valid_rune_def)
  next
    assume "\<not> a < 65536" "b < 65536"
    then show ?thesis using assms s [OF assms(1)] by (auto simp: utf16_rune_def valid_rune_def)
  }
qed (use assms(3) in \<open>simp add: utf16_rune_def\<close>)

lemma utf16_inject: "valid_string s \<Longrightarrow> valid_string t \<Longrightarrow> utf16 s = utf16 t \<Longrightarrow> s = t"
proof (induction s arbitrary: t)
  case Nil
  then show ?case by (cases t) (auto simp: utf16_def utf16_rune_def split: if_splits)
next
  case (Cons r s)
  show ?case
  proof (cases t)
    case Nil
    then show ?thesis using Cons.prems(3) by (auto simp: utf16_def utf16_rune_def split: if_splits)
  next
    case t: (Cons r' t')
    with Cons.prems utf16_rune_prefix [of r r' "utf16 s" "utf16 t'"] have "r = r'" "utf16 s = utf16 t'"
      by (simp_all add: utf16_def valid_string_def)
    with Cons.IH [of t'] Cons.prems t show ?thesis by (simp add: valid_string_def)
  qed
qed

lemma member_order:
  assumes "distinct (map fst kvs)" "mset kvs = mset kvs'" "list_all (\<lambda>(k, v). valid_string k) kvs"
  shows "meaning_of F (JObject kvs) = meaning_of F (JObject kvs')"
proof -
  have "sort_key (\<lambda>(k, v). utf16 k) kvs = sort_key (\<lambda>(k, v). utf16 k) kvs'"
  proof (rule sort_key_inj_key_eq)
    show "inj_on (\<lambda>(k, v). utf16 k) (set kvs)"
    proof (rule inj_onI, clarify)
      fix k v l w
      assume m: "(k, v) \<in> set kvs" "(l, w) \<in> set kvs" and "utf16 k = utf16 l"
      moreover have "valid_string k" "valid_string l" using assms(3) m by (auto simp: list_all_iff)
      ultimately have "k = l" using utf16_inject by blast
      with eq_key_imp_eq_value [OF assms(1)] m show "k = l \<and> v = w" by blast
    qed
  qed (simp_all only: assms(2) mset_sort sorted_sort_key)
  then show ?thesis by (simp add: sort_key_map_pairs)
qed

section \<open>Properties\<close>

text \<open>C31: canonical bytes stand for exactly one meaning. For two documents whose strings hold Unicode
  characters, the signer's canonical form is the same byte sequence iff the documents have the same
  meaning: the same nesting, strings and floats (0 and -0 alike), members regarded in key order.\<close>

theorem canonical_iff:
  assumes "valid_doc F v" "valid_doc F w" "Marshal F v = Inr b" "Marshal F w = Inr c"
  shows "b = c \<longleftrightarrow> meaning_of F v = meaning_of F w"
  by (rule canonical_bytes_iff [OF assms])

definition demo_float :: "string \<Rightarrow> gofloat option" where
  "demo_float s = (if s = ''1'' then Some (FNum False [1] 0) else if s = ''1.0'' then Some (FNum False [1] 0)
     else if s = ''15e-1'' then Some (FNum False [1, 5] 0) else None)"

lemma digit_one: "digit_char (Suc 0) = CHR ''1''"
  by (simp add: digit_char_def char_of_def bit_0)

lemma demo_write: "Marshal demo_float (JArray [JNumber ''1'']) = Inr [91, 49, 93]"
  "Marshal demo_float (JArray [JNumber ''1.0'']) = Inr [91, 49, 93]"
  by (simp_all add: Marshal_def demo_float_def formatNumber_def formatFinite_def FormatE_def number_layout_def
      codes_def dec_nat_def atoi_def parse_dec_def isDigit_def digit_val_def digit_one horner_def dec_int_def)

theorem canonical_iff_witness:
  "meaning_of demo_float (JArray [JNumber ''1'']) = meaning_of demo_float (JArray [JNumber ''1.0''])"
proof -
  have "valid_doc demo_float (JArray [JNumber ''1''])" "valid_doc demo_float (JArray [JNumber ''1.0''])"
    by (simp_all add: demo_float_def float_wf_def)
  from canonical_iff [OF this demo_write] show ?thesis by simp
qed

text \<open>The order in which a document lists its members is lost. Two objects with the same members
  under pairwise distinct keys have the same canonical bytes, or fail with the same error.\<close>

theorem canonical_member_order:
  assumes "distinct (map fst kvs)" "mset kvs = mset kvs'" "list_all (\<lambda>(k, v). valid_string k) kvs"
  shows "Marshal F (JObject kvs) = Marshal F (JObject kvs')"
  unfolding Marshal_def write_meaning_of member_order [OF assms] ..

theorem canonical_member_order_witness:
  "Marshal F (JObject [([98], JNull), ([97], JBool True)]) = Marshal F (JObject [([97], JBool True), ([98], JNull)])"
  by (rule canonical_member_order) (simp_all add: valid_string_def valid_rune_def)

end
