(* ===== verification/Replication.thy ===== *)
theory Replication
  imports ChainStore
begin

text \<open>
  Publication of asset content on IPFS: \<^verbatim>\<open>server/internal/ipfs/replication.go\<close>, the record
  \<^verbatim>\<open>dal/models/publication.go\<close> and its in-memory repository \<^verbatim>\<open>dal/memory/publication.go\<close>. The nodes
  are the environment: an answer may depend on everything asked before, and the trace of
  questions and answers is the evidence the theorems speak about. The CID function is a parameter.
  An error text is the error it was made from.
\<close>

section \<open>Documents\<close>

datatype PublicationState = Created | PinnedLocally | ReplicationPending | Replicated | ReplicationFailed

datatype ipfs_error = NodeFailed string | AddFailed ipfs_error | PinFailed ipfs_error | GetFailed ipfs_error
  | WrongCID string | BadContent

record DestinationStatus =
  dsName :: string
  dsPinned :: bool
  dsVerified :: bool
  dsLastVerifiedAt :: int
  dsLastError :: "ipfs_error option"

record PublicationRecord =
  puID :: string
  puCID :: string
  puState :: PublicationState
  puDestinations :: "DestinationStatus list"
  puReplicationThreshold :: int
  puCreatedAt :: int
  puUpdatedAt :: int

record 's publication_repo =
  pubGet :: "string \<Rightarrow> 's \<Rightarrow> repo_error + PublicationRecord"
  pubUpsert :: "PublicationRecord \<Rightarrow> 's \<Rightarrow> repo_error + 's"

type_synonym publication_map = "(string \<times> PublicationRecord) list"

definition memPubGet :: "string \<Rightarrow> publication_map \<Rightarrow> repo_error + PublicationRecord" where
  "memPubGet i m = (case map_of m i of None \<Rightarrow> Inl ErrNotFound | Some r \<Rightarrow> Inr r)"

definition memPubUpsert :: "PublicationRecord \<Rightarrow> publication_map \<Rightarrow> repo_error + publication_map" where
  "memPubUpsert r m = Inr (AList.update (puID r) r m)"

definition memPubList :: "publication_map \<Rightarrow> PublicationRecord list" where
  "memPubList m = sort_key puCreatedAt (map snd m)"

definition memoryPublications :: "publication_map publication_repo" where
  "memoryPublications = \<lparr>pubGet = memPubGet, pubUpsert = memPubUpsert\<rparr>"

section \<open>The nodes\<close>

datatype node = LocalNode | Backup nat

datatype request = AddReq bytes | PinReq string | GetReq string

datatype answer = Failed string | CidAns string | PinAns | DataAns bytes

type_synonym trace = "(node \<times> request \<times> answer) list"
type_synonym nodes = "trace \<Rightarrow> node \<Rightarrow> request \<Rightarrow> answer"

definition ask :: "nodes \<Rightarrow> node \<Rightarrow> request \<Rightarrow> trace \<Rightarrow> answer \<times> trace" where
  "ask N n q t = (let a = N t n q in (a, t @ [(n, q, a)]))"

text \<open>The three methods of the interface \<^verbatim>\<open>Client\<close>; an answer of another kind is a failed call.\<close>

definition AddRaw :: "nodes \<Rightarrow> node \<Rightarrow> bytes \<Rightarrow> trace \<Rightarrow> (ipfs_error + string) \<times> trace" where
  "AddRaw N n d t = (case ask N n (AddReq d) t of
      (CidAns c, t') \<Rightarrow> (Inr c, t') | (Failed e, t') \<Rightarrow> (Inl (NodeFailed e), t') | (_, t') \<Rightarrow> (Inl (NodeFailed []), t'))"

definition Pin :: "nodes \<Rightarrow> node \<Rightarrow> string \<Rightarrow> trace \<Rightarrow> (ipfs_error + unit) \<times> trace" where
  "Pin N n c t = (case ask N n (PinReq c) t of
      (PinAns, t') \<Rightarrow> (Inr (), t') | (Failed e, t') \<Rightarrow> (Inl (NodeFailed e), t') | (_, t') \<Rightarrow> (Inl (NodeFailed []), t'))"

definition GetRaw :: "nodes \<Rightarrow> node \<Rightarrow> string \<Rightarrow> trace \<Rightarrow> (ipfs_error + bytes) \<times> trace" where
  "GetRaw N n c t = (case ask N n (GetReq c) t of
      (DataAns d, t') \<Rightarrow> (Inr d, t') | (Failed e, t') \<Rightarrow> (Inl (NodeFailed e), t') | (_, t') \<Rightarrow> (Inl (NodeFailed []), t'))"

section \<open>The replication manager\<close>

record manager =
  rmNodes :: nodes
  rmBackups :: "string list"
  rmThreshold :: int
  rmCID :: "bytes \<Rightarrow> string option"

datatype rm_error = LocalAdd ipfs_error | CIDConflict string string | LoadRecord repo_error
  | LocalPin ipfs_error | StoreRecord repo_error | BackupFailures "(string \<times> ipfs_error) list"
  | RetryData | RestoreAdd ipfs_error | RestoreCID string | RestoreVerify ipfs_error | NotRestored "ipfs_error option"

definition LocalDestinationName :: string where "LocalDestinationName = ''local''"

definition replicationState :: "int \<Rightarrow> int \<Rightarrow> int \<Rightarrow> PublicationState" where
  "replicationState succeeded configured threshold =
     (if threshold \<le> 0 then Replicated
      else if threshold \<le> succeeded then Replicated
      else if succeeded > 0 \<or> configured = 0 then ReplicationPending
      else ReplicationFailed)"

text \<open>\<^verbatim>\<open>findOrAppendDestination\<close> yields a pointer into the slice: reading through it is
  \<open>get_dest\<close>, writing through it \<open>put_dest\<close>.\<close>

definition newDestination :: "string \<Rightarrow> DestinationStatus" where
  "newDestination name = \<lparr>dsName = name, dsPinned = False, dsVerified = False, dsLastVerifiedAt = 0, dsLastError = None\<rparr>"

definition get_dest :: "string \<Rightarrow> DestinationStatus list \<Rightarrow> DestinationStatus" where
  "get_dest name ds = (case find (\<lambda>d. dsName d = name) ds of Some d \<Rightarrow> d | None \<Rightarrow> newDestination name)"

fun put_dest :: "DestinationStatus \<Rightarrow> DestinationStatus list \<Rightarrow> DestinationStatus list" where
  "put_dest s [] = [s]"
| "put_dest s (d # ds) = (if dsName d = dsName s then s # ds else d # put_dest s ds)"

definition retrieveAndVerify :: "manager \<Rightarrow> node \<Rightarrow> string \<Rightarrow> trace \<Rightarrow> (ipfs_error + unit) \<times> trace" where
  "retrieveAndVerify M n cid t =
     (case GetRaw (rmNodes M) n cid t of
        (Inl e, t') \<Rightarrow> (Inl (GetFailed e), t')
      | (Inr d, t') \<Rightarrow> (if rmCID M d = Some cid then Inr () else Inl BadContent, t'))"

definition pinAndVerify ::
  "manager \<Rightarrow> node \<Rightarrow> string \<Rightarrow> int \<Rightarrow> DestinationStatus \<Rightarrow> trace \<Rightarrow> (ipfs_error + unit) \<times> DestinationStatus \<times> trace" where
  "pinAndVerify M n cid now st t =
     (case Pin (rmNodes M) n cid t of
        (Inl e, t') \<Rightarrow> (Inl (PinFailed e), st\<lparr>dsPinned := False, dsVerified := False, dsLastError := Some e\<rparr>, t')
      | (Inr _, t') \<Rightarrow>
          (case retrieveAndVerify M n cid t' of
             (Inl e, t'') \<Rightarrow> (Inl e, st\<lparr>dsPinned := True, dsVerified := False, dsLastError := Some e\<rparr>, t'')
           | (Inr _, t'') \<Rightarrow>
               (Inr (), st\<lparr>dsPinned := True, dsVerified := True, dsLastVerifiedAt := now, dsLastError := None\<rparr>, t'')))"

definition addAndVerify ::
  "manager \<Rightarrow> node \<Rightarrow> string \<Rightarrow> bytes \<Rightarrow> int \<Rightarrow> DestinationStatus \<Rightarrow> trace \<Rightarrow> (ipfs_error + unit) \<times> DestinationStatus \<times> trace" where
  "addAndVerify M n cid d now st t =
     (case AddRaw (rmNodes M) n d t of
        (Inl e, t') \<Rightarrow> (Inl (AddFailed e), st\<lparr>dsPinned := False, dsVerified := False, dsLastError := Some (AddFailed e)\<rparr>, t')
      | (Inr got, t') \<Rightarrow>
          if got \<noteq> cid
          then (Inl (WrongCID got), st\<lparr>dsPinned := False, dsVerified := False, dsLastError := Some (WrongCID got)\<rparr>, t')
          else pinAndVerify M n cid now st t')"

definition backup_nodes :: "manager \<Rightarrow> (string \<times> node) list" where
  "backup_nodes M = map (\<lambda>i. (rmBackups M ! i, Backup i)) [0..<length (rmBackups M)]"

text \<open>The loop of \<open>replicate\<close> over the backups: the destinations, the successes and the failures.\<close>

fun replicate_backups ::
  "manager \<Rightarrow> string \<Rightarrow> bytes \<Rightarrow> int \<Rightarrow> (string \<times> node) list \<Rightarrow> DestinationStatus list \<Rightarrow> trace
     \<Rightarrow> int \<times> (string \<times> ipfs_error) list \<times> DestinationStatus list \<times> trace" where
  "replicate_backups M cid d now [] ds t = (0, [], ds, t)"
| "replicate_backups M cid d now ((name, n) # bs) ds t =
     (case addAndVerify M n cid d now (get_dest name ds) t of (r, st, t') \<Rightarrow>
        (case replicate_backups M cid d now bs (put_dest st ds) t' of (k, es, ds', t'') \<Rightarrow>
           (case r of Inl e \<Rightarrow> (k, (name, e) # es, ds', t'') | Inr _ \<Rightarrow> (k + 1, es, ds', t''))))"

definition newPublication :: "string \<Rightarrow> int \<Rightarrow> PublicationRecord" where
  "newPublication i now = \<lparr>puID = i, puCID = [], puState = Created, puDestinations = [],
     puReplicationThreshold = 0, puCreatedAt = now, puUpdatedAt = 0\<rparr>"

text \<open>\<open>replicate\<close> reads the record, works on its copy and writes it at the end.\<close>

definition replicate_load :: "'s publication_repo \<Rightarrow> string \<Rightarrow> string \<Rightarrow> int \<Rightarrow> 's \<Rightarrow> rm_error + PublicationRecord" where
  "replicate_load R i cid now s =
     (case pubGet R i s of
        Inr rec \<Rightarrow> if puCID rec \<noteq> [] \<and> puCID rec \<noteq> cid then Inl (CIDConflict (puCID rec) cid) else Inr rec
      | Inl ErrNotFound \<Rightarrow> Inr (newPublication i now)
      | Inl e \<Rightarrow> Inl (LoadRecord e))"

definition upsert_quietly :: "'s publication_repo \<Rightarrow> PublicationRecord \<Rightarrow> 's \<Rightarrow> 's" where
  "upsert_quietly R rec s = (case pubUpsert R rec s of Inl e \<Rightarrow> s | Inr s' \<Rightarrow> s')"

definition replicate_work ::
  "manager \<Rightarrow> 's publication_repo \<Rightarrow> string \<Rightarrow> bytes \<Rightarrow> int \<Rightarrow> PublicationRecord \<Rightarrow> 's \<times> trace \<Rightarrow> (rm_error + unit) \<times> 's \<times> trace" where
  "replicate_work M R cid d now rec0 = (\<lambda>(s, t).
     let rec1 = rec0\<lparr>puCID := cid, puReplicationThreshold := rmThreshold M, puUpdatedAt := now\<rparr>
     in case pinAndVerify M LocalNode cid now (get_dest LocalDestinationName (puDestinations rec1)) t of
          (Inl e, st, t1) \<Rightarrow>
            (Inl (LocalPin e),
             upsert_quietly R (rec1\<lparr>puDestinations := put_dest st (puDestinations rec1), puState := Created\<rparr>) s, t1)
        | (Inr _, st, t1) \<Rightarrow>
            (case replicate_backups M cid d now (backup_nodes M) (put_dest st (puDestinations rec1)) t1 of
               (k, es, ds, t2) \<Rightarrow>
                 (case pubUpsert R (rec1\<lparr>puDestinations := ds,
                      puState := replicationState k (int (length (rmBackups M))) (rmThreshold M)\<rparr>) s of
                    Inl e \<Rightarrow> (Inl (StoreRecord e), s, t2)
                  | Inr s' \<Rightarrow> (if es = [] then Inr () else Inl (BackupFailures es), s', t2))))"

definition replicate_content ::
  "manager \<Rightarrow> 's publication_repo \<Rightarrow> string \<Rightarrow> string \<Rightarrow> bytes \<Rightarrow> int \<Rightarrow> 's \<times> trace \<Rightarrow> (rm_error + unit) \<times> 's \<times> trace" where
  "replicate_content M R i cid d now = (\<lambda>(s, t).
     case replicate_load R i cid now s of
       Inl e \<Rightarrow> (Inl e, s, t)
     | Inr rec \<Rightarrow> replicate_work M R cid d now rec (s, t))"

text \<open>\<^verbatim>\<open>Publish\<close> and \<^verbatim>\<open>AddRaw\<close> (which files the content under its own CID).\<close>

definition publish_as ::
  "(string \<Rightarrow> string) \<Rightarrow> manager \<Rightarrow> 's publication_repo \<Rightarrow> bytes \<Rightarrow> int \<Rightarrow> 's \<times> trace \<Rightarrow> (rm_error + string) \<times> 's \<times> trace" where
  "publish_as ident M R d now = (\<lambda>(s, t).
     case AddRaw (rmNodes M) LocalNode d t of
       (Inl e, t') \<Rightarrow> (Inl (LocalAdd e), s, t')
     | (Inr cid, t') \<Rightarrow>
         (case replicate_content M R (ident cid) cid d now (s, t') of
            (Inl e, s', t'') \<Rightarrow> (Inl e, s', t'')
          | (Inr _, s', t'') \<Rightarrow> (Inr cid, s', t'')))"

definition Publish ::
  "manager \<Rightarrow> 's publication_repo \<Rightarrow> string \<Rightarrow> bytes \<Rightarrow> int \<Rightarrow> 's \<times> trace \<Rightarrow> (rm_error + string) \<times> 's \<times> trace" where
  "Publish M R i = publish_as (\<lambda>cid. i) M R"

definition AddRawManaged ::
  "manager \<Rightarrow> 's publication_repo \<Rightarrow> bytes \<Rightarrow> int \<Rightarrow> 's \<times> trace \<Rightarrow> (rm_error + string) \<times> 's \<times> trace" where
  "AddRawManaged M R = publish_as (\<lambda>cid. cid) M R"

definition IsDurablyPublished :: "'s publication_repo \<Rightarrow> string \<Rightarrow> string \<Rightarrow> 's \<Rightarrow> repo_error + bool" where
  "IsDurablyPublished R i expectedCID s =
     (case pubGet R i s of
        Inl ErrNotFound \<Rightarrow> Inr False
      | Inl e \<Rightarrow> Inl e
      | Inr rec \<Rightarrow> Inr (puState rec = Replicated \<and> puCID rec = expectedCID))"

definition clientFor :: "manager \<Rightarrow> string \<Rightarrow> node option" where
  "clientFor M name = (if name = LocalDestinationName then Some LocalNode else map_of (backup_nodes M) name)"

fun verify_destinations ::
  "manager \<Rightarrow> string \<Rightarrow> int \<Rightarrow> DestinationStatus list \<Rightarrow> trace \<Rightarrow> int \<times> DestinationStatus list \<times> trace" where
  "verify_destinations M cid now [] t = (0, [], t)"
| "verify_destinations M cid now (st # ds) t =
     (case clientFor M (dsName st) of
        None \<Rightarrow> (case verify_destinations M cid now ds t of (k, ds', t') \<Rightarrow> (k, st # ds', t'))
      | Some n \<Rightarrow>
          (case retrieveAndVerify M n cid t of
             (Inl e, t1) \<Rightarrow>
               (case verify_destinations M cid now ds t1 of (k, ds', t') \<Rightarrow>
                  (k, st\<lparr>dsVerified := False, dsLastError := Some e\<rparr> # ds', t'))
           | (Inr _, t1) \<Rightarrow>
               (case verify_destinations M cid now ds t1 of (k, ds', t') \<Rightarrow>
                  (if dsName st \<noteq> LocalDestinationName then k + 1 else k,
                   st\<lparr>dsVerified := True, dsLastVerifiedAt := now, dsLastError := None\<rparr> # ds', t'))))"

definition rm_store :: "'s publication_repo \<Rightarrow> PublicationRecord \<Rightarrow> 's \<times> trace \<Rightarrow> (rm_error + unit) \<times> 's \<times> trace" where
  "rm_store R rec = (\<lambda>(s, t). case pubUpsert R rec s of Inl e \<Rightarrow> (Inl (StoreRecord e), s, t) | Inr s' \<Rightarrow> (Inr (), s', t))"

definition Verify ::
  "manager \<Rightarrow> 's publication_repo \<Rightarrow> string \<Rightarrow> int \<Rightarrow> 's \<times> trace \<Rightarrow> (rm_error + unit) \<times> 's \<times> trace" where
  "Verify M R i now = (\<lambda>(s, t).
     case pubGet R i s of
       Inl e \<Rightarrow> (Inl (LoadRecord e), s, t)
     | Inr rec \<Rightarrow>
         (case verify_destinations M (puCID rec) now (puDestinations rec) t of (k, ds, t') \<Rightarrow>
            rm_store R (rec\<lparr>puDestinations := ds, puUpdatedAt := now,
               puState := replicationState k (int (length (rmBackups M))) (rmThreshold M)\<rparr>) (s, t')))"

fun retry_backups ::
  "manager \<Rightarrow> string \<Rightarrow> bytes \<Rightarrow> int \<Rightarrow> (string \<times> node) list \<Rightarrow> DestinationStatus list \<Rightarrow> trace
     \<Rightarrow> int \<times> DestinationStatus list \<times> trace" where
  "retry_backups M cid d now [] ds t = (0, ds, t)"
| "retry_backups M cid d now ((name, n) # bs) ds t =
     (let st = get_dest name ds in
      if dsVerified st
      then (case retry_backups M cid d now bs (put_dest st ds) t of (k, ds', t') \<Rightarrow> (k + 1, ds', t'))
      else (case addAndVerify M n cid d now st t of (r, st', t1) \<Rightarrow>
              (case retry_backups M cid d now bs (put_dest st' ds) t1 of (k, ds', t') \<Rightarrow>
                 (case r of Inl _ \<Rightarrow> (k, ds', t') | Inr _ \<Rightarrow> (k + 1, ds', t')))))"

definition Retry ::
  "manager \<Rightarrow> 's publication_repo \<Rightarrow> string \<Rightarrow> bytes \<Rightarrow> int \<Rightarrow> 's \<times> trace \<Rightarrow> (rm_error + unit) \<times> 's \<times> trace" where
  "Retry M R i d now = (\<lambda>(s, t).
     case pubGet R i s of
       Inl e \<Rightarrow> (Inl (LoadRecord e), s, t)
     | Inr rec \<Rightarrow>
         if rmCID M d \<noteq> Some (puCID rec) then (Inl RetryData, s, t)
         else (case retry_backups M (puCID rec) d now (backup_nodes M) (puDestinations rec) t of (k, ds, t') \<Rightarrow>
                 rm_store R (rec\<lparr>puDestinations := ds, puUpdatedAt := now,
                    puState := replicationState k (int (length (rmBackups M))) (rmThreshold M)\<rparr>) (s, t')))"

fun restore_from ::
  "manager \<Rightarrow> 's publication_repo \<Rightarrow> PublicationRecord \<Rightarrow> int \<Rightarrow> node list \<Rightarrow> ipfs_error option \<Rightarrow> 's \<times> trace
     \<Rightarrow> (rm_error + unit) \<times> 's \<times> trace" where
  "restore_from M R rec now [] lastErr (s, t) = (Inl (NotRestored lastErr), s, t)"
| "restore_from M R rec now (n # ns) lastErr (s, t) =
     (case GetRaw (rmNodes M) n (puCID rec) t of
        (Inl e, t1) \<Rightarrow> restore_from M R rec now ns (Some e) (s, t1)
      | (Inr d, t1) \<Rightarrow>
          if rmCID M d \<noteq> Some (puCID rec) then restore_from M R rec now ns (Some BadContent) (s, t1)
          else (case AddRaw (rmNodes M) LocalNode d t1 of
                  (Inl e, t2) \<Rightarrow> (Inl (RestoreAdd e), s, t2)
                | (Inr got, t2) \<Rightarrow>
                    if got \<noteq> puCID rec then (Inl (RestoreCID got), s, t2)
                    else (case pinAndVerify M LocalNode (puCID rec) now (get_dest LocalDestinationName (puDestinations rec)) t2 of
                            (Inl e, st, t3) \<Rightarrow>
                              (Inl (RestoreVerify e),
                               upsert_quietly R (rec\<lparr>puDestinations := put_dest st (puDestinations rec), puUpdatedAt := now\<rparr>) s, t3)
                          | (Inr _, st, t3) \<Rightarrow>
                              rm_store R (rec\<lparr>puDestinations := put_dest st (puDestinations rec), puUpdatedAt := now\<rparr>) (s, t3))))"

definition RestoreLocal ::
  "manager \<Rightarrow> 's publication_repo \<Rightarrow> string \<Rightarrow> int \<Rightarrow> 's \<times> trace \<Rightarrow> (rm_error + unit) \<times> 's \<times> trace" where
  "RestoreLocal M R i now = (\<lambda>(s, t).
     case pubGet R i s of
       Inl e \<Rightarrow> (Inl (LoadRecord e), s, t)
     | Inr rec \<Rightarrow> restore_from M R rec now (map snd (backup_nodes M)) None (s, t))"

section \<open>Evidence\<close>

text \<open>A node has proved that it holds a CID when it once answered a fetch with bytes of that CID.\<close>

definition proven :: "manager \<Rightarrow> node \<Rightarrow> string \<Rightarrow> trace \<Rightarrow> bool" where
  "proven M n cid t \<longleftrightarrow> (\<exists>d. (n, GetReq cid, DataAns d) \<in> set t \<and> rmCID M d = Some cid)"

definition holders :: "manager \<Rightarrow> string \<Rightarrow> trace \<Rightarrow> nat set" where
  "holders M cid t = {i. i < length (rmBackups M) \<and> proven M (Backup i) cid t}"

lemma proven_mono: "proven M n cid t \<Longrightarrow> set t \<subseteq> set t' \<Longrightarrow> proven M n cid t'"
  by (auto simp: proven_def)

lemma holders_mono: "set t \<subseteq> set t' \<Longrightarrow> card (holders M cid t) \<le> card (holders M cid t')"
  by (rule card_mono) (auto simp: holders_def intro: proven_mono)

lemma AddRaw_trace: "AddRaw N n d t = (r, t') \<Longrightarrow> set t \<subseteq> set t'"
  by (auto simp: AddRaw_def ask_def Let_def split: answer.splits)

lemma Pin_trace: "Pin N n c t = (r, t') \<Longrightarrow> set t \<subseteq> set t'"
  by (auto simp: Pin_def ask_def Let_def split: answer.splits)

lemma GetRaw_trace: "GetRaw N n c t = (r, t') \<Longrightarrow> set t \<subseteq> set t' \<and> (\<forall>d. r = Inr d \<longrightarrow> (n, GetReq c, DataAns d) \<in> set t')"
  by (auto simp: GetRaw_def ask_def Let_def split: answer.splits)

lemma retrieve_proves:
  assumes "retrieveAndVerify M n cid t = (r, t')"
  shows "set t \<subseteq> set t' \<and> (\<forall>u. r = Inr u \<longrightarrow> proven M n cid t')"
proof -
  obtain g t1 where g: "GetRaw (rmNodes M) n cid t = (g, t1)" by fastforce
  with assms GetRaw_trace [OF g] show ?thesis
    by (cases g) (auto simp: retrieveAndVerify_def proven_def split: if_splits)
qed

lemma pin_proves:
  assumes "pinAndVerify M n cid now st t = (r, st', t')"
  shows "set t \<subseteq> set t' \<and> (\<forall>u. r = Inr u \<longrightarrow> proven M n cid t') \<and> dsName st' = dsName st \<and>
    (dsVerified st' \<longleftrightarrow> r = Inr ())"
proof -
  obtain p t1 where p: "Pin (rmNodes M) n cid t = (p, t1)" by fastforce
  obtain g t2 where g: "retrieveAndVerify M n cid t1 = (g, t2)" by fastforce
  from assms p g Pin_trace [OF p] retrieve_proves [OF g] show ?thesis
    by (cases p; cases g) (auto simp: pinAndVerify_def)
qed

lemma add_proves:
  assumes "addAndVerify M n cid d now st t = (r, st', t')"
  shows "set t \<subseteq> set t' \<and> (\<forall>u. r = Inr u \<longrightarrow> proven M n cid t') \<and> dsName st' = dsName st \<and>
    (dsVerified st' \<longleftrightarrow> r = Inr ())"
proof -
  obtain a t1 where a: "AddRaw (rmNodes M) n d t = (a, t1)" by fastforce
  note sub = AddRaw_trace [OF a]
  show ?thesis
  proof (cases a)
    case (Inl e)
    with assms a sub show ?thesis by (auto simp: addAndVerify_def)
  next
    case (Inr got)
    show ?thesis
    proof (cases "got = cid")
      case True
      with assms a Inr have "pinAndVerify M n cid now st t1 = (r, st', t')" by (simp add: addAndVerify_def)
      from pin_proves [OF this] sub show ?thesis by auto
    qed (use assms a Inr sub in \<open>auto simp: addAndVerify_def\<close>)
  qed
qed

section \<open>Destinations\<close>

lemma get_dest_name [simp]: "dsName (get_dest name ds) = name"
  by (auto simp: get_dest_def newDestination_def find_Some_iff split: option.splits)

lemma get_dest_cases: "get_dest name ds \<in> set ds \<or> get_dest name ds = newDestination name"
  by (auto simp: get_dest_def find_Some_iff split: option.splits)

lemma set_put_dest: "set (put_dest s ds) \<subseteq> insert s (set ds)"
  by (induction s ds rule: put_dest.induct) auto

lemma put_dest_names: "set (map dsName (put_dest s ds)) = insert (dsName s) (set (map dsName ds))"
  by (induction s ds rule: put_dest.induct) auto

lemma put_dest_distinct: "distinct (map dsName ds) \<Longrightarrow> distinct (map dsName (put_dest s ds))"
proof (induction s ds rule: put_dest.induct)
  case (2 s d ds)
  then show ?case using put_dest_names [of s ds] by auto
qed simp

definition wf_manager :: "manager \<Rightarrow> bool" where
  "wf_manager M \<longleftrightarrow>
     distinct (rmBackups M) \<and> LocalDestinationName \<notin> set (rmBackups M) \<and> (\<forall>d. rmCID M d \<noteq> Some [])"

definition status_ok :: "manager \<Rightarrow> string \<Rightarrow> trace \<Rightarrow> DestinationStatus \<Rightarrow> bool" where
  "status_ok M cid t st \<longleftrightarrow> (dsVerified st \<longrightarrow> (\<forall>n. clientFor M (dsName st) = Some n \<longrightarrow> proven M n cid t))"

definition dests_ok :: "manager \<Rightarrow> string \<Rightarrow> trace \<Rightarrow> DestinationStatus list \<Rightarrow> bool" where
  "dests_ok M cid t ds \<longleftrightarrow> distinct (map dsName ds) \<and> (\<forall>st\<in>set ds. status_ok M cid t st)"

lemma status_ok_mono: "status_ok M cid t st \<Longrightarrow> set t \<subseteq> set t' \<Longrightarrow> status_ok M cid t' st"
  by (auto simp: status_ok_def intro: proven_mono)

lemma dests_ok_mono: "dests_ok M cid t ds \<Longrightarrow> set t \<subseteq> set t' \<Longrightarrow> dests_ok M cid t' ds"
  by (auto simp: dests_ok_def intro: status_ok_mono)

lemma dests_ok_put: "dests_ok M cid t ds \<Longrightarrow> status_ok M cid t st \<Longrightarrow> dests_ok M cid t (put_dest st ds)"
  using set_put_dest [of st ds] put_dest_distinct [of ds st] by (auto simp: dests_ok_def)

lemma dests_ok_get: "dests_ok M cid t ds \<Longrightarrow> status_ok M cid t (get_dest name ds)"
  using get_dest_cases [of name ds] by (auto simp: dests_ok_def status_ok_def newDestination_def)

lemma backup_nodes_map:
  assumes "wf_manager M"
  shows "map_of (backup_nodes M) name = Some n \<longleftrightarrow> (\<exists>i<length (rmBackups M). rmBackups M ! i = name \<and> n = Backup i)"
proof -
  have "map fst (backup_nodes M) = rmBackups M" by (simp add: backup_nodes_def o_def map_nth)
  with assms have "distinct (map fst (backup_nodes M))" by (simp add: wf_manager_def)
  then show ?thesis by (subst map_of_eq_Some_iff) (auto simp: backup_nodes_def)
qed

lemma clientFor_backup:
  assumes "wf_manager M" "(name, n) \<in> set (backup_nodes M)"
  shows "clientFor M name = Some n"
proof -
  from assms(2) obtain i where i: "i < length (rmBackups M)" "name = rmBackups M ! i" "n = Backup i"
    by (auto simp: backup_nodes_def)
  then have "name \<in> set (rmBackups M)" by simp
  then have "name \<noteq> LocalDestinationName" using assms(1) by (auto simp: wf_manager_def)
  moreover have "map_of (backup_nodes M) name = Some n" using i backup_nodes_map [OF assms(1)] by blast
  ultimately show ?thesis by (simp add: clientFor_def)
qed

lemma dests_ok_unbound: "wf_manager M \<Longrightarrow> dests_ok M [] t ds \<Longrightarrow> dests_ok M cid t ds"
  by (auto simp: dests_ok_def status_ok_def wf_manager_def proven_def)

lemma holders_count: "card (holders M cid t) = length (filter (\<lambda>(name, n). proven M n cid t) (backup_nodes M))"
proof -
  have "length (filter (\<lambda>(name, n). proven M n cid t) (backup_nodes M)) =
      length (filter (\<lambda>i. proven M (Backup i) cid t) [0..<length (rmBackups M)])"
    by (simp add: backup_nodes_def filter_map o_def)
  also have "\<dots> = card {i. i < length (rmBackups M) \<and> proven M (Backup i) cid t}"
    by (simp add: length_filter_conv_card) (metis add_0 diff_zero nth_upt)
  finally show ?thesis by (simp add: holders_def)
qed

section \<open>The loops count evidence\<close>

abbreviation proven_in :: "manager \<Rightarrow> string \<Rightarrow> trace \<Rightarrow> (string \<times> node) list \<Rightarrow> int" where
  "proven_in M cid t bs \<equiv> int (length (filter (\<lambda>(name, n). proven M n cid t) bs))"

lemma status_ok_checked:
  assumes "clientFor M name = Some n" "dsName st = name" "dsVerified st \<longrightarrow> proven M n cid t"
  shows "status_ok M cid t st"
  using assms by (simp add: status_ok_def)

lemma replicate_backups_counts:
  assumes "replicate_backups M cid d now bs ds t = (k, es, ds', t')"
    "wf_manager M" "set bs \<subseteq> set (backup_nodes M)" "dests_ok M cid t ds"
  shows "set t \<subseteq> set t' \<and> k \<le> proven_in M cid t' bs \<and> dests_ok M cid t' ds'"
  using assms
proof (induction M cid d now bs ds t arbitrary: k es ds' t' rule: replicate_backups.induct)
  case (2 M cid d now name n bs ds t)
  obtain r st t1 where a: "addAndVerify M n cid d now (get_dest name ds) t = (r, st, t1)" by (metis prod_cases3)
  obtain k1 es1 ds1 t2 where l: "replicate_backups M cid d now bs (put_dest st ds) t1 = (k1, es1, ds1, t2)" by (metis prod_cases4)
  note p = add_proves [OF a]
  have "clientFor M name = Some n" using clientFor_backup 2 by simp
  then have "status_ok M cid t1 st" by (rule status_ok_checked) (use p in auto)
  then have "dests_ok M cid t1 (put_dest st ds)" by (intro dests_ok_put dests_ok_mono [OF 2(5)]) (use p in auto)
  with 2 a l have IH: "set t1 \<subseteq> set t2 \<and> k1 \<le> proven_in M cid t2 bs \<and> dests_ok M cid t2 ds1" by auto
  with p proven_mono [of M n cid t1 t2] 2(2) a l show ?case by (cases r) auto
qed simp

lemma retry_backups_counts:
  assumes "retry_backups M cid d now bs ds t = (k, ds', t')"
    "wf_manager M" "set bs \<subseteq> set (backup_nodes M)" "dests_ok M cid t ds"
  shows "set t \<subseteq> set t' \<and> k \<le> proven_in M cid t' bs \<and> dests_ok M cid t' ds'"
  using assms
proof (induction M cid d now bs ds t arbitrary: k ds' t' rule: retry_backups.induct)
  case (2 M cid d now name n bs ds t)
  let ?st = "get_dest name ds"
  have c: "clientFor M name = Some n" using clientFor_backup 2 by simp
  have ok: "status_ok M cid t ?st" using dests_ok_get 2 by blast
  show ?case
  proof (cases "dsVerified ?st")
    case True
    obtain k1 ds1 t1 where l: "retry_backups M cid d now bs (put_dest ?st ds) t = (k1, ds1, t1)" by (metis prod_cases3)
    have "dests_ok M cid t (put_dest ?st ds)" by (rule dests_ok_put [OF 2(6) ok])
    with 2 l True have IH: "set t \<subseteq> set t1 \<and> k1 \<le> proven_in M cid t1 bs \<and> dests_ok M cid t1 ds1" by (auto simp: Let_def)
    have "proven M n cid t" using ok True c by (simp add: status_ok_def)
    then have "proven M n cid t1" using IH proven_mono by blast
    with IH 2(3) True l show ?thesis by (simp add: Let_def)
  next
    case False
    obtain r st t1 where a: "addAndVerify M n cid d now ?st t = (r, st, t1)" by (metis prod_cases3)
    obtain k1 ds1 t2 where l: "retry_backups M cid d now bs (put_dest st ds) t1 = (k1, ds1, t2)" by (metis prod_cases3)
    note p = add_proves [OF a]
    have "status_ok M cid t1 st" by (rule status_ok_checked [OF c]) (use p in auto)
    then have "dests_ok M cid t1 (put_dest st ds)" by (intro dests_ok_put dests_ok_mono [OF 2(6)]) (use p in auto)
    with 2 a l False have IH: "set t1 \<subseteq> set t2 \<and> k1 \<le> proven_in M cid t2 bs \<and> dests_ok M cid t2 ds1" by (auto simp: Let_def)
    with p proven_mono [of M n cid t1 t2] 2(3) False a l show ?thesis by (cases r) (auto simp: Let_def)
  qed
qed simp

text \<open>A destination that counts for \<^verbatim>\<open>Verify\<close>: a configured backup, and proven.\<close>

definition counts :: "manager \<Rightarrow> string \<Rightarrow> trace \<Rightarrow> DestinationStatus \<Rightarrow> bool" where
  "counts M cid t st \<longleftrightarrow> dsName st \<noteq> LocalDestinationName \<and> (\<exists>n. clientFor M (dsName st) = Some n \<and> proven M n cid t)"

lemma counts_mono: "counts M cid t st \<Longrightarrow> set t \<subseteq> set t' \<Longrightarrow> counts M cid t' st"
  by (auto simp: counts_def intro: proven_mono)

lemma verify_destinations_counts:
  assumes "verify_destinations M cid now ds t = (k, ds', t')" "\<forall>st\<in>set ds. status_ok M cid t st"
  shows "set t \<subseteq> set t' \<and> map dsName ds' = map dsName ds \<and> (\<forall>st\<in>set ds'. status_ok M cid t' st) \<and>
    k \<le> int (length (filter (counts M cid t') ds'))"
  using assms
proof (induction M cid now ds t arbitrary: k ds' t' rule: verify_destinations.induct)
  case (2 M cid now st ds t)
  show ?case
  proof (cases "clientFor M (dsName st)")
    case None
    obtain k1 ds1 t1 where l: "verify_destinations M cid now ds t = (k1, ds1, t1)" by (metis prod_cases3)
    with 2 None have IH: "set t \<subseteq> set t1 \<and> map dsName ds1 = map dsName ds \<and> (\<forall>st\<in>set ds1. status_ok M cid t1 st) \<and>
      k1 \<le> int (length (filter (counts M cid t1) ds1))" by auto
    with 2(4,5) None l show ?thesis by (auto simp: status_ok_def)
  next
    case (Some n)
    obtain r t1 where g: "retrieveAndVerify M n cid t = (r, t1)" by fastforce
    obtain k1 ds1 t2 where l: "verify_destinations M cid now ds t1 = (k1, ds1, t2)" by (metis prod_cases3)
    note p = retrieve_proves [OF g]
    have ok: "\<forall>st\<in>set ds. status_ok M cid t1 st" using 2(5) p status_ok_mono by (meson list.set_intros(2))
    have IH: "set t1 \<subseteq> set t2 \<and> map dsName ds1 = map dsName ds \<and> (\<forall>st\<in>set ds1. status_ok M cid t2 st) \<and>
      k1 \<le> int (length (filter (counts M cid t2) ds1))"
      by (cases r) (use 2(2,3) [OF Some g [symmetric]] l ok Some in auto)
    have pr: "r = Inr () \<Longrightarrow> proven M n cid t2" using p IH proven_mono by blast
    show ?thesis
    proof (cases r)
      case (Inl e)
      let ?st = "st\<lparr>dsVerified := False, dsLastError := Some e\<rparr>"
      have "t' = t2" "ds' = ?st # ds1" "k = k1" using 2(4) Some g l Inl by simp_all
      then show ?thesis using IH p by (auto simp: status_ok_def)
    next
      case (Inr u)
      let ?st = "st\<lparr>dsVerified := True, dsLastVerifiedAt := now, dsLastError := None\<rparr>"
      have eq: "t' = t2" "ds' = ?st # ds1" "k = (if dsName st \<noteq> LocalDestinationName then k1 + 1 else k1)"
        using 2(4) Some g l Inr by simp_all
      have "status_ok M cid t2 ?st" using pr Inr Some by (simp add: status_ok_def)
      moreover have "counts M cid t2 ?st" if "dsName st \<noteq> LocalDestinationName"
        using pr Inr Some that by (simp add: counts_def)
      ultimately show ?thesis using eq IH p by auto
    qed
  qed
qed simp

lemma counts_holders:
  assumes "wf_manager M" "distinct (map dsName ds)"
  shows "length (filter (counts M cid t) ds) \<le> card (holders M cid t)"
proof -
  have "distinct (map dsName (filter (counts M cid t) ds))" using assms(2) by (rule distinct_map_filter)
  then have "length (filter (counts M cid t) ds) = card (dsName ` set (filter (counts M cid t) ds))"
    by (metis distinct_card length_map set_map)
  also have "\<dots> \<le> card ((\<lambda>i. rmBackups M ! i) ` holders M cid t)"
  proof (rule card_mono)
    show "dsName ` set (filter (counts M cid t) ds) \<subseteq> (\<lambda>i. rmBackups M ! i) ` holders M cid t"
    proof
      fix name
      assume "name \<in> dsName ` set (filter (counts M cid t) ds)"
      then obtain n where "name \<noteq> LocalDestinationName" "clientFor M name = Some n" "proven M n cid t"
        by (auto simp: counts_def)
      then obtain i where "i < length (rmBackups M)" "rmBackups M ! i = name" "proven M (Backup i) cid t"
        using backup_nodes_map [OF assms(1)] by (auto simp: clientFor_def)
      then show "name \<in> (\<lambda>i. rmBackups M ! i) ` holders M cid t" by (auto simp: holders_def)
    qed
  qed (simp add: holders_def)
  also have "\<dots> \<le> card (holders M cid t)" by (rule card_image_le) (simp add: holders_def)
  finally show ?thesis .
qed

section \<open>Runs\<close>

inductive rm_step :: "manager \<Rightarrow> 's publication_repo \<Rightarrow> 's \<times> trace \<Rightarrow> 's \<times> trace \<Rightarrow> bool"
  for M R where
  publish: "Publish M R i d now \<sigma> = (r, \<sigma>') \<Longrightarrow> rm_step M R \<sigma> \<sigma>'"
| add_raw: "AddRawManaged M R d now \<sigma> = (r, \<sigma>') \<Longrightarrow> rm_step M R \<sigma> \<sigma>'"
| verify: "Verify M R i now \<sigma> = (r, \<sigma>') \<Longrightarrow> rm_step M R \<sigma> \<sigma>'"
| retry: "Retry M R i d now \<sigma> = (r, \<sigma>') \<Longrightarrow> rm_step M R \<sigma> \<sigma>'"
| restore: "RestoreLocal M R i now \<sigma> = (r, \<sigma>') \<Longrightarrow> rm_step M R \<sigma> \<sigma>'"
| elsewhere: "rm_step M R (s, t) (s, t @ u)"

inductive rm_run :: "manager \<Rightarrow> 's publication_repo \<Rightarrow> 's \<times> trace \<Rightarrow> 's \<times> trace \<Rightarrow> bool"
  for M R where
  rm_refl: "rm_run M R \<sigma> \<sigma>"
| rm_more: "rm_run M R \<sigma> \<sigma>' \<Longrightarrow> rm_step M R \<sigma>' \<sigma>'' \<Longrightarrow> rm_run M R \<sigma> \<sigma>''"

definition rec_ok :: "manager \<Rightarrow> trace \<Rightarrow> PublicationRecord \<Rightarrow> bool" where
  "rec_ok M t rec \<longleftrightarrow> dests_ok M (puCID rec) t (puDestinations rec) \<and>
     (puState rec = Replicated \<longrightarrow> rmThreshold M \<le> int (card (holders M (puCID rec) t)))"

lemma rec_ok_mono: "rec_ok M t rec \<Longrightarrow> set t \<subseteq> set t' \<Longrightarrow> rec_ok M t' rec"
  using holders_mono [of t t' M "puCID rec"] by (auto simp: rec_ok_def intro: dests_ok_mono)

lemma replicationState_enough:
  assumes "replicationState k c th = Replicated" "k \<le> int h"
  shows "th \<le> int h"
  using assms by (auto simp: replicationState_def split: if_splits)

locale publication_store =
  fixes R :: "'s publication_repo"
    and look :: "'s \<Rightarrow> string \<Rightarrow> PublicationRecord option"
  assumes get_found: "pubGet R i s = Inr rec \<Longrightarrow> look s i = Some rec"
    and get_absent: "pubGet R i s = Inl ErrNotFound \<Longrightarrow> look s i = None"
    and upsert_law: "pubUpsert R rec s = Inr s' \<Longrightarrow> look s' = (look s)(puID rec \<mapsto> rec)"
begin

definition keyed :: "'s \<Rightarrow> bool" where
  "keyed s \<longleftrightarrow> (\<forall>i rec. look s i = Some rec \<longrightarrow> puID rec = i)"

definition rm_ok :: "manager \<Rightarrow> 's \<times> trace \<Rightarrow> bool" where
  "rm_ok M = (\<lambda>(s, t). keyed s \<and> (\<forall>i rec. look s i = Some rec \<longrightarrow> rec_ok M t rec))"

definition bound_kept :: "'s \<Rightarrow> 's \<Rightarrow> bool" where
  "bound_kept s s' \<longleftrightarrow>
     (\<forall>i rec. look s i = Some rec \<longrightarrow> puCID rec \<noteq> [] \<longrightarrow> (\<exists>rec'. look s' i = Some rec' \<and> puCID rec' = puCID rec))"

definition advances :: "manager \<Rightarrow> 's \<times> trace \<Rightarrow> 's \<times> trace \<Rightarrow> bool" where
  "advances M \<sigma> \<sigma>' \<longleftrightarrow> rm_ok M \<sigma>' \<and> bound_kept (fst \<sigma>) (fst \<sigma>') \<and> set (snd \<sigma>) \<subseteq> set (snd \<sigma>')"

lemma bound_kept_refl: "bound_kept s s" by (simp add: bound_kept_def)

lemma bound_kept_trans: "bound_kept s s' \<Longrightarrow> bound_kept s' s'' \<Longrightarrow> bound_kept s s''"
  unfolding bound_kept_def by metis

text \<open>Nothing is written, or a record is, that keeps the CID of the one it replaces.\<close>

lemma advances_trace:
  assumes "rm_ok M (s, t)" "set t \<subseteq> set t'"
  shows "advances M (s, t) (s, t')"
proof -
  have "rec_ok M t' rec" if "look s i = Some rec" for i rec
    by (rule rec_ok_mono [OF _ assms(2)]) (use assms(1) that in \<open>auto simp: rm_ok_def\<close>)
  with assms show ?thesis by (auto simp: advances_def rm_ok_def bound_kept_refl)
qed

lemma advances_write:
  assumes "rm_ok M (s, t)" "set t \<subseteq> set t'" "pubUpsert R rec s = Inr s'" "rec_ok M t' rec"
    "\<And>old. look s (puID rec) = Some old \<Longrightarrow> puCID old \<noteq> [] \<Longrightarrow> puCID rec = puCID old"
  shows "advances M (s, t) (s', t')"
proof -
  have "rec_ok M t' old" if "look s i = Some old" for i old
    by (rule rec_ok_mono [OF _ assms(2)]) (use assms(1) that in \<open>auto simp: rm_ok_def\<close>)
  with assms upsert_law [OF assms(3)] show ?thesis by (auto simp: advances_def rm_ok_def bound_kept_def keyed_def)
qed

lemma advances_quietly:
  assumes "rm_ok M (s, t)" "set t \<subseteq> set t'" "rec_ok M t' rec"
    "\<And>old. look s (puID rec) = Some old \<Longrightarrow> puCID old \<noteq> [] \<Longrightarrow> puCID rec = puCID old"
  shows "advances M (s, t) (upsert_quietly R rec s, t')"
proof (cases "pubUpsert R rec s")
  case (Inl e)
  then show ?thesis using advances_trace [OF assms(1,2)] by (simp add: upsert_quietly_def)
next
  case (Inr s')
  then show ?thesis using advances_write [OF assms(1,2) Inr assms(3,4)] by (simp add: upsert_quietly_def)
qed

lemma advances_rm_store:
  assumes "rm_ok M (s, t)" "set t \<subseteq> set t'" "rec_ok M t' rec" "rm_store R rec (s, t') = (r, \<sigma>')"
    "\<And>old. look s (puID rec) = Some old \<Longrightarrow> puCID old \<noteq> [] \<Longrightarrow> puCID rec = puCID old"
  shows "advances M (s, t) \<sigma>'"
proof (cases "pubUpsert R rec s")
  case (Inl e)
  then show ?thesis using advances_trace [OF assms(1,2)] assms(4) by (auto simp: rm_store_def)
next
  case (Inr s')
  then show ?thesis using advances_write [OF assms(1,2) Inr assms(3,5)] assms(4) by (auto simp: rm_store_def)
qed

lemma load_ok:
  assumes "replicate_load R i cid now s = Inr rec" "rm_ok M (s, t)" "wf_manager M"
  shows "puID rec = i \<and> dests_ok M cid t (puDestinations rec) \<and>
    (\<forall>old. look s i = Some old \<longrightarrow> puCID old \<noteq> [] \<longrightarrow> cid = puCID old)"
proof -
  consider "pubGet R i s = Inr rec" "puCID rec = [] \<or> puCID rec = cid"
    | "pubGet R i s = Inl ErrNotFound" "rec = newPublication i now"
    using assms(1) by (auto simp: replicate_load_def split: sum.splits repo_error.splits if_splits)
  then show ?thesis
  proof cases
    case 1
    then have l: "look s i = Some rec" by (simp add: get_found)
    with assms(2) have "puID rec = i" "dests_ok M (puCID rec) t (puDestinations rec)"
      by (auto simp: rm_ok_def keyed_def rec_ok_def)
    with 1(2) dests_ok_unbound [OF assms(3)] l show ?thesis by auto
  next
    case 2
    then have "look s i = None" by (simp add: get_absent)
    with 2(2) show ?thesis by (simp add: newPublication_def dests_ok_def)
  qed
qed

lemma replicate_advances:
  assumes "replicate_content M R i cid d now (s, t) = (r, \<sigma>')" "rm_ok M (s, t)" "wf_manager M"
  shows "advances M (s, t) \<sigma>'"
proof (cases "replicate_load R i cid now s")
  case (Inl e)
  then show ?thesis using assms advances_trace [OF assms(2)] by (auto simp: replicate_content_def)
next
  case (Inr rec)
  define rec1 where "rec1 = rec\<lparr>puCID := cid, puReplicationThreshold := rmThreshold M, puUpdatedAt := now\<rparr>"
  note load = load_ok [OF Inr assms(2,3)]
  let ?ds = "puDestinations rec"
  obtain p st t1 where p: "pinAndVerify M LocalNode cid now (get_dest LocalDestinationName ?ds) t = (p, st, t1)" by (metis prod_cases3)
  note pp = pin_proves [OF p]
  have "status_ok M cid t1 st"
    by (rule status_ok_checked [of _ LocalDestinationName LocalNode]) (use pp in \<open>auto simp: clientFor_def\<close>)
  then have ds: "dests_ok M cid t1 (put_dest st ?ds)" by (intro dests_ok_put dests_ok_mono [OF conjunct1 [OF conjunct2 [OF load]]]) (use pp in auto)
  have keep: "\<And>old. look s i = Some old \<Longrightarrow> puCID old \<noteq> [] \<Longrightarrow> cid = puCID old" using load by blast
  show ?thesis
  proof (cases p)
    case (Inl e)
    let ?rec = "rec1\<lparr>puDestinations := put_dest st ?ds, puState := Created\<rparr>"
    have "\<sigma>' = (upsert_quietly R ?rec s, t1)"
      using assms(1) Inr p Inl by (simp add: replicate_content_def replicate_work_def rec1_def Let_def)
    moreover have "rec_ok M t1 ?rec" using ds by (simp add: rec_ok_def rec1_def)
    ultimately show ?thesis
      using advances_quietly [OF assms(2) conjunct1 [OF pp], of ?rec] keep load by (simp add: rec1_def)
  next
    case (Inr u)
    obtain k es ds' t2 where b: "replicate_backups M cid d now (backup_nodes M) (put_dest st ?ds) t1 = (k, es, ds', t2)"
      by (metis prod_cases4)
    note bb = replicate_backups_counts [OF b assms(3) subset_refl ds]
    have sub: "set t \<subseteq> set t2" using pp bb by blast
    let ?rec = "rec1\<lparr>puDestinations := ds', puState := replicationState k (int (length (rmBackups M))) (rmThreshold M)\<rparr>"
    have "rec_ok M t2 ?rec"
      using bb replicationState_enough [of k _ "rmThreshold M" "card (holders M cid t2)"] by (auto simp: rec_ok_def rec1_def holders_count)
    note w = advances_write [OF assms(2) sub _ this] 
    show ?thesis
    proof (cases "pubUpsert R ?rec s")
      case (Inl e)
      then have "\<sigma>' = (s, t2)"
        using assms(1) \<open>replicate_load R i cid now s = Inr rec\<close> p \<open>p = Inr u\<close> b by (simp add: replicate_content_def replicate_work_def rec1_def Let_def)
      then show ?thesis using advances_trace [OF assms(2) sub] by simp
    next
      case s': (Inr s')
      then have "\<sigma>' = (s', t2)"
        using assms(1) \<open>replicate_load R i cid now s = Inr rec\<close> p \<open>p = Inr u\<close> b by (simp add: replicate_content_def replicate_work_def rec1_def Let_def)
      then show ?thesis using w [OF s'] keep load by (simp add: rec1_def)
    qed
  qed
qed

lemma publish_advances:
  assumes "publish_as f M R d now (s, t) = (r, \<sigma>')" "rm_ok M (s, t)" "wf_manager M"
  shows "advances M (s, t) \<sigma>'"
proof -
  obtain a t1 where a: "AddRaw (rmNodes M) LocalNode d t = (a, t1)" by fastforce
  note sub = AddRaw_trace [OF a]
  note adv = advances_trace [OF assms(2) sub]
  show ?thesis
  proof (cases a)
    case (Inl e)
    then show ?thesis using assms(1) a adv by (simp add: publish_as_def)
  next
    case (Inr cid)
    obtain r1 s2 t2 where c: "replicate_content M R (f cid) cid d now (s, t1) = (r1, s2, t2)" by (metis prod_cases3)
    have "\<sigma>' = (s2, t2)" using assms(1) a Inr c by (auto simp: publish_as_def split: sum.splits)
    moreover have "rm_ok M (s, t1)" using adv by (simp add: advances_def)
    note replicate_advances [OF c this assms(3)]
    ultimately show ?thesis using sub by (auto simp: advances_def)
  qed
qed

end

context publication_store
begin

lemma verify_advances:
  assumes "Verify M R i now (s, t) = (r, \<sigma>')" "rm_ok M (s, t)" "wf_manager M"
  shows "advances M (s, t) \<sigma>'"
proof (cases "pubGet R i s")
  case (Inl e)
  then show ?thesis using assms(1) advances_trace [OF assms(2)] by (auto simp: Verify_def)
next
  case (Inr rec)
  then have "look s i = Some rec" by (rule get_found)
  with assms(2) have ok: "puID rec = i" "dests_ok M (puCID rec) t (puDestinations rec)" "look s (puID rec) = Some rec"
    by (auto simp: rm_ok_def keyed_def rec_ok_def)
  obtain k ds t1 where v: "verify_destinations M (puCID rec) now (puDestinations rec) t = (k, ds, t1)" by (metis prod_cases3)
  note c = verify_destinations_counts [OF v] 
  have c': "set t \<subseteq> set t1" "dests_ok M (puCID rec) t1 ds" "k \<le> int (length (filter (counts M (puCID rec) t1) ds))"
    using c ok(2) by (auto simp: dests_ok_def)
  let ?rec = "rec\<lparr>puDestinations := ds, puUpdatedAt := now,
     puState := replicationState k (int (length (rmBackups M))) (rmThreshold M)\<rparr>"
  have "length (filter (counts M (puCID rec) t1) ds) \<le> card (holders M (puCID rec) t1)"
    by (rule counts_holders [OF assms(3)]) (use c'(2) in \<open>simp add: dests_ok_def\<close>)
  then have "rec_ok M t1 ?rec"
    using c' replicationState_enough [of k _ "rmThreshold M" "card (holders M (puCID rec) t1)"] by (auto simp: rec_ok_def)
  moreover have "rm_store R ?rec (s, t1) = (r, \<sigma>')" using assms(1) Inr v by (simp add: Verify_def)
  ultimately show ?thesis by (rule advances_rm_store [OF assms(2) c'(1)]) (use ok(3) in simp)
qed

lemma retry_advances:
  assumes "Retry M R i d now (s, t) = (r, \<sigma>')" "rm_ok M (s, t)" "wf_manager M"
  shows "advances M (s, t) \<sigma>'"
proof (cases "pubGet R i s")
  case (Inl e)
  then show ?thesis using assms(1) advances_trace [OF assms(2)] by (auto simp: Retry_def)
next
  case (Inr rec)
  then have "look s i = Some rec" by (rule get_found)
  with assms(2) have ok: "dests_ok M (puCID rec) t (puDestinations rec)" "look s (puID rec) = Some rec"
    by (auto simp: rm_ok_def keyed_def rec_ok_def)
  show ?thesis
  proof (cases "rmCID M d = Some (puCID rec)")
    case False
    then show ?thesis using assms(1) Inr advances_trace [OF assms(2)] by (auto simp: Retry_def)
  next
    case True
    obtain k ds t1 where v: "retry_backups M (puCID rec) d now (backup_nodes M) (puDestinations rec) t = (k, ds, t1)"
      by (metis prod_cases3)
    note c = retry_backups_counts [OF v assms(3) subset_refl ok(1)]
    let ?rec = "rec\<lparr>puDestinations := ds, puUpdatedAt := now,
       puState := replicationState k (int (length (rmBackups M))) (rmThreshold M)\<rparr>"
    have "rec_ok M t1 ?rec"
      using c replicationState_enough [of k _ "rmThreshold M" "card (holders M (puCID rec) t1)"]
      by (auto simp: rec_ok_def holders_count)
    moreover have "rm_store R ?rec (s, t1) = (r, \<sigma>')" using assms(1) Inr True v by (simp add: Retry_def)
    ultimately show ?thesis by (rule advances_rm_store [OF assms(2) conjunct1 [OF c]]) (use ok(2) in simp)
  qed
qed

lemma restored_ok:
  assumes "rec_ok M t rec" "pinAndVerify M LocalNode (puCID rec) now (get_dest LocalDestinationName (puDestinations rec)) t = (p, st, t')"
  shows "rec_ok M t' (rec\<lparr>puDestinations := put_dest st (puDestinations rec), puUpdatedAt := now\<rparr>)"
proof -
  note pp = pin_proves [OF assms(2)]
  have "status_ok M (puCID rec) t' st"
    by (rule status_ok_checked [of _ LocalDestinationName LocalNode]) (use pp in \<open>auto simp: clientFor_def\<close>)
  moreover have "rec_ok M t' rec" using rec_ok_mono [OF assms(1)] pp by blast
  ultimately show ?thesis using dests_ok_put by (simp add: rec_ok_def)
qed

lemma restore_from_advances:
  assumes "restore_from M R rec now ns lastErr (s, t) = (r, \<sigma>')" "rm_ok M (s, t)" "rec_ok M t rec"
    "look s (puID rec) = Some rec"
  shows "advances M (s, t) \<sigma>'"
  using assms
proof (induction ns arbitrary: lastErr t)
  case Nil
  then show ?case using advances_trace [OF Nil(2)] by auto
next
  case (Cons n ns)
  obtain g t1 where g: "GetRaw (rmNodes M) n (puCID rec) t = (g, t1)" by fastforce
  have sub: "set t \<subseteq> set t1" using GetRaw_trace [OF g] by blast
  have on: "advances M (s, t) \<sigma>'" if "restore_from M R rec now ns e (s, t1) = (r, \<sigma>')" for e
  proof -
    have "advances M (s, t1) \<sigma>'"
      by (rule Cons.IH [OF that]) (use advances_trace [OF Cons.prems(2) sub] rec_ok_mono [OF Cons.prems(3) sub] Cons.prems(4) in \<open>auto simp: advances_def\<close>)
    then show ?thesis using sub by (auto simp: advances_def)
  qed
  show ?case
  proof (cases g)
    case (Inl e)
    then show ?thesis using on Cons.prems(1) g by simp
  next
    case (Inr d)
    show ?thesis
    proof (cases "rmCID M d = Some (puCID rec)")
      case False
      then show ?thesis using on Cons.prems(1) g Inr by simp
    next
      case True
      obtain a t2 where a: "AddRaw (rmNodes M) LocalNode d t1 = (a, t2)" by fastforce
      have sub2: "set t \<subseteq> set t2" using sub AddRaw_trace [OF a] by blast
      obtain p st t3 where p: "pinAndVerify M LocalNode (puCID rec) now (get_dest LocalDestinationName (puDestinations rec)) t2 = (p, st, t3)"
        by (metis prod_cases3)
      have sub3: "set t \<subseteq> set t3" using sub2 pin_proves [OF p] by blast
      let ?rec = "rec\<lparr>puDestinations := put_dest st (puDestinations rec), puUpdatedAt := now\<rparr>"
      have ok: "rec_ok M t3 ?rec" by (rule restored_ok [OF rec_ok_mono [OF Cons.prems(3) sub2] p])
      consider e where "a = Inl e" | got where "a = Inr got" "got \<noteq> puCID rec" | e where "a = Inr (puCID rec)" "p = Inl e"
        | u where "a = Inr (puCID rec)" "p = Inr u" by (cases a; cases p) auto
      then show ?thesis
      proof cases
        case 3
        then have "\<sigma>' = (upsert_quietly R ?rec s, t3)" using Cons.prems(1) g Inr True a p by simp
        then show ?thesis using advances_quietly [OF Cons.prems(2) sub3 ok] Cons.prems(4) by simp
      next
        case 4
        then have "rm_store R ?rec (s, t3) = (r, \<sigma>')" using Cons.prems(1) g Inr True a p by simp
        then show ?thesis by (rule advances_rm_store [OF Cons.prems(2) sub3 ok]) (use Cons.prems(4) in simp)
      qed (use Cons.prems(1) g Inr True a advances_trace [OF Cons.prems(2) sub2] in auto)
    qed
  qed
qed

lemma step_advances:
  assumes "rm_step M R \<sigma> \<sigma>'" "rm_ok M \<sigma>" "wf_manager M"
  shows "advances M \<sigma> \<sigma>'"
  using assms
proof (induction rule: rm_step.induct)
  case (restore i now \<sigma> r \<sigma>')
  obtain s t where \<sigma>: "\<sigma> = (s, t)" by fastforce
  show ?case
  proof (cases "pubGet R i s")
    case (Inl e)
    then show ?thesis using restore \<sigma> advances_trace [of M s t t] by (auto simp: RestoreLocal_def)
  next
    case (Inr rec)
    then have "look s i = Some rec" by (rule get_found)
    with restore(2) \<sigma> have "rec_ok M t rec" "look s (puID rec) = Some rec" by (auto simp: rm_ok_def keyed_def)
    with restore \<sigma> Inr restore_from_advances show ?thesis by (auto simp: RestoreLocal_def)
  qed
next
  case (elsewhere s t u)
  then show ?case by (intro advances_trace) auto
qed (use publish_advances verify_advances retry_advances in \<open>fastforce simp: Publish_def AddRawManaged_def\<close>)+

lemma run_advances:
  assumes "rm_run M R \<sigma> \<sigma>'" "rm_ok M \<sigma>" "wf_manager M"
  shows "rm_ok M \<sigma>' \<and> bound_kept (fst \<sigma>) (fst \<sigma>')"
  using assms
proof (induction rule: rm_run.induct)
  case (rm_more \<sigma> \<sigma>' \<sigma>'')
  then show ?case using step_advances [of M \<sigma>' \<sigma>''] bound_kept_trans by (auto simp: advances_def)
qed (simp add: bound_kept_refl)

lemma durable_has_holders:
  assumes "rm_ok M (s, t)" "IsDurablyPublished R i cid s = Inr True"
  shows "rmThreshold M \<le> int (card (holders M cid t))"
proof -
  from assms(2) obtain rec where "pubGet R i s = Inr rec" "puState rec = Replicated" "puCID rec = cid"
    by (auto simp: IsDurablyPublished_def split: sum.splits repo_error.splits)
  with get_found [of i s rec] assms(1) show ?thesis by (auto simp: rm_ok_def rec_ok_def)
qed

text \<open>One backup that fails makes \<^verbatim>\<open>Publish\<close> fail, also when the threshold is met.\<close>

lemma flaky_backup:
  assumes "replicate_load R i cid now s = Inr rec"
    "pinAndVerify M LocalNode cid now (get_dest LocalDestinationName (puDestinations rec)) t = (Inr (), st, t1)"
    "replicate_backups M cid d now (backup_nodes M) (put_dest st (puDestinations rec)) t1 = (k, es, ds, t2)"
    "es \<noteq> []" "0 < rmThreshold M" "rmThreshold M \<le> k" "puID rec = i"
    "\<And>r. \<exists>s'. pubUpsert R r s = Inr s'" "\<And>j s' r. look s' j = Some r \<Longrightarrow> pubGet R j s' = Inr r"
  shows "\<exists>s'. replicate_content M R i cid d now (s, t) = (Inl (BackupFailures es), s', t2) \<and>
    IsDurablyPublished R i cid s' = Inr True"
proof -
  define rec' where "rec' = rec\<lparr>puCID := cid, puReplicationThreshold := rmThreshold M, puUpdatedAt := now,
    puDestinations := ds, puState := replicationState k (int (length (rmBackups M))) (rmThreshold M)\<rparr>"
  obtain s' where s': "pubUpsert R rec' s = Inr s'" using assms(8) by blast
  have "replicate_content M R i cid d now (s, t) = (Inl (BackupFailures es), s', t2)"
    using assms(1-4) s' by (simp add: replicate_content_def replicate_work_def Let_def rec'_def)
  moreover have "pubGet R i s' = Inr rec'" using upsert_law [OF s'] assms(7,9) by (simp add: rec'_def)
  then have "IsDurablyPublished R i cid s' = Inr True"
    using assms(5,6) by (simp add: IsDurablyPublished_def rec'_def replicationState_def)
  ultimately show ?thesis by blast
qed

end

interpretation mp: publication_store memoryPublications "map_of :: publication_map \<Rightarrow> _"
  by unfold_locales
    (auto simp: memoryPublications_def memPubGet_def memPubUpsert_def update_conv split: option.splits)

section \<open>Properties\<close>

definition no_publications :: "publication_map \<times> trace" where
  "no_publications = ([], [])"

lemma no_publications_ok: "mp.rm_ok M no_publications"
  by (simp add: mp.rm_ok_def mp.keyed_def no_publications_def)

text \<open>C32: durable means held. Whatever the nodes answer, in every state reached by publishing, verifying,
  retrying and restoring, when the manager calls an id durably published under a CID, then at least as
  many distinct configured backups as the threshold asks for have answered a fetch with bytes whose hash is
  that CID.\<close>

theorem durable_is_held:
  assumes "rm_run M memoryPublications no_publications (s, t)" "wf_manager M"
    "IsDurablyPublished memoryPublications i cid s = Inr True"
  shows "rmThreshold M \<le> int (card {n. n < length (rmBackups M) \<and>
    (\<exists>d. (Backup n, GetReq cid, DataAns d) \<in> set t \<and> rmCID M d = Some cid)})"
  using mp.durable_has_holders [OF _ assms(3)] mp.run_advances [OF assms(1) no_publications_ok assms(2)]
  by (simp add: holders_def proven_def)

text \<open>C33: an id stays bound to its content. Once a publication is recorded under a CID, no later sequence of
  operations, each carried out as a whole, changes that CID, whatever content is offered under the id.\<close>

theorem publication_bound:
  assumes "rm_run M memoryPublications no_publications (s, t)" "rm_run M memoryPublications (s, t) (s', t')"
    "wf_manager M" "map_of s i = Some rec" "puCID rec \<noteq> []"
  shows "\<exists>rec'. map_of s' i = Some rec' \<and> puCID rec' = puCID rec"
proof -
  have "mp.rm_ok M (s, t)" using mp.run_advances [OF assms(1) no_publications_ok assms(3)] by simp
  from mp.run_advances [OF assms(2) this assms(3)] assms(4,5) show ?thesis by (auto simp: mp.bound_kept_def)
qed

section \<open>Concrete runs\<close>

definition demo_nodes :: nodes where
  "demo_nodes t n q = (case q of
      AddReq d \<Rightarrow> if n = Backup 1 then Failed ''down'' else CidAns (if d = [0] then ''A'' else ''B'')
    | PinReq c \<Rightarrow> PinAns
    | GetReq c \<Rightarrow> DataAns (if c = ''A'' then [0] else [1]))"

definition demo_manager :: "string list \<Rightarrow> manager" where
  "demo_manager bs = \<lparr>rmNodes = demo_nodes, rmBackups = bs, rmThreshold = 1,
     rmCID = (\<lambda>d. Some (if d = [0] then ''A'' else ''B''))\<rparr>"

definition demo_record :: "string \<Rightarrow> DestinationStatus list \<Rightarrow> PublicationRecord" where
  "demo_record c more_dests = \<lparr>puID = ''r'', puCID = c, puState = Replicated,
     puDestinations = [\<lparr>dsName = ''local'', dsPinned = True, dsVerified = True, dsLastVerifiedAt = 9, dsLastError = None\<rparr>,
       \<lparr>dsName = ''archive'', dsPinned = True, dsVerified = True, dsLastVerifiedAt = 9, dsLastError = None\<rparr>] @ more_dests,
     puReplicationThreshold = 1, puCreatedAt = 9, puUpdatedAt = 9\<rparr>"

lemmas rm_eval = Publish_def publish_as_def replicate_content_def replicate_load_def replicate_work_def AddRaw_def Pin_def
  GetRaw_def ask_def Let_def demo_manager_def demo_nodes_def pinAndVerify_def addAndVerify_def retrieveAndVerify_def
  get_dest_def newDestination_def LocalDestinationName_def newPublication_def backup_nodes_def memoryPublications_def
  memPubGet_def memPubUpsert_def replicationState_def demo_record_def IsDurablyPublished_def

lemma demo_publish: "\<exists>t. Publish (demo_manager [''archive'']) memoryPublications ''r'' [0] 9 no_publications =
    (Inr ''A'', [(''r'', demo_record ''A'' [])], t)"
  by (simp add: rm_eval no_publications_def)

lemma demo_wf: "wf_manager (demo_manager [''archive''])"
  by (simp add: wf_manager_def demo_manager_def LocalDestinationName_def)

lemma demo_run: "\<exists>t. rm_run (demo_manager [''archive'']) memoryPublications no_publications ([(''r'', demo_record ''A'' [])], t)"
  using demo_publish by (meson rm_refl rm_more rm_step.publish)

theorem durable_is_held_witness:
  "\<exists>t. 1 \<le> int (card {n. n < length (rmBackups (demo_manager [''archive''])) \<and>
    (\<exists>d. (Backup n, GetReq ''A'', DataAns d) \<in> set t \<and> rmCID (demo_manager [''archive'']) d = Some ''A'')})"
proof -
  obtain t where t: "rm_run (demo_manager [''archive'']) memoryPublications no_publications ([(''r'', demo_record ''A'' [])], t)"
    using demo_run by blast
  have d: "IsDurablyPublished memoryPublications ''r'' ''A'' [(''r'', demo_record ''A'' [])] = Inr True" by (simp add: rm_eval)
  have "rmThreshold (demo_manager [''archive'']) = 1" by (simp add: demo_manager_def)
  with durable_is_held [OF t demo_wf d] show ?thesis by (intro exI [of _ t]) (simp only:)
qed

lemma demo_conflict: "\<exists>t'. Publish (demo_manager [''archive'']) memoryPublications ''r'' [1] 10 ([(''r'', demo_record ''A'' [])], t) =
    (Inl (CIDConflict ''A'' ''B''), [(''r'', demo_record ''A'' [])], t')"
  by (simp add: rm_eval)

theorem publication_bound_witness: "\<exists>t' rec'. rm_run (demo_manager [''archive'']) memoryPublications no_publications
    ([(''r'', demo_record ''A'' [])], t') \<and> map_of [(''r'', demo_record ''A'' [])] ''r'' = Some rec' \<and> puCID rec' = ''A''"
proof -
  obtain t where t: "rm_run (demo_manager [''archive'']) memoryPublications no_publications ([(''r'', demo_record ''A'' [])], t)"
    using demo_run by blast
  obtain t' where c: "Publish (demo_manager [''archive'']) memoryPublications ''r'' [1] 10 ([(''r'', demo_record ''A'' [])], t) =
    (Inl (CIDConflict ''A'' ''B''), [(''r'', demo_record ''A'' [])], t')" using demo_conflict by blast
  have r: "rm_run (demo_manager [''archive'']) memoryPublications ([(''r'', demo_record ''A'' [])], t) ([(''r'', demo_record ''A'' [])], t')"
    by (rule rm_more [OF rm_refl rm_step.publish [OF c]])
  obtain rec' where "map_of [(''r'', demo_record ''A'' [])] ''r'' = Some rec'" "puCID rec' = puCID (demo_record ''A'' [])"
    using publication_bound [OF t r demo_wf, of "''r''" "demo_record ''A'' []"] by (auto simp: demo_record_def)
  moreover have "puCID (demo_record ''A'' []) = ''A''" by (simp add: demo_record_def)
  moreover have "rm_run (demo_manager [''archive'']) memoryPublications no_publications ([(''r'', demo_record ''A'' [])], t')"
    by (rule rm_more [OF t rm_step.publish [OF c]])
  ultimately show ?thesis by (intro exI [of _ t'] exI [of _ rec']) simp
qed

text \<open>The check and the write are two store accesses: of two overlapping publications under one fresh id
  with different contents, both are accepted and the second CID replaces the first.\<close>

lemma publication_race: "\<exists>rec rec' t1 t2.
    replicate_load memoryPublications ''r'' ''A'' 9 [] = Inr rec \<and> replicate_load memoryPublications ''r'' ''B'' 9 [] = Inr rec' \<and>
    replicate_work (demo_manager [''archive'']) memoryPublications ''A'' [0] 9 rec ([], []) = (Inr (), [(''r'', demo_record ''A'' [])], t1) \<and>
    replicate_work (demo_manager [''archive'']) memoryPublications ''B'' [1] 9 rec' ([(''r'', demo_record ''A'' [])], t1) =
      (Inr (), [(''r'', demo_record ''B'' [])], t2)"
  by (simp add: rm_eval)

text \<open>With the threshold met by the archive, one unreachable backup still makes the publication fail.\<close>

lemma flaky_backup_demo: "\<exists>t rec. Publish (demo_manager [''archive'', ''backup-kubo'']) memoryPublications ''r'' [0] 9 no_publications =
      (Inl (BackupFailures [(''backup-kubo'', AddFailed (NodeFailed ''down''))]), [(''r'', rec)], t) \<and>
    IsDurablyPublished memoryPublications ''r'' ''A'' [(''r'', rec)] = Inr True"
  by (simp add: rm_eval no_publications_def upt_rec)

end
