(* ===== verification/RwaPackage.thy ===== *)
theory RwaPackage
  imports GoText
begin

text \<open>
  The \<^verbatim>\<open>.rwa\<close> audit package: \<^verbatim>\<open>signer/internal/package/rwapkg.go\<close> (extraction, the manifest, the
  check of the files against it) and the server's \<^verbatim>\<open>server/internal/auditpkg/manifest.go\<close> and
  \<^verbatim>\<open>package.go\<close>. \<^verbatim>\<open>archive/zip\<close>, \<^verbatim>\<open>encoding/json\<close> and SHA-256 are parameters: an archive is the list of
  entries the reader finds, each with what decompressing it yields. A Go map of files is a list of
  pairs with distinct names.
\<close>

section \<open>Manifests\<close>

record ManifestFile =
  mfPath :: string
  mfSHA256 :: string
  mfSize :: int
  mfMIME :: string

record Manifest =
  manPackageVersion :: string
  manPrimaryType :: string
  manProfileDigest :: string
  manMetadataDigest :: string
  manFiles :: "ManifestFile list"

datatype manifest_error = BadJSON | BadVersion | BadPrimaryType | BadProfileDigest | BadMetadataDigest
  | BadPath nat | BadSHA256 nat | BadSize nat | NoMIME nat | DuplicatePath nat | NotPermitted nat | MissingEntry string

definition path_char :: "char \<Rightarrow> bool" where
  "path_char c \<longleftrightarrow> alnum c \<or> c \<in> set ''._/-''"

definition pathPattern :: "string \<Rightarrow> bool" where
  "pathPattern s \<longleftrightarrow> 1 \<le> length s \<and> length s \<le> 255 \<and> list_all path_char s"

definition sha256Pattern :: "string \<Rightarrow> bool" where "sha256Pattern = all_of lower_hex 64"

definition hexDigestPattern :: "string \<Rightarrow> bool" where "hexDigestPattern = hex0x lower_hex 64"

definition mandatory_files :: "string list" where
  "mandatory_files = [''profile.json'', ''metadata.json'', ''typed-data.json'']"

definition proofsPrefix :: string where "proofsPrefix = ''proofs/''"

text \<open>One round of the loop over the files; \<open>seen\<close> are the paths of the earlier rounds.\<close>

definition manifest_file :: "string list \<Rightarrow> nat \<Rightarrow> ManifestFile \<Rightarrow> manifest_error + unit" where
  "manifest_file seen i mf =
     (if \<not> pathPattern (mfPath mf) then Inl (BadPath i)
      else if \<not> sha256Pattern (mfSHA256 mf) then Inl (BadSHA256 i)
      else if mfSize mf < 0 \<or> mfSize mf > 104857600 then Inl (BadSize i)
      else if mfMIME mf = [] then Inl (NoMIME i)
      else if mfPath mf \<in> set seen then Inl (DuplicatePath i)
      else if mfPath mf \<in> set mandatory_files then Inr ()
      else if \<not> hasPrefix (mfPath mf) proofsPrefix then Inl (NotPermitted i)
      else Inr ())"

fun manifest_files :: "string list \<Rightarrow> nat \<Rightarrow> ManifestFile list \<Rightarrow> manifest_error + string list" where
  "manifest_files seen i [] = Inr seen"
| "manifest_files seen i (mf # mfs) =
     bind_res (manifest_file seen i mf) (\<lambda>_. manifest_files (mfPath mf # seen) (i + 1) mfs)"

definition check_mandatory :: "string list \<Rightarrow> manifest_error + unit" where
  "check_mandatory seen = for_res (\<lambda>p. guard (p \<in> set seen) (MissingEntry p)) mandatory_files"

definition ParseManifest :: "(bytes \<Rightarrow> Manifest option) \<Rightarrow> bytes \<Rightarrow> manifest_error + Manifest" where
  "ParseManifest decode raw =
     (case decode raw of
        None \<Rightarrow> Inl BadJSON
      | Some m \<Rightarrow>
          if manPackageVersion m \<noteq> ''1.0'' then Inl BadVersion
          else if manPrimaryType m \<noteq> ''MintAttestation'' \<and> manPrimaryType m \<noteq> ''BurnAttestation'' then Inl BadPrimaryType
          else if \<not> hexDigestPattern (manProfileDigest m) then Inl BadProfileDigest
          else if \<not> hexDigestPattern (manMetadataDigest m) then Inl BadMetadataDigest
          else bind_res (manifest_files [] 0 (manFiles m)) (\<lambda>seen. bind_res (check_mandatory seen) (\<lambda>_. Inr m)))"

text \<open>The server's own check; its loop looks for a duplicate first.\<close>

definition server_manifest_file :: "string list \<Rightarrow> nat \<Rightarrow> ManifestFile \<Rightarrow> manifest_error + unit" where
  "server_manifest_file seen i f =
     (if mfPath f \<in> set seen then Inl (DuplicatePath i)
      else if \<not> pathPattern (mfPath f) then Inl (BadPath i)
      else if \<not> sha256Pattern (mfSHA256 f) then Inl (BadSHA256 i)
      else if mfSize f < 0 \<or> mfSize f > 104857600 then Inl (BadSize i)
      else if mfMIME f = [] then Inl (NoMIME i)
      else if mfPath f \<notin> set mandatory_files \<and> \<not> hasPrefix (mfPath f) proofsPrefix then Inl (NotPermitted i)
      else Inr ())"

fun server_manifest_files :: "string list \<Rightarrow> nat \<Rightarrow> ManifestFile list \<Rightarrow> manifest_error + string list" where
  "server_manifest_files seen i [] = Inr seen"
| "server_manifest_files seen i (f # fs) =
     bind_res (server_manifest_file seen i f) (\<lambda>_. server_manifest_files (mfPath f # seen) (i + 1) fs)"

definition parseManifestStrict :: "(bytes \<Rightarrow> Manifest option) \<Rightarrow> bytes \<Rightarrow> manifest_error + Manifest" where
  "parseManifestStrict decode raw =
     (case decode raw of
        None \<Rightarrow> Inl BadJSON
      | Some m \<Rightarrow>
          if manPackageVersion m \<noteq> ''1.0'' then Inl BadVersion
          else if manPrimaryType m \<noteq> ''MintAttestation'' \<and> manPrimaryType m \<noteq> ''BurnAttestation'' then Inl BadPrimaryType
          else if \<not> hexDigestPattern (manProfileDigest m) then Inl BadProfileDigest
          else if \<not> hexDigestPattern (manMetadataDigest m) then Inl BadMetadataDigest
          else bind_res (server_manifest_files [] 0 (manFiles m)) (\<lambda>seen. bind_res (check_mandatory seen) (\<lambda>_. Inr m)))"

section \<open>Files against the manifest\<close>

type_synonym files = "(string \<times> bytes) list"

datatype verify_error = MissingFile string | SizeMismatch string | HashMismatch string | Undeclared string

definition verify_file :: "(bytes \<Rightarrow> bytes) \<Rightarrow> files \<Rightarrow> ManifestFile \<Rightarrow> verify_error + unit" where
  "verify_file sha files mf =
     (case map_of files (mfPath mf) of
        None \<Rightarrow> Inl (MissingFile (mfPath mf))
      | Some d \<Rightarrow>
          if int (length d) \<noteq> mfSize mf then Inl (SizeMismatch (mfPath mf))
          else if hex (sha d) \<noteq> mfSHA256 mf then Inl (HashMismatch (mfPath mf))
          else Inr ())"

definition VerifyFiles :: "(bytes \<Rightarrow> bytes) \<Rightarrow> Manifest \<Rightarrow> files \<Rightarrow> verify_error + unit" where
  "VerifyFiles sha m files =
     bind_res (for_res (verify_file sha files) (manFiles m))
       (\<lambda>_. for_res (\<lambda>(p, d). guard (p \<in> mfPath ` set (manFiles m)) (Undeclared p)) files)"

section \<open>Extraction\<close>

record zip_entry =
  zeName :: string
  zeRegular :: bool
  zeSymlink :: bool
  zeMethod :: nat
  zeDeclared :: int
  zeData :: "string + bytes"

datatype extract_error = NotZip | NoEntries | TooManyEntries | BackslashName string | UnsafeName string | Traversal string
  | Symlink string | DuplicateName string | BadMethod string | Unreadable string string | TooLarge string

record Options =
  MaxFileCount :: nat
  MaxSingleFileUncompressed :: int
  MaxTotalUncompressed :: int

definition DefaultOptions :: Options where
  "DefaultOptions = \<lparr>MaxFileCount = 256, MaxSingleFileUncompressed = 64 * 1024 * 1024,
     MaxTotalUncompressed = 256 * 1024 * 1024\<rparr>"

definition MaxCompressedSize :: int where "MaxCompressedSize = 64 * 1024 * 1024"

text \<open>\<^verbatim>\<open>ReadPackageFile\<close>: the size the file system reports, then the bytes the reader yields.\<close>

definition ReadPackageFile :: "int \<Rightarrow> (string + bytes) \<Rightarrow> int \<Rightarrow> string + bytes" where
  "ReadPackageFile stat contents maxCompressed =
     (if stat > maxCompressed then Inl ''size''
      else case contents of
        Inl e \<Rightarrow> Inl e
      | Inr d \<Rightarrow> if int (length d) > maxCompressed then Inl ''size'' else Inr d)"

definition name_check :: "string \<Rightarrow> extract_error + unit" where
  "name_check name =
     (if CHR 92 \<in> set name then Inl (BackslashName name)
      else if name = [] \<or> hasPrefix name ''/'' then Inl (UnsafeName name)
      else
        let cleaned = path_Clean name in
        if cleaned \<noteq> name \<or> cleaned = ''..'' \<or> hasPrefix cleaned ''../'' \<or> hasPrefix cleaned ''/'' then Inl (Traversal name)
        else Inr ())"

definition entry_cap :: "Options \<Rightarrow> int \<Rightarrow> int" where
  "entry_cap opts remaining =
     (let capN = MaxSingleFileUncompressed opts;
          capN = (if remaining < capN then remaining else capN)
      in if capN < 0 then 0 else capN)"

definition extract_entry :: "Options \<Rightarrow> files \<Rightarrow> int \<Rightarrow> zip_entry \<Rightarrow> extract_error + bytes option" where
  "extract_entry opts files remaining f =
     bind_res (name_check (zeName f)) (\<lambda>_.
       if hasSuffix (zeName f) ''/'' then Inr None
       else if zeSymlink f then Inl (Symlink (zeName f))
       else if map_of files (zeName f) \<noteq> None then Inl (DuplicateName (zeName f))
       else if zeMethod f \<noteq> 0 \<and> zeMethod f \<noteq> 8 then Inl (BadMethod (zeName f))
       else case zeData f of
         Inl e \<Rightarrow> Inl (Unreadable (zeName f) e)
       | Inr d \<Rightarrow> if int (length d) > entry_cap opts remaining then Inl (TooLarge (zeName f)) else Inr (Some d))"

fun extract_entries :: "Options \<Rightarrow> files \<Rightarrow> int \<Rightarrow> zip_entry list \<Rightarrow> extract_error + files" where
  "extract_entries opts files remaining [] = Inr files"
| "extract_entries opts files remaining (f # fs) =
     bind_res (extract_entry opts files remaining f) (\<lambda>r. case r of
       None \<Rightarrow> extract_entries opts files remaining fs
     | Some d \<Rightarrow> extract_entries opts (files @ [(zeName f, d)]) (remaining - int (length d)) fs)"

definition Extract :: "(bytes \<Rightarrow> zip_entry list option) \<Rightarrow> bytes \<Rightarrow> Options \<Rightarrow> extract_error + files" where
  "Extract unzip zipBytes opts =
     (case unzip zipBytes of
        None \<Rightarrow> Inl NotZip
      | Some fs \<Rightarrow>
          if length fs = 0 then Inl NoEntries
          else if length fs > MaxFileCount opts then Inl TooManyEntries
          else extract_entries opts [] (MaxTotalUncompressed opts) fs)"

section \<open>The server: building and opening\<close>

record ProofFile =
  pfName :: string
  pfMIME :: string
  pfData :: bytes

definition package_files :: "bytes \<Rightarrow> bytes \<Rightarrow> bytes \<Rightarrow> ProofFile list \<Rightarrow> (string \<times> bytes \<times> string) list" where
  "package_files profileJSON metadataJSON typedDataJSON proofs =
     [(''profile.json'', profileJSON, ''application/json''), (''metadata.json'', metadataJSON, ''application/json''),
      (''typed-data.json'', typedDataJSON, ''application/json'')] @
     map (\<lambda>p. (''proofs/'' @ pfName p, pfData p, pfMIME p)) proofs"

definition package_manifest :: "(bytes \<Rightarrow> bytes) \<Rightarrow> string \<Rightarrow> bytes \<Rightarrow> bytes \<Rightarrow> (string \<times> bytes \<times> string) list \<Rightarrow> Manifest" where
  "package_manifest sha primaryType profileDigest metadataDigest fs =
     \<lparr>manPackageVersion = ''1.0'', manPrimaryType = primaryType, manProfileDigest = ''0x'' @ hex profileDigest,
      manMetadataDigest = ''0x'' @ hex metadataDigest,
      manFiles = map (\<lambda>(p, d, mime). \<lparr>mfPath = p, mfSHA256 = hex (sha d), mfSize = int (length d), mfMIME = mime\<rparr>) fs\<rparr>"

definition BuildPackage ::
  "(bytes \<Rightarrow> bytes) \<Rightarrow> (Manifest \<Rightarrow> bytes) \<Rightarrow> ((string \<times> bytes) list \<Rightarrow> string + bytes) \<Rightarrow> string \<Rightarrow> bytes \<Rightarrow> bytes \<Rightarrow>
     bytes \<Rightarrow> bytes \<Rightarrow> string + bytes \<Rightarrow> ProofFile list \<Rightarrow> string + bytes \<times> string" where
  "BuildPackage sha encode zipper primaryType profileDigest metadataDigest profileJSON metadataJSON typedData proofs =
     (if primaryType \<noteq> ''MintAttestation'' \<and> primaryType \<noteq> ''BurnAttestation'' then Inl ''primaryType''
      else bind_res typedData (\<lambda>typedDataJSON.
        let fs = package_files profileJSON metadataJSON typedDataJSON proofs;
            manifestJSON = encode (package_manifest sha primaryType profileDigest metadataDigest fs)
        in bind_res (zipper ((''manifest.json'', manifestJSON) # map (\<lambda>(p, d, mime). (p, d)) fs)) (\<lambda>z.
             Inr (z, hex (sha z)))))"

definition MaxPackageFiles :: nat where "MaxPackageFiles = 64"
definition MaxExpandedPackageSize :: int where "MaxExpandedPackageSize = 64 * 1024 * 1024"
definition MaxSingleFileSize :: int where "MaxSingleFileSize = 32 * 1024 * 1024"

datatype open_error = OpenTooLarge | OpenNotZip | OpenTooMany | OpenName string | OpenTraversal string | OpenDuplicate string
  | OpenNotRegular string | OpenFileTooLarge string | OpenExpanded | OpenUnreadable string string | NoManifest
  | OpenManifest manifest_error | OpenVerify verify_error

definition open_name :: "string \<Rightarrow> open_error + unit" where
  "open_name name =
     (if name = [] \<or> hasPrefix name ''/'' \<or> CHR 92 \<in> set name then Inl (OpenName name)
      else
        let clean = path_Clean name in
        if clean \<noteq> name \<or> clean = ''.'' \<or> hasPrefix clean ''../'' \<or> cut clean ''/../'' \<noteq> None then Inl (OpenTraversal name)
        else Inr ())"

definition open_entry :: "files \<Rightarrow> int \<Rightarrow> zip_entry \<Rightarrow> open_error + bytes" where
  "open_entry files totalExpanded zf =
     bind_res (open_name (zeName zf)) (\<lambda>_.
       if map_of files (zeName zf) \<noteq> None then Inl (OpenDuplicate (zeName zf))
       else if \<not> zeRegular zf then Inl (OpenNotRegular (zeName zf))
       else if zeDeclared zf > MaxSingleFileSize then Inl (OpenFileTooLarge (zeName zf))
       else if totalExpanded + zeDeclared zf > MaxExpandedPackageSize then Inl OpenExpanded
       else case zeData zf of
         Inl e \<Rightarrow> Inl (OpenUnreadable (zeName zf) e)
       | Inr d \<Rightarrow> if int (length d) > MaxSingleFileSize then Inl (OpenFileTooLarge (zeName zf)) else Inr d)"

fun open_entries :: "files \<Rightarrow> int \<Rightarrow> zip_entry list \<Rightarrow> open_error + files" where
  "open_entries files totalExpanded [] = Inr files"
| "open_entries files totalExpanded (zf # zfs) =
     bind_res (open_entry files totalExpanded zf) (\<lambda>d.
       open_entries (files @ [(zeName zf, d)]) (totalExpanded + zeDeclared zf) zfs)"

definition map_error :: "('e \<Rightarrow> 'f) \<Rightarrow> 'e + 'a \<Rightarrow> 'f + 'a" where
  "map_error g r = (case r of Inl e \<Rightarrow> Inl (g e) | Inr x \<Rightarrow> Inr x)"

definition without_manifest :: "files \<Rightarrow> files" where
  "without_manifest files = filter (\<lambda>(p, d). p \<noteq> ''manifest.json'') files"

definition OpenPackage ::
  "(bytes \<Rightarrow> bytes) \<Rightarrow> (bytes \<Rightarrow> Manifest option) \<Rightarrow> (bytes \<Rightarrow> zip_entry list option) \<Rightarrow> bytes \<Rightarrow> open_error + Manifest \<times> files" where
  "OpenPackage sha decode unzip zipBytes =
     (if int (length zipBytes) > MaxExpandedPackageSize then Inl OpenTooLarge
      else case unzip zipBytes of
        None \<Rightarrow> Inl OpenNotZip
      | Some zfs \<Rightarrow>
          if length zfs > MaxPackageFiles then Inl OpenTooMany
          else bind_res (open_entries [] 0 zfs) (\<lambda>files.
            case map_of files ''manifest.json'' of
              None \<Rightarrow> Inl NoManifest
            | Some raw \<Rightarrow>
                bind_res (map_error OpenManifest (parseManifestStrict decode raw)) (\<lambda>m.
                  bind_res (map_error OpenVerify (for_res (verify_file sha files) (manFiles m))) (\<lambda>_.
                    bind_res (map_error OpenVerify
                        (for_res (\<lambda>(p, d). guard (p \<in> mfPath ` set (manFiles m)) (Undeclared p)) (without_manifest files)))
                      (\<lambda>_. Inr (m, files))))))"

section \<open>Manifests, checked\<close>

definition file_ok :: "ManifestFile \<Rightarrow> bool" where
  "file_ok mf \<longleftrightarrow> pathPattern (mfPath mf) \<and> sha256Pattern (mfSHA256 mf) \<and> 0 \<le> mfSize mf \<and> mfSize mf \<le> 104857600 \<and>
     mfMIME mf \<noteq> [] \<and> (mfPath mf \<in> set mandatory_files \<or> hasPrefix (mfPath mf) proofsPrefix)"

definition manifest_ok :: "Manifest \<Rightarrow> bool" where
  "manifest_ok m \<longleftrightarrow> manPackageVersion m = ''1.0'' \<and> manPrimaryType m \<in> {''MintAttestation'', ''BurnAttestation''} \<and>
     hexDigestPattern (manProfileDigest m) \<and> hexDigestPattern (manMetadataDigest m) \<and>
     list_all file_ok (manFiles m) \<and> distinct (map mfPath (manFiles m)) \<and> set mandatory_files \<subseteq> mfPath ` set (manFiles m)"

lemma manifest_file_iff:
  "manifest_file seen i mf = Inr u \<longleftrightarrow> file_ok mf \<and> mfPath mf \<notin> set seen"
  "server_manifest_file seen i mf = Inr u \<longleftrightarrow> file_ok mf \<and> mfPath mf \<notin> set seen"
  by (auto simp: manifest_file_def server_manifest_file_def file_ok_def)

lemma manifest_files_iff:
  "manifest_files seen i mfs = Inr s \<longleftrightarrow> s = rev (map mfPath mfs) @ seen \<and> list_all file_ok mfs \<and>
     distinct (map mfPath mfs) \<and> mfPath ` set mfs \<inter> set seen = {}"
  "server_manifest_files seen i mfs = Inr s \<longleftrightarrow> s = rev (map mfPath mfs) @ seen \<and> list_all file_ok mfs \<and>
     distinct (map mfPath mfs) \<and> mfPath ` set mfs \<inter> set seen = {}"
  by (induction mfs arbitrary: seen i) (auto simp: res_iff manifest_file_iff)

lemma check_mandatory_iff: "check_mandatory seen = Inr u \<longleftrightarrow> set mandatory_files \<subseteq> set seen"
  by (auto simp: check_mandatory_def res_iff)

lemma ParseManifest_iff: "ParseManifest D raw = Inr m \<longleftrightarrow> D raw = Some m \<and> manifest_ok m"
  by (auto simp: ParseManifest_def manifest_ok_def res_iff manifest_files_iff check_mandatory_iff split: option.splits)

lemma parseManifestStrict_iff: "parseManifestStrict D raw = Inr m \<longleftrightarrow> D raw = Some m \<and> manifest_ok m"
  by (auto simp: parseManifestStrict_def manifest_ok_def res_iff manifest_files_iff check_mandatory_iff split: option.splits)

section \<open>The files are exactly those of the manifest\<close>

definition declares :: "(bytes \<Rightarrow> bytes) \<Rightarrow> files \<Rightarrow> ManifestFile \<Rightarrow> bool" where
  "declares sha files mf \<longleftrightarrow>
     (\<exists>d. map_of files (mfPath mf) = Some d \<and> int (length d) = mfSize mf \<and> hex (sha d) = mfSHA256 mf)"

lemma verify_file_iff: "verify_file sha files mf = Inr u \<longleftrightarrow> declares sha files mf"
  by (auto simp: verify_file_def declares_def split: option.splits)

lemma VerifyFiles_iff: "VerifyFiles sha m files = Inr u \<longleftrightarrow>
    fst ` set files = mfPath ` set (manFiles m) \<and> (\<forall>mf\<in>set (manFiles m). declares sha files mf)"
proof
  assume "VerifyFiles sha m files = Inr u"
  then have v: "\<forall>mf\<in>set (manFiles m). declares sha files mf" "\<forall>(p, d)\<in>set files. p \<in> mfPath ` set (manFiles m)"
    by (auto simp: VerifyFiles_def res_iff verify_file_iff [where u = "()"])
  have "mfPath ` set (manFiles m) \<subseteq> fst ` set files"
  proof
    fix p
    assume "p \<in> mfPath ` set (manFiles m)"
    with v(1) obtain d where "map_of files p = Some d" by (auto simp: declares_def)
    then show "p \<in> fst ` set files" by (metis fst_conv image_eqI map_of_SomeD)
  qed
  with v show "fst ` set files = mfPath ` set (manFiles m) \<and> (\<forall>mf\<in>set (manFiles m). declares sha files mf)" by auto
next
  assume h: "fst ` set files = mfPath ` set (manFiles m) \<and> (\<forall>mf\<in>set (manFiles m). declares sha files mf)"
  have "p \<in> mfPath ` set (manFiles m)" if "(p, d) \<in> set files" for p d
    using h that by (metis fst_conv image_eqI)
  with h show "VerifyFiles sha m files = Inr u"
    by (auto simp: VerifyFiles_def res_iff verify_file_iff [where u = "()"] intro: unit_eq)
qed

section \<open>What extraction lets through\<close>

definition safe_name :: "string \<Rightarrow> bool" where
  "safe_name name \<longleftrightarrow> CHR 92 \<notin> set name \<and>
     (name = ''.'' \<or> (\<forall>p\<in>set (split_on (CHR ''/'') name). p \<noteq> [] \<and> p \<noteq> ''.'' \<and> p \<noteq> ''..''))"

lemma name_check_safe:
  assumes "name_check name = Inr u"
  shows "safe_name name \<and> path_Clean name = name \<and> name \<noteq> [] \<and> \<not> hasPrefix name ''/''"
  using assms cleaned_elements [of name] by (auto simp: name_check_def safe_name_def Let_def split: if_splits)

lemma hasSuffix_snoc: "hasSuffix (s @ [c]) [c]"
  by (simp add: hasSuffix_def)

lemma split_on_last: "split_on c (s @ [c]) = split_on c s @ [[]]"
  by (induction s) auto

lemma no_trailing_slash:
  assumes "name_check name = Inr u"
  shows "\<not> hasSuffix name ''/''"
proof
  assume "hasSuffix name ''/''"
  then obtain s where s: "name = s @ ''/''"
    by (auto simp: hasSuffix_def) (metis append_take_drop_id)
  have "safe_name name" using name_check_safe [OF assms] by blast
  then show False using s split_on_last [of "CHR ''/''" s] by (cases s) (auto simp: safe_name_def)
qed

definition within :: "Options \<Rightarrow> files \<Rightarrow> bool" where
  "within opts files \<longleftrightarrow> distinct (map fst files) \<and>
     (\<forall>(p, d)\<in>set files. safe_name p \<and> int (length d) \<le> MaxSingleFileUncompressed opts) \<and>
     int (sum_list (map (\<lambda>(p, d). length d) files)) \<le> MaxTotalUncompressed opts"

definition sane_options :: "Options \<Rightarrow> bool" where
  "sane_options opts \<longleftrightarrow> 0 \<le> MaxSingleFileUncompressed opts \<and> 0 \<le> MaxTotalUncompressed opts"

lemma extract_entry_iff:
  "extract_entry opts files remaining f = Inr (Some d) \<longleftrightarrow>
     name_check (zeName f) = Inr () \<and> \<not> zeSymlink f \<and> map_of files (zeName f) = None \<and> zeMethod f \<in> {0, 8} \<and>
     zeData f = Inr d \<and> int (length d) \<le> entry_cap opts remaining"
  "extract_entry opts files remaining f \<noteq> Inr None"
  using no_trailing_slash [of "zeName f"]
  by (auto simp: extract_entry_def res_iff split: sum.splits if_splits)

lemma extract_entries_within:
  assumes "extract_entries opts files remaining fs = Inr out" "sane_options opts" "within opts files" "0 \<le> remaining"
    "int (sum_list (map (\<lambda>(p, d). length d) files)) + remaining = MaxTotalUncompressed opts"
  shows "within opts out \<and> length out = length files + length fs \<and> (\<forall>(p, d)\<in>set out. (p, d) \<in> set files \<or>
    (\<exists>f\<in>set fs. zeName f = p \<and> zeData f = Inr d \<and> \<not> zeSymlink f))"
  using assms
proof (induction fs arbitrary: files remaining)
  case (Cons f fs)
  from Cons.prems(1) obtain r where r: "extract_entry opts files remaining f = Inr r"
    "(case r of None \<Rightarrow> extract_entries opts files remaining fs
      | Some d \<Rightarrow> extract_entries opts (files @ [(zeName f, d)]) (remaining - int (length d)) fs) = Inr out"
    by (auto simp: res_iff)
  moreover have "r \<noteq> None" using r(1) extract_entry_iff(2) by metis
  ultimately obtain d where d: "extract_entry opts files remaining f = Inr (Some d)"
    and rest: "extract_entries opts (files @ [(zeName f, d)]) (remaining - int (length d)) fs = Inr out"
    by auto
  note e = iffD1 [OF extract_entry_iff(1) d]
  have len: "int (length d) \<le> remaining" "int (length d) \<le> MaxSingleFileUncompressed opts"
    using e Cons.prems(2,4) by (auto simp: entry_cap_def Let_def sane_options_def split: if_splits)
  have "zeName f \<notin> fst ` set files" using e by (metis map_of_eq_None_iff)
  then have "within opts (files @ [(zeName f, d)])"
    using Cons.prems(3,4,5) len name_check_safe e by (auto simp: within_def)
  from Cons.IH [OF rest Cons.prems(2) this] len Cons.prems(5)
  show ?case using e by fastforce
qed simp

lemma Extract_within:
  assumes "Extract unzip z opts = Inr out" "sane_options opts"
  shows "within opts out \<and> length out \<le> MaxFileCount opts"
proof -
  from assms(1) obtain fs where fs: "length fs \<le> MaxFileCount opts"
    "extract_entries opts [] (MaxTotalUncompressed opts) fs = Inr out"
    by (cases "unzip z") (auto simp: Extract_def not_less split: if_splits)
  with extract_entries_within [OF fs(2) assms(2)] assms(2) show ?thesis by (auto simp: within_def sane_options_def)
qed

section \<open>Properties\<close>

text \<open>C34: nothing unsafe is extracted. Whatever archive the signer is given, when extraction succeeds every file
  has a relative name without backslashes whose elements are none of the empty name, dot and dot-dot (the
  single name dot apart), the names differ pairwise, there are at most 256 files, none is over 64 MiB
  decompressed, and together they have at most 256 MiB.\<close>

theorem extract_safe:
  assumes "Extract unzip z DefaultOptions = Inr files"
  shows "distinct (map fst files) \<and> length files \<le> 256 \<and>
    int (sum_list (map (\<lambda>(p, d). length d) files)) \<le> 268435456 \<and>
    (\<forall>(p, d)\<in>set files. int (length d) \<le> 67108864 \<and> CHR 92 \<notin> set p \<and>
      (p = ''.'' \<or> (\<forall>e\<in>set (split_on (CHR ''/'') p). e \<noteq> '''' \<and> e \<noteq> ''.'' \<and> e \<noteq> ''..'')))"
  using Extract_within [OF assms] by (auto simp: within_def safe_name_def DefaultOptions_def sane_options_def)

definition demo_zip :: "bytes \<Rightarrow> zip_entry list option" where
  "demo_zip z = (if z = [1] then Some [\<lparr>zeName = ''proofs/a.pdf'', zeRegular = True, zeSymlink = False, zeMethod = 8,
       zeDeclared = 2, zeData = Inr [7, 8]\<rparr>]
     else if z = [2] then Some [\<lparr>zeName = ''proofs/'', zeRegular = False, zeSymlink = False, zeMethod = 0,
       zeDeclared = 0, zeData = Inr []\<rparr>]
     else None)"

theorem extract_safe_witness: "Extract demo_zip [1] DefaultOptions = Inr [(''proofs/a.pdf'', [7, 8])] \<and>
    ''..'' \<notin> set (split_on (CHR ''/'') ''proofs/a.pdf'')"
proof -
  have x: "Extract demo_zip [1] DefaultOptions = Inr [(''proofs/a.pdf'', [7, 8])]"
    by (simp add: Extract_def demo_zip_def DefaultOptions_def extract_entry_def name_check_def path_Clean_def hasPrefix_def
        hasSuffix_def Let_def entry_cap_def)
  from extract_safe [OF x] show ?thesis using x by auto
qed

lemma extract_needs_names:
  "extract_entries opts files remaining fs = Inr out \<Longrightarrow> f \<in> set fs \<Longrightarrow> name_check (zeName f) = Inr ()"
proof (induction fs arbitrary: files remaining)
  case (Cons g fs)
  from Cons.prems(1) obtain r where r: "extract_entry opts files remaining g = Inr r"
    "(case r of None \<Rightarrow> extract_entries opts files remaining fs
      | Some d \<Rightarrow> extract_entries opts (files @ [(zeName g, d)]) (remaining - int (length d)) fs) = Inr out"
    by (auto simp: res_iff)
  show ?case
  proof (cases "f = g")
    case True
    then show ?thesis using r(1) by (auto simp: extract_entry_def res_iff)
  next
    case False
    then show ?thesis using r(2) Cons.IH Cons.prems(2) by (cases r) auto
  qed
qed simp

text \<open>A directory entry is refused. The code means to skip the entries whose name ends with a slash, but
  \<open>path_Clean\<close> drops the slash and the name is then taken for a traversal: no archive that holds such an entry
  is ever extracted.\<close>

theorem directory_entry_refused:
  assumes "unzip z = Some fs" "f \<in> set fs" "zeName f = d @ ''/''"
  shows "\<exists>e. Extract unzip z opts = Inl e"
proof (rule ccontr)
  assume "\<not> ?thesis"
  then obtain out where "Extract unzip z opts = Inr out" by (cases "Extract unzip z opts") auto
  with assms(1) have "extract_entries opts [] (MaxTotalUncompressed opts) fs = Inr out"
    by (auto simp: Extract_def split: if_splits)
  from extract_needs_names [OF this assms(2)] have "\<not> hasSuffix (zeName f) ''/''" by (rule no_trailing_slash)
  then show False by (simp add: assms(3) hasSuffix_snoc)
qed

theorem directory_entry_refused_witness: "\<exists>e. Extract demo_zip [2] DefaultOptions = Inl e"
  by (rule directory_entry_refused [of demo_zip "[2]" _ _ "''proofs''"]) (auto simp: demo_zip_def)

text \<open>C35: the server and the signer accept the same manifests, though their loops look for a duplicate at
  different places.\<close>

theorem manifest_checks_agree:
  "(ParseManifest decode raw = Inr m) = (parseManifestStrict decode raw = Inr m)"
  by (simp add: ParseManifest_iff parseManifestStrict_iff)

text \<open>The verified files are those of the manifest. \<open>VerifyFiles\<close> succeeds exactly when the paths of the
  manifest are the names of the files, no more and no less, and each file has the size and the hash the
  manifest gives for it.\<close>

theorem verify_files_exact:
  "(VerifyFiles sha m files = Inr ()) =
    (fst ` set files = mfPath ` set (manFiles m) \<and>
     list_all (\<lambda>mf. \<exists>d. map_of files (mfPath mf) = Some d \<and> int (length d) = mfSize mf \<and> hex (sha d) = mfSHA256 mf) (manFiles m))"
  by (simp add: VerifyFiles_iff declares_def list_all_iff)

section \<open>A package the server builds\<close>

definition stored :: "string \<times> bytes \<Rightarrow> zip_entry" where
  "stored = (\<lambda>(p, d). \<lparr>zeName = p, zeRegular = True, zeSymlink = False, zeMethod = 8, zeDeclared = int (length d), zeData = Inr d\<rparr>)"

lemma built_clean: "path_Clean ''manifest.json'' = ''manifest.json''" "path_Clean ''profile.json'' = ''profile.json''"
  "path_Clean ''metadata.json'' = ''metadata.json''" "path_Clean ''typed-data.json'' = ''typed-data.json''"
  by (simp_all add: path_Clean_def hasPrefix_def)

lemma built_cut: "cut ''manifest.json'' ''/../'' = None" "cut ''profile.json'' ''/../'' = None"
  "cut ''metadata.json'' ''/../'' = None" "cut ''typed-data.json'' ''/../'' = None"
  by code_simp+

lemma built_names: "name_check ''manifest.json'' = Inr ()" "name_check ''profile.json'' = Inr ()"
  "name_check ''metadata.json'' = Inr ()" "name_check ''typed-data.json'' = Inr ()"
  "open_name ''manifest.json'' = Inr ()" "open_name ''profile.json'' = Inr ()"
  "open_name ''metadata.json'' = Inr ()" "open_name ''typed-data.json'' = Inr ()"
  by (simp_all add: name_check_def open_name_def built_clean built_cut hasPrefix_def)

lemma built_manifest_ok:
  assumes "primaryType \<in> {''MintAttestation'', ''BurnAttestation''}" "length pd = 32" "length md = 32"
    "\<And>d. length (sha d) = 32" "int (length pj) \<le> 104857600" "int (length mj) \<le> 104857600" "int (length td) \<le> 104857600"
  shows "manifest_ok (package_manifest sha primaryType pd md (package_files pj mj td []))"
proof -
  have "hexDigestPattern (''0x'' @ hex pd)" "hexDigestPattern (''0x'' @ hex md)"
    using hex0x_hex [OF assms(2)] hex0x_hex [OF assms(3)] by (simp_all add: hexDigestPattern_def)
  moreover have "sha256Pattern (hex (sha d))" for d
    using hex_lower [of "sha d"] assms(4) by (simp add: sha256Pattern_def all_of_def)
  moreover have "pathPattern ''profile.json''" "pathPattern ''metadata.json''" "pathPattern ''typed-data.json''"
    by (simp_all add: pathPattern_def path_char_def alnum_def in_range_def)
  ultimately show ?thesis using assms
    by (auto simp: manifest_ok_def package_manifest_def package_files_def file_ok_def mandatory_files_def)
qed

lemma built_extracts:
  assumes "int (length mj0 + length pj + length mj + length td) \<le> 33554432"
  defines "es \<equiv> [(''manifest.json'', mj0), (''profile.json'', pj), (''metadata.json'', mj), (''typed-data.json'', td)]"
  shows "extract_entries DefaultOptions [] (MaxTotalUncompressed DefaultOptions) (map stored es) = Inr es"
    "open_entries [] 0 (map stored es) = Inr es"
proof -
  have ns: "\<not> hasSuffix ''manifest.json'' ''/''" "\<not> hasSuffix ''profile.json'' ''/''"
    "\<not> hasSuffix ''metadata.json'' ''/''" "\<not> hasSuffix ''typed-data.json'' ''/''" by (simp_all add: hasSuffix_def)
  show "extract_entries DefaultOptions [] (MaxTotalUncompressed DefaultOptions) (map stored es) = Inr es"
    unfolding es_def using assms(1)
    by (simp add: stored_def extract_entry_def built_names ns entry_cap_def DefaultOptions_def Let_def)
  show "open_entries [] 0 (map stored es) = Inr es"
    unfolding es_def using assms(1)
    by (simp add: stored_def open_entry_def built_names MaxSingleFileSize_def MaxExpandedPackageSize_def)
qed

lemma built_verifies:
  assumes "m = package_manifest sha pt pd md (package_files pj mj td [])"
  shows "VerifyFiles sha m [(''profile.json'', pj), (''metadata.json'', mj), (''typed-data.json'', td)] = Inr ()"
    "for_res (verify_file sha [(''manifest.json'', mj0), (''profile.json'', pj), (''metadata.json'', mj), (''typed-data.json'', td)])
      (manFiles m) = Inr ()"
  using assms by (simp_all add: package_manifest_def package_files_def VerifyFiles_def verify_file_def)

text \<open>C36: what the server builds, the signer opens. When the zip reader finds the entries the zip writer was
  given, a package the server builds for documents of at most 32 MiB together passes the signer's extraction,
  its manifest check and the check of the files against the manifest, and the signer then holds the very
  documents the package was built from; the server's own \<open>OpenPackage\<close> returns the same files.\<close>

theorem built_package_opens:
  assumes "\<And>es z. zipper es = Inr z \<Longrightarrow> unzip z = Some (map stored es)"
    "decode (encode (package_manifest sha pt pd md (package_files pj mj td []))) =
      Some (package_manifest sha pt pd md (package_files pj mj td []))"
    "\<And>d. length (sha d) = 32" "length pd = 32" "length md = 32"
    "BuildPackage sha encode zipper pt pd md pj mj (Inr td) [] = Inr (z, digest)"
    "int (length (encode (package_manifest sha pt pd md (package_files pj mj td []))) + length pj + length mj + length td) \<le> 33554432"
    "int (length z) \<le> 67108864"
  shows "\<exists>raw m. Extract unzip z DefaultOptions = Inr [(''manifest.json'', raw), (''profile.json'', pj), (''metadata.json'', mj), (''typed-data.json'', td)] \<and>
    ParseManifest decode raw = Inr m \<and>
    VerifyFiles sha m [(''profile.json'', pj), (''metadata.json'', mj), (''typed-data.json'', td)] = Inr () \<and>
    manPrimaryType m = pt \<and> manProfileDigest m = ''0x'' @ hex pd \<and> manMetadataDigest m = ''0x'' @ hex md \<and>
    OpenPackage sha decode unzip z = Inr (m, [(''manifest.json'', raw), (''profile.json'', pj), (''metadata.json'', mj), (''typed-data.json'', td)])"
proof -
  define m where "m = package_manifest sha pt pd md (package_files pj mj td [])"
  let ?es = "[(''manifest.json'', encode m), (''profile.json'', pj), (''metadata.json'', mj), (''typed-data.json'', td)]"
  from assms(6) have pt: "pt \<in> {''MintAttestation'', ''BurnAttestation''}" and "zipper ?es = Inr z"
    by (auto simp: BuildPackage_def Let_def res_iff package_files_def m_def [unfolded package_files_def] split: if_splits)
  then have zip: "unzip z = Some (map stored ?es)" using assms(1) by blast
  have size: "int (length (encode m) + length pj + length mj + length td) \<le> 33554432" using assms(7) by (simp add: m_def)
  have "manifest_ok m" unfolding m_def by (rule built_manifest_ok [OF pt assms(4,5,3)]) (use size in auto)
  then have p: "ParseManifest decode (encode m) = Inr m" "parseManifestStrict decode (encode m) = Inr m"
    using assms(2) by (simp_all add: ParseManifest_iff parseManifestStrict_iff m_def)
  note ex = built_extracts [OF size]
  have x: "Extract unzip z DefaultOptions = Inr ?es" using ex(1) by (simp add: Extract_def zip) (simp add: DefaultOptions_def)
  have names: "mfPath ` set (manFiles m) = {''profile.json'', ''metadata.json'', ''typed-data.json''}"
    by (simp add: m_def package_manifest_def package_files_def)
  have "OpenPackage sha decode unzip z = Inr (m, ?es)"
    using assms(8) ex(2) p(2) built_verifies(2) [OF m_def, of "encode m"]
    by (simp add: OpenPackage_def MaxExpandedPackageSize_def MaxPackageFiles_def zip map_error_def without_manifest_def
        m_def [symmetric] names)
  with x p(1) built_verifies(1) [OF m_def] show ?thesis
    by (intro exI [of _ "encode m"] exI [of _ m]) (simp add: m_def package_manifest_def)
qed

definition demo_docs :: "(string \<times> bytes) list" where
  "demo_docs = [(''manifest.json'', [5]), (''profile.json'', [1]), (''metadata.json'', [2]), (''typed-data.json'', [3])]"

theorem built_package_opens_witness:
  "\<exists>raw (m :: Manifest). Extract (\<lambda>z. Some (map stored demo_docs)) [9] DefaultOptions =
      Inr [(''manifest.json'', raw), (''profile.json'', [1]), (''metadata.json'', [2]), (''typed-data.json'', [3])] \<and>
    manPrimaryType m = ''MintAttestation''"
proof -
  let ?sha = "\<lambda>d :: bytes. replicate 32 (0 :: byte)"
  let ?m = "package_manifest ?sha ''MintAttestation'' (replicate 32 1) (replicate 32 2) (package_files [1] [2] [3] [])"
  let ?zipper = "\<lambda>es. if es = demo_docs then Inr [9 :: byte] else Inl ''''"
  have b: "BuildPackage ?sha (\<lambda>_. [5]) ?zipper ''MintAttestation'' (replicate 32 1) (replicate 32 2) [1] [2] (Inr [3]) [] =
      Inr ([9], hex (?sha [9]))"
    by (simp add: BuildPackage_def package_files_def demo_docs_def Let_def)
  have w: "map stored demo_docs = map stored es" if "?zipper es = Inr z" for es z
    using that by (cases "es = demo_docs") auto
  have "\<exists>raw m. Extract (\<lambda>z. Some (map stored demo_docs)) [9] DefaultOptions =
      Inr [(''manifest.json'', raw), (''profile.json'', [1]), (''metadata.json'', [2]), (''typed-data.json'', [3])] \<and>
    ParseManifest (\<lambda>_. Some ?m) raw = Inr m \<and> VerifyFiles ?sha m [(''profile.json'', [1]), (''metadata.json'', [2]), (''typed-data.json'', [3])] = Inr () \<and>
    manPrimaryType m = ''MintAttestation'' \<and> manProfileDigest m = ''0x'' @ hex (replicate 32 1) \<and> manMetadataDigest m = ''0x'' @ hex (replicate 32 2) \<and>
    OpenPackage ?sha (\<lambda>_. Some ?m) (\<lambda>z. Some (map stored demo_docs)) [9] = Inr (m, [(''manifest.json'', raw), (''profile.json'', [1]), (''metadata.json'', [2]), (''typed-data.json'', [3])])"
    by (rule built_package_opens [OF _ _ _ _ _ b]) (use w in auto)
  then show ?thesis by blast
qed

end
