(* ===== verification/Textsafe.thy ===== *)
theory Textsafe
  imports Canonical GoText
begin

text \<open>
  What the auditor reads before signing: \<^verbatim>\<open>signer/internal/textsafe/textsafe.go\<close> and
  \<^verbatim>\<open>signer/internal/ui/ui.go\<close>. A Go string is the list of its bytes, each its value below 256; the
  package text reaches the screen only through \<open>SanitizeForTerminal\<close>. \<^verbatim>\<open>utf8.DecodeRuneInString\<close> is
  written out; \<^verbatim>\<open>unicode.IsPrint\<close> is the parameter \<open>IsPrint\<close>, of which only the printable
  ASCII range is assumed. The lemmas show that a sanitized text is printable and that the review
  screen has exactly the rows the code asks for, whatever the package holds.
\<close>

section \<open>Decoding runes\<close>

type_synonym gotext = "nat list"

definition RuneError :: nat where "RuneError = 65533"

definition cont :: "nat \<Rightarrow> bool" where "cont b \<longleftrightarrow> 128 \<le> b \<and> b < 192"

text \<open>The bounds of the second byte after a given first byte, as in the tables of \<^verbatim>\<open>unicode/utf8\<close>.\<close>

definition second_ok :: "nat \<Rightarrow> nat \<Rightarrow> bool" where
  "second_ok a b \<longleftrightarrow>
     (if a = 224 then 160 \<le> b \<and> b < 192
      else if a = 237 then 128 \<le> b \<and> b < 160
      else if a = 240 then 144 \<le> b \<and> b < 192
      else if a = 244 then 128 \<le> b \<and> b < 144
      else cont b)"

definition DecodeRune :: "gotext \<Rightarrow> nat \<times> nat" where
  "DecodeRune s =
     (case s of
        [] \<Rightarrow> (RuneError, 0)
      | a # r \<Rightarrow>
          if a < 128 then (a, 1)
          else if 194 \<le> a \<and> a < 224 then
            (case r of b # _ \<Rightarrow> if second_ok a b then ((a - 192) * 64 + (b - 128), 2) else (RuneError, 1)
             | [] \<Rightarrow> (RuneError, 1))
          else if 224 \<le> a \<and> a < 240 then
            (case r of b # c # _ \<Rightarrow>
               if second_ok a b \<and> cont c then ((a - 224) * 4096 + (b - 128) * 64 + (c - 128), 3) else (RuneError, 1)
             | _ \<Rightarrow> (RuneError, 1))
          else if 240 \<le> a \<and> a < 245 then
            (case r of b # c # d # _ \<Rightarrow>
               if second_ok a b \<and> cont c \<and> cont d
               then ((a - 240) * 262144 + (b - 128) * 4096 + (c - 128) * 64 + (d - 128), 4) else (RuneError, 1)
             | _ \<Rightarrow> (RuneError, 1))
          else (RuneError, 1))"

definition bad_byte :: "gotext \<Rightarrow> bool" where
  "bad_byte s \<longleftrightarrow> DecodeRune s = (RuneError, 1)"

lemma DecodeRune_pos: "s \<noteq> [] \<Longrightarrow> 0 < snd (DecodeRune s)"
  by (auto simp: DecodeRune_def split: list.splits)

section \<open>Printable text\<close>

definition printableRune :: "(nat \<Rightarrow> bool) \<Rightarrow> nat \<Rightarrow> bool" where
  "printableRune IsPrint r \<longleftrightarrow> \<not> (r < 32 \<or> r = 127 \<or> (128 \<le> r \<and> r \<le> 159)) \<and> IsPrint r"

function (sequential) IsPrintable :: "(nat \<Rightarrow> bool) \<Rightarrow> gotext \<Rightarrow> bool" where
  "IsPrintable IsPrint [] \<longleftrightarrow> True"
| "IsPrintable IsPrint (b # s) \<longleftrightarrow>
     \<not> bad_byte (b # s) \<and> printableRune IsPrint (fst (DecodeRune (b # s))) \<and>
     IsPrintable IsPrint (drop (snd (DecodeRune (b # s))) (b # s))"
  by pat_completeness auto
termination
  by (relation "measure (\<lambda>(P, s). length s)") (simp_all add: DecodeRune_pos)

definition hex2 :: "nat \<Rightarrow> gotext" where "hex2 n = [hex_code (n div 16 mod 16), hex_code (n mod 16)]"

text \<open>\<^verbatim>\<open>%04x\<close>: at least four digits.\<close>

definition hex4 :: "nat \<Rightarrow> gotext" where
  "hex4 n = (let ds = rev (digs 16 n) in map hex_code (replicate (4 - length ds) 0 @ ds))"

definition escape_byte :: "nat \<Rightarrow> gotext" where "escape_byte b = [92, 120] @ hex2 b"

definition escape_rune :: "nat \<Rightarrow> gotext" where
  "escape_rune r = (if r \<le> 255 then escape_byte r else [92, 117] @ hex4 r)"

function (sequential) sanitize_loop :: "(nat \<Rightarrow> bool) \<Rightarrow> gotext \<Rightarrow> gotext" where
  "sanitize_loop IsPrint [] = []"
| "sanitize_loop IsPrint (b # s) =
     (if bad_byte (b # s) then escape_byte b @ sanitize_loop IsPrint s
      else let (r, size) = DecodeRune (b # s) in
        (if printableRune IsPrint r then utf8 r else escape_rune r) @ sanitize_loop IsPrint (drop size (b # s)))"
  by pat_completeness auto
termination
proof (relation "measure (\<lambda>(P, s). length s)", goal_cases)
  case (3 IsPrint b s x xa y)
  then have "0 < y" using DecodeRune_pos [of "b # s"] by (metis list.distinct(1) snd_conv)
  then show ?case by simp
qed simp_all

definition SanitizeForTerminal :: "(nat \<Rightarrow> bool) \<Rightarrow> gotext \<Rightarrow> gotext" where
  "SanitizeForTerminal IsPrint s = (if IsPrintable IsPrint s then s else sanitize_loop IsPrint s)"

section \<open>Decoding and encoding\<close>

lemma shift_cases:
  assumes "valid_rune r"
  obtains "r < 128"
  | a b where "r = a * 64 + b" "2 \<le> a" "a < 32" "b < 64"
  | a b c where "r = a * 4096 + b * 64 + c" "a < 16" "b < 64" "c < 64" "a = 0 \<Longrightarrow> 32 \<le> b" "a = 13 \<Longrightarrow> b < 32"
  | a b c d where "r = a * 262144 + b * 4096 + c * 64 + d" "a \<le> 4" "b < 64" "c < 64" "d < 64" "a = 0 \<Longrightarrow> 16 \<le> b" "a = 4 \<Longrightarrow> b < 16"
proof -
  have less: "r < 1114112" "\<not> (55296 \<le> r \<and> r < 57344)" using assms by (simp_all add: valid_rune_def)
  consider "r < 128" | "128 \<le> r" "r < 2048" | "2048 \<le> r" "r < 65536" | "65536 \<le> r" by linarith
  then show ?thesis
  proof cases
    case 2
    define a b where "a = r div 64" and "b = r mod 64"
    then have "r = a * 64 + b" "b < 64" by simp_all
    with 2 that(2) [of a b] show ?thesis by linarith
  next
    case 3
    define a b c where "a = r div 4096" and "b = r div 64 mod 64" and "c = r mod 64"
    then have r: "r = a * 4096 + b * 64 + c" "b < 64" "c < 64" using join_3 [of r] by simp_all
    have "a < 16" "a = 0 \<Longrightarrow> 32 \<le> b" using 3 r by linarith+
    moreover have "b < 32" if "a = 13"
    proof (rule ccontr)
      assume "\<not> b < 32"
      with r that have "55296 \<le> r" "r < 57344" by linarith+
      with less(2) show False by blast
    qed
    ultimately show ?thesis using that(3) [OF r(1) _ r(2,3)] by blast
  next
    case 4
    define a b c d where "a = r div 262144" and "b = r div 4096 mod 64" and "c = r div 64 mod 64" and "d = r mod 64"
    then have r: "r = a * 262144 + b * 4096 + c * 64 + d" "b < 64" "c < 64" "d < 64" using join_4 [of r] by simp_all
    have "a \<le> 4" "a = 0 \<Longrightarrow> 16 \<le> b" "a = 4 \<Longrightarrow> b < 16" using 4 less(1) r by linarith+
    then show ?thesis using that(4) [OF r(1) _ r(2,3,4)] by blast
  qed (rule that(1))
qed

lemma base_64: "b < 64 \<Longrightarrow> (a * 64 + b) div 64 = (a :: nat)" "b < 64 \<Longrightarrow> (a * 64 + b) mod 64 = b"
  by simp_all

lemma utf8_parts:
  "r < 128 \<Longrightarrow> utf8 r = [r]"
  "2 \<le> a \<Longrightarrow> a < 32 \<Longrightarrow> b < 64 \<Longrightarrow> utf8 (a * 64 + b) = [192 + a, 128 + b]"
  "a < 16 \<Longrightarrow> b < 64 \<Longrightarrow> c < 64 \<Longrightarrow> (a = 0 \<Longrightarrow> 32 \<le> b) \<Longrightarrow> utf8 (a * 4096 + b * 64 + c) = [224 + a, 128 + b, 128 + c]"
  "a \<le> 4 \<Longrightarrow> b < 64 \<Longrightarrow> c < 64 \<Longrightarrow> d < 64 \<Longrightarrow> (a = 0 \<Longrightarrow> 16 \<le> b) \<Longrightarrow>
     utf8 (a * 262144 + b * 4096 + c * 64 + d) = [240 + a, 128 + b, 128 + c, 128 + d]"
proof -
  show "r < 128 \<Longrightarrow> utf8 r = [r]" by (simp add: utf8_def)
  show "2 \<le> a \<Longrightarrow> a < 32 \<Longrightarrow> b < 64 \<Longrightarrow> utf8 (a * 64 + b) = [192 + a, 128 + b]" by (simp add: utf8_def)
  show "utf8 (a * 4096 + b * 64 + c) = [224 + a, 128 + b, 128 + c]"
    if "a < 16" "b < 64" "c < 64" "a = 0 \<Longrightarrow> 32 \<le> b"
  proof -
    let ?r = "a * 4096 + b * 64 + c"
    have "\<not> ?r < 2048" using that by (cases "a = 0") auto
    moreover have eq: "?r = (a * 64 + b) * 64 + c" by simp
    have d: "?r div 64 = a * 64 + b" "?r mod 64 = c" unfolding eq using that by (simp_all only: base_64)
    have "?r div 4096 = a" using that d(1) by (simp only: div_mult2_eq [of ?r 64 64, simplified] base_64)
    moreover have "?r div 64 mod 64 = b" using that d(1) by (simp only: base_64)
    moreover have "?r < 65536" using that by linarith
    ultimately show ?thesis using d(2) unfolding utf8_def by (simp only: if_False if_True) auto
  qed
  show "utf8 (a * 262144 + b * 4096 + c * 64 + d) = [240 + a, 128 + b, 128 + c, 128 + d]"
    if "a \<le> 4" "b < 64" "c < 64" "d < 64" "a = 0 \<Longrightarrow> 16 \<le> b"
  proof -
    let ?r = "a * 262144 + b * 4096 + c * 64 + d"
    have "\<not> ?r < 65536" using that by (cases "a = 0") auto
    moreover have eq: "?r = ((a * 64 + b) * 64 + c) * 64 + d" by simp
    have e: "?r div 64 = (a * 64 + b) * 64 + c" "?r mod 64 = d" unfolding eq using that by (simp_all only: base_64)
    have f: "?r div 4096 = a * 64 + b" using that e(1) by (simp only: div_mult2_eq [of ?r 64 64, simplified] base_64)
    have "?r div 262144 = a" using that f by (simp only: div_mult2_eq [of ?r 4096 64, simplified] base_64)
    moreover have "?r div 4096 mod 64 = b" "?r div 64 mod 64 = c" using that e(1) f by (simp_all only: base_64)
    ultimately show ?thesis using e(2) unfolding utf8_def by (simp only: if_False if_True) auto
  qed
qed

lemma DecodeRune_utf8: "valid_rune r \<Longrightarrow> DecodeRune (utf8 r @ t) = (r, length (utf8 r))"
  by (erule shift_cases) (auto simp: utf8_parts DecodeRune_def second_ok_def cont_def)

lemma utf8_nonempty [simp]: "utf8 r \<noteq> []"
  by (simp add: utf8_def)

lemma surrogate_free:
  assumes "a < 16" "b < 64" "c < 64" "a = 13 \<Longrightarrow> b < 32"
  shows "valid_rune (a * 4096 + b * 64 + c)"
proof -
  have "a * 4096 + b * 64 + c < 1114112" using assms by linarith
  moreover have "\<not> (55296 \<le> a * 4096 + b * 64 + c \<and> a * 4096 + b * 64 + c < 57344)"
  proof
    assume r: "55296 \<le> a * 4096 + b * 64 + c \<and> a * 4096 + b * 64 + c < 57344"
    with assms(2,3) have "a = 13" by linarith
    with assms(3,4) r show False by linarith
  qed
  ultimately show ?thesis by (simp add: valid_rune_def)
qed

lemma cont_iff: "cont b \<longleftrightarrow> (\<exists>x. b = 128 + x \<and> x < 64)"
proof
  assume "cont b"
  then show "\<exists>x. b = 128 + x \<and> x < 64" by (intro exI [of _ "b - 128"]) (auto simp: cont_def)
qed (auto simp: cont_def)

lemma second_cont: "second_ok a b \<Longrightarrow> cont b"
  by (auto simp: second_ok_def cont_def split: if_splits)

text \<open>What the decoder accepts is the encoding of a scalar value.\<close>

lemma DecodeRune_sound:
  assumes "s \<noteq> []" "\<not> bad_byte s"
  shows "\<exists>r t. valid_rune r \<and> s = utf8 r @ t"
proof -
  obtain a u where s: "s = a # u" using assms(1) by (cases s) auto
  note bad = assms(2) [unfolded bad_byte_def s DecodeRune_def]
  consider "a < 128" | "194 \<le> a" "a < 224" | "224 \<le> a" "a < 240" | "240 \<le> a" "a < 245"
    | "128 \<le> a" "a < 194 \<or> 245 \<le> a" by linarith
  then show ?thesis
  proof cases
    case 1
    then show ?thesis using s by (intro exI [of _ a] exI [of _ u]) (simp add: utf8_def valid_rune_def)
  next
    case 2
    then obtain b v where b: "u = b # v" "second_ok a b" using bad by (auto split: list.splits if_splits)
    from second_cont [OF b(2)] obtain x where x: "b = 128 + x" "x < 64" by (auto simp: cont_iff)
    define y where "y = a - 192"
    then have y: "a = 192 + y" "2 \<le> y" "y < 32" using 2 by auto
    then have "valid_rune (y * 64 + x)" using x by (simp add: valid_rune_def)
    then show ?thesis using s b x y by (intro exI [of _ "y * 64 + x"] exI [of _ v]) (simp add: utf8_parts)
  next
    case 3
    then obtain b c v where b: "u = b # c # v" "second_ok a b" "cont c" using bad by (auto split: list.splits if_splits)
    from second_cont [OF b(2)] b(3) obtain x z where x: "b = 128 + x" "x < 64" "c = 128 + z" "z < 64" by (auto simp: cont_iff)
    define y where "y = a - 224"
    then have y: "a = 224 + y" "y < 16" using 3 by auto
    have e: "y = 0 \<Longrightarrow> 32 \<le> x" "y = 13 \<Longrightarrow> x < 32" using b(2) x y by (auto simp: second_ok_def)
    then have "valid_rune (y * 4096 + x * 64 + z)" using x y by (intro surrogate_free) auto
    then show ?thesis using s b(1) x y e by (intro exI [of _ "y * 4096 + x * 64 + z"] exI [of _ v]) (simp add: utf8_parts)
  next
    case 4
    then obtain b c d v where b: "u = b # c # d # v" "second_ok a b" "cont c" "cont d"
      using bad by (auto split: list.splits if_splits)
    from second_cont [OF b(2)] b(3,4) obtain x z w where
      x: "b = 128 + x" "x < 64" "c = 128 + z" "z < 64" "d = 128 + w" "w < 64" by (auto simp: cont_iff)
    define y where "y = a - 240"
    then have y: "a = 240 + y" "y \<le> 4" using 4 by auto
    have e: "y = 0 \<Longrightarrow> 16 \<le> x" "y = 4 \<Longrightarrow> x < 16" using b(2) x y by (auto simp: second_ok_def)
    have "65536 \<le> y * 262144 + x * 4096 + z * 64 + w" using e by (cases "y = 0") auto
    moreover have "y * 262144 + x * 4096 + z * 64 + w < 1114112"
    proof (cases "y = 4")
      case True
      with e(2) have "x * 4096 \<le> 15 * 4096" by simp
      with True x show ?thesis by linarith
    next
      case False
      with y x show ?thesis by linarith
    qed
    ultimately have "valid_rune (y * 262144 + x * 4096 + z * 64 + w)" by (simp add: valid_rune_def)
    then show ?thesis using s b(1) x y e
      by (intro exI [of _ "y * 262144 + x * 4096 + z * 64 + w"] exI [of _ v]) (simp add: utf8_parts)
  next
    case 5
    then show ?thesis using bad by (auto split: list.splits)
  qed
qed

lemma utf8_not_bad: "valid_rune r \<Longrightarrow> \<not> bad_byte (utf8 r @ t)"
proof
  assume v: "valid_rune r" and "bad_byte (utf8 r @ t)"
  then have "r = 65533 \<and> length (utf8 r) = 1" by (auto simp: bad_byte_def DecodeRune_utf8 RuneError_def)
  then show False by (auto simp: utf8_def)
qed

section \<open>Printable texts\<close>

definition printable_runes :: "(nat \<Rightarrow> bool) \<Rightarrow> nat list \<Rightarrow> bool" where
  "printable_runes P rs \<longleftrightarrow> (\<forall>r\<in>set rs. valid_rune r \<and> printableRune P r)"

lemma IsPrintable_rune:
  assumes "valid_rune r"
  shows "IsPrintable P (utf8 r @ t) \<longleftrightarrow> printableRune P r \<and> IsPrintable P t"
proof -
  obtain b s where e: "utf8 r @ t = b # s" by (cases "utf8 r") auto
  have "IsPrintable P (utf8 r @ t) \<longleftrightarrow> \<not> bad_byte (utf8 r @ t) \<and> printableRune P (fst (DecodeRune (utf8 r @ t))) \<and>
      IsPrintable P (drop (snd (DecodeRune (utf8 r @ t))) (utf8 r @ t))" unfolding e by (rule IsPrintable.simps(2))
  then show ?thesis using assms by (simp add: DecodeRune_utf8 utf8_not_bad)
qed

lemma IsPrintable_runes: "\<forall>r\<in>set rs. valid_rune r \<Longrightarrow> IsPrintable P (concat (map utf8 rs)) \<longleftrightarrow> (\<forall>r\<in>set rs. printableRune P r)"
  by (induction rs) (simp_all add: IsPrintable_rune)

lemma IsPrintable_iff: "IsPrintable P s \<longleftrightarrow> (\<exists>rs. printable_runes P rs \<and> s = concat (map utf8 rs))"
proof
  show "\<exists>rs. printable_runes P rs \<and> s = concat (map utf8 rs)" if "IsPrintable P s"
    using that
  proof (induction s rule: length_induct)
    case (1 s)
    show ?case
    proof (cases "s = []")
      case False
      then have "\<not> bad_byte s" using "1.prems" by (cases s) auto
      with DecodeRune_sound [OF False] obtain r t where rt: "valid_rune r" "s = utf8 r @ t" by blast
      with "1.prems" have p: "printableRune P r" "IsPrintable P t" by (simp_all add: IsPrintable_rune)
      have "length t < length s" using rt(2) by simp
      with "1.IH" p(2) obtain rs where "printable_runes P rs" "t = concat (map utf8 rs)" by blast
      then show ?thesis using rt p(1) by (intro exI [of _ "r # rs"]) (simp add: printable_runes_def)
    qed (auto simp: printable_runes_def)
  qed
qed (auto simp: IsPrintable_runes printable_runes_def)

lemma IsPrintable_append: "IsPrintable P s \<Longrightarrow> IsPrintable P t \<Longrightarrow> IsPrintable P (s @ t)"
  unfolding IsPrintable_iff
proof (elim exE conjE)
  fix xs ys
  assume "printable_runes P xs" "s = concat (map utf8 xs)" "printable_runes P ys" "t = concat (map utf8 ys)"
  then show "\<exists>rs. printable_runes P rs \<and> s @ t = concat (map utf8 rs)"
    by (intro exI [of _ "xs @ ys"]) (auto simp: printable_runes_def)
qed

definition ascii_printable :: "(nat \<Rightarrow> bool) \<Rightarrow> bool" where
  "ascii_printable P \<longleftrightarrow> (\<forall>r\<in>{32..<127}. P r)"

lemma ascii_text: "ascii_printable P \<Longrightarrow> \<forall>b\<in>set s. 32 \<le> b \<and> b < 127 \<Longrightarrow> IsPrintable P s"
proof (induction s)
  case (Cons b s)
  then have "utf8 b = [b]" "valid_rune b" "printableRune P b"
    by (auto simp: utf8_def valid_rune_def printableRune_def ascii_printable_def)
  with IsPrintable_rune [of b P s] show ?case using Cons by simp
qed simp

lemma hex_code_range: "n < 16 \<Longrightarrow> 32 \<le> hex_code n \<and> hex_code n < 127"
  by (simp add: hex_code_def)

lemma escape_printable:
  assumes "ascii_printable P"
  shows "IsPrintable P (escape_byte b)" "IsPrintable P (escape_rune r)"
proof -
  show a: "IsPrintable P (escape_byte b)" for b
    by (rule ascii_text [OF assms]) (auto simp: escape_byte_def hex2_def hex_code_range [OF mod_less_divisor])
  have "\<forall>x\<in>set (hex4 r). 32 \<le> x \<and> x < 127"
    using digs_less [of 16 _ r] hex_code_range by (auto simp: hex4_def Let_def)
  then have "IsPrintable P ([92, 117] @ hex4 r)" by (intro ascii_text [OF assms]) auto
  with a show "IsPrintable P (escape_rune r)" by (simp add: escape_rune_def)
qed

lemma sanitize_loop_printable:
  assumes "ascii_printable P"
  shows "IsPrintable P (sanitize_loop P s)"
proof (induction s rule: length_induct)
  case (1 s)
  show ?case
  proof (cases s)
    case (Cons b u)
    show ?thesis
    proof (cases "bad_byte s")
      case True
      then show ?thesis using 1 Cons by (auto intro: IsPrintable_append escape_printable [OF assms])
    next
      case False
      with DecodeRune_sound [of s] Cons obtain r t where rt: "valid_rune r" "s = utf8 r @ t" by blast
      then have "length t < length s" by simp
      then have "IsPrintable P (sanitize_loop P t)" using 1 by blast
      moreover have "IsPrintable P (if printableRune P r then utf8 r else escape_rune r)"
        using IsPrintable_rune [OF rt(1), of P "[]"] escape_printable(2) [OF assms] by simp
      moreover have "sanitize_loop P s = (if printableRune P r then utf8 r else escape_rune r) @ sanitize_loop P t"
      proof -
        have "sanitize_loop P s = (let (r, size) = DecodeRune s in
            (if printableRune P r then utf8 r else escape_rune r) @ sanitize_loop P (drop size s))"
          using False unfolding Cons by (simp only: sanitize_loop.simps if_False)
        then show ?thesis using rt by (simp add: DecodeRune_utf8)
      qed
      ultimately show ?thesis by (simp add: IsPrintable_append)
    qed
  qed simp
qed

lemma sanitized_printable: "ascii_printable P \<Longrightarrow> IsPrintable P (SanitizeForTerminal P s)"
  by (simp add: SanitizeForTerminal_def sanitize_loop_printable)

section \<open>The review screen\<close>

text \<open>\<^verbatim>\<open>ui.Field\<close>. A screen is the list of its lines; \<^verbatim>\<open>%-*s\<close> pads a text with spaces to a number
  of runes.\<close>

record row =
  fdLabel :: gotext
  fdValue :: gotext
  fdWarn :: bool

function (sequential) RuneCount :: "gotext \<Rightarrow> nat" where
  "RuneCount [] = 0"
| "RuneCount (b # s) = 1 + RuneCount (drop (snd (DecodeRune (b # s))) (b # s))"
  by pat_completeness auto
termination
  by (relation "measure length") (simp_all add: DecodeRune_pos)

definition pad_right :: "nat \<Rightarrow> gotext \<Rightarrow> gotext" where
  "pad_right width s = s @ replicate (width - RuneCount s) 32"

definition field_width :: "(nat \<Rightarrow> bool) \<Rightarrow> row list \<Rightarrow> nat" where
  "field_width P fs = foldl (\<lambda>w f. if length (SanitizeForTerminal P (fdLabel f)) > w
     then length (SanitizeForTerminal P (fdLabel f)) else w) 0 fs"

definition field_line :: "(nat \<Rightarrow> bool) \<Rightarrow> nat \<Rightarrow> row \<Rightarrow> gotext" where
  "field_line P width f =
     (if fdWarn f then codes ''! '' else codes ''  '') @ pad_right width (SanitizeForTerminal P (fdLabel f)) @
     codes '' : '' @ SanitizeForTerminal P (fdValue f)"

definition renderFields :: "(nat \<Rightarrow> bool) \<Rightarrow> row list \<Rightarrow> gotext list" where
  "renderFields P fs = map (field_line P (field_width P fs)) fs"

definition screen_rule :: gotext where "screen_rule = replicate 62 61"

definition Render :: "(nat \<Rightarrow> bool) \<Rightarrow> gotext \<Rightarrow> row list \<Rightarrow> row list \<Rightarrow> gotext list" where
  "Render P title critical display =
     [screen_rule, SanitizeForTerminal P title, screen_rule, [],
      codes ''Security-critical fields (verify these against your own records):''] @
     renderFields P critical @
     (if display \<noteq> [] then [[], codes ''Asset display fields:''] @ renderFields P display else []) @ [[]]"

definition banner_line :: "nat \<Rightarrow> nat \<Rightarrow> gotext \<Rightarrow> gotext" where
  "banner_line border width l = [border, 32] @ pad_right (width - 3) l @ [border]"

definition printBanner :: "(nat \<Rightarrow> bool) \<Rightarrow> nat \<Rightarrow> gotext list \<Rightarrow> gotext list" where
  "printBanner P border ls =
     (let ls' = map (SanitizeForTerminal P) ls;
          width = foldl (\<lambda>w l. if length l > w then length l else w) 0 ls' + 4;
          bar = replicate width border
      in [bar] @ map (banner_line border width) ls' @ [bar, []])"

definition RenderActionBanner :: "(nat \<Rightarrow> bool) \<Rightarrow> gotext \<Rightarrow> gotext list" where
  "RenderActionBanner P primaryType =
     (if primaryType = codes ''MintAttestation'' then
        printBanner P 43 [codes ''SOLANA MINT '' @ utf8 8212 @ codes '' THIS WILL INCREASE TOKEN SUPPLY'',
          codes ''Tokens will be created into the Vault on Solana.'']
      else if primaryType = codes ''BurnAttestation'' then
        printBanner P 35 [codes ''SOLANA BURN '' @ utf8 8212 @ codes '' THIS WILL DECREASE TOKEN SUPPLY'',
          codes ''Tokens will be destroyed from the Vault on Solana.'']
      else printBanner P 63 [codes ''UNRECOGNIZED SOLANA ACTION TYPE: '' @ primaryType])"

lemma printable_codes: "ascii_printable P \<Longrightarrow> \<forall>c\<in>set s. 32 \<le> (of_char c :: nat) \<and> (of_char c :: nat) < 127 \<Longrightarrow> IsPrintable P (codes s)"
  by (rule ascii_text) (auto simp: codes_def)

lemma pad_printable: "ascii_printable P \<Longrightarrow> IsPrintable P s \<Longrightarrow> IsPrintable P (pad_right w s)"
  unfolding pad_right_def by (rule IsPrintable_append, assumption, rule ascii_text) auto

lemma field_line_printable: "ascii_printable P \<Longrightarrow> IsPrintable P (field_line P w f)"
  unfolding field_line_def by (intro IsPrintable_append pad_printable sanitized_printable) (auto intro!: printable_codes split: if_splits)

lemma Render_printable:
  assumes "ascii_printable P"
  shows "\<forall>l\<in>set (Render P title critical display). IsPrintable P l"
proof -
  have "IsPrintable P screen_rule" by (rule ascii_text [OF assms]) (auto simp: screen_rule_def)
  moreover have "IsPrintable P (codes ''Security-critical fields (verify these against your own records):'')"
    "IsPrintable P (codes ''Asset display fields:'')"
    by (auto intro!: printable_codes [OF assms])
  ultimately show ?thesis
    by (auto simp: Render_def renderFields_def field_line_printable [OF assms] sanitized_printable [OF assms])
qed

lemma banner_printable:
  assumes "ascii_printable P" "32 \<le> border" "border < 127"
  shows "\<forall>l\<in>set (printBanner P border ls). IsPrintable P l"
proof -
  have a: "IsPrintable P s" if "\<forall>b\<in>set s. b = border \<or> b = 32" for s
    by (rule ascii_text [OF assms(1)]) (use that assms(2,3) in auto)
  have b: "IsPrintable P [border]" "IsPrintable P [border, 32]" "IsPrintable P (replicate n border)" for n
    by (rule a; simp)+
  have "IsPrintable P (banner_line border w (SanitizeForTerminal P l))" for w l
    unfolding banner_line_def by (intro IsPrintable_append b pad_printable sanitized_printable assms)
  with b(3) show ?thesis by (auto simp: printBanner_def Let_def)
qed

text \<open>C37: whatever the package holds, what is drawn for the auditor before signing is printable text in
  the rows the code asks for: the five rows of the banner of a mint or burn and the four of every other
  action, one row per field, and the fixed rows of the screen; no value can move the cursor, add a row or
  hide one.\<close>

theorem review_rows:
  assumes "ascii_printable P"
  shows "(\<forall>l\<in>set (RenderActionBanner P pt @ Render P title critical display). IsPrintable P l) \<and>
    length (Render P title critical display) =
      6 + length critical + (if display = [] then 0 else 2 + length display) \<and>
    length (RenderActionBanner P pt) = (if pt \<in> {codes ''MintAttestation'', codes ''BurnAttestation''} then 5 else 4) \<and>
    (\<forall>i<length critical. Render P title critical display ! (5 + i) =
       field_line P (field_width P critical) (critical ! i))"
proof (intro conjI)
  have "\<forall>l\<in>set (RenderActionBanner P pt). IsPrintable P l"
    unfolding RenderActionBanner_def by (simp only: if_split_asm split: if_split) (intro conjI impI banner_printable [OF assms]; simp)
  with Render_printable [OF assms] show "\<forall>l\<in>set (RenderActionBanner P pt @ Render P title critical display). IsPrintable P l"
    by auto
  show "length (Render P title critical display) = 6 + length critical + (if display = [] then 0 else 2 + length display)"
    by (simp add: Render_def renderFields_def)
  show "length (RenderActionBanner P pt) = (if pt \<in> {codes ''MintAttestation'', codes ''BurnAttestation''} then 5 else 4)"
    by (simp add: RenderActionBanner_def printBanner_def Let_def)
  show "\<forall>i<length critical. Render P title critical display ! (5 + i) = field_line P (field_width P critical) (critical ! i)"
    by (simp add: Render_def renderFields_def nth_append)
qed

definition demo_print :: "nat \<Rightarrow> bool" where "demo_print r \<longleftrightarrow> 32 \<le> r \<and> r < 127"

definition cursor_up :: gotext where "cursor_up = [55, 27, 91, 50, 65]"

theorem review_rows_witness:
  "list_all (IsPrintable demo_print)
     (Render demo_print (codes ''Review'') [\<lparr>fdLabel = codes ''amount'', fdValue = cursor_up, fdWarn = False\<rparr>] []) \<and>
   \<not> IsPrintable demo_print cursor_up"
proof -
  have "ascii_printable demo_print" by (simp add: ascii_printable_def demo_print_def)
  from review_rows [OF this, of "[]" "codes ''Review''" _ "[]"] show ?thesis
    by (auto simp: list_all_iff cursor_up_def DecodeRune_def bad_byte_def printableRune_def)
qed

text \<open>The confirmation, on ASCII answers: only \<open>y\<close> and \<open>yes\<close> count.\<close>

definition is_space :: "char \<Rightarrow> bool" where
  "is_space c \<longleftrightarrow> (of_char c :: nat) \<in> {9, 10, 11, 12, 13, 32}"

definition TrimSpace :: "string \<Rightarrow> string" where
  "TrimSpace s = rev (dropWhile is_space (rev (dropWhile is_space s)))"

definition Confirm :: "string + string \<Rightarrow> string + bool" where
  "Confirm line = (case line of Inl e \<Rightarrow> Inl e | Inr l \<Rightarrow> Inr (toLower (TrimSpace l) \<in> {''y'', ''yes''}))"

end
