(* ===== verification/SchemaDialect.thy ===== *)
theory SchemaDialect
  imports Complex_Main Canonical
begin

text \<open>
  The asset-schema dialect of the signer, \<^verbatim>\<open>signer/internal/jsonschema/schema.go\<close>: \<open>compile\<close> turns a
  parsed document into a \<open>Schema\<close>, \<open>validateAt\<close> checks a value against it. Strings are rune lists, as
  in JsonDoc; an error keeps its kind and, where it names one, the keyword or member. The regular
  expressions of \<^verbatim>\<open>regexp\<close> and the value that \<^verbatim>\<open>big.Float.SetString\<close> gives a number literal are parameters
  (\<open>engine\<close>). The lemmas show that no part of an accepted schema that validation can reach escapes the
  allowlist, that such a schema is a finite tree of bounded size, and that validation does not depend on
  the order of members.
\<close>

section \<open>The compiled schema\<close>

datatype Schema = Schema
  (scTypes: "runes list") (scProperties: "(runes \<times> Schema) list") (scRequired: "runes list")
  (scAdditional: "Schema option") (scAdditionalFalse: bool) (scItems: "Schema option")
  (scEnum: "jvalue list") (scConst: "jvalue option")
  (scMinLength: "int option") (scMaxLength: "int option") (scPattern: "runes option")
  (scMinimum: "rat option") (scMaximum: "rat option")
  (scExclusiveMinimum: "rat option") (scExclusiveMaximum: "rat option")
  (scMinItems: "int option") (scMaxItems: "int option") (scUniqueItems: bool)

record engine =
  enRegexpOk :: "runes \<Rightarrow> bool"
  enMatches :: "runes \<Rightarrow> runes \<Rightarrow> bool"
  enBigFloat :: "string \<Rightarrow> rat option"
  enFloat64 :: "string \<Rightarrow> gofloat option"

datatype schema_error =
    SchemaTooDeep | SchemaTooLarge | NotASchema | KeywordRefused | RefSiblings | RefNotString | RefNotLocal
  | RefCyclic | RefNotFound | RefBadIndex | RefIntoScalar | BadTypeKeyword | DuplicateType
  | BadKeyword string | BadPattern

definition kw :: "string \<Rightarrow> runes" where "kw s = map of_char s"

definition allowedKeywords :: "runes list" where
  "allowedKeywords = map kw
     [''$schema'', ''$id'', ''$comment'', ''$defs'', ''title'', ''description'', ''default'', ''examples'',
      ''deprecated'', ''readOnly'', ''writeOnly'', ''$ref'',
      ''type'', ''properties'', ''required'', ''additionalProperties'', ''items'', ''enum'', ''const'',
      ''minLength'', ''maxLength'', ''pattern'',
      ''minimum'', ''maximum'', ''exclusiveMinimum'', ''exclusiveMaximum'',
      ''minItems'', ''maxItems'', ''uniqueItems'']"

definition typeNames :: "runes list" where
  "typeNames = map kw [''object'', ''array'', ''string'', ''integer'', ''number'', ''boolean'', ''null'']"

definition maxSchemaDepth :: nat where "maxSchemaDepth = 100"
definition maxSchemaNodes :: nat where "maxSchemaNodes = 10000"

section \<open>Pointers\<close>

fun split_runes :: "nat \<Rightarrow> runes \<Rightarrow> runes list" where
  "split_runes c [] = [[]]"
| "split_runes c (x # xs) =
     (if x = c then [] # split_runes c xs
      else case split_runes c xs of [] \<Rightarrow> [[x]] | p # ps \<Rightarrow> (x # p) # ps)"

text \<open>\<open>replace_tilde d r\<close> is \<^verbatim>\<open>strings.ReplaceAll(tok, "~d", "r")\<close>.\<close>

fun replace_tilde :: "nat \<Rightarrow> nat \<Rightarrow> runes \<Rightarrow> runes" where
  "replace_tilde d r (a # b # s) =
     (if a = 126 \<and> b = d then r # replace_tilde d r s else a # replace_tilde d r (b # s))"
| "replace_tilde d r s = s"

definition pointer_token :: "runes \<Rightarrow> runes" where
  "pointer_token tok = replace_tilde 48 126 (replace_tilde 49 47 tok)"

definition rune_atoi :: "runes \<Rightarrow> int option" where
  "rune_atoi s = (if list_all (\<lambda>r. r < 128) s then atoi (map char_of s) else None)"

definition pointer_step :: "runes \<Rightarrow> jvalue \<Rightarrow> schema_error + jvalue" where
  "pointer_step tok cur =
     (case cur of
        JObject kvs \<Rightarrow> (case map_of kvs (pointer_token tok) of Some v \<Rightarrow> Inr v | None \<Rightarrow> Inl RefNotFound)
      | JArray vs \<Rightarrow>
          (case rune_atoi (pointer_token tok) of
             Some i \<Rightarrow> if i < 0 \<or> int (length vs) \<le> i then Inl RefBadIndex else Inr (vs ! nat i)
           | None \<Rightarrow> Inl RefBadIndex)
      | _ \<Rightarrow> Inl RefIntoScalar)"

fun pointer_walk :: "runes list \<Rightarrow> jvalue \<Rightarrow> schema_error + jvalue" where
  "pointer_walk [] cur = Inr cur"
| "pointer_walk (tok # toks) cur = bind_res (pointer_step tok cur) (pointer_walk toks)"

definition resolvePointer :: "jvalue \<Rightarrow> runes \<Rightarrow> schema_error + jvalue" where
  "resolvePointer doc ref =
     (if ref = kw ''#'' then Inr doc
      else pointer_walk (split_runes 47 (drop 2 ref)) doc)"

section \<open>Keywords\<close>

definition requireNonNegInt :: "string \<Rightarrow> jvalue \<Rightarrow> schema_error + int" where
  "requireNonNegInt name v =
     (case v of
        JNumber s \<Rightarrow> (case atoi s of Some n \<Rightarrow> if n < 0 then Inl (BadKeyword name) else Inr n | None \<Rightarrow> Inl (BadKeyword name))
      | _ \<Rightarrow> Inl (BadKeyword name))"

definition requireNumber :: "engine \<Rightarrow> string \<Rightarrow> jvalue \<Rightarrow> schema_error + rat" where
  "requireNumber E name v =
     (case v of
        JNumber s \<Rightarrow> (case enBigFloat E s of Some q \<Rightarrow> Inr q | None \<Rightarrow> Inl (BadKeyword name))
      | _ \<Rightarrow> Inl (BadKeyword name))"

text \<open>A keyword that may be absent.\<close>

definition keyword :: "string \<Rightarrow> (jvalue \<Rightarrow> schema_error + 'a) \<Rightarrow> (runes \<times> jvalue) list \<Rightarrow> schema_error + 'a option" where
  "keyword name parse obj =
     (case map_of obj (kw name) of None \<Rightarrow> Inr None | Some v \<Rightarrow> bind_res (parse v) (\<lambda>x. Inr (Some x)))"

definition string_array :: "string \<Rightarrow> jvalue list \<Rightarrow> schema_error + runes list" where
  "string_array name vs = map_res (\<lambda>v. case v of JString s \<Rightarrow> Inr s | _ \<Rightarrow> Inl (BadKeyword name)) vs"

fun check_types :: "runes list \<Rightarrow> runes list \<Rightarrow> schema_error + unit" where
  "check_types seen [] = Inr ()"
| "check_types seen (t # ts) =
     (if t \<notin> set typeNames then Inl BadTypeKeyword
      else if t \<in> set seen then Inl DuplicateType
      else check_types (t # seen) ts)"

definition parse_type :: "jvalue \<Rightarrow> schema_error + runes list" where
  "parse_type v =
     bind_res
       (case v of
          JString t \<Rightarrow> Inr [t]
        | JArray vs \<Rightarrow> if vs = [] then Inl BadTypeKeyword else string_array ''type'' vs
        | _ \<Rightarrow> Inl BadTypeKeyword)
       (\<lambda>ts. bind_res (check_types [] ts) (\<lambda>_. Inr ts))"

definition parse_required :: "jvalue \<Rightarrow> schema_error + runes list" where
  "parse_required v = (case v of JArray vs \<Rightarrow> string_array ''required'' vs | _ \<Rightarrow> Inl (BadKeyword ''required''))"

definition parse_enum :: "jvalue \<Rightarrow> schema_error + jvalue list" where
  "parse_enum v = (case v of JArray vs \<Rightarrow> Inr vs | _ \<Rightarrow> Inl (BadKeyword ''enum''))"

definition parse_pattern :: "engine \<Rightarrow> jvalue \<Rightarrow> schema_error + runes" where
  "parse_pattern E v =
     (case v of JString s \<Rightarrow> if enRegexpOk E s then Inr s else Inl BadPattern | _ \<Rightarrow> Inl (BadKeyword ''pattern''))"

definition parse_bool :: "string \<Rightarrow> jvalue \<Rightarrow> schema_error + bool" where
  "parse_bool name v = (case v of JBool b \<Rightarrow> Inr b | _ \<Rightarrow> Inl (BadKeyword name))"

definition or_empty :: "'a list option \<Rightarrow> 'a list" where
  "or_empty x = (case x of None \<Rightarrow> [] | Some l \<Rightarrow> l)"

text \<open>The keywords after the subschemas, in the order the code reads them.\<close>

definition finish_schema ::
  "engine \<Rightarrow> (runes \<times> jvalue) list \<Rightarrow> runes list \<Rightarrow> (runes \<times> Schema) list \<Rightarrow> runes list \<Rightarrow> Schema option \<Rightarrow> bool \<Rightarrow> Schema option
     \<Rightarrow> schema_error + Schema" where
  "finish_schema E obj types props required additional additionalFalse items =
     bind_res (keyword ''enum'' parse_enum obj) (\<lambda>enum.
     bind_res (keyword ''minLength'' (requireNonNegInt ''minLength'') obj) (\<lambda>minLength.
     bind_res (keyword ''maxLength'' (requireNonNegInt ''maxLength'') obj) (\<lambda>maxLength.
     bind_res (keyword ''pattern'' (parse_pattern E) obj) (\<lambda>pattern.
     bind_res (keyword ''minimum'' (requireNumber E ''minimum'') obj) (\<lambda>minimum.
     bind_res (keyword ''maximum'' (requireNumber E ''maximum'') obj) (\<lambda>maximum.
     bind_res (keyword ''exclusiveMinimum'' (requireNumber E ''exclusiveMinimum'') obj) (\<lambda>exclMin.
     bind_res (keyword ''exclusiveMaximum'' (requireNumber E ''exclusiveMaximum'') obj) (\<lambda>exclMax.
     bind_res (keyword ''minItems'' (requireNonNegInt ''minItems'') obj) (\<lambda>minItems.
     bind_res (keyword ''maxItems'' (requireNonNegInt ''maxItems'') obj) (\<lambda>maxItems.
     bind_res (keyword ''uniqueItems'' (parse_bool ''uniqueItems'') obj) (\<lambda>uniqueItems.
       Inr (Schema types props required additional additionalFalse items (or_empty enum)
         (map_of obj (kw ''const'')) minLength maxLength pattern minimum maximum exclMin exclMax minItems maxItems
         (uniqueItems = Some True)))))))))))))"

section \<open>Compiling\<close>

text \<open>The compiler counts levels up to the maximum; here \<open>left\<close> counts the levels that are left, so the
  recursion is structural. The compiler's counter of nodes is passed through. The set of pointers under
  resolution is an argument, since every call restores it. \<open>rc\<close> is the compiler one level down.\<close>

type_synonym subcompiler = "runes list \<Rightarrow> nat \<Rightarrow> jvalue \<Rightarrow> schema_error + Schema \<times> nat"

fun compile_members :: "subcompiler \<Rightarrow> runes list \<Rightarrow> nat \<Rightarrow> (runes \<times> jvalue) list \<Rightarrow> schema_error + (runes \<times> Schema) list \<times> nat" where
  "compile_members rc visiting nodes [] = Inr ([], nodes)"
| "compile_members rc visiting nodes ((k, v) # kvs) =
     bind_res (rc visiting nodes v) (\<lambda>(sub, n).
     bind_res (compile_members rc visiting n kvs) (\<lambda>(subs, n'). Inr ((k, sub) # subs, n')))"

definition compile_ref :: "subcompiler \<Rightarrow> jvalue \<Rightarrow> runes list \<Rightarrow> nat \<Rightarrow> (runes \<times> jvalue) list \<Rightarrow> jvalue \<Rightarrow> schema_error + Schema \<times> nat" where
  "compile_ref rc doc visiting nodes obj rv =
     (if length obj \<noteq> 1 then Inl RefSiblings
      else case rv of
        JString ref \<Rightarrow>
          if take 2 ref \<noteq> kw ''#/'' \<and> ref \<noteq> kw ''#'' then Inl RefNotLocal
          else if ref \<in> set visiting then Inl RefCyclic
          else bind_res (resolvePointer doc ref) (\<lambda>target. rc (ref # visiting) nodes target)
      | _ \<Rightarrow> Inl RefNotString)"

definition compile_map :: "subcompiler \<Rightarrow> string \<Rightarrow> runes list \<Rightarrow> nat \<Rightarrow> (runes \<times> jvalue) list \<Rightarrow> schema_error + (runes \<times> Schema) list \<times> nat" where
  "compile_map rc name visiting nodes obj =
     (case map_of obj (kw name) of
        None \<Rightarrow> Inr ([], nodes)
      | Some v \<Rightarrow> (case v of JObject ps \<Rightarrow> compile_members rc visiting nodes ps | _ \<Rightarrow> Inl (BadKeyword name)))"

definition compile_additional :: "subcompiler \<Rightarrow> runes list \<Rightarrow> nat \<Rightarrow> (runes \<times> jvalue) list \<Rightarrow> schema_error + Schema option \<times> bool \<times> nat" where
  "compile_additional rc visiting nodes obj =
     (case map_of obj (kw ''additionalProperties'') of
        None \<Rightarrow> Inr (None, False, nodes)
      | Some v \<Rightarrow>
          (case v of
             JBool b \<Rightarrow> Inr (None, \<not> b, nodes)
           | JObject ao \<Rightarrow> bind_res (rc visiting nodes v) (\<lambda>(sub, n). Inr (Some sub, False, n))
           | _ \<Rightarrow> Inl (BadKeyword ''additionalProperties'')))"

definition compile_items :: "subcompiler \<Rightarrow> runes list \<Rightarrow> nat \<Rightarrow> (runes \<times> jvalue) list \<Rightarrow> schema_error + Schema option \<times> nat" where
  "compile_items rc visiting nodes obj =
     (case map_of obj (kw ''items'') of
        None \<Rightarrow> Inr (None, nodes)
      | Some v \<Rightarrow> bind_res (rc visiting nodes v) (\<lambda>(sub, n). Inr (Some sub, n)))"

definition compile_object :: "engine \<Rightarrow> subcompiler \<Rightarrow> jvalue \<Rightarrow> runes list \<Rightarrow> nat \<Rightarrow> (runes \<times> jvalue) list \<Rightarrow> schema_error + Schema \<times> nat" where
  "compile_object E rc doc visiting nodes obj =
     (if \<not> list_all (\<lambda>(k, x). k \<in> set allowedKeywords) obj then Inl KeywordRefused
      else case map_of obj (kw ''$ref'') of
        Some rv \<Rightarrow> compile_ref rc doc visiting nodes obj rv
      | None \<Rightarrow>
          bind_res (keyword ''type'' parse_type obj) (\<lambda>types.
          bind_res (compile_map rc ''$defs'' visiting nodes obj) (\<lambda>(_, n1).
          bind_res (compile_map rc ''properties'' visiting n1 obj) (\<lambda>(props, n2).
          bind_res (keyword ''required'' parse_required obj) (\<lambda>required.
          bind_res (compile_additional rc visiting n2 obj) (\<lambda>(additional, additionalFalse, n3).
          bind_res (compile_items rc visiting n3 obj) (\<lambda>(items, n4).
          bind_res (finish_schema E obj (or_empty types) props (or_empty required) additional additionalFalse items)
            (\<lambda>s. Inr (s, n4)))))))))"

primrec compile :: "nat \<Rightarrow> engine \<Rightarrow> jvalue \<Rightarrow> runes list \<Rightarrow> nat \<Rightarrow> jvalue \<Rightarrow> schema_error + Schema \<times> nat" where
  "compile 0 E doc visiting nodes v = Inl SchemaTooDeep"
| "compile (Suc left) E doc visiting nodes v =
     (if maxSchemaNodes < nodes + 1 then Inl SchemaTooLarge
      else case v of
        JObject obj \<Rightarrow> compile_object E (compile left E doc) doc visiting (nodes + 1) obj
      | _ \<Rightarrow> Inl NotASchema)"

definition Compile :: "engine \<Rightarrow> jvalue \<Rightarrow> schema_error + Schema" where
  "Compile E doc = bind_res (compile (maxSchemaDepth + 1) E doc [] 0 doc) (\<lambda>(s, n). Inr s)"

section \<open>Validation\<close>

datatype instance_error =
    TypeMismatch | ConstMismatch | NotInEnum | TooShort | TooLong | PatternMismatch | BadNumber | BelowMinimum
  | AboveMaximum | TooFewItems | TooManyItems | ItemUnwritable | DuplicateItems | MissingProperty
  | AdditionalProperty

definition isIntegerLiteral :: "engine \<Rightarrow> string \<Rightarrow> bool" where
  "isIntegerLiteral E s =
     (if list_ex (\<lambda>c. c \<in> {CHR ''.'', CHR ''e'', CHR ''E''}) s
      then (case enBigFloat E s of None \<Rightarrow> False | Some q \<Rightarrow> of_int \<lfloor>q\<rfloor> = q)
      else True)"

definition typeOf :: "engine \<Rightarrow> jvalue \<Rightarrow> runes" where
  "typeOf E v =
     (case v of
        JNull \<Rightarrow> kw ''null''
      | JBool _ \<Rightarrow> kw ''boolean''
      | JNumber s \<Rightarrow> if isIntegerLiteral E s then kw ''integer'' else kw ''number''
      | JString _ \<Rightarrow> kw ''string''
      | JArray _ \<Rightarrow> kw ''array''
      | JObject _ \<Rightarrow> kw ''object'')"

definition valuesEqual :: "engine \<Rightarrow> jvalue \<Rightarrow> jvalue \<Rightarrow> bool" where
  "valuesEqual E a b =
     (case (Marshal (enFloat64 E) a, Marshal (enFloat64 E) b) of
        (Inr ab, Inr bb) \<Rightarrow> ab = bb
      | _ \<Rightarrow> False)"

definition below :: "int \<Rightarrow> int option \<Rightarrow> bool" where
  "below n bound = (case bound of None \<Rightarrow> False | Some b \<Rightarrow> n < b)"

definition above :: "int \<Rightarrow> int option \<Rightarrow> bool" where
  "above n bound = (case bound of None \<Rightarrow> False | Some b \<Rightarrow> b < n)"

definition validateString :: "engine \<Rightarrow> Schema \<Rightarrow> runes \<Rightarrow> instance_error + unit" where
  "validateString E s str =
     (let n = int (length str) in
      if below n (scMinLength s) then Inl TooShort
      else if above n (scMaxLength s) then Inl TooLong
      else case scPattern s of
        Some p \<Rightarrow> if enMatches E p str then Inr () else Inl PatternMismatch
      | None \<Rightarrow> Inr ())"

definition bound_broken :: "(rat \<Rightarrow> bool) \<Rightarrow> rat option \<Rightarrow> bool" where
  "bound_broken bad bound = (case bound of None \<Rightarrow> False | Some b \<Rightarrow> bad b)"

definition validateNumber :: "engine \<Rightarrow> Schema \<Rightarrow> string \<Rightarrow> instance_error + unit" where
  "validateNumber E s num =
     (case enBigFloat E num of
        None \<Rightarrow> Inl BadNumber
      | Some f \<Rightarrow>
          if bound_broken (\<lambda>b. f < b) (scMinimum s) then Inl BelowMinimum
          else if bound_broken (\<lambda>b. f > b) (scMaximum s) then Inl AboveMaximum
          else if bound_broken (\<lambda>b. f \<le> b) (scExclusiveMinimum s) then Inl BelowMinimum
          else if bound_broken (\<lambda>b. f \<ge> b) (scExclusiveMaximum s) then Inl AboveMaximum
          else Inr ())"

fun unique_items :: "engine \<Rightarrow> bytes list \<Rightarrow> jvalue list \<Rightarrow> instance_error + unit" where
  "unique_items E seen [] = Inr ()"
| "unique_items E seen (e # es) =
     (case Marshal (enFloat64 E) e of
        Inl _ \<Rightarrow> Inl ItemUnwritable
      | Inr b \<Rightarrow> if b \<in> set seen then Inl DuplicateItems else unique_items E (b # seen) es)"

definition array_checks :: "engine \<Rightarrow> Schema \<Rightarrow> jvalue list \<Rightarrow> instance_error + unit" where
  "array_checks E s arr =
     (if below (int (length arr)) (scMinItems s) then Inl TooFewItems
      else if above (int (length arr)) (scMaxItems s) then Inl TooManyItems
      else if scUniqueItems s then unique_items E [] arr
      else Inr ())"

definition value_checks :: "engine \<Rightarrow> Schema \<Rightarrow> jvalue \<Rightarrow> instance_error + unit" where
  "value_checks E s v =
     (if scTypes s \<noteq> [] \<and> \<not> list_ex (\<lambda>t. t = typeOf E v \<or> (t = kw ''number'' \<and> typeOf E v = kw ''integer'')) (scTypes s)
      then Inl TypeMismatch
      else if (case scConst s of None \<Rightarrow> False | Some c \<Rightarrow> \<not> valuesEqual E v c) then Inl ConstMismatch
      else if scEnum s \<noteq> [] \<and> \<not> list_ex (valuesEqual E v) (scEnum s) then Inl NotInEnum
      else Inr ())"

definition required_check :: "Schema \<Rightarrow> (runes \<times> jvalue) list \<Rightarrow> instance_error + unit" where
  "required_check s kvs = for_res (\<lambda>req. guard (req \<in> fst ` set kvs) MissingProperty) (scRequired s)"

fun validateAt :: "engine \<Rightarrow> jvalue \<Rightarrow> Schema \<Rightarrow> instance_error + unit" where
  "validateAt E (JString str) s = bind_res (value_checks E s (JString str)) (\<lambda>_. validateString E s str)"
| "validateAt E (JNumber num) s = bind_res (value_checks E s (JNumber num)) (\<lambda>_. validateNumber E s num)"
| "validateAt E (JArray arr) s =
     bind_res (value_checks E s (JArray arr)) (\<lambda>_.
     bind_res (array_checks E s arr) (\<lambda>_.
       case scItems s of None \<Rightarrow> Inr () | Some items \<Rightarrow> for_res (\<lambda>e. validateAt E e items) arr))"
| "validateAt E (JObject kvs) s =
     bind_res (value_checks E s (JObject kvs)) (\<lambda>_.
     bind_res (required_check s kvs) (\<lambda>_.
       for_res (\<lambda>kv.
         case map_of (scProperties s) (fst kv) of
           Some sub \<Rightarrow> validateAt E (snd kv) sub
         | None \<Rightarrow>
             if scAdditionalFalse s then Inl AdditionalProperty
             else case scAdditional s of Some sub \<Rightarrow> validateAt E (snd kv) sub | None \<Rightarrow> Inr ()) kvs))"
| "validateAt E v s = value_checks E s v"

definition Validate :: "engine \<Rightarrow> Schema \<Rightarrow> jvalue \<Rightarrow> instance_error + unit" where
  "Validate E s v = validateAt E v s"

section \<open>What an accepted schema can reach\<close>

text \<open>One step from a schema to a schema that belongs to it, also through a reference.\<close>

inductive sub_schema :: "jvalue \<Rightarrow> jvalue \<Rightarrow> jvalue \<Rightarrow> bool" for doc where
  reference: "map_of obj (kw ''$ref'') = Some (JString ref) \<Longrightarrow> resolvePointer doc ref = Inr w \<Longrightarrow> sub_schema doc (JObject obj) w"
| member: "name \<in> {''$defs'', ''properties''} \<Longrightarrow> map_of obj (kw name) = Some (JObject ps) \<Longrightarrow> (k, w) \<in> set ps \<Longrightarrow>
    sub_schema doc (JObject obj) w"
| additional: "map_of obj (kw ''additionalProperties'') = Some (JObject ao) \<Longrightarrow> sub_schema doc (JObject obj) (JObject ao)"
| items: "map_of obj (kw ''items'') = Some w \<Longrightarrow> sub_schema doc (JObject obj) w"

inductive_cases sub_schemaE: "sub_schema doc v w"

definition schema_shape :: "jvalue \<Rightarrow> bool" where
  "schema_shape v \<longleftrightarrow> (\<exists>obj. v = JObject obj \<and> (\<forall>k\<in>fst ` set obj. k \<in> set allowedKeywords) \<and>
     (kw ''$ref'' \<in> fst ` set obj \<longrightarrow> length obj = 1))"

text \<open>How many schema nodes a compiled schema unfolds to.\<close>

fun nodes_of :: "Schema \<Rightarrow> nat" where
  "nodes_of (Schema ts props rq addl af it en co mnl mxl pt mn mx en1 ex1 mni mxi u) =
     1 + sum_list (map (\<lambda>kv. nodes_of (snd kv)) props) +
     (case addl of None \<Rightarrow> 0 | Some s \<Rightarrow> nodes_of s) + (case it of None \<Rightarrow> 0 | Some s \<Rightarrow> nodes_of s)"

lemma kw_inject [simp]: "kw a = kw b \<longleftrightarrow> a = b"
proof -
  have "inj (of_char :: char \<Rightarrow> nat)" by (rule injI) (metis char_of_char)
  then show ?thesis by (simp add: kw_def)
qed

lemma single_member: "length obj = 1 \<Longrightarrow> map_of obj a = Some x \<Longrightarrow> map_of obj b = Some y \<Longrightarrow> a = b"
  by (cases obj) (auto split: if_splits)

lemma compile_members_each:
  assumes "compile_members rc vis n kvs = Inr r" "(k, v) \<in> set kvs"
  shows "\<exists>n' r'. rc vis n' v = Inr r'"
  using assms
proof (induction kvs arbitrary: n r)
  case (Cons kv kvs)
  obtain k0 v0 where kv: "kv = (k0, v0)" by (cases kv)
  from Cons.prems(1) obtain s n1 subs n2 where "rc vis n v0 = Inr (s, n1)" "compile_members rc vis n1 kvs = Inr (subs, n2)"
    by (auto simp: kv res_iff)
  then show ?case using Cons.prems(2) Cons.IH by (auto simp: kv)
qed simp

lemma compile_map_each:
  assumes "compile_map rc name vis n obj = Inr r" "map_of obj (kw name) = Some (JObject ps)" "(k, v) \<in> set ps"
  shows "\<exists>n' r'. rc vis n' v = Inr r'"
proof -
  have "compile_members rc vis n ps = Inr r" using assms(1,2) by (simp add: compile_map_def)
  from compile_members_each [OF this assms(3)] show ?thesis .
qed

text \<open>The results of the parts of a schema object without a reference.\<close>

lemma compile_object_parts:
  assumes "compile_object E rc doc vis n obj = Inr (s, n')" "map_of obj (kw ''$ref'') = None"
  obtains types defs n1 props n2 required addl af n3 its
  where "compile_map rc ''$defs'' vis n obj = Inr (defs, n1)" "compile_map rc ''properties'' vis n1 obj = Inr (props, n2)"
    "compile_additional rc vis n2 obj = Inr (addl, af, n3)" "compile_items rc vis n3 obj = Inr (its, n')"
    "finish_schema E obj types props required addl af its = Inr s"
proof -
  from assms(1) have "bind_res (keyword ''type'' parse_type obj) (\<lambda>types.
      bind_res (compile_map rc ''$defs'' vis n obj) (\<lambda>(_, n1).
      bind_res (compile_map rc ''properties'' vis n1 obj) (\<lambda>(props, n2).
      bind_res (keyword ''required'' parse_required obj) (\<lambda>required.
      bind_res (compile_additional rc vis n2 obj) (\<lambda>(additional, additionalFalse, n3).
      bind_res (compile_items rc vis n3 obj) (\<lambda>(items, n4).
      bind_res (finish_schema E obj (or_empty types) props (or_empty required) additional additionalFalse items)
        (\<lambda>s. Inr (s, n4)))))))) = Inr (s, n')"
    unfolding compile_object_def assms(2) by (simp only: unless_Inr option.case)
  then obtain types d pr required ad it where
    "compile_map rc ''$defs'' vis n obj = Inr d" "compile_map rc ''properties'' vis (snd d) obj = Inr pr"
    "compile_additional rc vis (snd pr) obj = Inr ad" "compile_items rc vis (snd (snd ad)) obj = Inr it"
    "finish_schema E obj (or_empty types) (fst pr) (or_empty required) (fst ad) (fst (snd ad)) (fst it) = Inr s" "snd it = n'"
    unfolding case_prod_beta by (simp only: bind_res_eq_Inr sum.inject prod.inject) blast
  then show thesis
    by (intro that [of "fst d" "snd d" "fst pr" "snd pr" "fst ad" "fst (snd ad)" "snd (snd ad)" "fst it"
        "or_empty types" "or_empty required"]) (simp_all add: prod_eq_iff)
qed

lemma compile_shape: "compile left E doc vis n v = Inr r \<Longrightarrow> schema_shape v"
proof (cases left)
  case (Suc l)
  assume "compile left E doc vis n v = Inr r"
  then obtain obj where v: "v = JObject obj" and c: "compile_object E (compile l E doc) doc vis (n + 1) obj = Inr r"
    using Suc by (auto split: if_splits jvalue.splits)
  from c have all: "list_all (\<lambda>(k, x). k \<in> set allowedKeywords) obj"
    unfolding compile_object_def by (simp only: unless_Inr not_not)
  moreover have "length obj = 1" if k: "kw ''$ref'' \<in> fst ` set obj"
  proof -
    from k obtain rv where rv: "map_of obj (kw ''$ref'') = Some rv" by (metis map_of_eq_None_iff option.exhaust)
    from c have "compile_ref (compile l E doc) doc vis (n + 1) obj rv = Inr r"
      unfolding compile_object_def rv option.case by (simp only: unless_Inr)
    then show ?thesis unfolding compile_ref_def by (simp only: unless_Inr) simp
  qed
  ultimately show ?thesis by (auto simp: schema_shape_def v list_all_iff)
qed simp

definition compiles :: "nat \<Rightarrow> engine \<Rightarrow> jvalue \<Rightarrow> jvalue \<Rightarrow> bool" where
  "compiles l E doc w \<longleftrightarrow> (\<exists>vis n r. compile l E doc vis n w = Inr r)"

lemma compilesI: "compile l E doc vis n w = Inr r \<Longrightarrow> compiles l E doc w"
  unfolding compiles_def by blast

lemma compile_step:
  assumes "compile (Suc l) E doc vis n v = Inr r" "sub_schema doc v w"
  shows "compiles l E doc w"
proof -
  from assms(1) obtain obj where v: "v = JObject obj" and c: "compile_object E (compile l E doc) doc vis (n + 1) obj = Inr r"
    by (auto split: if_splits jvalue.splits)
  obtain s n' where r: "r = (s, n')" by (cases r)
  show ?thesis
  proof (cases "map_of obj (kw ''$ref'')")
    case None
    show ?thesis
    proof (rule compile_object_parts [OF c [unfolded r] None])
      fix types defs n1 props n2 required addl af n3 its
      assume p: "compile_map (compile l E doc) ''$defs'' vis (n + 1) obj = Inr (defs, n1)"
        "compile_map (compile l E doc) ''properties'' vis n1 obj = Inr (props, n2)"
        "compile_additional (compile l E doc) vis n2 obj = Inr (addl, af, n3)"
        "compile_items (compile l E doc) vis n3 obj = Inr (its, n')"
      from assms(2) show ?thesis unfolding v
      proof (cases rule: sub_schema.cases)
        case (reference ref)
        then show ?thesis using None by simp
      next
        case (member name ps k)
        then show ?thesis using compile_map_each [OF p(1)] compile_map_each [OF p(2)] by (blast intro: compilesI)
      next
        case (additional ao)
        then show ?thesis using p(3) by (auto simp: compile_additional_def res_iff intro: compilesI)
      next
        case items
        then show ?thesis using p(4) by (auto simp: compile_items_def res_iff intro: compilesI)
      qed
    qed
  next
    case (Some rv)
    then have "compile_ref (compile l E doc) doc vis (n + 1) obj rv = Inr r"
      using c unfolding compile_object_def Some option.case by (simp only: unless_Inr)
    then obtain ref t where rv: "rv = JString ref" "length obj = 1" "resolvePointer doc ref = Inr t"
      "compile l E doc (ref # vis) (n + 1) t = Inr r"
      by (auto simp: compile_ref_def res_iff split: if_splits jvalue.splits)
    note only = single_member [OF rv(2) Some]
    from assms(2) show ?thesis unfolding v
    proof (cases rule: sub_schema.cases)
      case (reference ref')
      then have "w = t" using rv Some by simp
      with compilesI [OF rv(4)] show ?thesis by simp
    next
      case (member name ps k)
      then show ?thesis using only [of "kw name"] by auto
    next
      case (additional ao)
      then show ?thesis using only [of "kw ''additionalProperties''"] by auto
    next
      case items
      then show ?thesis using only [of "kw ''items''"] by auto
    qed
  qed
qed

lemma compile_reach:
  assumes "compiles left E doc v" "(sub_schema doc ^^ k) v w"
  shows "k < left \<and> compiles (left - k) E doc w"
  using assms(2)
proof (induction k arbitrary: w)
  case 0
  then show ?case using assms(1) by (cases left) (auto simp: compiles_def)
next
  case (Suc k)
  then obtain u where u: "(sub_schema doc ^^ k) v u" "sub_schema doc u w" by auto
  from Suc.IH [OF u(1)] have c: "k < left" "compiles (left - k) E doc u" by simp_all
  have l: "left - k = Suc (left - Suc k)" using c(1) by simp
  from c(2) obtain vis n r where "compile (Suc (left - Suc k)) E doc vis n u = Inr r" by (auto simp: compiles_def l)
  from compile_step [OF this u(2)] have "compiles (left - Suc k) E doc w" .
  moreover from this have "0 < left - Suc k" by (cases "left - Suc k") (auto simp: compiles_def)
  ultimately show ?case by auto
qed

section \<open>The size of an accepted schema\<close>

lemma compile_members_size:
  assumes "\<And>vis n v s n'. rc vis n v = Inr (s, n') \<Longrightarrow> n + nodes_of s \<le> n' \<and> n' \<le> B"
    and "compile_members rc vis n kvs = Inr (subs, n')" "n \<le> B"
  shows "n + sum_list (map (\<lambda>kv. nodes_of (snd kv)) subs) \<le> n' \<and> n' \<le> B"
  using assms(2,3)
proof (induction kvs arbitrary: n subs)
  case (Cons kv kvs)
  obtain k0 v0 where kv: "kv = (k0, v0)" by (cases kv)
  from Cons.prems(1) obtain s n1 ss where s: "rc vis n v0 = Inr (s, n1)" "compile_members rc vis n1 kvs = Inr (ss, n')" "subs = (k0, s) # ss"
    by (auto simp: kv res_iff)
  from assms(1) [OF s(1)] Cons.IH [OF s(2)] show ?case by (simp add: s(3))
qed simp

lemma finish_nodes:
  "finish_schema E obj ts props rq addl af its = Inr s \<Longrightarrow>
   nodes_of s = 1 + sum_list (map (\<lambda>kv. nodes_of (snd kv)) props) +
     (case addl of None \<Rightarrow> 0 | Some s \<Rightarrow> nodes_of s) + (case its of None \<Rightarrow> 0 | Some s \<Rightarrow> nodes_of s)"
  unfolding finish_schema_def by (auto simp only: res_iff sum.inject nodes_of.simps)

lemma compile_size:
  "compile left E doc vis n v = Inr (s, n') \<Longrightarrow> n + nodes_of s \<le> n' \<and> n' \<le> maxSchemaNodes"
proof (induction left arbitrary: vis n v s n')
  case (Suc l)
  let ?rc = "compile l E doc"
  from Suc.prems obtain obj where n: "n + 1 \<le> maxSchemaNodes" and v: "v = JObject obj"
    and c: "compile_object E ?rc doc vis (n + 1) obj = Inr (s, n')"
    by (auto split: if_splits jvalue.splits)
  show ?case
  proof (cases "map_of obj (kw ''$ref'')")
    case None
    show ?thesis
    proof (rule compile_object_parts [OF c None])
      fix types defs n1 props n2 required addl af n3 its
      assume p: "compile_map ?rc ''$defs'' vis (n + 1) obj = Inr (defs, n1)"
        "compile_map ?rc ''properties'' vis n1 obj = Inr (props, n2)"
        "compile_additional ?rc vis n2 obj = Inr (addl, af, n3)"
        "compile_items ?rc vis n3 obj = Inr (its, n')"
        "finish_schema E obj types props required addl af its = Inr s"
      have m: "m + sum_list (map (\<lambda>kv. nodes_of (snd kv)) subs) \<le> m' \<and> m' \<le> maxSchemaNodes"
        if "compile_map ?rc name vis m obj = Inr (subs, m')" "m \<le> maxSchemaNodes" for name m subs m'
        using that compile_members_size [where rc = ?rc and B = maxSchemaNodes, OF Suc.IH]
        by (auto simp: compile_map_def split: option.splits jvalue.splits)
      from m [OF p(1) n] have a: "n + 1 \<le> n1" "n1 \<le> maxSchemaNodes" by simp_all
      from m [OF p(2) a(2)] have b: "n1 + sum_list (map (\<lambda>kv. nodes_of (snd kv)) props) \<le> n2" "n2 \<le> maxSchemaNodes" by simp_all
      have "n2 + (case addl of None \<Rightarrow> 0 | Some s \<Rightarrow> nodes_of s) \<le> n3 \<and> n3 \<le> maxSchemaNodes"
        using p(3) b(2) by (auto simp: compile_additional_def res_iff split: option.splits jvalue.splits dest: Suc.IH)
      moreover have "n3 + (case its of None \<Rightarrow> 0 | Some s \<Rightarrow> nodes_of s) \<le> n' \<and> n' \<le> maxSchemaNodes"
        using p(4) calculation by (auto simp: compile_items_def res_iff split: option.splits dest: Suc.IH)
      ultimately show ?thesis using a b finish_nodes [OF p(5)] by linarith
    qed
  next
    case (Some rv)
    then have "compile_ref ?rc doc vis (n + 1) obj rv = Inr (s, n')"
      using c unfolding compile_object_def Some option.case by (simp only: unless_Inr)
    then obtain vis' t where "?rc vis' (n + 1) t = Inr (s, n')"
      by (auto simp: compile_ref_def res_iff split: if_splits jvalue.splits)
    from Suc.IH [OF this] show ?thesis by simp
  qed
qed simp

section \<open>The dialect is closed\<close>

text \<open>C38: when a schema compiles, everything validation can come to from it, through subschemas, definitions
  and references in any number of steps, is an object whose keywords are all on the allowlist and in which
  a reference stands alone; no such chain is longer than 100 steps, so there is no cycle, and the compiled
  schema unfolds to at most 10000 nodes, however its references share parts.\<close>

theorem schema_dialect_closed:
  assumes "Compile E doc = Inr s" "(sub_schema doc ^^ k) doc w"
  shows "schema_shape w \<and> k \<le> 100 \<and> nodes_of s \<le> 10000"
proof -
  from assms(1) obtain n where c: "compile (maxSchemaDepth + 1) E doc [] 0 doc = Inr (s, n)"
    by (auto simp: Compile_def res_iff)
  from compile_reach [OF compilesI [OF c] assms(2)] have k: "k < maxSchemaDepth + 1" "compiles (maxSchemaDepth + 1 - k) E doc w"
    by simp_all
  from k(2) have "schema_shape w" using compile_shape by (auto simp: compiles_def)
  then show ?thesis using k(1) compile_size [OF c] by (simp add: maxSchemaDepth_def maxSchemaNodes_def)
qed

definition demo_engine :: engine where
  "demo_engine = \<lparr>enRegexpOk = (\<lambda>_. True), enMatches = (\<lambda>_ _. True), enBigFloat = (\<lambda>_. Some 1), enFloat64 = (\<lambda>_. None)\<rparr>"

definition demo_schema :: jvalue where
  "demo_schema = JObject
     [(kw ''type'', JString (kw ''object'')), (kw ''required'', JArray [JString (kw ''a'')]),
      (kw ''properties'', JObject [(kw ''a'', JObject [(kw ''$ref'', JString (kw ''#/$defs/x''))])]),
      (kw ''$defs'', JObject [(kw ''x'', JObject [(kw ''type'', JString (kw ''string'')), (kw ''maxLength'', JNumber ''3'')])])]"

definition compiled_x :: Schema where
  "compiled_x = Schema [kw ''string''] [] [] None False None [] None None (Some 3) None None None None None None None False"

definition compiled_demo :: Schema where
  "compiled_demo = Schema [kw ''object''] [(kw ''a'', compiled_x)] [kw ''a''] None False None [] None None None None None None None None None None False"

lemma compile_demo: "Compile demo_engine demo_schema = Inr compiled_demo"
  by code_simp

theorem schema_dialect_closed_witness:
  "\<exists>w. (sub_schema demo_schema ^^ 2) demo_schema w \<and> w = JObject [(kw ''type'', JString (kw ''string'')), (kw ''maxLength'', JNumber ''3'')] \<and>
     schema_shape w \<and> nodes_of compiled_demo \<le> 10000"
proof -
  let ?w = "JObject [(kw ''type'', JString (kw ''string'')), (kw ''maxLength'', JNumber ''3'')]"
  let ?a = "JObject [(kw ''$ref'', JString (kw ''#/$defs/x''))]"
  have r: "resolvePointer demo_schema (kw ''#/$defs/x'') = Inr ?w" by code_simp
  have "sub_schema demo_schema demo_schema ?a"
    unfolding demo_schema_def by (rule sub_schema.member [of "''properties''"]) auto
  moreover have "sub_schema demo_schema ?a ?w" by (rule sub_schema.reference [OF _ r]) simp
  ultimately have s: "(sub_schema demo_schema ^^ 2) demo_schema ?w" by (auto simp: numeral_2_eq_2)
  from schema_dialect_closed [OF compile_demo s] s show ?thesis by blast
qed

section \<open>Validation ignores the order of members\<close>

text \<open>\<open>in_order v\<close> is the document with the members of every object sorted, all else as it was written.\<close>

fun in_order :: "jvalue \<Rightarrow> jvalue" where
  "in_order (JArray vs) = JArray (map in_order vs)"
| "in_order (JObject kvs) = JObject (sort_key (\<lambda>(k, v). utf16 k) (map (\<lambda>(k, v). (k, in_order v)) kvs))"
| "in_order v = v"

lemma meaning_in_order: "meaning_of F (in_order v) = meaning_of F v"
proof (induction v)
  case (JObject kvs)
  let ?f = "\<lambda>(k, v). (k, meaning_of F v)" and ?g = "\<lambda>(k, v). (k, in_order v)"
  have same: "map ?f (map ?g kvs) = map ?f kvs" using JObject by (auto simp: snds.simps)
  have twice: "sort_key (\<lambda>(k, m). utf16 k) (sort_key (\<lambda>(k, m). utf16 k) xs) = sort_key (\<lambda>(k, m). utf16 k) xs"
    for xs :: "(runes \<times> meaning) list" by (rule sort_key_id_if_sorted) simp
  have "map ?f (sort_key (\<lambda>(k, v). utf16 k) (map ?g kvs)) = sort_key (\<lambda>(k, m). utf16 k) (map ?f (map ?g kvs))"
    by (rule sort_key_map_pairs [symmetric])
  then show ?case by (simp only: in_order.simps meaning_of.simps same twice)
qed simp_all

lemma Marshal_in_order: "Marshal F (in_order v) = Marshal F v"
  by (simp add: Marshal_def write_meaning_of meaning_in_order)

lemma typeOf_in_order: "typeOf E (in_order v) = typeOf E v"
  by (cases v) (simp_all add: typeOf_def)

lemma valuesEqual_in_order: "valuesEqual E (in_order v) = valuesEqual E v"
  by (rule ext) (simp add: valuesEqual_def Marshal_in_order)

lemma value_checks_in_order: "value_checks E s (in_order v) = value_checks E s v"
  by (simp only: value_checks_def typeOf_in_order valuesEqual_in_order)

lemma unique_items_in_order: "unique_items E seen (map in_order vs) = unique_items E seen vs"
  by (induction vs arbitrary: seen) (auto simp: Marshal_in_order split: sum.split)

lemma set_in_order: "set (sort_key (\<lambda>(k, v). utf16 k) (map (\<lambda>(k, v). (k, in_order v)) kvs)) = (\<lambda>(k, v). (k, in_order v)) ` set kvs"
  by simp

lemma validate_in_order: "validateAt E (in_order v) s = Inr () \<longleftrightarrow> validateAt E v s = Inr ()"
proof (induction v arbitrary: s)
  case (JArray vs)
  have "array_checks E s (map in_order vs) = array_checks E s vs"
    by (simp add: array_checks_def unique_items_in_order)
  moreover have "value_checks E s (JArray (map in_order vs)) = value_checks E s (JArray vs)"
    using value_checks_in_order [of E s "JArray vs"] by simp
  ultimately show ?case using JArray by (auto simp: res_iff split: option.split)
next
  case (JObject kvs)
  let ?kvs = "sort_key (\<lambda>(k, v). utf16 k) (map (\<lambda>(k, v). (k, in_order v)) kvs)"
  have "fst ` set ?kvs = fst ` set kvs" unfolding set_in_order by force
  then have "required_check s ?kvs = required_check s kvs" by (simp add: required_check_def)
  moreover have "value_checks E s (JObject ?kvs) = value_checks E s (JObject kvs)"
    using value_checks_in_order [of E s "JObject kvs"] by simp
  moreover have "validateAt E (in_order v) sub = Inr () \<longleftrightarrow> validateAt E v sub = Inr ()" if "(k, v) \<in> set kvs" for k v sub
    using JObject that by (auto simp: snds.simps)
  ultimately show ?case
    unfolding in_order.simps validateAt.simps
    by (simp only: res_iff set_in_order) (fastforce split: option.splits)
qed (use value_checks_in_order [of E] in \<open>auto simp: in_order.simps\<close>)

text \<open>C39: whether a value conforms to a schema does not depend on the order in which its objects list their
  members, at any depth: two documents that differ in nothing else are both accepted or both refused (enum,
  const and uniqueItems compare canonical forms).\<close>

theorem validation_ignores_order:
  assumes "in_order v = in_order v'"
  shows "Validate E s v = Inr () \<longleftrightarrow> Validate E s v' = Inr ()"
  using validate_in_order [of E v s] validate_in_order [of E v' s] assms by (simp add: Validate_def)

theorem validation_ignores_order_witness:
  "Validate demo_engine compiled_demo (JObject [(kw ''b'', JNull), (kw ''a'', JString (kw ''abc''))]) = Inr () \<longleftrightarrow>
   Validate demo_engine compiled_demo (JObject [(kw ''a'', JString (kw ''abc'')), (kw ''b'', JNull)]) = Inr ()"
  by (rule validation_ignores_order) (simp add: kw_def utf16_def utf16_rune_def)

end
