(* ===== verification/Documents.thy ===== *)
theory Documents
  imports Textsafe SchemaDialect
begin

text \<open>
  The two documents an attestation is about, as the signer reads them:
  \<^verbatim>\<open>signer/internal/profile/profile.go\<close> and \<^verbatim>\<open>signer/internal/metadata/metadata.go\<close>. Both parse with
  the strict parser of JsonDoc, check every field, and take the digest of the canonical bytes. The
  tokenizer, SHA-256, \<^verbatim>\<open>unicode.IsPrint\<close>, \<^verbatim>\<open>time.Parse\<close> (an instant, in nanoseconds) and the number and
  regular-expression engines are the parameter \<open>doc_env\<close>. The lemmas characterise the accepted
  documents and show that a metadata digest fixes every field of the document behind it.
\<close>

record doc_env =
  deDecoder :: decoder
  deEngine :: engine
  deSha :: "bytes \<Rightarrow> bytes"
  deIsPrint :: "nat \<Rightarrow> bool"
  deRFC3339 :: "runes \<Rightarrow> int option"

datatype doc_error =
    DocParse json_error | NotAnObject | MissingField string | ExtraField runes | BadField string
  | DocSchema schema_error | DocWrite write_error

type_synonym entries = "(runes \<times> jvalue) list"

definition printable_text :: "doc_env \<Rightarrow> runes \<Rightarrow> bool" where
  "printable_text D s = IsPrintable (deIsPrint D) (concat (map utf8 s))"

text \<open>A regular expression of ASCII classes on a rune string.\<close>

definition ascii_matches :: "(string \<Rightarrow> bool) \<Rightarrow> runes \<Rightarrow> bool" where
  "ascii_matches p s \<longleftrightarrow> list_all (\<lambda>r. r < 128) s \<and> p (map char_of s)"

definition uuid_shape :: "string \<Rightarrow> bool" where
  "uuid_shape s \<longleftrightarrow> length s = 36 \<and>
     list_all (\<lambda>(i, c). if i \<in> {8, 13, 18, 23} then c = CHR ''-'' else any_hex c) (zip [0..<36] s)"

definition uuidPattern :: "runes \<Rightarrow> bool" where "uuidPattern = ascii_matches uuid_shape"

definition recordIDPattern :: "runes \<Rightarrow> bool" where
  "recordIDPattern = ascii_matches (\<lambda>s. 1 \<le> length s \<and> length s \<le> 128 \<and> list_all (\<lambda>c. alnum c \<or> c \<in> set ''._:-'') s)"

definition amountPattern :: "runes \<Rightarrow> bool" where
  "amountPattern = ascii_matches (\<lambda>s. s \<noteq> [] \<and> list_all isDigit s)"

definition proofSHA256Pattern :: "runes \<Rightarrow> bool" where
  "proofSHA256Pattern = ascii_matches (all_of lower_hex 64)"

text \<open>The checks both validators make of an object's keys, in the code's order.\<close>

definition require_fields :: "string list \<Rightarrow> entries \<Rightarrow> doc_error + unit" where
  "require_fields names obj = for_res (\<lambda>k. guard (map_of obj (kw k) \<noteq> None) (MissingField k)) names"

definition only_fields :: "string list \<Rightarrow> entries \<Rightarrow> doc_error + unit" where
  "only_fields names obj = for_res (\<lambda>kv. guard (fst kv \<in> kw ` set names) (ExtraField (fst kv))) obj"

definition string_field :: "(runes \<Rightarrow> bool) \<Rightarrow> string \<Rightarrow> entries \<Rightarrow> doc_error + runes" where
  "string_field ok name obj =
     (case map_of obj (kw name) of
        Some v \<Rightarrow> (case v of JString s \<Rightarrow> if ok s then Inr s else Inl (BadField name) | _ \<Rightarrow> Inl (BadField name))
      | None \<Rightarrow> Inl (BadField name))"

definition object_of :: "string \<Rightarrow> jvalue option \<Rightarrow> doc_error + entries" where
  "object_of name v = (case v of Some (JObject kvs) \<Rightarrow> Inr kvs | _ \<Rightarrow> Inl (BadField name))"

definition array_of :: "string \<Rightarrow> jvalue \<Rightarrow> doc_error + jvalue list" where
  "array_of name v = (case v of JArray vs \<Rightarrow> Inr vs | _ \<Rightarrow> Inl (BadField name))"

text \<open>Canonical bytes and digest, the last step of both validators.\<close>

definition seal :: "doc_env \<Rightarrow> jvalue \<Rightarrow> doc_error + bytes \<times> bytes" where
  "seal D v =
     (case Marshal (enFloat64 (deEngine D)) v of
        Inl e \<Rightarrow> Inl (DocWrite e)
      | Inr b \<Rightarrow> Inr (b, deSha D b))"

definition parse_document :: "doc_env \<Rightarrow> bytes \<Rightarrow> doc_error + entries" where
  "parse_document D raw =
     (case ParseWithLimits (deDecoder D) raw DefaultLimits of
        Inl e \<Rightarrow> Inl (DocParse e)
      | Inr v \<Rightarrow> (case v of JObject kvs \<Rightarrow> Inr kvs | _ \<Rightarrow> Inl NotAnObject))"

section \<open>The metadata envelope\<close>

record Proof =
  prType :: runes
  prSHA256 :: runes
  prURI :: runes

record Metadata =
  mdPlatformVersion :: runes
  mdProjectID :: runes
  mdRecordID :: runes
  mdAsset :: jvalue
  mdIssuanceAmount :: runes
  mdIssuanceUnit :: runes
  mdProofs :: "Proof list"
  mdCreatedAt :: runes
  mdCanonicalBytes :: bytes
  mdDigest :: bytes

definition maxIssuanceAmount :: nat where "maxIssuanceAmount = 2 ^ 256 - 1"

definition amount_value :: "runes \<Rightarrow> nat option" where
  "amount_value s = (if list_all (\<lambda>r. r < 128) s then parse_dec (map char_of s) else None)"

definition amount_ok :: "runes \<Rightarrow> bool" where
  "amount_ok s \<longleftrightarrow> amountPattern s \<and>
     (case amount_value s of None \<Rightarrow> False | Some n \<Rightarrow> 0 < n \<and> n \<le> maxIssuanceAmount)"

definition parse_issuance :: "doc_env \<Rightarrow> entries \<Rightarrow> doc_error + runes \<times> runes" where
  "parse_issuance D obj =
     bind_res (object_of ''issuance'' (map_of obj (kw ''issuance''))) (\<lambda>iss.
     bind_res (only_fields [''amount'', ''unit''] iss) (\<lambda>_.
     bind_res (require_fields [''amount''] iss) (\<lambda>_.
     bind_res (string_field amount_ok ''amount'' iss) (\<lambda>amt.
     bind_res (require_fields [''unit''] iss) (\<lambda>_.
     bind_res (string_field (\<lambda>s. s \<noteq> []) ''unit'' iss) (\<lambda>unit.
     bind_res (guard (printable_text D unit) (BadField ''unit'')) (\<lambda>_. Inr (amt, unit))))))))"

definition parse_proof :: "doc_env \<Rightarrow> jvalue \<Rightarrow> doc_error + Proof" where
  "parse_proof D e =
     bind_res (object_of ''proofs'' (Some e)) (\<lambda>p.
     bind_res (only_fields [''type'', ''sha256'', ''uri''] p) (\<lambda>_.
     bind_res (require_fields [''type'', ''sha256''] p) (\<lambda>_.
     bind_res (string_field (\<lambda>s. s \<noteq> []) ''type'' p) (\<lambda>typ.
     bind_res (guard (printable_text D typ) (BadField ''type'')) (\<lambda>_.
     bind_res (string_field proofSHA256Pattern ''sha256'' p) (\<lambda>sha.
     bind_res (if map_of p (kw ''uri'') = None then Inr [] else string_field (\<lambda>_. True) ''uri'' p) (\<lambda>uri.
       Inr \<lparr>prType = typ, prSHA256 = sha, prURI = uri\<rparr>)))))))"

definition parse_proofs :: "doc_env \<Rightarrow> entries \<Rightarrow> doc_error + Proof list" where
  "parse_proofs D obj =
     (case map_of obj (kw ''proofs'') of
        None \<Rightarrow> Inr []
      | Some v \<Rightarrow> bind_res (array_of ''proofs'' v) (map_res (parse_proof D)))"

definition metadata_fields :: "doc_env \<Rightarrow> entries \<Rightarrow> doc_error + Metadata" where
  "metadata_fields D obj =
     bind_res (require_fields [''platformVersion'', ''projectId'', ''recordId'', ''asset'', ''issuance'', ''createdAt''] obj) (\<lambda>_.
     bind_res (only_fields [''platformVersion'', ''projectId'', ''recordId'', ''asset'', ''issuance'', ''proofs'', ''createdAt''] obj) (\<lambda>_.
     bind_res (string_field (\<lambda>s. s = kw ''1.0'') ''platformVersion'' obj) (\<lambda>pv.
     bind_res (string_field uuidPattern ''projectId'' obj) (\<lambda>pid.
     bind_res (string_field recordIDPattern ''recordId'' obj) (\<lambda>rid.
     bind_res (object_of ''asset'' (map_of obj (kw ''asset''))) (\<lambda>asset.
     bind_res (parse_issuance D obj) (\<lambda>(amt, unit).
     bind_res (parse_proofs D obj) (\<lambda>proofs.
     bind_res (string_field (\<lambda>s. deRFC3339 D s \<noteq> None) ''createdAt'' obj) (\<lambda>cat.
     bind_res (seal D (JObject obj)) (\<lambda>(b, digest).
       Inr \<lparr>mdPlatformVersion = pv, mdProjectID = pid, mdRecordID = rid, mdAsset = JObject asset, mdIssuanceAmount = amt,
         mdIssuanceUnit = unit, mdProofs = proofs, mdCreatedAt = cat, mdCanonicalBytes = b, mdDigest = digest\<rparr>))))))))))"

definition validateMetadata :: "doc_env \<Rightarrow> bytes \<Rightarrow> doc_error + Metadata" where
  "validateMetadata D raw = bind_res (parse_document D raw) (metadata_fields D)"

section \<open>The asset profile\<close>

record DisplayField =
  dfLabel :: runes
  dfPointer :: runes

record Profile =
  pfProfileVersion :: runes
  pfProjectID :: runes
  pfAssetType :: runes
  pfTokenUnit :: runes
  pfTokenDecimals :: int
  pfRecordIDLabel :: runes
  pfDisplayFields :: "DisplayField list"
  pfAssetSchema :: Schema
  pfCanonicalBytes :: bytes
  pfDigest :: bytes

definition requireBoundedString :: "doc_env \<Rightarrow> entries \<Rightarrow> string \<Rightarrow> nat \<Rightarrow> nat \<Rightarrow> doc_error + runes" where
  "requireBoundedString D obj key lo hi =
     bind_res (string_field (\<lambda>s. lo \<le> length s \<and> length s \<le> hi) key obj) (\<lambda>s.
     bind_res (guard (printable_text D s) (BadField key)) (\<lambda>_. Inr s))"

definition parse_decimals :: "entries \<Rightarrow> doc_error + int" where
  "parse_decimals obj =
     (case map_of obj (kw ''tokenDecimals'') of
        Some (JNumber n) \<Rightarrow>
          (case atoi n of
             Some td \<Rightarrow> if td < 0 \<or> td > 36 then Inl (BadField ''tokenDecimals'') else Inr td
           | None \<Rightarrow> Inl (BadField ''tokenDecimals''))
      | _ \<Rightarrow> Inl (BadField ''tokenDecimals''))"

definition parse_display_field :: "doc_env \<Rightarrow> jvalue \<Rightarrow> doc_error + DisplayField" where
  "parse_display_field D e =
     bind_res (object_of ''displayFields'' (Some e)) (\<lambda>d.
     bind_res (only_fields [''label'', ''pointer''] d) (\<lambda>_.
     bind_res (require_fields [''label'', ''pointer''] d) (\<lambda>_.
     bind_res (string_field (\<lambda>s. s \<noteq> []) ''label'' d) (\<lambda>label.
     bind_res (guard (printable_text D label) (BadField ''label'')) (\<lambda>_.
     bind_res (string_field (\<lambda>s. s \<noteq> [] \<and> hd s = 47) ''pointer'' d) (\<lambda>pointer.
       Inr \<lparr>dfLabel = label, dfPointer = pointer\<rparr>))))))"

definition parse_display_fields :: "doc_env \<Rightarrow> entries \<Rightarrow> doc_error + DisplayField list" where
  "parse_display_fields D obj =
     (case map_of obj (kw ''displayFields'') of
        None \<Rightarrow> Inr []
      | Some v \<Rightarrow> bind_res (array_of ''displayFields'' v) (map_res (parse_display_field D)))"

definition parse_asset_schema :: "doc_env \<Rightarrow> entries \<Rightarrow> doc_error + Schema" where
  "parse_asset_schema D obj =
     bind_res (object_of ''assetSchema'' (map_of obj (kw ''assetSchema''))) (\<lambda>a.
       case Compile (deEngine D) (JObject a) of Inl e \<Rightarrow> Inl (DocSchema e) | Inr s \<Rightarrow> Inr s)"

definition profile_fields :: "doc_env \<Rightarrow> entries \<Rightarrow> doc_error + Profile" where
  "profile_fields D obj =
     bind_res (require_fields [''profileVersion'', ''projectId'', ''assetType'', ''tokenUnit'', ''tokenDecimals'',
       ''recordIdLabel'', ''assetSchema''] obj) (\<lambda>_.
     bind_res (only_fields [''profileVersion'', ''projectId'', ''assetType'', ''tokenUnit'', ''tokenDecimals'',
       ''recordIdLabel'', ''displayFields'', ''assetSchema''] obj) (\<lambda>_.
     bind_res (string_field (\<lambda>s. s = kw ''1.0'') ''profileVersion'' obj) (\<lambda>pv.
     bind_res (string_field uuidPattern ''projectId'' obj) (\<lambda>pid.
     bind_res (requireBoundedString D obj ''assetType'' 1 128) (\<lambda>assetType.
     bind_res (requireBoundedString D obj ''tokenUnit'' 1 64) (\<lambda>tokenUnit.
     bind_res (parse_decimals obj) (\<lambda>td.
     bind_res (requireBoundedString D obj ''recordIdLabel'' 1 128) (\<lambda>recordIDLabel.
     bind_res (parse_display_fields D obj) (\<lambda>displayFields.
     bind_res (parse_asset_schema D obj) (\<lambda>schema.
     bind_res (seal D (JObject obj)) (\<lambda>(b, digest).
       Inr \<lparr>pfProfileVersion = pv, pfProjectID = pid, pfAssetType = assetType, pfTokenUnit = tokenUnit, pfTokenDecimals = td,
         pfRecordIDLabel = recordIDLabel, pfDisplayFields = displayFields, pfAssetSchema = schema, pfCanonicalBytes = b,
         pfDigest = digest\<rparr>)))))))))))"

definition validateProfile :: "doc_env \<Rightarrow> bytes \<Rightarrow> doc_error + Profile" where
  "validateProfile D raw = bind_res (parse_document D raw) (profile_fields D)"

definition ValidateAsset :: "doc_env \<Rightarrow> Profile \<Rightarrow> jvalue \<Rightarrow> instance_error + unit" where
  "ValidateAsset D p asset = Validate (deEngine D) (pfAssetSchema p) asset"

section \<open>What the digest of a metadata document fixes\<close>

text \<open>What the signer relies on when it reads: the tokens are the beginning of those of JSON values whose
  strings hold Unicode scalar values and whose numbers \<^verbatim>\<open>Float64\<close> reads to shortest digits.\<close>

definition token_ok :: "(string \<Rightarrow> gofloat option) \<Rightarrow> token \<Rightarrow> bool" where
  "token_ok F t \<longleftrightarrow> (case t of TString s \<Rightarrow> valid_string s | TNumber s \<Rightarrow> (case F s of None \<Rightarrow> True | Some f \<Rightarrow> float_wf f) | _ \<Rightarrow> True)"

definition reader_ok :: "doc_env \<Rightarrow> bool" where
  "reader_ok D \<longleftrightarrow> decoder_ok (deDecoder D) \<and>
     (\<forall>input. \<forall>t\<in>set (fst (dcTokens (deDecoder D) input)). token_ok (enFloat64 (deEngine D)) t)"

lemma tokens_valid: "\<forall>t\<in>set (tokens_of v). token_ok F t \<Longrightarrow> valid_doc F v"
proof (induction v)
  case (JObject kvs)
  have "valid_string k \<and> valid_doc F v" if m: "(k, v) \<in> set kvs" for k v
  proof
    have sub: "set (TString k # tokens_of v) \<subseteq> set (tokens_of (JObject kvs))" using m by fastforce
    with JObject.prems have "token_ok F (TString k)" by auto
    then show "valid_string k" by (simp add: token_ok_def)
    have "\<forall>t\<in>set (tokens_of v). token_ok F t" using sub JObject.prems by auto
    moreover have "v \<in> Basic_BNFs.snds (k, v)" by simp
    ultimately show "valid_doc F v" using JObject.IH [OF m] by blast
  qed
  then show ?case by (auto simp: list_all_iff)
qed (auto simp: token_ok_def list_all_iff)

abbreviation meaning_in :: "doc_env \<Rightarrow> jvalue \<Rightarrow> meaning" where
  "meaning_in D \<equiv> meaning_of (enFloat64 (deEngine D))"

fun distinct_doc :: "jvalue \<Rightarrow> bool" where
  "distinct_doc (JArray vs) \<longleftrightarrow> list_all distinct_doc vs"
| "distinct_doc (JObject kvs) \<longleftrightarrow> distinct (map fst kvs) \<and> list_all (\<lambda>(k, v). distinct_doc v) kvs"
| "distinct_doc v \<longleftrightarrow> True"

lemma fits_distinct: "fits L d v \<Longrightarrow> distinct_doc v"
proof (induction v arbitrary: d)
  case (JObject kvs)
  then show ?case by (fastforce simp: list_all_iff)
qed (auto simp: list_all_iff)

lemma parse_document_Inr:
  assumes "reader_ok D" "parse_document D raw = Inr obj"
  shows "distinct_doc (JObject obj)" "valid_doc (enFloat64 (deEngine D)) (JObject obj)"
proof -
  from assms(2) have "ParseWithLimits (deDecoder D) raw DefaultLimits = Inr (JObject obj)"
    by (auto simp: parse_document_def split: sum.splits jvalue.splits)
  with assms(1) have t: "dcTokens (deDecoder D) raw = (tokens_of (JObject obj), True)" "fits DefaultLimits 0 (JObject obj)"
    using parse_value_accepts unfolding reader_ok_def by blast+
  from t(2) show "distinct_doc (JObject obj)" by (rule fits_distinct)
  have "\<forall>t\<in>set (fst (dcTokens (deDecoder D) raw)). token_ok (enFloat64 (deEngine D)) t"
    using assms(1) unfolding reader_ok_def by blast
  then show "valid_doc (enFloat64 (deEngine D)) (JObject obj)" using t(1) by (intro tokens_valid) simp
qed

lemma meaning_members:
  assumes "meaning_of F (JObject kvs) = meaning_of F (JObject kvs')" "distinct_doc (JObject kvs)" "distinct_doc (JObject kvs')"
  shows "map_option (meaning_of F) (map_of kvs k) = map_option (meaning_of F) (map_of kvs' k)"
proof -
  let ?f = "map (\<lambda>(k, v). (k, meaning_of F v))"
  have "set (sort_key (\<lambda>(k, m). utf16 k) (?f kvs)) = set (sort_key (\<lambda>(k, m). utf16 k) (?f kvs'))"
    using assms(1) by (simp only: meaning_of.simps meaning.inject)
  then have "set (?f kvs) = set (?f kvs')" by (simp only: set_sort)
  moreover have "distinct (map fst (?f kvs))" "distinct (map fst (?f kvs'))"
    using assms(2,3) by (simp_all add: o_def case_prod_beta')
  ultimately have "map_of (?f kvs) = map_of (?f kvs')" by (simp only: map_of_inject_set)
  then have "map_of (?f kvs) k = map_of (?f kvs') k" by simp
  then show ?thesis by (simp only: map_of_map o_def)
qed

lemma meaning_string: "meaning_of F v = MString s \<longleftrightarrow> v = JString s"
  by (cases v) auto

lemma member_distinct: "distinct_doc (JObject kvs) \<Longrightarrow> map_of kvs k = Some v \<Longrightarrow> distinct_doc v"
  by (auto simp: list_all_iff dest!: map_of_SomeD)

text \<open>Two objects with the same meaning: their fields agree.\<close>

definition twins :: "doc_env \<Rightarrow> entries \<Rightarrow> entries \<Rightarrow> bool" where
  "twins D kvs kvs' \<longleftrightarrow> distinct_doc (JObject kvs) \<and> distinct_doc (JObject kvs') \<and>
     meaning_in D (JObject kvs) = meaning_in D (JObject kvs')"

lemma twins_get:
  assumes "twins D kvs kvs'"
  shows "map_option (meaning_in D) (map_of kvs k) = map_option (meaning_in D) (map_of kvs' k)"
  using assms meaning_members unfolding twins_def by blast

lemma twins_string:
  assumes "twins D kvs kvs'" "string_field ok name kvs = Inr s" "string_field ok' name kvs' = Inr s'"
  shows "s = s'"
proof -
  have "map_of kvs (kw name) = Some (JString s)" "map_of kvs' (kw name) = Some (JString s')"
    using assms(2,3) by (auto simp: string_field_def split: option.splits jvalue.splits if_splits)
  with twins_get [OF assms(1), of "kw name"] show ?thesis by simp
qed

lemma twins_member:
  assumes "twins D kvs kvs'" "map_of kvs k = Some v" "map_of kvs' k = Some v'"
  shows "meaning_in D v = meaning_in D v'" "distinct_doc v" "distinct_doc v'"
  using twins_get [OF assms(1), of k] assms member_distinct unfolding twins_def by auto

lemma twins_object:
  assumes "twins D kvs kvs'" "object_of n (map_of kvs k) = Inr o1" "object_of n (map_of kvs' k) = Inr o2"
  shows "twins D o1 o2"
proof -
  have "map_of kvs k = Some (JObject o1)" "map_of kvs' k = Some (JObject o2)"
    using assms(2,3) by (auto simp: object_of_def split: option.splits jvalue.splits)
  from twins_member [OF assms(1) this] show ?thesis by (simp add: twins_def)
qed

lemma twins_proof:
  assumes "meaning_in D e = meaning_in D e'" "distinct_doc e" "distinct_doc e'" "parse_proof D e = Inr p" "parse_proof D e' = Inr p'"
  shows "p = p'"
proof -
  from assms(4) obtain o1 where o1: "e = JObject o1" and f: "string_field (\<lambda>s. s \<noteq> []) ''type'' o1 = Inr (prType p)"
      "string_field proofSHA256Pattern ''sha256'' o1 = Inr (prSHA256 p)"
      "(if map_of o1 (kw ''uri'') = None then Inr [] else string_field (\<lambda>_. True) ''uri'' o1) = Inr (prURI p)"
    by (auto simp: parse_proof_def res_iff object_of_def split: jvalue.splits)
  from assms(5) obtain o2 where o2: "e' = JObject o2" and g: "string_field (\<lambda>s. s \<noteq> []) ''type'' o2 = Inr (prType p')"
      "string_field proofSHA256Pattern ''sha256'' o2 = Inr (prSHA256 p')"
      "(if map_of o2 (kw ''uri'') = None then Inr [] else string_field (\<lambda>_. True) ''uri'' o2) = Inr (prURI p')"
    by (auto simp: parse_proof_def res_iff object_of_def split: jvalue.splits)
  have t: "twins D o1 o2" using assms(1-3) by (simp add: twins_def o1 o2)
  have "prURI p = prURI p'"
  proof (cases "map_of o1 (kw ''uri'') = None")
    case True
    then have "map_of o2 (kw ''uri'') = None" using twins_get [OF t, of "kw ''uri''"] by simp
    with True f(3) g(3) show ?thesis by simp
  next
    case False
    then have "map_of o2 (kw ''uri'') \<noteq> None" using twins_get [OF t, of "kw ''uri''"] by (metis option.map_disc_iff)
    then have "string_field (\<lambda>_. True) ''uri'' o1 = Inr (prURI p)" "string_field (\<lambda>_. True) ''uri'' o2 = Inr (prURI p')"
      using False f(3) g(3) by (simp_all only: if_False)
    then show ?thesis by (rule twins_string [OF t])
  qed
  with twins_string [OF t f(1) g(1)] twins_string [OF t f(2) g(2)] show ?thesis by simp
qed

lemma twins_proofs:
  assumes "map (meaning_in D) vs = map (meaning_in D) vs'" "list_all distinct_doc vs" "list_all distinct_doc vs'"
    and "map_res (parse_proof D) vs = Inr ps" "map_res (parse_proof D) vs' = Inr ps'"
  shows "ps = ps'"
  using assms
proof (induction vs arbitrary: vs' ps ps')
  case (Cons e vs)
  then obtain e' ws where vs': "vs' = e' # ws" by (cases vs') auto
  from Cons.prems(4,5) obtain p qs p' qs' where p: "parse_proof D e = Inr p" "map_res (parse_proof D) vs = Inr qs" "ps = p # qs"
    and p': "parse_proof D e' = Inr p'" "map_res (parse_proof D) ws = Inr qs'" "ps' = p' # qs'"
    by (simp add: vs') (simp only: res_iff sum.inject, blast)
  have "p = p'" by (rule twins_proof [OF _ _ _ p(1) p'(1)]) (use Cons.prems vs' in auto)
  moreover have "qs = qs'" by (rule Cons.IH [OF _ _ _ p(2) p'(2)]) (use Cons.prems vs' in auto)
  ultimately show ?case using p(3) p'(3) by simp
qed simp

lemma metadata_parts:
  assumes "metadata_fields D obj = Inr m"
  obtains asset where
    "string_field (\<lambda>s. s = kw ''1.0'') ''platformVersion'' obj = Inr (mdPlatformVersion m)"
    "string_field uuidPattern ''projectId'' obj = Inr (mdProjectID m)"
    "string_field recordIDPattern ''recordId'' obj = Inr (mdRecordID m)"
    "object_of ''asset'' (map_of obj (kw ''asset'')) = Inr asset" "mdAsset m = JObject asset"
    "parse_issuance D obj = Inr (mdIssuanceAmount m, mdIssuanceUnit m)"
    "parse_proofs D obj = Inr (mdProofs m)"
    "string_field (\<lambda>s. deRFC3339 D s \<noteq> None) ''createdAt'' obj = Inr (mdCreatedAt m)"
    "seal D (JObject obj) = Inr (mdCanonicalBytes m, mdDigest m)"
  using assms that unfolding metadata_fields_def by (auto simp: res_iff)

lemma issuance_parts:
  assumes "parse_issuance D obj = Inr (amt, unit)"
  obtains iss where "object_of ''issuance'' (map_of obj (kw ''issuance'')) = Inr iss"
    "string_field amount_ok ''amount'' iss = Inr amt" "string_field (\<lambda>s. s \<noteq> []) ''unit'' iss = Inr unit"
    "printable_text D unit"
  using assms that unfolding parse_issuance_def by (auto simp: res_iff)

lemma seal_parts: "seal D v = Inr (b, d) \<longleftrightarrow> Marshal (enFloat64 (deEngine D)) v = Inr b \<and> d = deSha D b"
  by (auto simp: seal_def split: sum.splits)

lemma twins_metadata:
  assumes t: "twins D obj obj'" and "metadata_fields D obj = Inr m" "metadata_fields D obj' = Inr m'"
  shows "mdRecordID m = mdRecordID m' \<and> mdProjectID m = mdProjectID m' \<and> mdIssuanceAmount m = mdIssuanceAmount m' \<and>
    mdIssuanceUnit m = mdIssuanceUnit m' \<and> mdProofs m = mdProofs m' \<and> mdCreatedAt m = mdCreatedAt m' \<and>
    meaning_in D (mdAsset m) = meaning_in D (mdAsset m')"
proof (rule metadata_parts [OF assms(2)], rule metadata_parts [OF assms(3)])
  fix a a'
  assume m: "string_field uuidPattern ''projectId'' obj = Inr (mdProjectID m)"
      "string_field recordIDPattern ''recordId'' obj = Inr (mdRecordID m)"
      "object_of ''asset'' (map_of obj (kw ''asset'')) = Inr a" "mdAsset m = JObject a"
      "parse_issuance D obj = Inr (mdIssuanceAmount m, mdIssuanceUnit m)" "parse_proofs D obj = Inr (mdProofs m)"
      "string_field (\<lambda>s. deRFC3339 D s \<noteq> None) ''createdAt'' obj = Inr (mdCreatedAt m)"
    and m': "string_field uuidPattern ''projectId'' obj' = Inr (mdProjectID m')"
      "string_field recordIDPattern ''recordId'' obj' = Inr (mdRecordID m')"
      "object_of ''asset'' (map_of obj' (kw ''asset'')) = Inr a'" "mdAsset m' = JObject a'"
      "parse_issuance D obj' = Inr (mdIssuanceAmount m', mdIssuanceUnit m')" "parse_proofs D obj' = Inr (mdProofs m')"
      "string_field (\<lambda>s. deRFC3339 D s \<noteq> None) ''createdAt'' obj' = Inr (mdCreatedAt m')"
  have issuance: "mdIssuanceAmount m = mdIssuanceAmount m' \<and> mdIssuanceUnit m = mdIssuanceUnit m'"
  proof (rule issuance_parts [OF m(5)], rule issuance_parts [OF m'(5)])
    fix iss iss'
    assume i: "object_of ''issuance'' (map_of obj (kw ''issuance'')) = Inr iss"
        "string_field amount_ok ''amount'' iss = Inr (mdIssuanceAmount m)"
        "string_field (\<lambda>s. s \<noteq> []) ''unit'' iss = Inr (mdIssuanceUnit m)"
      and i': "object_of ''issuance'' (map_of obj' (kw ''issuance'')) = Inr iss'"
        "string_field amount_ok ''amount'' iss' = Inr (mdIssuanceAmount m')"
        "string_field (\<lambda>s. s \<noteq> []) ''unit'' iss' = Inr (mdIssuanceUnit m')"
    have ti: "twins D iss iss'" by (rule twins_object [OF t i(1) i'(1)])
    from twins_string [OF ti i(2) i'(2)] twins_string [OF ti i(3) i'(3)] show ?thesis by simp
  qed
  have proofs: "mdProofs m = mdProofs m'"
  proof (cases "map_of obj (kw ''proofs'')")
    case None
    then have "map_of obj' (kw ''proofs'') = None" using twins_get [OF t, of "kw ''proofs''"] by simp
    with None m(6) m'(6) show ?thesis by (simp add: parse_proofs_def)
  next
    case (Some v)
    then obtain v' where v': "map_of obj' (kw ''proofs'') = Some v'" using twins_get [OF t, of "kw ''proofs''"] by (metis option.exhaust option.map_disc_iff)
    from m(6) Some obtain vs where vs: "v = JArray vs" "map_res (parse_proof D) vs = Inr (mdProofs m)"
      by (auto simp: parse_proofs_def array_of_def split: jvalue.splits)
    from m'(6) v' obtain vs' where vs': "v' = JArray vs'" "map_res (parse_proof D) vs' = Inr (mdProofs m')"
      by (auto simp: parse_proofs_def array_of_def split: jvalue.splits)
    note same = twins_member [OF t Some v']
    show ?thesis by (rule twins_proofs [OF _ _ _ vs(2) vs'(2)]) (use same vs(1) vs'(1) in simp_all)
  qed
  have "twins D a a'" by (rule twins_object [OF t m(3) m'(3)])
  then have "meaning_in D (mdAsset m) = meaning_in D (mdAsset m')" by (simp add: twins_def m(4) m'(4))
  with issuance proofs twins_string [OF t m(1) m'(1)] twins_string [OF t m(2) m'(2)] twins_string [OF t m(7) m'(7)]
  show ?thesis by simp
qed

text \<open>C40: the metadata digest of an attestation stands for one content. Two documents the signer accepts
  with the same digest, where SHA-256 does not collide on their canonical bytes, agree in the project, the
  record id, the amount and unit to issue, the proofs and the creation time, and their assets have the same
  meaning (the same members in whatever order, numbers as floats).\<close>

theorem metadata_digest_binds:
  assumes "reader_ok D" "validateMetadata D raw = Inr m" "validateMetadata D raw' = Inr m'"
    and "inj_on (deSha D) {mdCanonicalBytes m, mdCanonicalBytes m'}" "mdDigest m = mdDigest m'"
  shows "mdRecordID m = mdRecordID m' \<and> mdProjectID m = mdProjectID m' \<and> mdIssuanceAmount m = mdIssuanceAmount m' \<and>
    mdIssuanceUnit m = mdIssuanceUnit m' \<and> mdProofs m = mdProofs m' \<and> mdCreatedAt m = mdCreatedAt m' \<and>
    meaning_in D (mdAsset m) = meaning_in D (mdAsset m')"
proof -
  from assms(2) obtain obj where o: "parse_document D raw = Inr obj" "metadata_fields D obj = Inr m"
    by (auto simp: validateMetadata_def res_iff)
  from assms(3) obtain obj' where o': "parse_document D raw' = Inr obj'" "metadata_fields D obj' = Inr m'"
    by (auto simp: validateMetadata_def res_iff)
  have s: "Marshal (enFloat64 (deEngine D)) (JObject obj) = Inr (mdCanonicalBytes m)" "mdDigest m = deSha D (mdCanonicalBytes m)"
    by (rule metadata_parts [OF o(2)], simp add: seal_parts)+
  have s': "Marshal (enFloat64 (deEngine D)) (JObject obj') = Inr (mdCanonicalBytes m')" "mdDigest m' = deSha D (mdCanonicalBytes m')"
    by (rule metadata_parts [OF o'(2)], simp add: seal_parts)+
  have "mdCanonicalBytes m = mdCanonicalBytes m'"
    by (rule inj_onD [OF assms(4)]) (use assms(5) s(2) s'(2) in simp_all)
  then have "meaning_in D (JObject obj) = meaning_in D (JObject obj')"
    using canonical_bytes_iff [OF parse_document_Inr(2) [OF assms(1) o(1)] parse_document_Inr(2) [OF assms(1) o'(1)] s(1) s'(1)] by simp
  then have "twins D obj obj'"
    using parse_document_Inr(1) [OF assms(1) o(1)] parse_document_Inr(1) [OF assms(1) o'(1)] by (simp add: twins_def)
  from twins_metadata [OF this o(2) o'(2)] show ?thesis .
qed

section \<open>Example\<close>

text \<open>A document without numbers can always be written.\<close>

fun no_numbers :: "jvalue \<Rightarrow> bool" where
  "no_numbers (JNumber s) \<longleftrightarrow> False"
| "no_numbers (JArray vs) \<longleftrightarrow> list_all no_numbers vs"
| "no_numbers (JObject kvs) \<longleftrightarrow> list_all (\<lambda>(k, v). no_numbers v) kvs"
| "no_numbers v \<longleftrightarrow> True"

lemma join_results_total: "\<forall>r\<in>set rs. \<exists>x. r = Inr x \<Longrightarrow> \<exists>x. join_results rs = Inr x"
  by (induction rs rule: join_results.induct) auto

lemma writeValue_total: "no_numbers v \<Longrightarrow> \<exists>x. writeValue F v = Inr x"
proof (induction v)
  case (JArray vs)
  then have "\<exists>x. join_results (map (writeValue F) vs) = Inr x" by (intro join_results_total) (auto simp: list_all_iff)
  then show ?case by auto
next
  case (JObject kvs)
  have "\<exists>x. writeValue F v = Inr x" if m: "(k, v) \<in> set kvs" for k v
    using JObject.IH [OF m, of v] JObject.prems m by (auto simp: list_all_iff)
  then have "\<exists>x. join_results (map write_entry (sort_key (\<lambda>(k, r). utf16 k) (map (\<lambda>(k, v). (k, writeValue F v)) kvs))) = Inr x"
    by (intro join_results_total) (fastforce simp: write_entry_def)
  then show ?case by (auto simp: write_object_def)
qed auto

definition demo_project :: string where "demo_project = ''123e4567-e89b-12d3-a456-426614174000''"

definition demo_metadata :: entries where
  "demo_metadata =
     [(kw ''platformVersion'', JString (kw ''1.0'')), (kw ''projectId'', JString (kw demo_project)),
      (kw ''recordId'', JString (kw ''r1'')), (kw ''asset'', JObject []),
      (kw ''issuance'', JObject [(kw ''amount'', JString (kw ''5'')), (kw ''unit'', JString (kw ''t''))]),
      (kw ''createdAt'', JString (kw ''now''))]"

definition demo_env :: doc_env where
  "demo_env = \<lparr>deDecoder = \<lparr>dcTokens = (\<lambda>b. if b = [1] then (tokens_of (JObject demo_metadata), True)
       else if b = [2] then (tokens_of (JObject (rev demo_metadata)), True) else ([], False)), dcUtf8Valid = (\<lambda>_. True)\<rparr>,
     deEngine = demo_engine, deSha = (\<lambda>b. b), deIsPrint = demo_print, deRFC3339 = (\<lambda>_. Some 0)\<rparr>"

lemma demo_reader: "reader_ok demo_env"
proof -
  have "fst (dcTokens (deDecoder demo_env) input) @ [] = concat (map tokens_of
      (if input = [1] then [JObject demo_metadata] else if input = [2] then [JObject (rev demo_metadata)] else []))" for input
    by (simp add: demo_env_def)
  then have "decoder_ok (deDecoder demo_env)" unfolding decoder_ok_def by blast
  moreover have "valid_string (kw s)" for s
  proof -
    have "x < 256 \<Longrightarrow> valid_rune x" for x by (simp add: valid_rune_def)
    from this [OF nat_of_char_less_256] have "valid_rune (of_char c)" for c .
    then show ?thesis by (auto simp: valid_string_def kw_def)
  qed
  moreover have "\<forall>t\<in>set (tokens_of (JObject demo_metadata)) \<union> set (tokens_of (JObject (rev demo_metadata))). token_ok F t" for F
    using calculation(2) by (simp add: demo_metadata_def token_ok_def)
  ultimately show ?thesis unfolding reader_ok_def
    by (auto simp: demo_env_def simp del: tokens_of.simps)
qed

lemma demo_parse_docs: "parse_document demo_env [1] = Inr demo_metadata" "parse_document demo_env [2] = Inr (rev demo_metadata)"
proof -
  have d: "decoder_ok (deDecoder demo_env)" using demo_reader by (simp add: reader_ok_def)
  have l: "str_len (kw s) \<le> 2 * length s" for s
  proof (induction s)
    case (Cons c s)
    have "rune_len (of_char c) \<le> 2" using nat_of_char_less_256 [of c] unfolding rune_len_def by (simp del: nat_of_char_less_256)
    with Cons show ?case by (simp add: str_len_def kw_def)
  qed (simp add: str_len_def kw_def)
  have e: "\<not> 32768 < str_len (kw s)" if "length s \<le> 100" for s using l [of s] that by linarith
  have f: "fits DefaultLimits 0 (JObject demo_metadata)" "fits DefaultLimits 0 (JObject (rev demo_metadata))"
    by (simp_all add: demo_metadata_def DefaultLimits_def exceeds_def too_deep_def hardMaxDepth_def e demo_project_def)
  have "ParseWithLimits (deDecoder demo_env) [1] DefaultLimits = Inr (JObject demo_metadata)"
    "ParseWithLimits (deDecoder demo_env) [2] DefaultLimits = Inr (JObject (rev demo_metadata))"
    unfolding parse_value_accepts [OF d] using f by (simp_all add: demo_env_def DefaultLimits_def exceeds_def)
  then show "parse_document demo_env [1] = Inr demo_metadata" "parse_document demo_env [2] = Inr (rev demo_metadata)"
    by (simp_all add: parse_document_def)
qed

lemma ascii_matches_kw: "list_all (\<lambda>c. (of_char c :: nat) < 128) s \<Longrightarrow> ascii_matches p (kw s) \<longleftrightarrow> p s"
  by (simp add: ascii_matches_def kw_def list_all_iff o_def)

lemma demo_shapes: "uuidPattern (kw demo_project)" "recordIDPattern (kw ''r1'')" "printable_text demo_env (kw ''t'')"
proof -
  have "list_all (\<lambda>c. (of_char c :: nat) < 128) demo_project" by (simp add: demo_project_def)
  moreover have "uuid_shape demo_project"
    by (simp add: uuid_shape_def demo_project_def any_hex_def lower_hex_def in_range_def upt_rec)
  ultimately show "uuidPattern (kw demo_project)" by (simp add: uuidPattern_def ascii_matches_kw)
  show "recordIDPattern (kw ''r1'')" by (simp add: recordIDPattern_def ascii_matches_kw alnum_def in_range_def)
  have "concat (map utf8 (kw ''t'')) = [116]" by (simp add: kw_def utf8_def)
  moreover have "ascii_printable demo_print" by (simp add: ascii_printable_def demo_print_def)
  ultimately show "printable_text demo_env (kw ''t'')" using ascii_text [of demo_print "[116]"]
    by (simp add: printable_text_def demo_env_def)
qed

lemma demo_amount: "amount_ok (kw ''5'')"
proof -
  have "amountPattern (kw ''5'')" by (simp add: amountPattern_def ascii_matches_kw isDigit_def)
  moreover have "amount_value (kw ''5'') = Some 5"
    by (simp add: amount_value_def kw_def parse_dec_def isDigit_def digit_val_def horner_def)
  ultimately have "amountPattern (kw ''5'')" "amount_value (kw ''5'') = Some 5" .
  then show ?thesis by (simp add: amount_ok_def maxIssuanceAmount_def)
qed

definition demo_parsed :: "bytes \<Rightarrow> Metadata" where
  "demo_parsed b = \<lparr>mdPlatformVersion = kw ''1.0'', mdProjectID = kw demo_project, mdRecordID = kw ''r1'', mdAsset = JObject [],
     mdIssuanceAmount = kw ''5'', mdIssuanceUnit = kw ''t'', mdProofs = [], mdCreatedAt = kw ''now'', mdCanonicalBytes = b, mdDigest = b\<rparr>"

lemma kw_Nil: "kw s = [] \<longleftrightarrow> s = []"
  by (simp add: kw_def)

lemma demo_fields:
  assumes "map_of obj = map_of demo_metadata" "set obj = set demo_metadata" "Marshal (\<lambda>_. None) (JObject obj) = Inr b"
  shows "metadata_fields demo_env obj = Inr (demo_parsed b)"
proof -
  have o: "only_fields names obj = Inr () \<longleftrightarrow> only_fields names demo_metadata = Inr ()" for names
    by (simp only: only_fields_def res_iff assms(2))
  have "only_fields [''platformVersion'', ''projectId'', ''recordId'', ''asset'', ''issuance'', ''proofs'', ''createdAt''] demo_metadata = Inr ()"
    by (simp add: only_fields_def demo_metadata_def)
  then have only: "only_fields [''platformVersion'', ''projectId'', ''recordId'', ''asset'', ''issuance'', ''proofs'', ''createdAt''] obj = Inr ()"
    using o by blast
  have s: "seal demo_env (JObject obj) = Inr (b, b)" using assms(3) by (simp add: seal_parts demo_env_def demo_engine_def)
  have t: "deRFC3339 demo_env x = Some 0" for x by (simp add: demo_env_def)
  have i: "parse_issuance demo_env obj = Inr (kw ''5'', kw ''t'')"
    unfolding parse_issuance_def assms(1)
    using demo_amount demo_shapes(3)
    by (simp add: demo_metadata_def object_of_def only_fields_def require_fields_def string_field_def kw_Nil)
  show ?thesis
    unfolding metadata_fields_def only i s
    using demo_shapes
    by (simp add: require_fields_def string_field_def parse_proofs_def assms(1) t s i demo_metadata_def object_of_def demo_parsed_def)
qed

theorem metadata_digest_binds_witness:
  "\<exists>m m'. validateMetadata demo_env [1] = Inr m \<and> validateMetadata demo_env [2] = Inr m' \<and> mdDigest m = mdDigest m' \<and>
     mdIssuanceAmount m = kw ''5'' \<and> mdIssuanceAmount m' = kw ''5''"
proof -
  have "no_numbers (JObject demo_metadata)" by (simp add: demo_metadata_def)
  from writeValue_total [OF this] obtain x where "writeValue (\<lambda>_. None) (JObject demo_metadata) = Inr x" by blast
  then obtain b where b: "Marshal (\<lambda>_. None) (JObject demo_metadata) = Inr b" by (simp add: Marshal_def)
  have d: "distinct (map fst demo_metadata)" by (simp add: demo_metadata_def)
  have "valid_doc (\<lambda>_. None) (JObject demo_metadata)"
    using parse_document_Inr(2) [OF demo_reader demo_parse_docs(1)] by (simp add: demo_env_def demo_engine_def)
  then have "list_all (\<lambda>(k, v). valid_string k) demo_metadata" by (auto simp: list_all_iff)
  from member_order [OF d _ this, of "rev demo_metadata" "\<lambda>_. None"]
  have b': "Marshal (\<lambda>_. None) (JObject (rev demo_metadata)) = Inr b" using b by (simp only: Marshal_def write_meaning_of mset_rev)
  have r: "map_of (rev demo_metadata) = map_of demo_metadata" using d by (intro map_of_inject_set [THEN iffD2]) (simp_all add: rev_map [symmetric])
  have m: "validateMetadata demo_env [1] = Inr (demo_parsed b)"
    using demo_parse_docs(1) demo_fields [OF refl refl b] by (simp add: validateMetadata_def)
  have m': "validateMetadata demo_env [2] = Inr (demo_parsed b)"
    using demo_parse_docs(2) demo_fields [OF r _ b'] by (simp add: validateMetadata_def)
  from metadata_digest_binds [OF demo_reader m m'] m m' show ?thesis by (auto simp: demo_parsed_def)
qed

end
