(* ===== verification/SignRequest.thy ===== *)
theory SignRequest
  imports Documents Attestation Base58
begin

text \<open>
  What surrounds a signature: the auditor's policy file (\<^verbatim>\<open>signer/internal/policy/policy.go\<close>), the
  attestation request (\<^verbatim>\<open>signer/cmd/signer/typeddata.go\<close>) and the result file
  (\<^verbatim>\<open>signer/internal/output/output.go\<close>). The three JSON readers, which refuse unknown fields and
  trailing data, are parameters that give the decoded fields. Times are instants in nanoseconds since
  1970; a float number of hours is the parameter of its conversion. The lemmas say what a policy and a
  request that are accepted hold.
\<close>

section \<open>Hexadecimal text\<close>

text \<open>\<^verbatim>\<open>common.FromHex\<close> drops the prefix and pads an odd number of digits; a text that is no number is
  never given to it here, except an absent field.\<close>

definition FromHex :: "string \<Rightarrow> bytes" where
  "FromHex s =
     (let d = (if hasPrefix s ''0x'' \<or> hasPrefix s ''0X'' then drop 2 s else s);
          d = (if odd (length d) then CHR ''0'' # d else d)
      in case hex_decode d of Some b \<Rightarrow> b | None \<Rightarrow> [])"

definition hexToHash32 :: "string \<Rightarrow> bytes" where "hexToHash32 s = left_pad 32 (FromHex s)"

definition HexToAddress :: "string \<Rightarrow> bytes" where
  "HexToAddress s = (let b = FromHex s in left_pad 20 (if length b > 20 then drop (length b - 20) b else b))"

definition addrPattern :: "string \<Rightarrow> bool" where "addrPattern = hex0x any_hex 40"
definition bytes32Ptn :: "string \<Rightarrow> bool" where "bytes32Ptn = hex0x any_hex 64"
definition decimalPtn :: "string \<Rightarrow> bool" where "decimalPtn s \<longleftrightarrow> s \<noteq> [] \<and> list_all isDigit s"

section \<open>The policy\<close>

record policy_file =
  plCluster :: string
  plProgram :: string
  plConfig :: string
  plVault :: string
  plAuditor :: string
  plProjectID :: string
  plProfileDigest :: string
  plHours :: rat

record Policy =
  poFile :: policy_file
  poCluster :: bytes
  poProgram :: bytes
  poConfig :: bytes
  poVault :: bytes
  poLifetime :: int

datatype policy_error = PolicyRead string | PolicyJSON | PolicyMissing string | PolicyPubkey string
  | PolicyAuditor | PolicyDigest | PolicyLifetime

definition DefaultMaxAttestationLifetime :: int where
  "DefaultMaxAttestationLifetime = 30 * 24 * 3600 * 10 ^ 9"

definition pubkey_field :: "(string \<Rightarrow> 'e) \<Rightarrow> string \<Rightarrow> string \<Rightarrow> 'e + bytes" where
  "pubkey_field err name value = (case decodePubkey value of Inl _ \<Rightarrow> Inl (err name) | Inr b \<Rightarrow> Inr b)"

text \<open>\<open>to_duration\<close> is \<^verbatim>\<open>time.Duration(h * float64(time.Hour))\<close>, which Go leaves to the machine when the
  product does not fit an \<^verbatim>\<open>int64\<close>.\<close>

definition LoadPolicy :: "(rat \<Rightarrow> int) \<Rightarrow> (bytes \<Rightarrow> policy_file option) \<Rightarrow> string + bytes \<Rightarrow> policy_error + Policy" where
  "LoadPolicy to_duration reader raw =
     (case raw of
        Inl e \<Rightarrow> Inl (PolicyRead e)
      | Inr b \<Rightarrow>
          (case reader b of
             None \<Rightarrow> Inl PolicyJSON
           | Some f \<Rightarrow>
               bind_res (for_res (\<lambda>(name, value). guard (TrimSpace value \<noteq> []) (PolicyMissing name))
                 [(''cluster'', plCluster f), (''program'', plProgram f), (''config'', plConfig f), (''vault'', plVault f),
                  (''auditor'', plAuditor f), (''projectId'', plProjectID f), (''profileDigest'', plProfileDigest f)]) (\<lambda>_.
               bind_res (pubkey_field PolicyPubkey ''cluster'' (plCluster f)) (\<lambda>cluster.
               bind_res (pubkey_field PolicyPubkey ''program'' (plProgram f)) (\<lambda>program.
               bind_res (pubkey_field PolicyPubkey ''config'' (plConfig f)) (\<lambda>config.
               bind_res (pubkey_field PolicyPubkey ''vault'' (plVault f)) (\<lambda>vault.
                 if \<not> addrPattern (plAuditor f) then Inl PolicyAuditor
                 else if \<not> bytes32Ptn (plProfileDigest f) then Inl PolicyDigest
                 else if plHours f < 0 then Inl PolicyLifetime
                 else Inr \<lparr>poFile = f, poCluster = cluster, poProgram = program, poConfig = config, poVault = vault,
                   poLifetime = (if plHours f > 0 then to_duration (plHours f) else DefaultMaxAttestationLifetime)\<rparr>)))))))"

section \<open>The attestation request\<close>

record typed_data =
  tdChain :: string
  tdPrimaryType :: string
  tdName :: string
  tdVersion :: string
  tdCluster :: string
  tdProgram :: string
  tdConfig :: string
  tdAuditor :: string
  tdProfileDigest :: string
  tdRecordID :: string
  tdRecordKey :: string
  tdOperationID :: string
  tdMetadataDigest :: string
  tdAmount :: string
  tdNonce :: string
  tdValidUntil :: u64
  tdVault :: string

record attestationRequest =
  rqDoc :: typed_data
  rqCluster :: bytes
  rqProgram :: bytes
  rqConfig :: bytes
  rqVault :: bytes
  rqNonce :: bytes
  rqAmount :: u64

datatype request_error = RequestJSON | BadChain | BadPrimaryType | BadDomainName | BadDomainVersion
  | BadPubkey string | BadAuditor | BadProfileDigest | BadMetadataDigest | BadAmount | BadNonce
  | AmountRefused att_error | NoRecordID | BadRecordKey | OperationIDSet | BadOperationID | RecordSet

definition request_kind :: "typed_data \<Rightarrow> request_error + unit" where
  "request_kind m =
     (if tdPrimaryType m = ''MintAttestation'' then
        (if tdRecordID m = [] then Inl NoRecordID
         else if \<not> bytes32Ptn (tdRecordKey m) then Inl BadRecordKey
         else if tdOperationID m \<noteq> [] then Inl OperationIDSet
         else Inr ())
      else if tdPrimaryType m = ''BurnAttestation'' then
        (if \<not> bytes32Ptn (tdOperationID m) then Inl BadOperationID
         else if tdRecordID m \<noteq> [] \<or> tdRecordKey m \<noteq> [] then Inl RecordSet
         else Inr ())
      else Inr ())"

definition parseAttestationRequest :: "(bytes \<Rightarrow> typed_data option) \<Rightarrow> bytes \<Rightarrow> request_error + attestationRequest" where
  "parseAttestationRequest reader raw =
     (case reader raw of
        None \<Rightarrow> Inl RequestJSON
      | Some m \<Rightarrow>
          if tdChain m \<noteq> ''solana'' then Inl BadChain
          else if tdPrimaryType m \<noteq> ''MintAttestation'' \<and> tdPrimaryType m \<noteq> ''BurnAttestation'' then Inl BadPrimaryType
          else if tdName m \<noteq> DomainName then Inl BadDomainName
          else if tdVersion m \<noteq> DomainVersion then Inl BadDomainVersion
          else
            bind_res (pubkey_field BadPubkey ''domain.cluster'' (tdCluster m)) (\<lambda>cluster.
            bind_res (pubkey_field BadPubkey ''domain.program'' (tdProgram m)) (\<lambda>program.
            bind_res (pubkey_field BadPubkey ''domain.config'' (tdConfig m)) (\<lambda>config.
            bind_res (pubkey_field BadPubkey ''message.vault'' (tdVault m)) (\<lambda>vault.
              if \<not> addrPattern (tdAuditor m) then Inl BadAuditor
              else if \<not> bytes32Ptn (tdProfileDigest m) then Inl BadProfileDigest
              else if \<not> bytes32Ptn (tdMetadataDigest m) then Inl BadMetadataDigest
              else if \<not> decimalPtn (tdAmount m) then Inl BadAmount
              else if \<not> bytes32Ptn (tdNonce m) then Inl BadNonce
              else (case parse_dec (tdAmount m) of
                None \<Rightarrow> Inl BadAmount
              | Some n \<Rightarrow>
                  (case Amount (Some (int n)) of
                     Inl e \<Rightarrow> Inl (AmountRefused e)
                   | Inr amount \<Rightarrow>
                       bind_res (request_kind m) (\<lambda>_.
                         Inr \<lparr>rqDoc = m, rqCluster = cluster, rqProgram = program, rqConfig = config, rqVault = vault,
                           rqNonce = hexToHash32 (tdNonce m), rqAmount = amount\<rparr>))))))))"

definition request_domain :: "attestationRequest \<Rightarrow> Domain" where
  "request_domain td = \<lparr>Cluster = rqCluster td, Program = rqProgram td, Config = rqConfig td\<rparr>"

definition mintAttestation :: "attestationRequest \<Rightarrow> MintAttestation" where
  "mintAttestation td =
     (let m = rqDoc td in
      \<lparr>mAuditor = HexToAddress (tdAuditor m), mProfileDigest = hexToHash32 (tdProfileDigest m),
       mRecordKey = hexToHash32 (tdRecordKey m), mMetadataDigest = hexToHash32 (tdMetadataDigest m), mAmount = rqAmount td,
       mNonce = rqNonce td, mValidUntil = tdValidUntil m, mVault = rqVault td\<rparr>)"

definition burnAttestation :: "attestationRequest \<Rightarrow> BurnAttestation" where
  "burnAttestation td =
     (let m = rqDoc td in
      \<lparr>bAuditor = HexToAddress (tdAuditor m), bProfileDigest = hexToHash32 (tdProfileDigest m),
       bOperationID = hexToHash32 (tdOperationID m), bMetadataDigest = hexToHash32 (tdMetadataDigest m), bAmount = rqAmount td,
       bNonce = rqNonce td, bValidUntil = tdValidUntil m, bVault = rqVault td\<rparr>)"

section \<open>The result file\<close>

record SignedResult =
  srFormatVersion :: string
  srChain :: string
  srAuditor :: string
  srPrimaryType :: string
  srCluster :: string
  srProgram :: string
  srConfig :: string
  srAttestationDigest :: string
  srSignature :: string
  srRecoveryID :: byte
  srSignedAt :: string

datatype output_error = BadFormatVersion | BadResultChain | BadResultAuditor | BadResultType | BadResultKey string
  | BadResultDigest | BadResultSignature | BadRecoveryID | BadSignedAt

definition FormatVersion :: string where "FormatVersion = ''solana-1.0''"

definition base58Pattern :: "string \<Rightarrow> bool" where
  "base58Pattern s \<longleftrightarrow> 32 \<le> length s \<and> length s \<le> 44 \<and>
     list_all (\<lambda>c. in_range CHR ''1'' CHR ''9'' c \<or> in_range CHR ''A'' CHR ''H'' c \<or> in_range CHR ''J'' CHR ''N'' c \<or>
       in_range CHR ''P'' CHR ''Z'' c \<or> in_range CHR ''a'' CHR ''k'' c \<or> in_range CHR ''m'' CHR ''z'' c) s"

definition ValidateResult :: "(string \<Rightarrow> bool) \<Rightarrow> SignedResult \<Rightarrow> output_error + unit" where
  "ValidateResult rfc3339 r =
     (if srFormatVersion r \<noteq> FormatVersion then Inl BadFormatVersion
      else if srChain r \<noteq> ''solana'' then Inl BadResultChain
      else if \<not> addrPattern (srAuditor r) then Inl BadResultAuditor
      else if srPrimaryType r \<noteq> ''MintAttestation'' \<and> srPrimaryType r \<noteq> ''BurnAttestation'' then Inl BadResultType
      else bind_res (for_res (\<lambda>(name, v). guard (base58Pattern v) (BadResultKey name))
          [(''cluster'', srCluster r), (''program'', srProgram r), (''config'', srConfig r)]) (\<lambda>_.
        if \<not> bytes32Ptn (srAttestationDigest r) then Inl BadResultDigest
        else if \<not> hex0x any_hex 128 (srSignature r) then Inl BadResultSignature
        else if srRecoveryID r > 1 then Inl BadRecoveryID
        else if \<not> rfc3339 (srSignedAt r) then Inl BadSignedAt
        else Inr ()))"

definition NewResult ::
  "(string \<Rightarrow> bool) \<Rightarrow> string \<Rightarrow> string \<Rightarrow> string \<Rightarrow> string \<Rightarrow> string \<Rightarrow> string \<Rightarrow> string \<Rightarrow> string \<Rightarrow> byte
     \<Rightarrow> output_error + SignedResult" where
  "NewResult rfc3339 now auditor primaryType cluster program config attestationDigest signature recoveryID =
     (let r = \<lparr>srFormatVersion = FormatVersion, srChain = ''solana'', srAuditor = auditor, srPrimaryType = primaryType,
        srCluster = cluster, srProgram = program, srConfig = config, srAttestationDigest = attestationDigest,
        srSignature = signature, srRecoveryID = recoveryID, srSignedAt = now\<rparr>
      in bind_res (ValidateResult rfc3339 r) (\<lambda>_. Inr r))"

section \<open>Hexadecimal text and case\<close>

lemma any_hex_val: "any_hex c \<Longrightarrow> hex_val c \<noteq> None"
  by (auto simp: any_hex_def lower_hex_def in_range_def hex_val_def Let_def)

lemma hex_val_lower: "hex_val (if 65 \<le> (of_char c :: nat) \<and> (of_char c :: nat) \<le> 90 then char_of ((of_char c :: nat) + 32) else c) =
    (if any_hex c then hex_val c else hex_val (if 65 \<le> (of_char c :: nat) \<and> (of_char c :: nat) \<le> 90 then char_of ((of_char c :: nat) + 32) else c))"
  by (auto simp: any_hex_def lower_hex_def in_range_def hex_val_def Let_def)

definition lower_char :: "char \<Rightarrow> char" where
  "lower_char c = (if 65 \<le> (of_char c :: nat) \<and> (of_char c :: nat) \<le> 90 then char_of ((of_char c :: nat) + 32) else c)"

lemma toLower_map: "toLower s = map lower_char s"
  by (simp add: toLower_def lower_char_def [abs_def])

lemma hex_val_lower_char: "any_hex c \<Longrightarrow> hex_val (lower_char c) = hex_val c"
  using hex_val_lower [of c] unfolding lower_char_def by (simp only: if_True)

lemma hex_decode_lower: "list_all any_hex s \<Longrightarrow> hex_decode (map lower_char s) = hex_decode s"
proof (induction s rule: induct_list012)
  case (3 a b s)
  then have "hex_decode (map lower_char s) = hex_decode s" by simp
  then show ?case using 3 by (simp add: hex_val_lower_char split: option.split)
qed simp_all

lemma hex_decode_total: "list_all any_hex s \<Longrightarrow> length s = 2 * n \<Longrightarrow> \<exists>b. hex_decode s = Some b \<and> length b = n"
proof (induction n arbitrary: s)
  case (Suc n)
  then obtain a b u where s: "s = a # b # u" "length u = 2 * n" by (metis Suc_length_conv mult_Suc_right add_2_eq_Suc)
  obtain x y where "hex_val a = Some x" "hex_val b = Some y"
    using Suc.prems(1) any_hex_val [of a] any_hex_val [of b] s(1) by auto
  moreover obtain t where "hex_decode u = Some t" "length t = n" using Suc.IH [of u] Suc.prems(1) s by auto
  ultimately show ?case by (simp add: s(1))
qed simp

lemma FromHex_digits: "hex0x any_hex (2 * n) s \<Longrightarrow> hex_decode (drop 2 s) = Some (FromHex s) \<and> length (FromHex s) = n"
proof -
  assume h: "hex0x any_hex (2 * n) s"
  then have "list_all any_hex (drop 2 s)" "length (drop 2 s) = 2 * n" "hasPrefix s ''0x''" by (simp_all add: hex0x_def all_of_def)
  with hex_decode_total [of "drop 2 s" n] show ?thesis by (auto simp: FromHex_def Let_def)
qed

lemma hexToHash32_digits: "bytes32Ptn s \<Longrightarrow> hex_decode (drop 2 s) = Some (hexToHash32 s)"
  using FromHex_digits [of 32 s] by (auto simp: bytes32Ptn_def hexToHash32_def left_pad_def)

lemma HexToAddress_digits: "addrPattern s \<Longrightarrow> hex_decode (drop 2 s) = Some (HexToAddress s)"
  using FromHex_digits [of 20 s] by (auto simp: addrPattern_def HexToAddress_def left_pad_def Let_def)

lemma EqualFold_digits:
  assumes "hex0x any_hex n s" "hex0x any_hex n t" "EqualFold s t"
  shows "hex_decode (drop 2 s) = hex_decode (drop 2 t)"
proof -
  have "map lower_char (drop 2 s) = map lower_char (drop 2 t)" using assms(3) by (simp only: EqualFold_def toLower_map drop_map [symmetric])
  moreover have "list_all any_hex (drop 2 s)" "list_all any_hex (drop 2 t)" using assms(1,2) by (simp_all add: hex0x_def all_of_def)
  ultimately show ?thesis using hex_decode_lower by metis
qed

lemma EqualFold_hash:
  assumes "bytes32Ptn s" "length d = 32" "EqualFold s (''0x'' @ hex d)"
  shows "hexToHash32 s = d"
proof -
  have "hex0x any_hex 64 (''0x'' @ hex d)" using hex0x_any [OF hex0x_hex [OF assms(2)]] by simp
  from EqualFold_digits [OF assms(1) [unfolded bytes32Ptn_def] this assms(3)] hexToHash32_digits [OF assms(1)]
  show ?thesis by simp
qed

lemma EqualFold_address: "addrPattern s \<Longrightarrow> addrPattern t \<Longrightarrow> EqualFold s t \<Longrightarrow> HexToAddress s = HexToAddress t"
  using EqualFold_digits [of 40 s t] HexToAddress_digits [of s] HexToAddress_digits [of t] by (simp add: addrPattern_def)

lemma EqualFold_sym: "EqualFold s t \<longleftrightarrow> EqualFold t s"
  by (auto simp: EqualFold_def)

section \<open>Accepted policies and requests\<close>

definition policy_wf :: "Policy \<Rightarrow> bool" where
  "policy_wf p \<longleftrightarrow> decodePubkey (plCluster (poFile p)) = Inr (poCluster p) \<and> decodePubkey (plProgram (poFile p)) = Inr (poProgram p) \<and>
     decodePubkey (plConfig (poFile p)) = Inr (poConfig p) \<and> decodePubkey (plVault (poFile p)) = Inr (poVault p) \<and>
     addrPattern (plAuditor (poFile p)) \<and> bytes32Ptn (plProfileDigest (poFile p))"

lemma pubkey_field_Inr: "pubkey_field err name v = Inr b \<longleftrightarrow> decodePubkey v = Inr b"
  by (auto simp: pubkey_field_def split: sum.splits)

lemma LoadPolicy_wf:
  assumes "LoadPolicy to_duration reader raw = Inr p"
  shows "policy_wf p"
proof -
  from assms obtain b f where b: "raw = Inr b" "reader b = Some f" by (auto simp: LoadPolicy_def split: sum.splits option.splits)
  from assms obtain cluster program config vault where
    "decodePubkey (plCluster f) = Inr cluster" "decodePubkey (plProgram f) = Inr program"
    "decodePubkey (plConfig f) = Inr config" "decodePubkey (plVault f) = Inr vault"
    "addrPattern (plAuditor f)" "bytes32Ptn (plProfileDigest f)"
    "Inr \<lparr>poFile = f, poCluster = cluster, poProgram = program, poConfig = config, poVault = vault,
       poLifetime = (if plHours f > 0 then to_duration (plHours f) else DefaultMaxAttestationLifetime)\<rparr> = (Inr p :: policy_error + Policy)"
    unfolding LoadPolicy_def b sum.case option.case by (simp only: unless_Inr bind_res_eq_Inr pubkey_field_Inr) blast
  then show ?thesis by (auto simp: policy_wf_def)
qed

definition request_wf :: "attestationRequest \<Rightarrow> bool" where
  "request_wf r \<longleftrightarrow> decodePubkey (tdCluster (rqDoc r)) = Inr (rqCluster r) \<and> decodePubkey (tdProgram (rqDoc r)) = Inr (rqProgram r) \<and>
     decodePubkey (tdConfig (rqDoc r)) = Inr (rqConfig r) \<and> decodePubkey (tdVault (rqDoc r)) = Inr (rqVault r) \<and>
     addrPattern (tdAuditor (rqDoc r)) \<and> bytes32Ptn (tdProfileDigest (rqDoc r)) \<and> bytes32Ptn (tdMetadataDigest (rqDoc r)) \<and>
     bytes32Ptn (tdNonce (rqDoc r)) \<and> rqNonce r = hexToHash32 (tdNonce (rqDoc r)) \<and>
     parse_dec (tdAmount (rqDoc r)) = Some (unat (rqAmount r)) \<and>
     (tdPrimaryType (rqDoc r) = ''MintAttestation'' \<and> bytes32Ptn (tdRecordKey (rqDoc r)) \<and> tdRecordID (rqDoc r) \<noteq> [] \<or>
      tdPrimaryType (rqDoc r) = ''BurnAttestation'' \<and> bytes32Ptn (tdOperationID (rqDoc r)))"

lemma Amount_unat: "Amount (Some (int n)) = Inr a \<Longrightarrow> unat a = n"
proof -
  assume "Amount (Some (int n)) = Inr a"
  then have "int n < 2 ^ 64" "a = word_of_int (int n)" by (auto simp: Amount_def split: if_splits)
  then have "n < 2 ^ 64" "a = of_nat n" by simp_all
  then show ?thesis by (simp add: unat_of_nat)
qed

lemma parse_request_parts:
  assumes "parseAttestationRequest reader raw = Inr r"
  shows "request_wf r"
proof -
  from assms obtain m where m: "reader raw = Some m" by (auto simp: parseAttestationRequest_def split: option.splits)
  note p = assms [unfolded parseAttestationRequest_def m option.case]
  from p have g: "tdPrimaryType m = ''MintAttestation'' \<or> tdPrimaryType m = ''BurnAttestation''"
    by (auto split: if_splits)
  from p obtain cluster program config vault where
    k: "decodePubkey (tdCluster m) = Inr cluster" "decodePubkey (tdProgram m) = Inr program"
      "decodePubkey (tdConfig m) = Inr config" "decodePubkey (tdVault m) = Inr vault"
    and q: "addrPattern (tdAuditor m)" "bytes32Ptn (tdProfileDigest m)" "bytes32Ptn (tdMetadataDigest m)" "bytes32Ptn (tdNonce m)"
      "(case parse_dec (tdAmount m) of
                None \<Rightarrow> Inl BadAmount
              | Some n \<Rightarrow>
                  (case Amount (Some (int n)) of
                     Inl e \<Rightarrow> Inl (AmountRefused e)
                   | Inr amount \<Rightarrow>
                       bind_res (request_kind m) (\<lambda>_.
                         Inr \<lparr>rqDoc = m, rqCluster = cluster, rqProgram = program, rqConfig = config, rqVault = vault,
                           rqNonce = hexToHash32 (tdNonce m), rqAmount = amount\<rparr>))) = Inr r"
    by (simp only: unless_Inr res_iff pubkey_field_Inr) blast
  from q(5) obtain n amount where n: "parse_dec (tdAmount m) = Some n" "Amount (Some (int n)) = Inr amount" "request_kind m = Inr ()"
    "r = \<lparr>rqDoc = m, rqCluster = cluster, rqProgram = program, rqConfig = config, rqVault = vault,
       rqNonce = hexToHash32 (tdNonce m), rqAmount = amount\<rparr>"
    by (auto simp: res_iff split: option.splits sum.splits)
  from n(3) g have "tdPrimaryType m = ''MintAttestation'' \<and> bytes32Ptn (tdRecordKey m) \<and> tdRecordID m \<noteq> [] \<or>
      tdPrimaryType m = ''BurnAttestation'' \<and> bytes32Ptn (tdOperationID m)"
    by (auto simp: request_kind_def split: if_splits)
  then show ?thesis using k q(1-4) n Amount_unat [OF n(2)] by (simp add: request_wf_def)
qed

end
