(* ===== verification/Spec2Isabelle.thy ===== *)
theory Spec2Isabelle
  imports Base58 IndexerGap Lease Idempotency QueryKey Eip712 AuditLog Reconciler AdminAuth Keyset DocLimits Canonical Replication RwaPackage SignRequest
begin

text \<open>
  A verification library for the RWA platform on Solana: a Go server (\<^verbatim>\<open>server/\<close>) that follows
  the on-chain programs, keeps compliance decisions and relays them to the chain, and an
  offline signer (\<^verbatim>\<open>signer/\<close>) that attests mints and burns.

  \<^bold>\<open>How the parts interact.\<close> The indexer polls an RPC node for the signatures of each program,
  frames the transaction logs, decodes the program's events (Borsh, by the IDL) and stores them
  as chain events, keeping one checkpoint per program. A KYC webhook is authenticated, recorded
  as a KYC event and claims its address; the reconciler turns the event that holds the claim
  into a \<open>set_status\<close> transaction (accounts derived with \<open>FindProgramAddress\<close>, compiled and
  signed by \<open>tx.go\<close>), recorded under an idempotency key before it is broadcast. Privileged HTTP
  requests go through the idempotency middleware; leases with fencing tokens elect one worker.
  From the stored chain events the projectors rebuild the read models (redemption requests,
  investor statuses, purchases, the transaction index) generation by generation, and the listings
  page over them with keyset cursors. Wallets prove ownership, and administrators log in, by
  signing a stored challenge. The server builds a \<open>.rwa\<close> package from an asset's documents,
  publishes it and replicates it to the IPFS nodes; the auditor's signer extracts the package,
  parses, limits and canonicalizes the documents, validates them against the profile's schema,
  checks the attestation request against its policy and draws a review that cannot be spoofed.
  The signer's attestation digests must be those the server and the programs compute, and its
  audit log is a hash chain with anchors.

  \<^bold>\<open>Theories.\<close>
  \<^item> \<open>Prelude\<close>, \<open>GoStd\<close>: results (\<open>error + 'a\<close>) and their bind, association lists, lemmas on
    lists and numerals; the parts of Go's standard library the code uses (strings, hex, base64,
    big-endian and little-endian words).
  \<^item> \<open>Base58\<close> (\<^verbatim>\<open>signer/internal/base58\<close>): \<open>Encode\<close>, \<open>Decode\<close>; they are inverse to each other.
  \<^item> \<open>EventDecode\<close> (\<^verbatim>\<open>blockchain/borsh.go, idl.go, decode.go\<close>): the reader, the IDL tables and
    \<open>Decode\<close>; it accepts exactly the payloads the schema describes, and is injective.
  \<^item> \<open>ChainStore\<close> (\<^verbatim>\<open>dal/memory/chain_event.go, indexer_checkpoint.go\<close>): the interfaces as
    records of operations, the in-memory repositories, and the locales that state what the
    indexer relies on, interpreted on those repositories.
  \<^item> \<open>Indexer\<close>, \<open>IndexerLogs\<close>, \<open>IndexerGap\<close> (\<^verbatim>\<open>blockchain/indexer.go, checkpoint.go\<close>): paging,
    log framing, ingestion, checkpoints and backfill, \<open>Poll\<close>. \<open>IndexerLogs\<close> proves that exactly the
    emitted events are stored, \<open>IndexerGap\<close> that no signature is skipped and that the indexer
    catches up, but for signatures that share their slot with an older one: the checkpoint may
    fall inside a slot, and the code compares slots (\<open>fetch_above_checkpoint\<close>).
  \<^item> \<open>Lease\<close> (\<^verbatim>\<open>dal/memory/lease.go\<close>): runs of acquire, renew and release under a clock; mutual
    exclusion and fencing.
  \<^item> \<open>Idempotency\<close>, \<open>QueryKey\<close> (\<^verbatim>\<open>auth/idempotency.go\<close>): the middleware around a handler over any
    repository that meets the reservation contract, at most one execution per key and time to
    live, replay of the recorded answer; the canonical query.
  \<^item> \<open>Attestation\<close>, \<open>Eip712\<close> (\<^verbatim>\<open>signer/internal/attestation\<close>, \<^verbatim>\<open>server/internal/eip712\<close>): digests,
    compact signatures; both programs compute the same digests.
  \<^item> \<open>AuditLog\<close> (\<^verbatim>\<open>signer/internal/keystore/auditlog.go\<close>): appending with faults, both
    verifications, tamper evidence; a write that stops inside a line (\<open>torn_line_refused\<close>) makes
    the log refused.
  \<^item> \<open>TxMessage\<close>, \<open>Pda\<close> (\<^verbatim>\<open>blockchain/tx.go, pda.go\<close>): the wire message reads back as the
    instructions it was compiled from; the derived address has the highest off-curve bump.
  \<^item> \<open>ComplianceStore\<close>, \<open>StatusService\<close>, \<open>Webhook\<close>, \<open>Reconciler\<close> (\<^verbatim>\<open>dal/memory/kyc_event.go,
    transaction.go, investor.go\<close>, \<^verbatim>\<open>compliance/\<close>): the decision pipeline; what is broadcast is
    recorded, once per key whatever calls come in between (\<open>ss_runs\<close>), and the decisions of an
    address reach the chain in their order.
  \<^item> \<open>Projection\<close> (\<^verbatim>\<open>dal/repository\<close>): the event order and the generation swap all projectors
    share, as locales. \<open>Redemption\<close>, \<open>ComplianceProjector\<close>, \<open>Sales\<close>, \<open>TxIndex\<close>
    (\<^verbatim>\<open>redemption/, compliance/projector.go, reconcile.go, sales/, txindex/\<close>): each projector over
    any store with those laws; after a rebuild the store holds exactly what the events determine,
    and in every state that a rebuild passes through a reader finds all the old records or all
    the new ones, none of them altered (\<open>watched\<close> records those states).
  \<^item> \<open>Keyset\<close> (\<^verbatim>\<open>dal/repository/keyset.go, api/pagination.go\<close>): cursors and pages; following the
    cursors lists every row once, in order.
  \<^item> \<open>WalletChallenge\<close>, \<open>AdminAuth\<close> (\<^verbatim>\<open>compliance/challenge.go, auth/admin_challenge.go, session.go,
    rbac.go\<close>): interleaved runs of creating, checking and consuming challenges; a challenge is
    used once, a login carries a signature of its wallet.
  \<^item> \<open>JsonDoc\<close>, \<open>DocLimits\<close> (\<^verbatim>\<open>signer/internal/canonical\<close>, \<^verbatim>\<open>auditpkg/limits.go\<close>): the strict
    parser over the token stream with its fuel, and the server's limit scan; what each accepts.
    \<open>CanonNumber\<close>, \<open>Canonical\<close>: the number format and the RFC 8785 serializer; equal bytes exactly
    for equal meanings.
  \<^item> \<open>Replication\<close> (\<^verbatim>\<open>ipfs/replication.go\<close>): publishing, pinning and retrying over nodes that may
    fail or lie; a durable publication is held by the nodes it counts.
  \<^item> \<open>GoText\<close>, \<open>RwaPackage\<close> (\<^verbatim>\<open>signer/internal/package\<close>, \<^verbatim>\<open>auditpkg/package.go, manifest.go\<close>):
    \<open>path.Clean\<close>, the manifest, extraction; nothing unsafe is extracted, what the server builds
    the signer opens.
  \<^item> \<open>Textsafe\<close> (\<^verbatim>\<open>signer/internal/textsafe, ui\<close>): UTF-8 decoding, escaping and the review screen.
  \<^item> \<open>SchemaDialect\<close>, \<open>Documents\<close>, \<open>SignRequest\<close> (\<^verbatim>\<open>signer/internal/jsonschema, profile, metadata,
    policy, output\<close>, \<^verbatim>\<open>signer/cmd/signer/typeddata.go\<close>): the closed schema dialect, the document
    validators, the policy, the attestation request and the signed result.

  \<^bold>\<open>Fuel.\<close> \<open>JsonDoc\<close> parses with a fuel of twice the number of tokens and two more, \<open>parse_total\<close> shows
  that it never runs out; \<open>SchemaDialect\<close> compiles with the code's own depth limit
  \<open>maxSchemaDepth\<close>, which is an error of the code when it is reached.

  \<^bold>\<open>Conventions.\<close> A Go map is an association list (a write is \<open>AList.update\<close>); where the code
  iterates over it in random order and sorts, the model sorts; where the rebuilds write while they
  iterate, the order is an argument and the properties hold for every permutation. A mutex makes an operation atomic:
  each is one function on the state. An interface is a record of operations on a state of its
  own, and its contract a locale, interpreted on the in-memory implementation. Errors are values
  of a sum type. Times are integers of nanoseconds since the zero time of Go. sha256, keccak256,
  HMAC, ed25519, secp256k1, JSON, and base58 on the server are libraries and parameters. The
  loops of the model are structural or over the finite list the code ranges over; paging uses the
  code's own bound \<open>maxFetchPages\<close>.

  \<^bold>\<open>Not modelled.\<close> HTTP routing and handlers, configuration loading, the MongoDB and IPFS drivers,
  process start-up, log output, terminal interaction and file permissions are I/O glue around the
  parts above; the web interface and the on-chain programs are other languages. The asset
  workflow of the server, the project settings and the key derivation of the keystore are left
  out, as is the signing command that composes the signer's modelled parts.
\<close>

end
